(* ===== verification/Uint_Limbs.thy ===== *)
theory Uint_Limbs
  imports Hobo_Prelude
begin

text \<open>
  The template class \<^verbatim>\<open>base_uint<BITS>\<close> of \<^verbatim>\<open>src/uint256.h\<close>: unsigned integers of 160 and
  256 bits as arrays \<^verbatim>\<open>pn[WIDTH]\<close> of 32-bit limbs, least significant limb first. The
  operators are translated loop by loop on limb lists. The second half proves that they
  compute arithmetic modulo \<open>2 ^ BITS\<close>, so the other theories use \<^typ>\<open>uint256\<close> and
  \<^typ>\<open>uint160\<close> words.
\<close>

section \<open>The limb operations\<close>

type_synonym base_uint = "u32 list"

fun uint_is_zero :: "base_uint \<Rightarrow> bool" where
  "uint_is_zero [] = True"
| "uint_is_zero (x # xs) = (if x \<noteq> 0 then False else uint_is_zero xs)"

definition uint_not :: "base_uint \<Rightarrow> base_uint" where
  "uint_not pn = map (\<lambda>x. NOT x) pn"

text \<open>\<^verbatim>\<open>while (++pn[i] == 0 && i < WIDTH-1) i++;\<close>\<close>

fun uint_inc :: "base_uint \<Rightarrow> base_uint" where
  "uint_inc [] = []"
| "uint_inc [x] = [x + 1]"
| "uint_inc (x # y # xs) = (if x + 1 = 0 then (x + 1) # uint_inc (y # xs) else (x + 1) # y # xs)"

text \<open>\<^verbatim>\<open>while (--pn[i] == -1 && i < WIDTH-1) i++;\<close>\<close>

fun uint_dec :: "base_uint \<Rightarrow> base_uint" where
  "uint_dec [] = []"
| "uint_dec [x] = [x - 1]"
| "uint_dec (x # y # xs) = (if x - 1 = - 1 then (x - 1) # uint_dec (y # xs) else (x - 1) # y # xs)"

definition uint_neg :: "base_uint \<Rightarrow> base_uint" where
  "uint_neg pn = uint_inc (map (\<lambda>x. NOT x) pn)"

definition uint_of_u64 :: "nat \<Rightarrow> u64 \<Rightarrow> base_uint" where
  "uint_of_u64 WIDTH b = ucast b # ucast (drop_bit 32 b) # replicate (WIDTH - 2) 0"

definition uint_xor :: "base_uint \<Rightarrow> base_uint \<Rightarrow> base_uint" where
  "uint_xor a b = map2 (\<lambda>x y. x XOR y) a b"

definition uint_and :: "base_uint \<Rightarrow> base_uint \<Rightarrow> base_uint" where
  "uint_and a b = map2 (\<lambda>x y. x AND y) a b"

definition uint_or :: "base_uint \<Rightarrow> base_uint \<Rightarrow> base_uint" where
  "uint_or a b = map2 (\<lambda>x y. x OR y) a b"

definition uint_xor64 :: "base_uint \<Rightarrow> u64 \<Rightarrow> base_uint" where
  "uint_xor64 pn b =
     (let pn' = pn[0 := pn ! 0 XOR ucast b] in pn'[1 := pn' ! 1 XOR ucast (drop_bit 32 b)])"

definition uint_or64 :: "base_uint \<Rightarrow> u64 \<Rightarrow> base_uint" where
  "uint_or64 pn b =
     (let pn' = pn[0 := pn ! 0 OR ucast b] in pn'[1 := pn' ! 1 OR ucast (drop_bit 32 b)])"

text \<open>One iteration of the loop of \<^verbatim>\<open>operator<<=\<close>, then the loop over \<open>i\<close>.\<close>

definition shl_step :: "base_uint \<Rightarrow> nat \<Rightarrow> nat \<Rightarrow> base_uint \<Rightarrow> nat \<Rightarrow> base_uint" where
  "shl_step a k shift pn i =
     (let pn = (if i + k + 1 < length a \<and> shift \<noteq> 0
                then pn[i + k + 1 := pn ! (i + k + 1) OR drop_bit (32 - shift) (a ! i)] else pn)
      in if i + k < length a then pn[i + k := pn ! (i + k) OR push_bit shift (a ! i)] else pn)"

definition uint_shl :: "base_uint \<Rightarrow> nat \<Rightarrow> base_uint" where
  "uint_shl a shift =
     foldl (shl_step a (shift div 32) (shift mod 32)) (replicate (length a) 0) [0 ..< length a]"

definition shr_step :: "base_uint \<Rightarrow> nat \<Rightarrow> nat \<Rightarrow> base_uint \<Rightarrow> nat \<Rightarrow> base_uint" where
  "shr_step a k shift pn i =
     (let pn = (if k + 1 \<le> i \<and> shift \<noteq> 0
                then pn[i - k - 1 := pn ! (i - k - 1) OR push_bit (32 - shift) (a ! i)] else pn)
      in if k \<le> i then pn[i - k := pn ! (i - k) OR drop_bit shift (a ! i)] else pn)"

definition uint_shr :: "base_uint \<Rightarrow> nat \<Rightarrow> base_uint" where
  "uint_shr a shift =
     foldl (shr_step a (shift div 32) (shift mod 32)) (replicate (length a) 0) [0 ..< length a]"

fun uint_add_loop :: "u64 \<Rightarrow> base_uint \<Rightarrow> base_uint \<Rightarrow> base_uint" where
  "uint_add_loop carry (a # as) (b # bs) =
     (let n = carry + ucast a + ucast b
      in ucast (n AND 0xffffffff) # uint_add_loop (drop_bit 32 n) as bs)"
| "uint_add_loop carry as bs = []"

definition uint_add :: "base_uint \<Rightarrow> base_uint \<Rightarrow> base_uint" where
  "uint_add a b = uint_add_loop 0 a b"

definition uint_sub :: "base_uint \<Rightarrow> base_uint \<Rightarrow> base_uint" where
  "uint_sub a b = uint_add a (uint_neg b)"

definition uint_add64 :: "base_uint \<Rightarrow> u64 \<Rightarrow> base_uint" where
  "uint_add64 a b64 = uint_add a (uint_of_u64 (length a) b64)"

definition uint_sub64 :: "base_uint \<Rightarrow> u64 \<Rightarrow> base_uint" where
  "uint_sub64 a b64 = uint_add a (uint_neg (uint_of_u64 (length a) b64))"

text \<open>The comparison loops run from the most significant limb down; \<open>Suc i\<close> is the
  state in which limb \<open>i\<close> is examined next, \<open>0\<close> the exit of the loop.\<close>

fun uint_lt_from :: "nat \<Rightarrow> base_uint \<Rightarrow> base_uint \<Rightarrow> bool" where
  "uint_lt_from 0 a b = False"
| "uint_lt_from (Suc i) a b =
     (if a ! i < b ! i then True else if a ! i > b ! i then False else uint_lt_from i a b)"

fun uint_le_from :: "nat \<Rightarrow> base_uint \<Rightarrow> base_uint \<Rightarrow> bool" where
  "uint_le_from 0 a b = True"
| "uint_le_from (Suc i) a b =
     (if a ! i < b ! i then True else if a ! i > b ! i then False else uint_le_from i a b)"

fun uint_gt_from :: "nat \<Rightarrow> base_uint \<Rightarrow> base_uint \<Rightarrow> bool" where
  "uint_gt_from 0 a b = False"
| "uint_gt_from (Suc i) a b =
     (if a ! i > b ! i then True else if a ! i < b ! i then False else uint_gt_from i a b)"

fun uint_ge_from :: "nat \<Rightarrow> base_uint \<Rightarrow> base_uint \<Rightarrow> bool" where
  "uint_ge_from 0 a b = True"
| "uint_ge_from (Suc i) a b =
     (if a ! i > b ! i then True else if a ! i < b ! i then False else uint_ge_from i a b)"

definition uint_lt :: "base_uint \<Rightarrow> base_uint \<Rightarrow> bool" where
  "uint_lt a b = uint_lt_from (length a) a b"

definition uint_le :: "base_uint \<Rightarrow> base_uint \<Rightarrow> bool" where
  "uint_le a b = uint_le_from (length a) a b"

definition uint_gt :: "base_uint \<Rightarrow> base_uint \<Rightarrow> bool" where
  "uint_gt a b = uint_gt_from (length a) a b"

definition uint_ge :: "base_uint \<Rightarrow> base_uint \<Rightarrow> bool" where
  "uint_ge a b = uint_ge_from (length a) a b"

fun uint_eq :: "base_uint \<Rightarrow> base_uint \<Rightarrow> bool" where
  "uint_eq (a # as) (b # bs) = (if a \<noteq> b then False else uint_eq as bs)"
| "uint_eq as bs = True"

definition uint_eq64 :: "base_uint \<Rightarrow> u64 \<Rightarrow> bool" where
  "uint_eq64 a b =
     (if a ! 0 \<noteq> ucast b then False
      else if a ! 1 \<noteq> ucast (drop_bit 32 b) then False
      else list_all (\<lambda>x. x = 0) (drop 2 a))"

definition uint_Get64 :: "base_uint \<Rightarrow> nat \<Rightarrow> u64" where
  "uint_Get64 pn n = ucast (pn ! (2 * n)) OR push_bit 32 (ucast (pn ! (2 * n + 1)))"

text \<open>The bytes of the array in memory order, and the constructor from a byte vector.\<close>

definition uint_bytes :: "base_uint \<Rightarrow> byte list" where
  "uint_bytes pn = concat (map (\<lambda>x. le_bytes 4 (unat x)) pn)"

fun limbs_of_bytes :: "nat \<Rightarrow> byte list \<Rightarrow> base_uint" where
  "limbs_of_bytes 0 bs = []"
| "limbs_of_bytes (Suc n) bs = of_nat (le_nat (take 4 bs)) # limbs_of_bytes n (drop 4 bs)"

definition uint_of_vch :: "nat \<Rightarrow> byte list \<Rightarrow> base_uint" where
  "uint_of_vch WIDTH vch =
     (if length vch = 4 * WIDTH then limbs_of_bytes WIDTH vch else uint_of_u64 WIDTH 0)"

section \<open>The value of a limb array\<close>

fun limb_val :: "base_uint \<Rightarrow> nat" where
  "limb_val [] = 0"
| "limb_val (x # xs) = unat x + 2 ^ 32 * limb_val xs"

definition uint256_of :: "base_uint \<Rightarrow> uint256" where
  "uint256_of a = of_nat (limb_val a)"

lemma unat_u32_less [simp]: "unat (x :: u32) < 4294967296"
  by (rule order_less_le_trans [OF unsigned_less]) simp

lemma limb_val_less: "limb_val a < 2 ^ (32 * length a)"
proof (induction a)
  case Nil
  then show ?case by simp
next
  case (Cons x a)
  have "unat x + 2 ^ 32 * limb_val a < 2 ^ 32 * (limb_val a + 1)" by simp
  also have "\<dots> \<le> 2 ^ 32 * 2 ^ (32 * length a)" using Cons.IH by (intro mult_le_mono2) simp
  finally show ?case by (simp add: power_add)
qed

lemma limb_val_inject:
  "length a = length b \<Longrightarrow> limb_val a = limb_val b \<Longrightarrow> a = b"
proof (induction a b rule: list_induct2)
  case Nil
  then show ?case by simp
next
  case (Cons x xs y ys)
  have "(unat x + 2 ^ 32 * limb_val xs) mod 2 ^ 32 = (unat y + 2 ^ 32 * limb_val ys) mod 2 ^ 32"
    using Cons.prems by simp
  then have xy: "unat x = unat y" by simp
  with Cons.prems have "limb_val xs = limb_val ys" by simp
  with Cons.IH xy show ?case by (simp add: word_unat_eq_iff)
qed

lemma bit_limb_val:
  "bit (limb_val a) n \<longleftrightarrow> n div 32 < length a \<and> bit (a ! (n div 32)) (n mod 32)"
proof (induction a arbitrary: n)
  case Nil
  then show ?case by simp
next
  case (Cons x xs)
  have t: "take_bit 32 (limb_val (x # xs)) = unat x"
    by (simp add: take_bit_eq_mod)
  have d: "drop_bit 32 (limb_val (x # xs)) = limb_val xs"
    by (simp add: drop_bit_eq_div)
  show ?case
  proof (cases "n < 32")
    case True
    then have "bit (limb_val (x # xs)) n = bit (take_bit 32 (limb_val (x # xs))) n"
      by (simp add: bit_take_bit_iff del: limb_val.simps)
    with t True show ?thesis by (simp add: bit_unsigned_iff del: limb_val.simps)
  next
    case False
    then obtain m where m: "n = 32 + m" by (metis le_add_diff_inverse not_less)
    have "bit (limb_val (x # xs)) n = bit (drop_bit 32 (limb_val (x # xs))) m"
      by (simp add: bit_drop_bit_eq m del: limb_val.simps)
    with d Cons.IH [of m] m show ?thesis by (simp add: div_add_self1 del: limb_val.simps)
  qed
qed

lemma bit_limb_val_at:
  "r < 32 \<Longrightarrow> bit (limb_val a) (32 * j + r) \<longleftrightarrow> j < length a \<and> bit (a ! j) r"
  by (simp add: bit_limb_val)

lemma bit_limb_val_map:
  "bit (limb_val (map f [0 ..< l])) n \<longleftrightarrow> n div 32 < l \<and> bit (f (n div 32)) (n mod 32)"
  by (auto simp: bit_limb_val)

lemma bit_uint256_of:
  "bit (uint256_of a) n \<longleftrightarrow> n < 256 \<and> n div 32 < length a \<and> bit (a ! (n div 32)) (n mod 32)"
  by (simp add: uint256_of_def bit_of_nat_iff bit_limb_val)

section \<open>Arithmetic modulo the width\<close>

lemma limb_val_append: "limb_val (xs @ ys) = limb_val xs + 2 ^ (32 * length xs) * limb_val ys"
  by (induction xs) (simp_all add: algebra_simps power_add)

lemma mod_limb:
  fixes x :: nat
  shows "x < 2 ^ 32 \<Longrightarrow> x + 2 ^ 32 * (v mod 2 ^ (32 * l)) = (x + 2 ^ 32 * v) mod 2 ^ (32 * Suc l)"
  by (simp add: mod_mult2_eq power_add)

lemma length_uint_add_loop [simp]:
  "length (uint_add_loop c a b) = min (length a) (length b)"
  by (induction c a b rule: uint_add_loop.induct) (auto simp: Let_def)

lemma uint_add_step:
  fixes c :: u64 and a b :: u32
  assumes "unat c \<le> 1"
  defines "n \<equiv> c + ucast a + ucast b"
  shows "unat (ucast (n AND 0xffffffff) :: u32) = (unat c + unat a + unat b) mod 2 ^ 32"
    and "unat (drop_bit 32 n) = (unat c + unat a + unat b) div 2 ^ 32"
    and "unat (drop_bit 32 n) \<le> 1"
proof -
  have ab: "unat a < 4294967296" "unat b < 4294967296" by simp_all
  have u: "unat (ucast a :: u64) = unat a" "unat (ucast b :: u64) = unat b"
    by (simp_all add: unsigned_ucast_eq take_bit_nat_eq_self [OF order_less_trans [OF unat_u32_less]])
  have n: "unat n = unat c + unat a + unat b"
  proof -
    have "unat n = (unat c + unat a + unat b) mod 2 ^ 64"
      unfolding n_def by (simp add: unat_word_ariths u mod_add_left_eq)
    moreover have "unat c + unat a + unat b < 18446744073709551616" using assms(1) ab by linarith
    ultimately show ?thesis by simp
  qed
  have m: "n AND 0xffffffff = take_bit 32 n"
    by (simp add: take_bit_eq_mask mask_eq_exp_minus_1)
  show "unat (ucast (n AND 0xffffffff) :: u32) = (unat c + unat a + unat b) mod 2 ^ 32"
    by (simp add: m n [symmetric] unsigned_ucast_eq unsigned_take_bit_eq) (simp add: take_bit_eq_mod)
  show d: "unat (drop_bit 32 n) = (unat c + unat a + unat b) div 2 ^ 32"
  proof -
    have "take_bit 64 (unat n) = unat n"
      by (rule take_bit_nat_eq_self) (rule order_less_le_trans [OF unsigned_less], simp)
    then show ?thesis
      by (simp add: n [symmetric] unsigned_drop_bit_eq) (simp add: drop_bit_eq_div)
  qed
  show "unat (drop_bit 32 n) \<le> 1"
  proof -
    have "unat c + unat a + unat b < 2 * 4294967296" using assms(1) ab by linarith
    then have "(unat c + unat a + unat b) div 4294967296 < 2" by (rule less_mult_imp_div_less)
    then show ?thesis unfolding d by simp
  qed
qed

lemma limb_val_add_loop:
  "length as = length bs \<Longrightarrow> unat c \<le> 1 \<Longrightarrow>
   limb_val (uint_add_loop c as bs) = (unat c + limb_val as + limb_val bs) mod 2 ^ (32 * length as)"
proof (induction as bs arbitrary: c rule: list_induct2)
  case Nil
  then show ?case by simp
next
  case (Cons a as b bs)
  let ?n = "c + ucast a + ucast b"
  let ?s = "unat c + unat a + unat b"
  note st = uint_add_step [OF Cons.prems, of a b]
  have "limb_val (uint_add_loop c (a # as) (b # bs)) =
      ?s mod 2 ^ 32 + 2 ^ 32 * ((?s div 2 ^ 32 + limb_val as + limb_val bs) mod 2 ^ (32 * length as))"
    using Cons.IH [OF st(3)] by (simp add: Let_def st(1,2) del: power.simps)
  also have "\<dots> = (?s mod 2 ^ 32 + 2 ^ 32 * (?s div 2 ^ 32 + limb_val as + limb_val bs)) mod 2 ^ (32 * Suc (length as))"
    by (rule mod_limb) simp
  also have "?s mod 2 ^ 32 + 2 ^ 32 * (?s div 2 ^ 32 + limb_val as + limb_val bs)
      = unat c + limb_val (a # as) + limb_val (b # bs)"
    by (simp add: algebra_simps)
  finally show ?case by simp
qed

lemma limb_val_add:
  "length a = length b \<Longrightarrow> limb_val (uint_add a b) = (limb_val a + limb_val b) mod 2 ^ (32 * length a)"
  by (simp add: uint_add_def limb_val_add_loop)

lemma length_uint_add [simp]: "length (uint_add a b) = min (length a) (length b)"
  by (simp add: uint_add_def)

lemma length_uint_inc [simp]: "length (uint_inc a) = length a"
  by (induction a rule: uint_inc.induct) auto

lemma length_uint_dec [simp]: "length (uint_dec a) = length a"
  by (induction a rule: uint_dec.induct) auto

lemma unat_u32_succ: "unat (x + 1 :: u32) = (if x + 1 = 0 then 0 else unat x + 1)"
  by (metis Suc_eq_plus1 add.commute unatSuc unat_0)

lemma u32_succ_zero: "x + 1 = (0 :: u32) \<Longrightarrow> unat x = 2 ^ 32 - 1"
  by (simp add: eq_neg_iff_add_eq_0 [symmetric] unsigned_minus_1_eq_mask mask_eq_exp_minus_1)

lemma limb_val_inc:
  "a \<noteq> [] \<Longrightarrow> limb_val (uint_inc a) = (limb_val a + 1) mod 2 ^ (32 * length a)"
proof (induction a rule: uint_inc.induct)
  case 1
  then show ?case by simp
next
  case (2 x)
  then show ?case by (simp add: unat_word_ariths)
next
  case (3 x y xs)
  show ?case
  proof (cases "x + 1 = 0")
    case True
    then have "limb_val (uint_inc (x # y # xs))
        = 2 ^ 32 * ((limb_val (y # xs) + 1) mod 2 ^ (32 * length (y # xs)))"
      using 3 by simp
    also have "\<dots> = (0 + 2 ^ 32 * (limb_val (y # xs) + 1)) mod 2 ^ (32 * Suc (length (y # xs)))"
      using mod_limb [of 0 "limb_val (y # xs) + 1" "length (y # xs)"] by (simp only: add_0) simp
    also have "0 + 2 ^ 32 * (limb_val (y # xs) + 1) = limb_val (x # y # xs) + 1"
      using u32_succ_zero [OF True] by simp
    finally show ?thesis by simp
  next
    case False
    then have "limb_val (uint_inc (x # y # xs)) = limb_val (x # y # xs) + 1"
      by (simp add: unat_u32_succ)
    moreover have "limb_val (uint_inc (x # y # xs)) < 2 ^ (32 * length (x # y # xs))"
      using limb_val_less [of "uint_inc (x # y # xs)"] by (simp only: length_uint_inc)
    ultimately show ?thesis by simp
  qed
qed

lemma limb_val_dec:
  "a \<noteq> [] \<Longrightarrow> limb_val (uint_dec a) = (limb_val a + (2 ^ (32 * length a) - 1)) mod 2 ^ (32 * length a)"
proof -
  assume ne: "a \<noteq> []"
  have "uint_inc (uint_dec a) = a"
  proof (induction a rule: uint_dec.induct)
    case (3 x y xs)
    then show ?case
      by (cases "uint_dec (y # xs)") (auto simp: length_0_conv [symmetric] simp del: length_0_conv)
  qed auto
  then have "limb_val a = (limb_val (uint_dec a) + 1) mod 2 ^ (32 * length a)"
    using limb_val_inc [of "uint_dec a"] ne by (metis length_uint_dec length_0_conv)
  then have "(limb_val a + (2 ^ (32 * length a) - 1)) mod 2 ^ (32 * length a)
      = (limb_val (uint_dec a) + 1 + (2 ^ (32 * length a) - 1)) mod 2 ^ (32 * length a)"
    by (metis mod_add_left_eq)
  also have "\<dots> = limb_val (uint_dec a) mod 2 ^ (32 * length a)"
    by (simp add: add.assoc)
  also have "\<dots> = limb_val (uint_dec a)"
    using limb_val_less [of "uint_dec a"] by simp
  finally show ?thesis by simp
qed

lemma unat_not_u32: "unat (NOT x :: u32) = 2 ^ 32 - 1 - unat x"
proof -
  have "NOT x = - 1 - x" by (simp add: not_eq_complement)
  moreover have "unat (- 1 - x) = unat (- 1 :: u32) - unat x" by (rule unat_sub) simp
  ultimately show ?thesis by (simp add: unsigned_minus_1_eq_mask mask_eq_exp_minus_1)
qed

lemma limb_val_not: "limb_val (uint_not a) = 2 ^ (32 * length a) - 1 - limb_val a"
proof (induction a)
  case Nil
  then show ?case by (simp add: uint_not_def)
next
  case (Cons x xs)
  obtain d where d: "2 ^ (32 * length xs) = Suc (limb_val xs) + d"
    using limb_val_less [of xs] le_Suc_ex Suc_leI by blast
  have "limb_val (uint_not xs) = d" using Cons d by simp
  moreover have "unat x \<le> 4294967295" using unat_u32_less [of x] by linarith
  ultimately have "limb_val (uint_not (x # xs)) = 2 ^ 32 * (Suc (limb_val xs) + d) - 1 - limb_val (x # xs)"
    by (simp add: uint_not_def unat_not_u32)
  then show ?case by (simp only: d [symmetric]) (simp add: power_add)
qed

lemma length_uint_not [simp]: "length (uint_not a) = length a"
  by (simp add: uint_not_def)

lemma length_uint_neg [simp]: "length (uint_neg a) = length a"
  by (simp add: uint_neg_def)

lemma limb_val_neg:
  assumes "a \<noteq> []"
  shows "limb_val (uint_neg a) = (2 ^ (32 * length a) - limb_val a) mod 2 ^ (32 * length a)"
proof -
  have "uint_neg a = uint_inc (uint_not a)" by (simp add: uint_neg_def uint_not_def)
  moreover have "uint_not a \<noteq> []" using assms by (simp add: uint_not_def)
  moreover have "2 ^ (32 * length a) - 1 - limb_val a + 1 = 2 ^ (32 * length a) - limb_val a"
    using limb_val_less [of a] by simp
  ultimately show ?thesis using limb_val_inc [of "uint_not a"] by (simp add: limb_val_not)
qed

lemma limb_val_sub:
  assumes "a \<noteq> []" "length a = length b"
  shows "limb_val (uint_sub a b) = (limb_val a + 2 ^ (32 * length a) - limb_val b) mod 2 ^ (32 * length a)"
proof -
  have "b \<noteq> []" using assms by auto
  have "limb_val (uint_sub a b)
      = (limb_val a + (2 ^ (32 * length a) - limb_val b) mod 2 ^ (32 * length a)) mod 2 ^ (32 * length a)"
    using assms \<open>b \<noteq> []\<close> by (simp add: uint_sub_def limb_val_add limb_val_neg)
  also have "\<dots> = (limb_val a + (2 ^ (32 * length a) - limb_val b)) mod 2 ^ (32 * length a)"
    by (rule mod_add_right_eq)
  also have "limb_val a + (2 ^ (32 * length a) - limb_val b) = limb_val a + 2 ^ (32 * length a) - limb_val b"
    using limb_val_less [of b] assms by simp
  finally show ?thesis .
qed

lemma length_uint_sub [simp]: "length (uint_sub a b) = min (length a) (length b)"
  by (simp add: uint_sub_def)

section \<open>Comparisons\<close>

lemma limb_val_take_Suc:
  "i < length a \<Longrightarrow> limb_val (take (Suc i) a) = limb_val (take i a) + 2 ^ (32 * i) * unat (a ! i)"
  by (simp add: take_Suc_conv_app_nth limb_val_append)

lemma limb_top_less:
  assumes "i < length a" "i < length b" "a ! i < b ! i"
  shows "limb_val (take (Suc i) a) < limb_val (take (Suc i) b)"
proof -
  have "limb_val (take i a) < 2 ^ (32 * i)"
    using limb_val_less [of "take i a"] assms by (simp add: min_def)
  moreover have "2 ^ (32 * i) * (unat (a ! i) + 1) \<le> 2 ^ (32 * i) * unat (b ! i)"
    using assms(3) by (intro mult_le_mono2) (simp add: word_less_nat_alt)
  ultimately show ?thesis using assms(1,2) by (simp add: limb_val_take_Suc)
qed

lemma uint_lt_from_val:
  "i \<le> length a \<Longrightarrow> length a = length b \<Longrightarrow>
   uint_lt_from i a b \<longleftrightarrow> limb_val (take i a) < limb_val (take i b)"
proof (induction i)
  case 0
  then show ?case by simp
next
  case (Suc i)
  then have i: "i < length a" "i < length b" and
    IH: "uint_lt_from i a b \<longleftrightarrow> limb_val (take i a) < limb_val (take i b)" by simp_all
  consider "a ! i < b ! i" | "b ! i < a ! i" | "a ! i = b ! i" by force
  then show ?case
  proof cases
    case 1
    with limb_top_less [OF i] show ?thesis by simp
  next
    case 2
    with limb_top_less [OF i(2,1)] show ?thesis by (simp add: less_not_sym)
  next
    case 3
    with IH show ?thesis by (simp add: limb_val_take_Suc i)
  qed
qed

lemma uint_le_from_lt: "uint_le_from i a b \<longleftrightarrow> \<not> uint_lt_from i b a"
  by (induction i) auto

lemma uint_gt_from_lt: "uint_gt_from i a b \<longleftrightarrow> uint_lt_from i b a"
  by (induction i) simp_all

lemma uint_ge_from_lt: "uint_ge_from i a b \<longleftrightarrow> \<not> uint_lt_from i a b"
  by (induction i) auto

lemmas uint_cmp_from = uint_le_from_lt uint_gt_from_lt uint_ge_from_lt

lemma uint_cmp_val:
  assumes "length a = length b"
  shows "uint_lt a b \<longleftrightarrow> limb_val a < limb_val b"
    and "uint_le a b \<longleftrightarrow> limb_val a \<le> limb_val b"
    and "uint_gt a b \<longleftrightarrow> limb_val a > limb_val b"
    and "uint_ge a b \<longleftrightarrow> limb_val a \<ge> limb_val b"
proof -
  have ab: "uint_lt_from (length a) a b \<longleftrightarrow> limb_val a < limb_val b"
    using uint_lt_from_val [OF order_refl assms] assms by simp
  have ba: "uint_lt_from (length a) b a \<longleftrightarrow> limb_val b < limb_val a"
    using uint_lt_from_val [OF order_refl assms [symmetric]] assms by simp
  show "uint_lt a b \<longleftrightarrow> limb_val a < limb_val b"
    and "uint_le a b \<longleftrightarrow> limb_val a \<le> limb_val b"
    and "uint_gt a b \<longleftrightarrow> limb_val a > limb_val b"
    and "uint_ge a b \<longleftrightarrow> limb_val a \<ge> limb_val b"
    by (simp_all add: uint_lt_def uint_le_def uint_gt_def uint_ge_def uint_cmp_from ab ba not_less)
qed

lemma uint_eq_iff: "length a = length b \<Longrightarrow> uint_eq a b \<longleftrightarrow> a = b"
  by (induction a b rule: list_induct2) auto

lemma uint_is_zero_iff: "uint_is_zero a \<longleftrightarrow> limb_val a = 0"
  by (induction a) (auto simp: unat_eq_zero)

section \<open>Shifts and bitwise operations\<close>

text \<open>What limb \<open>j\<close> holds after the first \<open>m\<close> iterations of the shift loops.\<close>

definition shl_limb :: "base_uint \<Rightarrow> nat \<Rightarrow> nat \<Rightarrow> nat \<Rightarrow> nat \<Rightarrow> u32" where
  "shl_limb a k s m j =
     (if k \<le> j \<and> j - k < m then push_bit s (a ! (j - k)) else 0) OR
     (if k + 1 \<le> j \<and> j - k - 1 < m \<and> s \<noteq> 0 then drop_bit (32 - s) (a ! (j - k - 1)) else 0)"

definition shr_limb :: "base_uint \<Rightarrow> nat \<Rightarrow> nat \<Rightarrow> nat \<Rightarrow> nat \<Rightarrow> u32" where
  "shr_limb a k s m j =
     (if j + k < m then drop_bit s (a ! (j + k)) else 0) OR
     (if j + k + 1 < m \<and> s \<noteq> 0 then push_bit (32 - s) (a ! (j + k + 1)) else 0)"

lemma length_shl_step [simp]: "length (shl_step a k s pn i) = length pn"
  by (simp add: shl_step_def Let_def)

lemma shl_loop:
  "m \<le> length a \<Longrightarrow>
   foldl (shl_step a k s) (replicate (length a) 0) [0 ..< m] = map (shl_limb a k s m) [0 ..< length a]"
proof (induction m)
  case 0
  then show ?case by (simp add: shl_limb_def map_replicate_const)
next
  case (Suc m)
  then have IH: "foldl (shl_step a k s) (replicate (length a) 0) [0 ..< Suc m]
      = shl_step a k s (map (shl_limb a k s m) [0 ..< length a]) m"
    by simp
  show ?case
  proof (rule nth_equalityI)
    fix j assume "j < length (foldl (shl_step a k s) (replicate (length a) 0) [0 ..< Suc m])"
    then have j: "j < length a" by (simp only: IH) simp
    consider "j = m + k" | "j = m + k + 1" | "j \<noteq> m + k" "j \<noteq> m + k + 1" by blast
    then show "foldl (shl_step a k s) (replicate (length a) 0) [0 ..< Suc m] ! j
        = map (shl_limb a k s (Suc m)) [0 ..< length a] ! j"
      using j unfolding IH by cases (auto simp: shl_step_def Let_def shl_limb_def nth_list_update or.commute)
  qed (simp only: IH, simp)
qed

lemma length_shr_step [simp]: "length (shr_step a k s pn i) = length pn"
  by (simp add: shr_step_def Let_def)

lemma shr_loop:
  "m \<le> length a \<Longrightarrow>
   foldl (shr_step a k s) (replicate (length a) 0) [0 ..< m] = map (shr_limb a k s m) [0 ..< length a]"
proof (induction m)
  case 0
  then show ?case by (simp add: shr_limb_def map_replicate_const)
next
  case (Suc m)
  then have IH: "foldl (shr_step a k s) (replicate (length a) 0) [0 ..< Suc m]
      = shr_step a k s (map (shr_limb a k s m) [0 ..< length a]) m"
    by simp
  show ?case
  proof (rule nth_equalityI)
    fix j assume "j < length (foldl (shr_step a k s) (replicate (length a) 0) [0 ..< Suc m])"
    then have j: "j < length a" by (simp only: IH) simp
    consider "j + k = m" | "j + k + 1 = m" | "j + k \<noteq> m" "j + k + 1 \<noteq> m" by blast
    then show "foldl (shr_step a k s) (replicate (length a) 0) [0 ..< Suc m] ! j
        = map (shr_limb a k s (Suc m)) [0 ..< length a] ! j"
      using j Suc.prems unfolding IH by cases (auto simp: shr_step_def Let_def shr_limb_def nth_list_update)
  qed (simp only: IH, simp)
qed

lemma length_uint_shl [simp]: "length (uint_shl a s) = length a"
  by (simp add: uint_shl_def shl_loop)

lemma length_uint_shr [simp]: "length (uint_shr a s) = length a"
  by (simp add: uint_shr_def shr_loop)

text \<open>Bit \<open>r\<close> of limb \<open>j\<close> comes from position \<open>32 * j + r\<close> of the shifted number.\<close>

lemma bit_shl_limb:
  assumes "s < 32" "r < 32" "j < length a"
  shows "bit (shl_limb a k s (length a) j) r \<longleftrightarrow>
    32 * k + s \<le> 32 * j + r \<and> bit (limb_val a) (32 * j + r - (32 * k + s))"
proof (cases "s \<le> r")
  case True
  have "bit (shl_limb a k s (length a) j) r \<longleftrightarrow> k \<le> j \<and> bit (a ! (j - k)) (r - s)"
    using assms True by (auto simp: shl_limb_def bit_simps dest: bit_imp_le_length)
  moreover have "32 * k + s \<le> 32 * j + r \<longleftrightarrow> k \<le> j" using True assms by linarith
  moreover have "k \<le> j \<Longrightarrow> 32 * j + r - (32 * k + s) = 32 * (j - k) + (r - s)" using True by simp
  ultimately show ?thesis using assms bit_limb_val_at [of "r - s" a "j - k"] by auto
next
  case False
  have "bit (shl_limb a k s (length a) j) r \<longleftrightarrow> k + 1 \<le> j \<and> bit (a ! (j - k - 1)) (32 + r - s)"
    using assms False by (auto simp: shl_limb_def bit_simps)
  moreover have "32 * k + s \<le> 32 * j + r \<longleftrightarrow> k + 1 \<le> j" using False assms by linarith
  moreover have "k + 1 \<le> j \<Longrightarrow> 32 * j + r - (32 * k + s) = 32 * (j - k - 1) + (32 + r - s)"
    using False assms by simp
  ultimately show ?thesis using assms False bit_limb_val_at [of "32 + r - s" a "j - k - 1"] by auto
qed

lemma bit_shr_limb:
  assumes "s < 32" "r < 32" "j < length a"
  shows "bit (shr_limb a k s (length a) j) r \<longleftrightarrow> bit (limb_val a) (32 * j + r + (32 * k + s))"
proof (cases "r + s < 32")
  case True
  have "bit (shr_limb a k s (length a) j) r \<longleftrightarrow> j + k < length a \<and> bit (a ! (j + k)) (r + s)"
    using assms True by (auto simp: shr_limb_def bit_simps add.commute)
  moreover have "32 * j + r + (32 * k + s) = 32 * (j + k) + (r + s)" by simp
  ultimately show ?thesis using bit_limb_val_at [OF True, of a "j + k"] by metis
next
  case False
  then have s: "r + s = 32 + (r + s - 32)" "r + s - 32 < 32" using assms by simp_all
  have "bit (shr_limb a k s (length a) j) r \<longleftrightarrow> j + k + 1 < length a \<and> bit (a ! (j + k + 1)) (r + s - 32)"
    using assms False
    by (auto simp: shr_limb_def bit_simps dest: bit_imp_le_length)
  moreover have "32 * j + r + (32 * k + s) = 32 * (j + k + 1) + (r + s - 32)" using False by simp
  ultimately show ?thesis using bit_limb_val_at [OF s(2), of a "j + k + 1"] by metis
qed

lemma limb_val_shl: "limb_val (uint_shl a s) = take_bit (32 * length a) (push_bit s (limb_val a))"
proof (rule bit_eqI)
  fix n :: nat
  have s: "32 * (s div 32) + s mod 32 = s" by simp
  have n: "32 * (n div 32) + n mod 32 = n" by simp
  have u: "uint_shl a s = map (shl_limb a (s div 32) (s mod 32) (length a)) [0 ..< length a]"
    by (simp add: uint_shl_def shl_loop)
  have "bit (limb_val (uint_shl a s)) n \<longleftrightarrow> n div 32 < length a \<and> s \<le> n \<and> bit (limb_val a) (n - s)"
    unfolding u bit_limb_val_map
    using bit_shl_limb [of "s mod 32" "n mod 32" "n div 32" a "s div 32"] by (auto simp: s n)
  moreover have "n div 32 < length a \<longleftrightarrow> n < 32 * length a"
    by (simp add: div_less_iff_less_mult mult.commute)
  ultimately show "bit (limb_val (uint_shl a s)) n \<longleftrightarrow> bit (take_bit (32 * length a) (push_bit s (limb_val a))) n"
    by (auto simp: bit_take_bit_iff bit_push_bit_iff)
qed

lemma limb_val_shr: "limb_val (uint_shr a s) = drop_bit s (limb_val a)"
proof (rule bit_eqI)
  fix n :: nat
  have s: "32 * (s div 32) + s mod 32 = s" by simp
  have n: "32 * (n div 32) + n mod 32 = n" by simp
  have u: "uint_shr a s = map (shr_limb a (s div 32) (s mod 32) (length a)) [0 ..< length a]"
    by (simp add: uint_shr_def shr_loop)
  have "bit (limb_val (uint_shr a s)) n \<longleftrightarrow> n div 32 < length a \<and> bit (limb_val a) (n + s)"
    unfolding u bit_limb_val_map
    using bit_shr_limb [of "s mod 32" "n mod 32" "n div 32" a "s div 32"] by (auto simp: s n)
  moreover have "n div 32 < length a" if "bit (limb_val a) (n + s)"
  proof -
    have "n div 32 \<le> (n + s) div 32" by (rule div_le_mono) simp
    with that show ?thesis by (simp add: bit_limb_val)
  qed
  ultimately show "bit (limb_val (uint_shr a s)) n \<longleftrightarrow> bit (drop_bit s (limb_val a)) n"
    by (auto simp: bit_drop_bit_eq add.commute)
qed

lemma bitwise_lengths [simp]:
  "length (uint_xor a b) = min (length a) (length b)"
  "length (uint_and a b) = min (length a) (length b)"
  "length (uint_or a b) = min (length a) (length b)"
  by (simp_all add: uint_xor_def uint_and_def uint_or_def)

lemma limb_val_bitwise:
  assumes "length a = length b"
  shows "limb_val (uint_xor a b) = limb_val a XOR limb_val b"
    and "limb_val (uint_and a b) = limb_val a AND limb_val b"
    and "limb_val (uint_or a b) = limb_val a OR limb_val b"
  using assms
  by (auto intro!: bit_eqI simp: bit_limb_val bit_xor_iff bit_and_iff bit_or_iff uint_xor_def uint_and_def uint_or_def)

section \<open>The contract of a fixed-width unsigned integer\<close>

text \<open>
  What the rest of the program relies on: a value below \<open>2 ^ W\<close> that determines the
  representation, addition and negation modulo \<open>2 ^ W\<close>, and comparison by value.
\<close>

locale fixed_uint =
  fixes val :: "'a \<Rightarrow> nat" and wf :: "'a \<Rightarrow> bool" and W :: nat
    and add :: "'a \<Rightarrow> 'a \<Rightarrow> 'a" and neg :: "'a \<Rightarrow> 'a" and sub :: "'a \<Rightarrow> 'a \<Rightarrow> 'a"
    and lt :: "'a \<Rightarrow> 'a \<Rightarrow> bool"
  assumes val_less: "wf a \<Longrightarrow> val a < 2 ^ W"
    and val_inj: "wf a \<Longrightarrow> wf b \<Longrightarrow> val a = val b \<Longrightarrow> a = b"
    and wf_add: "wf a \<Longrightarrow> wf b \<Longrightarrow> wf (add a b)"
    and wf_neg: "wf a \<Longrightarrow> wf (neg a)"
    and val_add: "wf a \<Longrightarrow> wf b \<Longrightarrow> val (add a b) = (val a + val b) mod 2 ^ W"
    and val_neg: "wf a \<Longrightarrow> val (neg a) = (2 ^ W - val a) mod 2 ^ W"
    and sub_add_neg: "sub a b = add a (neg b)"
    and lt_val: "wf a \<Longrightarrow> wf b \<Longrightarrow> lt a b \<longleftrightarrow> val a < val b"
begin

lemma wf_sub: "wf a \<Longrightarrow> wf b \<Longrightarrow> wf (sub a b)"
  by (simp add: sub_add_neg wf_add wf_neg)

lemma val_add_neg:
  assumes "wf a" "wf b"
  shows "(val (add a b) + val (neg b)) mod 2 ^ W = val a"
proof -
  have "(val (add a b) + val (neg b)) mod 2 ^ W = (val a + val b + (2 ^ W - val b)) mod 2 ^ W"
    using assms by (simp add: val_add val_neg mod_simps)
  also have "val a + val b + (2 ^ W - val b) = val a + 2 ^ W"
    using val_less [OF assms(2)] by simp
  finally show ?thesis using val_less [OF assms(1)] by simp
qed

lemma add_sub_cancel: "wf a \<Longrightarrow> wf b \<Longrightarrow> sub (add a b) b = a"
  by (rule val_inj) (simp_all add: wf_sub wf_add sub_add_neg wf_neg val_add [of "add a b"] val_add_neg)

lemma add_comm: "wf a \<Longrightarrow> wf b \<Longrightarrow> add a b = add b a"
  by (rule val_inj) (simp_all add: wf_add val_add add.commute)

lemma lt_total: "wf a \<Longrightarrow> wf b \<Longrightarrow> lt a b \<or> a = b \<or> lt b a"
  using val_inj by (auto simp: lt_val)

text \<open>Adding a positive amount strictly increases the value exactly when it does not wrap.\<close>

lemma lt_add_iff:
  assumes "wf a" "wf b" "0 < val b"
  shows "lt a (add a b) \<longleftrightarrow> val a + val b < 2 ^ W"
proof (cases "val a + val b < 2 ^ W")
  case True
  then show ?thesis using assms by (simp add: lt_val wf_add val_add)
next
  case False
  have "val a + val b < 2 ^ W + 2 ^ W"
    using val_less [OF assms(1)] val_less [OF assms(2)] by simp
  with False have "(val a + val b) mod 2 ^ W = val a + val b - 2 ^ W"
    by (simp add: mod_if)
  with False show ?thesis using assms val_less [OF assms(2)]
    by (simp add: lt_val wf_add val_add)
qed

end

interpretation u256: fixed_uint limb_val "\<lambda>a. length a = 8" 256 uint_add uint_neg uint_sub uint_lt
proof unfold_locales
  fix a b :: base_uint
  show "length a = 8 \<Longrightarrow> limb_val a < 2 ^ 256" using limb_val_less [of a] by simp
  show "length a = 8 \<Longrightarrow> length b = 8 \<Longrightarrow> limb_val a = limb_val b \<Longrightarrow> a = b"
    by (rule limb_val_inject) simp_all
  show "length a = 8 \<Longrightarrow> length b = 8 \<Longrightarrow> limb_val (uint_add a b) = (limb_val a + limb_val b) mod 2 ^ 256"
    by (simp add: limb_val_add)
  show "length a = 8 \<Longrightarrow> limb_val (uint_neg a) = (2 ^ 256 - limb_val a) mod 2 ^ 256"
    using limb_val_neg [of a] by (cases "a = []") auto
qed (simp_all add: uint_sub_def uint_cmp_val)

interpretation u160: fixed_uint limb_val "\<lambda>a. length a = 5" 160 uint_add uint_neg uint_sub uint_lt
proof unfold_locales
  fix a b :: base_uint
  show "length a = 5 \<Longrightarrow> limb_val a < 2 ^ 160" using limb_val_less [of a] by simp
  show "length a = 5 \<Longrightarrow> length b = 5 \<Longrightarrow> limb_val a = limb_val b \<Longrightarrow> a = b"
    by (rule limb_val_inject) simp_all
  show "length a = 5 \<Longrightarrow> length b = 5 \<Longrightarrow> limb_val (uint_add a b) = (limb_val a + limb_val b) mod 2 ^ 160"
    by (simp add: limb_val_add)
  show "length a = 5 \<Longrightarrow> limb_val (uint_neg a) = (2 ^ 160 - limb_val a) mod 2 ^ 160"
    using limb_val_neg [of a] by (cases "a = []") auto
qed (simp_all add: uint_sub_def uint_cmp_val)

section \<open>Bytes and 64-bit views\<close>

lemma length_uint_bytes [simp]: "length (uint_bytes a) = 4 * length a"
  by (induction a) (simp_all add: uint_bytes_def)

lemma le_nat_uint_bytes: "le_nat (uint_bytes a) = limb_val a"
proof (induction a)
  case Nil
  then show ?case by (simp add: uint_bytes_def)
next
  case (Cons x a)
  have "le_nat (le_bytes 4 (unat x)) = unat x" by (rule le_nat_bytes_id) simp
  with Cons show ?case by (simp add: uint_bytes_def le_nat_append)
qed

lemma limbs_of_bytes_uint_bytes: "limbs_of_bytes (length a) (uint_bytes a @ rest) = a"
proof (induction a)
  case Nil
  then show ?case by simp
next
  case (Cons x a)
  have "le_nat (le_bytes 4 (unat x)) = unat x" by (rule le_nat_bytes_id) simp
  with Cons show ?case by (simp add: uint_bytes_def)
qed

lemma uint_of_vch_bytes [codec_simps]: "uint_of_vch (length a) (uint_bytes a) = a"
  using limbs_of_bytes_uint_bytes [of a "[]"] by (simp add: uint_of_vch_def)

lemma of_nat_mod_256: "(of_nat (x mod 2 ^ 256) :: uint256) = of_nat x"
  by (simp add: word_of_nat_eq_iff take_bit_eq_mod)

lemma unat_uint256_of: "length a = 8 \<Longrightarrow> unat (uint256_of a) = limb_val a"
  using u256.val_less [of a] by (simp add: uint256_of_def unat_of_nat)

lemma uint256_of_add:
  "length a = 8 \<Longrightarrow> length b = 8 \<Longrightarrow> uint256_of (uint_add a b) = uint256_of a + uint256_of b"
  by (simp add: uint256_of_def u256.val_add of_nat_mod_256 del: power_numeral)

lemma uint256_of_neg:
  assumes "length a = 8" shows "uint256_of (uint_neg a) = - uint256_of a"
proof -
  have "uint256_of (uint_neg a) = of_nat (2 ^ 256 - limb_val a)"
    using assms by (simp add: uint256_of_def u256.val_neg of_nat_mod_256 del: power_numeral)
  also have "\<dots> = of_nat (2 ^ 256) - of_nat (limb_val a)"
    using u256.val_less [OF assms] by (intro of_nat_diff) simp
  also have "(of_nat (2 ^ 256) :: uint256) = 0" by simp
  finally show ?thesis by (simp add: uint256_of_def)
qed

lemma uint256_of_bits:
  assumes "length a = 8" "length b = 8"
  shows "uint256_of (uint_xor a b) = uint256_of a XOR uint256_of b"
    and "uint256_of (uint_and a b) = uint256_of a AND uint256_of b"
    and "uint256_of (uint_or a b) = uint256_of a OR uint256_of b"
    and "uint256_of (uint_not a) = NOT (uint256_of a)"
  using assms
  by (auto intro!: bit_word_eqI simp: bit_uint256_of bit_xor_iff bit_and_iff bit_or_iff bit_not_iff
      uint_xor_def uint_and_def uint_or_def uint_not_def)

lemma uint256_of_shifts:
  assumes "length a = 8"
  shows "uint256_of (uint_shl a s) = push_bit s (uint256_of a)"
    and "uint256_of (uint_shr a s) = drop_bit s (uint256_of a)"
proof -
  show "uint256_of (uint_shl a s) = push_bit s (uint256_of a)"
    using assms by (auto intro!: bit_word_eqI
        simp: uint256_of_def limb_val_shl bit_of_nat_iff bit_push_bit_iff bit_take_bit_iff)
  have "limb_val a < 2 ^ 256" using u256.val_less [OF assms] .
  then have "bit (limb_val a) n \<Longrightarrow> n < 256" for n
    using assms by (auto simp: bit_limb_val)
  then show "uint256_of (uint_shr a s) = drop_bit s (uint256_of a)"
    by (auto intro!: bit_word_eqI
        simp: uint256_of_def limb_val_shr bit_of_nat_iff bit_drop_bit_eq)
qed



end
