(* ===== verification/Ext_Crypto.thy ===== *)
theory Ext_Crypto
  imports Hobo_Prelude
begin

text \<open>
  The third-party functions the program calls (OpenSSL and libsecp256k1). Their code is
  not part of the repository, so they are parameters: one record of functions, passed to
  every definition that uses them. A \<^verbatim>\<open>BIGNUM\<close> is the integer it denotes and its
  arithmetic is integer arithmetic; elliptic-curve points and the key and signature
  objects of libsecp256k1 are opaque byte strings. The predicates below state the
  documented behaviour that proofs use as hypotheses; \<open>mpi_enc\<close> and \<open>mpi_value\<close> give a
  concrete instance of the documented MPI format.
\<close>

type_synonym BIGNUM = int
type_synonym EC_POINT = "byte list"

record ext =
  SHA256 :: "byte list \<Rightarrow> byte list"
  RIPEMD160 :: "byte list \<Rightarrow> byte list"
  SHA1 :: "byte list \<Rightarrow> byte list"
  BN_mpi2bn :: "byte list \<Rightarrow> BIGNUM"
  BN_bn2mpi :: "BIGNUM \<Rightarrow> byte list"
  BN_get_word :: "BIGNUM \<Rightarrow> nat"
  o2i_ECPublicKey :: "byte list \<Rightarrow> (EC_POINT \<times> nat) option"
  i2o_ECPublicKey :: "EC_POINT \<Rightarrow> nat \<Rightarrow> byte list"
  EC_KEY_regenerate_key :: "BIGNUM \<Rightarrow> EC_POINT option"
  ECDSA_do_sign :: "byte list \<Rightarrow> BIGNUM \<Rightarrow> (BIGNUM \<times> BIGNUM) option"
  i2d_ECDSA_SIG :: "BIGNUM \<times> BIGNUM \<Rightarrow> byte list"
  EC_GROUP_get0_order :: BIGNUM
  ECDSA_verify :: "byte list \<Rightarrow> byte list \<Rightarrow> EC_POINT \<Rightarrow> int"
  secp256k1_ec_pubkey_parse :: "byte list \<Rightarrow> byte list option"
  secp256k1_ecdsa_signature_parse_der :: "byte list \<Rightarrow> byte list option"
  secp256k1_ecdsa_signature_normalize :: "byte list \<Rightarrow> byte list"
  secp256k1_ecdsa_verify :: "byte list \<Rightarrow> byte list \<Rightarrow> byte list \<Rightarrow> int"

section \<open>The MPI format of OpenSSL\<close>

definition be_nat :: "byte list \<Rightarrow> nat" where
  "be_nat bs = le_nat (rev bs)"

definition be4 :: "nat \<Rightarrow> byte list" where
  "be4 n = rev (le_bytes 4 n)"

text \<open>The number denoted by the bytes after the length: big endian, the most significant
  bit of the first byte is the sign.\<close>

fun mpi_value :: "byte list \<Rightarrow> int" where
  "mpi_value [] = 0"
| "mpi_value (b # bs) =
     (if bit b 7 then - int (be_nat ((b AND 0x7f) # bs)) else int (be_nat (b # bs)))"

fun mpi_minimal :: "byte list \<Rightarrow> bool" where
  "mpi_minimal [] = True"
| "mpi_minimal [b] = (b AND 0x7f \<noteq> 0)"
| "mpi_minimal (b # c # bs) = (b AND 0x7f \<noteq> 0 \<or> bit c 7)"

definition mpi_documented :: "ext \<Rightarrow> bool" where
  "mpi_documented E \<longleftrightarrow>
     (\<forall>bs. length bs < 2 ^ 32 \<longrightarrow> BN_mpi2bn E (be4 (length bs) @ bs) = mpi_value bs) \<and>
     (\<forall>n. \<exists>bs. BN_bn2mpi E n = be4 (length bs) @ bs \<and> mpi_minimal bs \<and> mpi_value bs = n)"

text \<open>\<^verbatim>\<open>BN_get_word\<close> returns the magnitude when it fits a machine word and a word with all
  bits set otherwise.\<close>

definition get_word_documented :: "ext \<Rightarrow> bool" where
  "get_word_documented E \<longleftrightarrow>
     (\<forall>n. BN_get_word E n = (if \<bar>n\<bar> < 2 ^ 64 then nat \<bar>n\<bar> else 2 ^ 64 - 1))"

text \<open>The digest sizes of the hash functions.\<close>

definition hash_sizes :: "ext \<Rightarrow> bool" where
  "hash_sizes E \<longleftrightarrow> (\<forall>m. length (SHA256 E m) = 32) \<and> (\<forall>m. length (RIPEMD160 E m) = 20) \<and>
     (\<forall>m. length (SHA1 E m) = 20)"

text \<open>A concrete encoder of the format.\<close>

fun mag_bytes :: "nat \<Rightarrow> byte list" where
  "mag_bytes n = (if n = 0 then [] else mag_bytes (n div 256) @ [of_nat n])"

definition mpi_enc :: "int \<Rightarrow> byte list" where
  "mpi_enc n =
     (case mag_bytes (nat \<bar>n\<bar>) of
        [] \<Rightarrow> []
      | b # bs \<Rightarrow>
          if bit b 7 then (if n < 0 then 0x80 else 0) # b # bs
          else (if n < 0 then b OR 0x80 else b) # bs)"

definition ext_example :: ext where
  "ext_example = \<lparr>
     SHA256 = (\<lambda>m. take 32 (m @ replicate 32 0)), RIPEMD160 = (\<lambda>m. take 20 (m @ replicate 20 0)),
     SHA1 = (\<lambda>m. take 20 (m @ replicate 20 0)),
     BN_mpi2bn = (\<lambda>bs. mpi_value (drop 4 bs)),
     BN_bn2mpi = (\<lambda>n. be4 (length (mpi_enc n)) @ mpi_enc n),
     BN_get_word = (\<lambda>n. if \<bar>n\<bar> < 2 ^ 64 then nat \<bar>n\<bar> else 2 ^ 64 - 1),
     o2i_ECPublicKey = (\<lambda>b. if length b = 33 then Some (b, 2) else if length b = 65 then Some (b, 4) else None),
     i2o_ECPublicKey = (\<lambda>p c. p), EC_KEY_regenerate_key = (\<lambda>n. Some (replicate 33 2)),
     ECDSA_do_sign = (\<lambda>h k. Some (1, 1)), i2d_ECDSA_SIG = (\<lambda>s. [0x30, 6, 2, 1, 1, 2, 1, 1]),
     EC_GROUP_get0_order = 7, ECDSA_verify = (\<lambda>h s q. 1),
     secp256k1_ec_pubkey_parse = (\<lambda>b. None), secp256k1_ecdsa_signature_parse_der = (\<lambda>b. None),
     secp256k1_ecdsa_signature_normalize = (\<lambda>s. s), secp256k1_ecdsa_verify = (\<lambda>s h q. 0)\<rparr>"

declare mag_bytes.simps [simp del]

section \<open>Facts on the format\<close>

lemma be_nat_Nil [simp]: "be_nat [] = 0"
  by (simp add: be_nat_def)

lemma be_nat_Cons: "be_nat (b # bs) = unat b * 256 ^ length bs + be_nat bs"
  by (simp add: be_nat_def le_nat_append)

lemma be_nat_append1: "be_nat (bs @ [b]) = 256 * be_nat bs + unat b"
  by (simp add: be_nat_def)

lemma be_nat_less: "be_nat bs < 256 ^ length bs"
  using le_nat_less [of "rev bs"] by (simp add: be_nat_def)

lemma be_nat_inject: "length as = length bs \<Longrightarrow> be_nat as = be_nat bs \<longleftrightarrow> as = bs"
  using le_nat_inject [of "rev as" "rev bs"] by (simp add: be_nat_def)

lemma be_nat_ge_head: "unat b * 256 ^ length bs \<le> be_nat (b # bs)"
  by (simp add: be_nat_Cons)

lemma length_be4 [simp]: "length (be4 n) = 4"
  by (simp add: be4_def)

lemma mag_bytes_0 [simp]: "mag_bytes 0 = []"
  by (simp add: mag_bytes.simps)

lemma be_nat_mag_bytes: "be_nat (mag_bytes n) = n"
proof (induction n rule: mag_bytes.induct)
  case (1 n)
  then show ?case
    by (cases "n = 0") (simp_all add: mag_bytes.simps [of n] be_nat_append1)
qed

lemma mag_bytes_Nil: "mag_bytes n = [] \<longleftrightarrow> n = 0"
  by (subst mag_bytes.simps) simp

lemma mag_bytes_hd: "n \<noteq> 0 \<Longrightarrow> hd (mag_bytes n) \<noteq> 0"
proof (induction n rule: mag_bytes.induct)
  case (1 n)
  show ?case
  proof (cases "n div 256 = 0")
    case True
    have "hd (mag_bytes n) = of_nat n"
      using True 1(2) by (simp add: mag_bytes.simps [of n] mag_bytes_Nil hd_append)
    moreover have "(of_nat n :: byte) \<noteq> 0"
    proof
      assume "(of_nat n :: byte) = 0"
      then have "n mod 256 = 0" using unat_of_nat_byte [of n] by (simp only: unat_0)
      with True 1(2) show False by auto
    qed
    ultimately show ?thesis by simp
  next
    case False
    with 1 show ?thesis by (simp add: mag_bytes.simps [of n] mag_bytes_Nil hd_append)
  qed
qed

lemma byte_and_7f: "unat (b AND 0x7f :: byte) = unat b mod 128"
proof -
  have "b AND 0x7f = take_bit 7 b" by (simp add: take_bit_eq_mask mask_eq_exp_minus_1)
  then show ?thesis by (simp add: unsigned_take_bit_eq) (simp add: take_bit_eq_mod)
qed

lemma byte_bit7: "bit (b :: byte) 7 \<longleftrightarrow> 128 \<le> unat b"
proof -
  have "bit b 7 \<longleftrightarrow> bit (unat b) 7" by (simp add: bit_unsigned_iff)
  then have "bit b 7 \<longleftrightarrow> odd (unat b div 128)" by (simp add: bit_iff_odd [where 'a = nat])
  moreover have "unat b div 128 < 2" using unat_byte_less [of b] by (intro less_mult_imp_div_less) simp
  moreover have "128 \<le> unat b \<longleftrightarrow> 0 < unat b div 128" by (simp add: div_greater_zero_iff)
  ultimately show ?thesis by (auto simp: less_2_cases_iff)
qed

lemma byte_split7: "unat (b :: byte) = (if bit b 7 then 128 else 0) + unat b mod 128"
proof (cases "bit b 7")
  case True
  then have ge: "128 \<le> unat b" by (simp add: byte_bit7)
  have "unat b - 128 < 128" using unat_byte_less [of b] by linarith
  then have "unat b mod 128 = unat b - 128" using ge by (simp add: le_mod_geq)
  with True ge show ?thesis by simp
qed (simp add: byte_bit7)

lemma byte_or_80: "\<not> bit (b :: byte) 7 \<Longrightarrow> bit (b OR 0x80) 7 \<and> (b OR 0x80) AND 0x7f = b"
proof -
  assume b: "\<not> bit b 7"
  have "((b OR 0x80) AND 0x7f) = b"
  proof (rule bit_word_eqI)
    fix n assume "n < LENGTH(8)"
    then have "n = 0 \<or> n = 1 \<or> n = 2 \<or> n = 3 \<or> n = 4 \<or> n = 5 \<or> n = 6 \<or> n = 7" by auto
    then show "bit ((b OR 0x80) AND 0x7f) n = bit b n"
      using b by (auto simp: bit_simps)
  qed
  moreover have "bit (b OR 0x80) 7" by (simp add: bit_simps)
  ultimately show ?thesis by simp
qed

text \<open>The magnitude of a minimal encoding determines its length, hence the encoding.\<close>

lemma mpi_value_abs:
  "nat \<bar>mpi_value (b # bs)\<bar> = be_nat ((b AND 0x7f) # bs)"
proof (cases "bit b 7")
  case True
  then show ?thesis by simp
next
  case False
  then have "unat b < 128" by (simp add: byte_bit7)
  then have "b AND 0x7f = b" by (intro word_unat_eq_iff [THEN iffD2]) (simp add: byte_and_7f)
  with False show ?thesis by simp
qed

lemma mpi_abs_less: "nat \<bar>mpi_value bs\<bar> < 128 * 256 ^ (length bs - 1)"
proof (cases bs)
  case Nil
  then show ?thesis by simp
next
  case (Cons b cs)
  have "unat (b AND 0x7f) + 1 \<le> 128" by (simp add: byte_and_7f Suc_leI)
  then have "(unat (b AND 0x7f) + 1) * 256 ^ length cs \<le> 128 * 256 ^ length cs" by (rule mult_le_mono1)
  then have "unat (b AND 0x7f) * 256 ^ length cs + 256 ^ length cs \<le> 128 * 256 ^ length cs"
    unfolding add_mult_distrib by simp
  then show ?thesis
    using be_nat_less [of cs] unfolding Cons mpi_value_abs be_nat_Cons list.size diff_Suc_1 add_Suc_right
    by (simp only: add_0_right diff_Suc_1)
qed

lemma mpi_minimal_ge:
  assumes "mpi_minimal bs" "bs \<noteq> []"
  shows "256 ^ (length bs - 1) \<le> 2 * nat \<bar>mpi_value bs\<bar>"
    and "mpi_value bs \<noteq> 0"
proof -
  obtain b cs where bs: "bs = b # cs" using assms(2) by (cases bs) auto
  have "256 ^ length cs \<le> 2 * be_nat ((b AND 0x7f) # cs)"
  proof (cases "b AND 0x7f = 0")
    case False
    then have "1 \<le> unat (b AND 0x7f)" by (metis One_nat_def Suc_leI gr0I unat_eq_zero)
    then have "1 * 256 ^ length cs \<le> unat (b AND 0x7f) * 256 ^ length cs" by (rule mult_le_mono1)
    also have "\<dots> \<le> be_nat ((b AND 0x7f) # cs)" by (rule be_nat_ge_head)
    also have "\<dots> \<le> 2 * be_nat ((b AND 0x7f) # cs)" by simp
    finally show ?thesis by simp
  next
    case True
    then obtain c ds where cs: "cs = c # ds" and "bit c 7" using assms(1) bs by (cases cs) auto
    then have "128 \<le> unat c" by (simp add: byte_bit7)
    then have "128 * 256 ^ length ds \<le> unat c * 256 ^ length ds" by (rule mult_le_mono1)
    also have "\<dots> \<le> be_nat cs" unfolding cs by (rule be_nat_ge_head)
    also have "\<dots> \<le> be_nat ((b AND 0x7f) # cs)" by (simp add: be_nat_Cons [of _ cs])
    finally show ?thesis by (simp add: cs)
  qed
  then show ge: "256 ^ (length bs - 1) \<le> 2 * nat \<bar>mpi_value bs\<bar>"
    unfolding bs mpi_value_abs by simp
  show "mpi_value bs \<noteq> 0" using ge by auto
qed

lemma mpi_minimal_length_le:
  assumes "mpi_minimal bs" "nat \<bar>mpi_value bs\<bar> < 128 * 256 ^ n"
  shows "length bs \<le> Suc n"
proof (rule ccontr)
  assume "\<not> length bs \<le> Suc n"
  then have l: "Suc n \<le> length bs - 1" "bs \<noteq> []" by auto
  have "(256 :: nat) ^ Suc n \<le> 256 ^ (length bs - 1)" using l(1) by (rule power_increasing) simp
  also have "\<dots> \<le> 2 * nat \<bar>mpi_value bs\<bar>" using mpi_minimal_ge(1) [OF assms(1) l(2)] .
  finally show False using assms(2) by simp
qed

lemma mpi_minimal_unique:
  assumes m: "mpi_minimal as" "mpi_minimal bs" and v: "mpi_value as = mpi_value bs"
  shows "as = bs"
proof -
  have le: "length xs \<le> length ys"
    if "mpi_minimal xs" "mpi_value xs = mpi_value ys" "ys \<noteq> []" for xs ys
  proof -
    have "nat \<bar>mpi_value xs\<bar> < 128 * 256 ^ (length ys - 1)" using mpi_abs_less [of ys] that(2) by simp
    from mpi_minimal_length_le [OF that(1) this] that(3) show ?thesis by simp
  qed
  have nil: "xs = [] \<longleftrightarrow> mpi_value xs = 0" if "mpi_minimal xs" for xs
    using mpi_minimal_ge(2) [OF that] by auto
  show ?thesis
  proof (cases "mpi_value as = 0")
    case True
    with nil [OF m(1)] nil [OF m(2)] v show ?thesis by simp
  next
    case False
    then have ne: "as \<noteq> []" "bs \<noteq> []" using nil [OF m(1)] nil [OF m(2)] v by auto
    then have len: "length as = length bs" using le [of as bs] le [of bs as] m v by simp
    obtain a as' b bs' where ab: "as = a # as'" "bs = b # bs'" using ne by (meson neq_Nil_conv)
    have "be_nat ((a AND 0x7f) # as') = be_nat ((b AND 0x7f) # bs')"
      using v unfolding ab by (simp only: flip: mpi_value_abs)
    then have t: "a AND 0x7f = b AND 0x7f" "as' = bs'" using len ab be_nat_inject by auto
    have "bit a 7 \<longleftrightarrow> mpi_value as < 0" "bit b 7 \<longleftrightarrow> mpi_value bs < 0"
      using False v unfolding ab by (auto split: if_splits)
    then have "bit a 7 = bit b 7" using v by simp
    moreover have "unat a mod 128 = unat b mod 128" using t(1) by (metis byte_and_7f)
    ultimately have "unat a = unat b"
      using byte_split7 [of a] byte_split7 [of b] by simp
    with t ab show ?thesis by (simp add: word_unat_eq_iff)
  qed
qed

lemma mpi_enc_correct: "mpi_minimal (mpi_enc n) \<and> mpi_value (mpi_enc n) = n"
proof (cases "mag_bytes (nat \<bar>n\<bar>)")
  case Nil
  then have "n = 0" by (simp add: mag_bytes_Nil)
  with Nil show ?thesis by (simp add: mpi_enc_def)
next
  case (Cons b bs)
  then have n0: "n \<noteq> 0" by auto
  then have b0: "b \<noteq> 0" using mag_bytes_hd [of "nat \<bar>n\<bar>"] Cons by simp
  have v: "be_nat (b # bs) = nat \<bar>n\<bar>" using be_nat_mag_bytes [of "nat \<bar>n\<bar>"] Cons by simp
  show ?thesis
  proof (cases "bit b 7")
    case True
    have "mpi_enc n = (if n < 0 then 0x80 else 0) # b # bs" using Cons True by (simp add: mpi_enc_def)
    then show ?thesis using True v by (simp add: be_nat_Cons [of _ "b # bs"])
  next
    case False
    have e: "mpi_enc n = (if n < 0 then b OR 0x80 else b) # bs" using Cons False by (simp add: mpi_enc_def)
    have "unat b < 128" using False by (simp add: byte_bit7)
    then have a7: "b AND 0x7f = b" by (intro word_unat_eq_iff [THEN iffD2]) (simp add: byte_and_7f)
    have "mpi_minimal ((if n < 0 then b OR 0x80 else b) # bs)"
      using byte_or_80 [OF False] a7 b0 by (cases bs) auto
    then show ?thesis using e v False byte_or_80 [OF False] by auto
  qed
qed

lemma ext_example_documented: "mpi_documented ext_example" "get_word_documented ext_example" "hash_sizes ext_example"
proof -
  show "mpi_documented ext_example"
    unfolding mpi_documented_def ext_example_def using mpi_enc_correct by auto
  show "hash_sizes ext_example"
    by (simp add: hash_sizes_def ext_example_def min_def)
qed (simp add: get_word_documented_def ext_example_def)

end
