(* ===== verification/Bignum.thy ===== *)
theory Bignum
  imports Ext_Crypto
begin

text \<open>
  The class \<^verbatim>\<open>CBigNum\<close> of \<^verbatim>\<open>src/bignum.h\<close>: conversions between the numbers of OpenSSL and
  machine integers, byte vectors (the encoding of numbers in scripts) and the compact
  form of difficulty targets. The conversions are translated from their loops over the
  MPI buffer; what \<^verbatim>\<open>BN_mpi2bn\<close> and \<^verbatim>\<open>BN_bn2mpi\<close> do with the buffer is a parameter.
\<close>

section \<open>Conversions\<close>

text \<open>The buffer loop shared by \<^verbatim>\<open>setint64\<close>, \<^verbatim>\<open>setuint64\<close>, \<^verbatim>\<open>setuint160\<close> and
  \<^verbatim>\<open>setuint256\<close>: bytes arrive most significant first, leading zeroes are skipped and a
  sign byte is put in front when the first significant byte has its top bit set.\<close>

fun put_bytes :: "bool \<Rightarrow> bool \<Rightarrow> byte list \<Rightarrow> byte list" where
  "put_bytes fNegative fLeadingZeroes [] = []"
| "put_bytes fNegative fLeadingZeroes (c # cs) =
     (if fLeadingZeroes then
        (if c = 0 then put_bytes fNegative True cs
         else if c AND 0x80 \<noteq> 0 then (if fNegative then 0x80 else 0) # c # put_bytes fNegative False cs
         else (if fNegative then c OR 0x80 else c) # put_bytes fNegative False cs)
      else c # put_bytes fNegative False cs)"

definition with_size :: "byte list \<Rightarrow> byte list" where
  "with_size p = (let nSize = of_nat (length p) :: u32 in
     [ucast (drop_bit 24 nSize AND 0xff), ucast (drop_bit 16 nSize AND 0xff),
      ucast (drop_bit 8 nSize AND 0xff), ucast (nSize AND 0xff)] @ p)"

fun top_bytes :: "nat \<Rightarrow> u64 \<Rightarrow> byte list" where
  "top_bytes 0 n = []"
| "top_bytes (Suc i) n = ucast (drop_bit 56 n AND 0xff) # top_bytes i (push_bit 8 n)"

definition setint64 :: "ext \<Rightarrow> int \<Rightarrow> BIGNUM" where
  "setint64 E sn =
     (let n = (if sn < 0 then of_int (- (sn + 1)) + 1 else of_int sn :: u64)
      in BN_mpi2bn E (with_size (put_bytes (sn < 0) True (top_bytes 8 n))))"

definition setuint64 :: "ext \<Rightarrow> u64 \<Rightarrow> BIGNUM" where
  "setuint64 E n = BN_mpi2bn E (with_size (put_bytes False True (top_bytes 8 n)))"

definition setuint160 :: "ext \<Rightarrow> uint160 \<Rightarrow> BIGNUM" where
  "setuint160 E n = BN_mpi2bn E (with_size (put_bytes False True (rev (le_bytes 20 (unat n)))))"

definition setuint256 :: "ext \<Rightarrow> uint256 \<Rightarrow> BIGNUM" where
  "setuint256 E n = BN_mpi2bn E (with_size (put_bytes False True (rev (le_bytes 32 (unat n)))))"

text \<open>The bytes the \<^verbatim>\<open>getuint\<close> functions copy: from the end of the MPI buffer down to index
  4, at most \<open>sz\<close> of them, with the sign bit cleared.\<close>

definition low_bytes :: "ext \<Rightarrow> nat \<Rightarrow> BIGNUM \<Rightarrow> byte list" where
  "low_bytes E sz bn =
     (let vch = BN_bn2mpi E bn;
          vch = (if length vch > 4 then vch[4 := vch ! 4 AND 0x7f] else vch)
      in take sz (rev (drop 4 vch)))"

definition getuint64 :: "ext \<Rightarrow> BIGNUM \<Rightarrow> u64" where
  "getuint64 E bn = (if length (BN_bn2mpi E bn) < 4 then 0 else of_nat (le_nat (low_bytes E 8 bn)))"

definition getuint160 :: "ext \<Rightarrow> BIGNUM \<Rightarrow> uint160" where
  "getuint160 E bn = (if length (BN_bn2mpi E bn) < 4 then 0 else of_nat (le_nat (low_bytes E 20 bn)))"

definition getuint256 :: "ext \<Rightarrow> BIGNUM \<Rightarrow> uint256" where
  "getuint256 E bn = (if length (BN_bn2mpi E bn) < 4 then 0 else of_nat (le_nat (low_bytes E 32 bn)))"

definition INT_MAX :: int where "INT_MAX = 2 ^ 31 - 1"
definition INT_MIN :: int where "INT_MIN = - (2 ^ 31)"

definition getint :: "ext \<Rightarrow> BIGNUM \<Rightarrow> int" where
  "getint E bn =
     (let n = int (BN_get_word E bn)
      in if \<not> bn < 0 then (if n > INT_MAX then INT_MAX else n)
         else (if n > INT_MAX then INT_MIN else - n))"

definition setvch :: "ext \<Rightarrow> byte list \<Rightarrow> BIGNUM" where
  "setvch E vch = BN_mpi2bn E (with_size (rev vch))"

definition getvch :: "ext \<Rightarrow> BIGNUM \<Rightarrow> byte list" where
  "getvch E bn =
     (let vch = BN_bn2mpi E bn in if length vch \<le> 4 then [] else rev (drop 4 vch))"

definition SetCompact :: "ext \<Rightarrow> u32 \<Rightarrow> BIGNUM" where
  "SetCompact E nCompact =
     (let nSize = unat (drop_bit 24 nCompact);
          vch = (replicate (4 + nSize) 0)[3 := of_nat nSize];
          vch = (if nSize \<ge> 1 then vch[4 := ucast (drop_bit 16 nCompact AND 0xff)] else vch);
          vch = (if nSize \<ge> 2 then vch[5 := ucast (drop_bit 8 nCompact AND 0xff)] else vch);
          vch = (if nSize \<ge> 3 then vch[6 := ucast (nCompact AND 0xff)] else vch)
      in BN_mpi2bn E vch)"

definition GetCompact :: "ext \<Rightarrow> BIGNUM \<Rightarrow> u32" where
  "GetCompact E bn =
     (let vch = BN_bn2mpi E bn;
          nSize = length vch - 4;
          nCompact = push_bit 24 (of_nat nSize);
          nCompact = (if nSize \<ge> 1 then nCompact OR push_bit 16 (ucast (vch ! 4)) else nCompact);
          nCompact = (if nSize \<ge> 2 then nCompact OR push_bit 8 (ucast (vch ! 5)) else nCompact);
          nCompact = (if nSize \<ge> 3 then nCompact OR ucast (vch ! 6) else nCompact)
      in nCompact)"

text \<open>\<^verbatim>\<open>operator>>=\<close> first tests whether the shifted-out power exceeds the number.\<close>

definition bn_shr :: "BIGNUM \<Rightarrow> nat \<Rightarrow> BIGNUM" where
  "bn_shr bn shift = (if 2 ^ shift > bn then 0 else bn div 2 ^ shift)"

text \<open>\<^verbatim>\<open>BN_div\<close> truncates towards zero; \<^verbatim>\<open>BN_nnmod\<close> gives the non-negative remainder.\<close>

definition bn_div :: "BIGNUM \<Rightarrow> BIGNUM \<Rightarrow> BIGNUM" where
  "bn_div a b = tdiv a b"

definition bn_mod :: "BIGNUM \<Rightarrow> BIGNUM \<Rightarrow> BIGNUM" where
  "bn_mod a b = a mod \<bar>b\<bar>"

section \<open>The buffers are MPI encodings\<close>

lemma with_size_be4: "with_size p = be4 (length p) @ p"
proof -
  have "(ucast (drop_bit k (of_nat n :: u32)) :: byte) = of_nat (n div 2 ^ k)" if "k \<le> 24" for k n
    using that by (auto intro!: bit_word_eqI simp: bit_simps simp flip: drop_bit_eq_div)
  from this [of 24] this [of 16] this [of 8] this [of 0] show ?thesis
    by (simp add: with_size_def Let_def be4_def le_bytes_4)
qed

lemma mpi2bn_with_size:
  "mpi_documented E \<Longrightarrow> length p < 2 ^ 32 \<Longrightarrow> BN_mpi2bn E (with_size p) = mpi_value p"
  by (simp add: mpi_documented_def with_size_be4)

lemma bn2mpi_enc:
  assumes "mpi_documented E"
  shows "BN_bn2mpi E n = be4 (length (mpi_enc n)) @ mpi_enc n"
proof -
  obtain bs where "BN_bn2mpi E n = be4 (length bs) @ bs" "mpi_minimal bs" "mpi_value bs = n"
    using assms unfolding mpi_documented_def by blast
  moreover from this have "bs = mpi_enc n"
    using mpi_enc_correct [of n] by (intro mpi_minimal_unique) simp_all
  ultimately show ?thesis by simp
qed

lemma getvch_enc: "mpi_documented E \<Longrightarrow> getvch E n = rev (mpi_enc n)"
  by (auto simp: getvch_def Let_def bn2mpi_enc)

lemma setvch_value: "mpi_documented E \<Longrightarrow> length v < 2 ^ 32 \<Longrightarrow> setvch E v = mpi_value (rev v)"
  by (simp add: setvch_def mpi2bn_with_size)

lemma mpi_enc_value: "mpi_minimal bs \<Longrightarrow> mpi_enc (mpi_value bs) = bs"
  using mpi_enc_correct by (intro mpi_minimal_unique) simp_all

lemma mpi_enc_0 [simp]: "mpi_enc 0 = []"
  by (simp add: mpi_enc_def)

lemma length_mpi_enc_le:
  assumes "\<bar>n\<bar> < 128 * 256 ^ k" shows "length (mpi_enc n) \<le> Suc k"
proof (rule mpi_minimal_length_le)
  have "nat \<bar>n\<bar> < nat (128 * 256 ^ k)" using assms by (simp add: nat_less_iff)
  then show "nat \<bar>mpi_value (mpi_enc n)\<bar> < 128 * 256 ^ k"
    using mpi_enc_correct [of n] by (simp add: nat_mult_distrib nat_power_eq)
qed (simp add: mpi_enc_correct)

section \<open>Machine integers\<close>

lemma byte_and_80: "(c AND 0x80 \<noteq> (0 :: byte)) \<longleftrightarrow> bit c 7"
proof -
  have "c AND 0x80 = (if bit c 7 then 0x80 else 0)"
    by (rule bit_word_eqI) (auto simp: bit_simps less_Suc_eq numeral_eq_Suc)
  then show ?thesis by simp
qed

lemma put_bytes_False [simp]: "put_bytes neg False cs = cs"
  by (induction cs) auto

lemma put_bytes_value:
  "mpi_value (put_bytes neg True cs) = (if neg then - int (be_nat cs) else int (be_nat cs))"
proof (induction cs)
  case Nil
  then show ?case by simp
next
  case (Cons c cs)
  consider "c = 0" | "c \<noteq> 0" "bit c 7" | "c \<noteq> 0" "\<not> bit c 7" by blast
  then show ?case
  proof cases
    case 1
    with Cons show ?thesis by (simp add: be_nat_Cons)
  next
    case 2
    then show ?thesis by (simp add: byte_and_80 be_nat_Cons [of _ "c # cs"])
  next
    case 3
    have "c AND 0x80 = 0" using 3 byte_and_80 [of c] by blast
    with 3 byte_or_80 [OF 3(2)] show ?thesis by simp
  qed
qed

lemma length_put_bytes: "length (put_bytes neg lz cs) \<le> Suc (length cs)"
proof (induction cs)
  case (Cons c cs)
  then show ?case by (cases lz) (auto simp: le_SucI)
qed simp

lemma put_bytes_mpi:
  "mpi_documented E \<Longrightarrow> length cs < 2 ^ 31 \<Longrightarrow> BN_mpi2bn E (with_size (put_bytes neg True cs))
     = (if neg then - int (be_nat cs) else int (be_nat cs))"
  using length_put_bytes [of neg True cs] by (subst mpi2bn_with_size) (simp_all add: put_bytes_value)

lemma top_bytes_8: "top_bytes 8 n = rev (le_bytes 8 (unat n))"
proof -
  have eight: "(8 :: nat) = Suc (Suc (Suc (Suc (Suc (Suc (Suc (Suc 0)))))))" by simp
  have d: "(of_nat (unat n div 2 ^ k) :: byte) = ucast (drop_bit k n)" for k
    by (auto intro!: bit_word_eqI simp: bit_simps simp flip: drop_bit_eq_div)
  have s: "(ucast (drop_bit 56 (push_bit k n)) :: byte) = ucast (drop_bit (56 - k) n)" if "k \<le> 56" for k
    using that by (auto intro!: bit_word_eqI simp: bit_simps)
  have l: "le_bytes 8 (unat n) = map (\<lambda>k. ucast (drop_bit k n)) [0, 8, 16, 24, 32, 40, 48, 56]"
    using d [of 0] d [of 8] d [of 16] d [of 24] d [of 32] d [of 40] d [of 48] d [of 56]
    by (simp only: eight le_bytes.simps div_mult2_eq [symmetric]) simp
  have "top_bytes 8 n = map (\<lambda>k. ucast (drop_bit 56 (push_bit k n))) [0, 8, 16, 24, 32, 40, 48, 56]"
    by (simp only: eight top_bytes.simps ucast_and_ff push_bit_push_bit list.map)
       (simp add: push_bit_eq_mult)
  then show ?thesis
    using s [of 0] s [of 8] s [of 16] s [of 24] s [of 32] s [of 40] s [of 48] s [of 56]
    by (simp only: l list.map) simp
qed

lemma be_nat_top_bytes: "be_nat (top_bytes 8 n) = unat n"
  using unsigned_less [of n, where 'a = nat]
  by (simp add: top_bytes_8 be_nat_def le_nat_bytes)

lemma length_top_bytes [simp]: "length (top_bytes i n) = i"
  by (induction i arbitrary: n) auto

lemma setint64_id:
  assumes "mpi_documented E" "int64_range sn"
  shows "setint64 E sn = sn"
proof (cases "sn < 0")
  case True
  let ?m = "- (sn + 1)"
  have r: "0 \<le> ?m" "?m < 2 ^ 63" using True assms(2) by (auto simp: int64_range_def)
  have "of_int ?m + 1 = (of_int (- sn) :: u64)" by simp
  moreover have "uint (of_int (- sn) :: u64) = - sn"
    using r by (simp only: uint_word_of_int_eq) (simp add: take_bit_int_eq_self)
  ultimately have "int (unat (of_int ?m + 1 :: u64)) = - sn" by simp
  then show ?thesis using assms(1) True
    by (simp add: setint64_def Let_def put_bytes_mpi be_nat_top_bytes)
next
  case False
  then have "uint (of_int sn :: u64) = sn" using assms(2)
    by (simp add: int64_range_def uint_word_of_int_eq take_bit_int_eq_self)
  then have "int (unat (of_int sn :: u64)) = sn" by simp
  then show ?thesis using assms(1) False
    by (simp add: setint64_def Let_def put_bytes_mpi be_nat_top_bytes)
qed

lemma setuint64_id: "mpi_documented E \<Longrightarrow> setuint64 E n = uint n"
  by (simp add: setuint64_def put_bytes_mpi be_nat_top_bytes)

lemma setuint256_id: "mpi_documented E \<Longrightarrow> setuint256 E n = uint n"
  using unsigned_less [of n, where 'a = nat]
  by (simp add: setuint256_def put_bytes_mpi be_nat_def le_nat_bytes)

lemma setuint160_id: "mpi_documented E \<Longrightarrow> setuint160 E n = uint n"
  using unsigned_less [of n, where 'a = nat]
  by (simp add: setuint160_def put_bytes_mpi be_nat_def le_nat_bytes)

lemma le_nat_take: "le_nat (take k bs) = le_nat bs mod 256 ^ k"
proof (induction bs arbitrary: k)
  case Nil
  then show ?case by simp
next
  case (Cons b bs)
  show ?case
  proof (cases k)
    case (Suc j)
    have "unat b + 256 * (le_nat bs mod 256 ^ j) = (unat b + 256 * le_nat bs) mod (256 * 256 ^ j)"
      by (simp add: mod_mult2_eq)
    with Suc Cons show ?thesis by simp
  qed simp
qed

lemma le_nat_low_bytes:
  assumes "mpi_documented E"
  shows "le_nat (low_bytes E sz n) = nat \<bar>n\<bar> mod 256 ^ sz"
proof (cases "mpi_enc n")
  case Nil
  then have "n = 0" using mpi_enc_correct [of n] by simp
  with Nil assms show ?thesis by (simp add: low_bytes_def Let_def bn2mpi_enc)
next
  case (Cons c cs)
  have "low_bytes E sz n = take sz (rev ((c AND 0x7f) # cs))"
    using assms Cons by (simp add: low_bytes_def Let_def bn2mpi_enc list_update_append nth_append)
  moreover have "le_nat (rev ((c AND 0x7f) # cs)) = nat \<bar>n\<bar>"
    using mpi_value_abs [of c cs] mpi_enc_correct [of n] Cons by (simp only: be_nat_def)
  ultimately show ?thesis by (simp only: le_nat_take)
qed

lemma of_nat_mod_word: "(of_nat (x mod 2 ^ LENGTH('a)) :: 'a::len word) = of_nat x"
  by (simp add: word_of_nat_eq_iff take_bit_eq_mod)

lemma getuint256_abs: "mpi_documented E \<Longrightarrow> getuint256 E n = of_nat (nat \<bar>n\<bar>)"
  using of_nat_mod_word [where 'a = 256, of "nat \<bar>n\<bar>"]
  by (simp add: getuint256_def bn2mpi_enc le_nat_low_bytes)

lemma getuint64_abs: "mpi_documented E \<Longrightarrow> getuint64 E n = of_nat (nat \<bar>n\<bar>)"
  using of_nat_mod_word [where 'a = 64, of "nat \<bar>n\<bar>"]
  by (simp add: getuint64_def bn2mpi_enc le_nat_low_bytes)

lemma getint_clamp:
  "get_word_documented E \<Longrightarrow> \<bar>n\<bar> \<le> INT_MAX \<Longrightarrow> getint E n = n"
  by (auto simp: getint_def get_word_documented_def INT_MAX_def Let_def)

section \<open>Script numbers\<close>

text \<open>The byte form of a number is its only minimal encoding; numbers of magnitude below
  \<open>2 ^ 31\<close> take at most four bytes.\<close>

lemma setvch_getvch:
  "mpi_documented E \<Longrightarrow> length (getvch E n) < 2 ^ 32 \<Longrightarrow> setvch E (getvch E n) = n"
  using mpi_enc_correct [of n] by (simp add: getvch_enc setvch_value)

lemma getvch_setvch:
  "mpi_documented E \<Longrightarrow> length v < 2 ^ 32 \<Longrightarrow> getvch E (setvch E v) = v \<longleftrightarrow> mpi_minimal (rev v)"
proof -
  assume "mpi_documented E" "length v < 2 ^ 32"
  then have "getvch E (setvch E v) = rev (mpi_enc (mpi_value (rev v)))"
    by (simp add: getvch_enc setvch_value)
  then show ?thesis
    using mpi_enc_value [of "rev v"] mpi_enc_correct [of "mpi_value (rev v)"]
    by (metis rev_rev_ident)
qed

lemma getvch_length_4:
  assumes "mpi_documented E"
  shows "length (getvch E n) \<le> 4 \<longleftrightarrow> \<bar>n\<bar> < 2 ^ 31"
proof
  assume l: "length (getvch E n) \<le> 4"
  have "nat \<bar>n\<bar> < 128 * 256 ^ (length (mpi_enc n) - 1)"
    using mpi_abs_less [of "mpi_enc n"] mpi_enc_correct [of n] by simp
  also have "\<dots> \<le> 128 * 256 ^ 3"
    using l assms by (intro mult_le_mono2 power_increasing) (simp_all add: getvch_enc)
  finally show "\<bar>n\<bar> < 2 ^ 31" by simp
next
  assume "\<bar>n\<bar> < 2 ^ 31"
  then have "length (mpi_enc n) \<le> Suc 3" by (intro length_mpi_enc_le) simp
  then show "length (getvch E n) \<le> 4" using assms by (simp add: getvch_enc)
qed

lemma setvch_4_less:
  assumes "mpi_documented E" "length v \<le> 4"
  shows "\<bar>setvch E v\<bar> < 2 ^ 31"
proof -
  have "nat \<bar>mpi_value (rev v)\<bar> < 128 * 256 ^ (length (rev v) - 1)" by (rule mpi_abs_less)
  also have "\<dots> \<le> 128 * 256 ^ 3" using assms(2) by (intro mult_le_mono2 power_increasing) simp_all
  finally show ?thesis using assms by (simp add: setvch_value)
qed

section \<open>Compact targets\<close>

text \<open>The bytes of the number a compact value denotes, most significant first: the three
  mantissa bytes, cut or padded with zeroes to the size in the top byte.\<close>

definition compact_bytes :: "u32 \<Rightarrow> byte list" where
  "compact_bytes c =
     (let nSize = unat (drop_bit 24 c) in
      take nSize ([ucast (drop_bit 16 c), ucast (drop_bit 8 c), ucast c] @ replicate (nSize - 3) 0))"

lemma compact_size_less: "unat (drop_bit 24 (c :: u32)) < 256"
proof -
  have "unat (drop_bit 24 c) = unat c div 2 ^ 24"
    using unsigned_less [of c, where 'a = nat]
    by (simp add: drop_bit_eq_div unat_div)
  also have "\<dots> < 256" using unsigned_less [of c, where 'a = nat] by (intro less_mult_imp_div_less) simp
  finally show ?thesis .
qed

lemma length_compact_bytes [simp]: "length (compact_bytes c) = unat (drop_bit 24 c)"
  by (auto simp: compact_bytes_def Let_def)

lemma be4_small: "n < 256 \<Longrightarrow> be4 n = [0, 0, 0, of_nat n]"
  by (simp add: be4_def le_bytes_4)

lemma SetCompact_value:
  assumes "mpi_documented E"
  shows "SetCompact E c = mpi_value (compact_bytes c)"
proof -
  let ?n = "unat (drop_bit 24 c)"
  have four: "replicate (4 + k) (0 :: byte) = 0 # 0 # 0 # 0 # replicate k 0" for k
    by (simp add: numeral_eq_Suc)
  consider "?n = 0" | "?n = 1" | "?n = 2" | m where "?n = 3 + m"
    by (metis One_nat_def Suc_1 add.commute le_add_diff_inverse less_2_cases_iff less_Suc_eq not_less numeral_3_eq_3)
  then have "SetCompact E c = BN_mpi2bn E ([0, 0, 0, of_nat ?n] @ compact_bytes c)"
  proof cases
    case 4
    then have "replicate ?n (0 :: byte) = 0 # 0 # 0 # replicate m 0"
      by (simp add: numeral_eq_Suc)
    then show ?thesis
      unfolding SetCompact_def Let_def four using 4
      by (simp add: compact_bytes_def Let_def numeral_eq_Suc del: replicate.simps)
  qed (simp_all add: SetCompact_def compact_bytes_def Let_def numeral_eq_Suc)
  also have "[0, 0, 0, of_nat ?n] = be4 (length (compact_bytes c))"
    using compact_size_less by (simp add: be4_small)
  also have "BN_mpi2bn E (be4 (length (compact_bytes c)) @ compact_bytes c) = mpi_value (compact_bytes c)"
    using mpi2bn_with_size [OF assms, of "compact_bytes c"] compact_size_less [of c]
    by (simp add: with_size_be4)
  finally show ?thesis .
qed

text \<open>The word \<^verbatim>\<open>GetCompact\<close> assembles, and its four bytes.\<close>

definition pack4 :: "byte \<Rightarrow> byte \<Rightarrow> byte \<Rightarrow> byte \<Rightarrow> u32" where
  "pack4 s b2 b1 b0 = push_bit 24 (ucast s) OR push_bit 16 (ucast b2) OR push_bit 8 (ucast b1) OR ucast b0"

lemma bit_byte_less: "bit (b :: byte) n \<Longrightarrow> n < 8"
  using bit_imp_le_length [of b n] by simp

lemma pack4_bytes:
  "drop_bit 24 (pack4 s b2 b1 b0) = (ucast s :: u32)"
  "(ucast (drop_bit 16 (pack4 s b2 b1 b0)) :: byte) = b2"
  "(ucast (drop_bit 8 (pack4 s b2 b1 b0)) :: byte) = b1"
  "(ucast (pack4 s b2 b1 b0) :: byte) = b0"
  by (rule bit_word_eqI, auto simp: pack4_def bit_simps dest: bit_byte_less)+

lemma unat_ucast_byte [simp]: "unat (ucast (b :: byte) :: u32) = unat b"
  by (simp add: unsigned_ucast_eq take_bit_nat_eq_self [OF order_less_trans [OF unat_byte_less]])

definition nth0 :: "byte list \<Rightarrow> nat \<Rightarrow> byte" where
  "nth0 bs i = (if i < length bs then bs ! i else 0)"

lemma GetCompact_pack:
  assumes "mpi_documented E" "length (mpi_enc n) < 256"
  shows "GetCompact E n
    = pack4 (of_nat (length (mpi_enc n))) (nth0 (mpi_enc n) 0) (nth0 (mpi_enc n) 1) (nth0 (mpi_enc n) 2)"
proof -
  let ?l = "length (mpi_enc n)"
  have l: "(of_nat ?l :: u32) = ucast (of_nat ?l :: byte)"
    using assms(2) by (intro word_unat_eq_iff [THEN iffD2]) (simp add: unat_of_nat)
  have x: "BN_bn2mpi E n ! (4 + i) = mpi_enc n ! i" for i
    using assms(1) by (simp add: bn2mpi_enc nth_append)
  consider "?l = 0" | "?l = 1" | "?l = 2" | "3 \<le> ?l" by linarith
  then show ?thesis
    using x [of 0] x [of 1] x [of 2] assms(1)
    by cases (auto simp: GetCompact_def Let_def pack4_def nth0_def l bn2mpi_enc or.assoc)
qed

lemma compact_bytes_GetCompact:
  assumes "mpi_documented E" "length (mpi_enc n) < 256"
  shows "compact_bytes (GetCompact E n) = take 3 (mpi_enc n) @ replicate (length (mpi_enc n) - 3) 0"
proof -
  let ?c = "mpi_enc n"
  have l: "unat (ucast (of_nat (length ?c) :: byte) :: u32) = length ?c" using assms(2) by simp
  have e: "compact_bytes (GetCompact E n)
      = take (length ?c) ([nth0 ?c 0, nth0 ?c 1, nth0 ?c 2] @ replicate (length ?c - 3) 0)"
    unfolding GetCompact_pack [OF assms] compact_bytes_def Let_def pack4_bytes l ..
  show ?thesis
  proof (rule nth_equalityI)
    show "length (compact_bytes (GetCompact E n)) = length (take 3 ?c @ replicate (length ?c - 3) 0)"
      unfolding e by auto
    fix i assume "i < length (compact_bytes (GetCompact E n))"
    then have i: "i < length ?c" unfolding e by simp
    consider "i = 0" | "i = 1" | "i = 2" | "3 \<le> i" by linarith
    then show "compact_bytes (GetCompact E n) ! i = (take 3 ?c @ replicate (length ?c - 3) 0) ! i"
      unfolding e using i by cases (auto simp: nth0_def nth_append)
  qed
qed

lemma mpi_minimal_take3: "mpi_minimal bs \<Longrightarrow> mpi_minimal (take 3 bs @ replicate (length bs - 3) 0)"
  by (cases bs rule: mpi_minimal.cases) (auto simp: numeral_3_eq_3 take_Cons split: nat.splits)

lemma be_nat_append: "be_nat (xs @ ys) = be_nat xs * 256 ^ length ys + be_nat ys"
  by (simp add: be_nat_def le_nat_append mult.commute)

lemma be_nat_replicate0 [simp]: "be_nat (replicate k 0) = 0"
  by (simp add: be_nat_def)

lemma compact_truncates:
  assumes E: "mpi_documented E" and l: "length (mpi_enc n) < 256" and n: "0 \<le> n"
  shows "SetCompact E (GetCompact E n) \<le> n"
    and "n < SetCompact E (GetCompact E n) + 256 ^ (length (mpi_enc n) - 3)"
proof -
  let ?c = "mpi_enc n"
  have v: "mpi_value ?c = n" using mpi_enc_correct by blast
  have sc: "SetCompact E (GetCompact E n) = mpi_value (take 3 ?c @ replicate (length ?c - 3) 0)"
    by (simp add: SetCompact_value [OF E] compact_bytes_GetCompact [OF E l])
  have pos: "mpi_value xs = int (be_nat xs)" if "mpi_value ?c = n" "xs = [] \<or> (?c \<noteq> [] \<and> hd xs = hd ?c)" for xs
  proof (cases xs)
    case (Cons x xs')
    with that obtain cs where c: "?c = x # cs" by (cases ?c) auto
    have "\<not> bit x 7"
    proof
      assume b: "bit x 7"
      then have "be_nat ((x AND 0x7f) # cs) = 0" using v n c by simp
      moreover have "mpi_value ?c \<noteq> 0" using mpi_minimal_ge(2) [of ?c] mpi_enc_correct [of n] c by auto
      ultimately show False using b c by simp
    qed
    with Cons show ?thesis by simp
  qed simp
  have "n = int (be_nat ?c)" using pos [of ?c] v by (cases ?c) auto
  moreover have "mpi_value (take 3 ?c @ replicate (length ?c - 3) 0) = int (be_nat (take 3 ?c @ replicate (length ?c - 3) 0))"
    by (rule pos [OF v]) (cases ?c, auto)
  moreover have "be_nat ?c = be_nat (take 3 ?c) * 256 ^ (length ?c - 3) + be_nat (drop 3 ?c)"
    using be_nat_append [of "take 3 ?c" "drop 3 ?c"] by simp
  ultimately have e: "n = SetCompact E (GetCompact E n) + int (be_nat (drop 3 ?c))"
    unfolding sc by (simp add: be_nat_append)
  have "int (be_nat (drop 3 ?c)) < 256 ^ (length ?c - 3)"
    using be_nat_less [of "drop 3 ?c"] by (metis length_drop of_nat_less_iff of_nat_numeral of_nat_power)
  with e show "SetCompact E (GetCompact E n) \<le> n"
    and "n < SetCompact E (GetCompact E n) + 256 ^ (length ?c - 3)" by linarith+
qed

lemma mpi_enc_minimal: "mpi_minimal bs \<Longrightarrow> mpi_enc (mpi_value bs) = bs"
  using mpi_enc_correct [of "mpi_value bs"] mpi_minimal_unique by blast

lemma mpi_enc_SetCompact:
  assumes "mpi_documented E" "length (mpi_enc n) < 256"
  shows "mpi_enc (SetCompact E (GetCompact E n)) = take 3 (mpi_enc n) @ replicate (length (mpi_enc n) - 3) 0"
  using mpi_enc_correct [of n]
  by (simp add: SetCompact_value [OF assms(1)] compact_bytes_GetCompact [OF assms]
      mpi_enc_minimal mpi_minimal_take3)

subsection \<open>The properties of the conversions\<close>

text \<open>Storing a target in compact form and reading it back rounds it down, and loses less than
  one unit of the third significant byte; storing the result again gives the same compact word, so
  a target that went through \<^verbatim>\<open>nBits\<close> once is a fixed point of the encoding.\<close>

theorem compact_target_rounding:
  assumes "mpi_documented E" and "0 \<le> n" and "length (mpi_enc n) < 256"
  shows "SetCompact E (GetCompact E n) \<le> n
    \<and> n < SetCompact E (GetCompact E n) + 256 ^ (length (mpi_enc n) - 3)
    \<and> GetCompact E (SetCompact E (GetCompact E n)) = GetCompact E n"
proof -
  let ?m = "SetCompact E (GetCompact E n)"
  have m: "mpi_enc ?m = take 3 (mpi_enc n) @ replicate (length (mpi_enc n) - 3) 0"
    by (rule mpi_enc_SetCompact [OF assms(1,3)])
  have "length (mpi_enc ?m) = length (mpi_enc n)" by (simp add: m)
  moreover have "nth0 (mpi_enc ?m) i = nth0 (mpi_enc n) i" if "i < 3" for i
    using that by (auto simp: m nth0_def nth_append)
  ultimately have "GetCompact E ?m = GetCompact E n"
    by (simp add: GetCompact_pack [OF assms(1)] assms(3))
  then show ?thesis using compact_truncates [OF assms(1,3,2)] by simp
qed

theorem compact_target_rounding_witness:
  "SetCompact ext_example (GetCompact ext_example 0x123456789) \<le> 0x123456789
    \<and> GetCompact ext_example (SetCompact ext_example (GetCompact ext_example 0x123456789))
        = GetCompact ext_example 0x123456789
    \<and> GetCompact ext_example 0x123456789 = 0x05012345"
proof -
  have b: "mpi_enc 0x123456789 = [1, 0x23, 0x45, 0x67, 0x89]"
    using mpi_enc_minimal [of "[1, 0x23, 0x45, 0x67, 0x89]"] by (simp add: be_nat_def bit_1_iff)
  have "GetCompact ext_example 0x123456789 = 0x05012345"
    by (simp add: GetCompact_pack ext_example_documented b nth0_def pack4_def)
  then show ?thesis
    using compact_target_rounding [of ext_example "0x123456789"] ext_example_documented b by simp
qed

text \<open>Script numbers round trip: \<^verbatim>\<open>setvch\<close> inverts \<^verbatim>\<open>getvch\<close>
  on every number, and \<^verbatim>\<open>getvch\<close> inverts \<^verbatim>\<open>setvch\<close>
  on exactly the byte strings that are minimal encodings.\<close>

theorem script_number_roundtrip:
  assumes "mpi_documented E" and "length (getvch E n) < 2 ^ 32" and "length v < 2 ^ 32"
  shows "setvch E (getvch E n) = n
    \<and> (getvch E (setvch E v) = v \<longleftrightarrow> mpi_minimal (rev v))
    \<and> (length (getvch E n) \<le> 4 \<longleftrightarrow> \<bar>n\<bar> < 2 ^ 31)"
  using setvch_getvch [OF assms(1,2)] getvch_setvch [OF assms(1,3)] getvch_length_4 [OF assms(1)]
  by blast

theorem script_number_roundtrip_witness:
  "setvch ext_example (getvch ext_example (- 300)) = - 300
    \<and> getvch ext_example (- 300) = [0x2c, 0x81]
    \<and> getvch ext_example (setvch ext_example [0x2c, 0x80, 0]) = [0x2c, 0x80, 0]
    \<and> getvch ext_example (setvch ext_example [0x2c, 0, 0]) \<noteq> [0x2c, 0, 0]"
proof -
  have "mpi_enc (- 300) = [0x81, 0x2c]"
    using mpi_enc_minimal [of "[0x81, 0x2c]"] by (simp add: be_nat_def)
  then have g: "getvch ext_example (- 300) = [0x2c, 0x81]"
    by (simp add: getvch_enc ext_example_documented)
  note r = script_number_roundtrip [OF ext_example_documented(1), of "- 300"]
  show ?thesis
    using r [of "[0x2c, 0x80, 0]"] r [of "[0x2c, 0, 0]"] by (simp add: g)
qed

lemma word_of_nat_nat: "0 \<le> i \<Longrightarrow> (of_nat (nat i) :: 'a :: len word) = of_int i"
  by (metis int_nat_eq of_int_of_nat_eq)

text \<open>The integer constructors and readers agree with the integers: a 64-bit value, signed or
  not, and a 256-bit hash become the number they denote, and reading a number back as a 64-bit or
  256-bit word gives its magnitude modulo the word size, whatever its sign.\<close>

theorem bignum_words_faithful:
  assumes "mpi_documented E" and "int64_range i"
  shows "setint64 E i = i \<and> setuint64 E w = uint w \<and> setuint256 E h = uint h \<and> setuint160 E k = uint k
    \<and> getuint256 E n = of_int \<bar>n\<bar> \<and> getuint64 E n = of_int \<bar>n\<bar>
    \<and> getuint256 E (setuint256 E h) = h \<and> getuint64 E (setuint64 E w) = w"
  using assms
  by (simp add: setint64_id setuint64_id setuint256_id setuint160_id getuint256_abs getuint64_abs
      word_of_nat_nat)

theorem bignum_words_faithful_witness:
  "setint64 ext_example (- (2 ^ 63)) = - (2 ^ 63)
    \<and> getuint256 ext_example (- 5) = 5 \<and> getuint64 ext_example (2 ^ 64 + 7) = 7"
  using bignum_words_faithful [OF ext_example_documented(1), of "- (2 ^ 63)" 0 0 0 "- 5"]
    bignum_words_faithful [OF ext_example_documented(1), of "- (2 ^ 63)" 0 0 0 "2 ^ 64 + 7"]
  by (simp add: int64_range_def)

end
