(* ===== verification/Serialize.thy ===== *)
theory Serialize
  imports Hobo_Prelude
begin

text \<open>
  Serialisation, \<^verbatim>\<open>serialize.h\<close>.  The templates are generic in a stream that
  supports \<^verbatim>\<open>read\<close> and \<^verbatim>\<open>write\<close>; a writer is modelled by the bytes it appends and a
  reader by a function of the bytes still to be read, which throws (\<^verbatim>\<open>Inl\<close>) or returns the object
  and the rest.  \<^verbatim>\<open>CDataStream\<close> itself is modelled with its buffer and read position and
  shown to implement that view.  The locale \<^verbatim>\<open>codec\<close> states what every serialised type
  promises: a round trip, and one encoding per value.
\<close>

unbundle bit_operations_syntax

section \<open>Streams of bytes\<close>

datatype ser_error = EndOfData | NonCanonical | SizeTooLarge

type_synonym 'a reader = "byte list \<Rightarrow> ser_error + 'a \<times> byte list"

text \<open>An exception ends the statement sequence; otherwise the next read starts at the rest.\<close>

definition rbind :: "ser_error + 'a \<times> byte list \<Rightarrow> ('a \<Rightarrow> 'b reader) \<Rightarrow> ser_error + 'b \<times> byte list" where
  "rbind r f = (case r of Inl e \<Rightarrow> Inl e | Inr (x, s) \<Rightarrow> f x s)"

definition READDATA :: "nat \<Rightarrow> valtype reader" where
  "READDATA n s = (if n \<le> length s then Inr (take n s, drop n s) else Inl EndOfData)"

definition MAX_SIZE :: nat where "MAX_SIZE = 0x02000000"

section \<open>Fundamental types\<close>

definition ser_u8 :: "byte \<Rightarrow> valtype" where "ser_u8 a = [a]"
definition ser_u16 :: "u16 \<Rightarrow> valtype" where "ser_u16 a = le_bytes 2 (unat a)"
definition ser_u32 :: "u32 \<Rightarrow> valtype" where "ser_u32 a = le_bytes 4 (unat a)"
definition ser_u64 :: "u64 \<Rightarrow> valtype" where "ser_u64 a = le_bytes 8 (unat a)"
definition ser_uint256 :: "uint256 \<Rightarrow> valtype" where "ser_uint256 a = le_bytes 32 (unat a)"
definition ser_uint160 :: "uint160 \<Rightarrow> valtype" where "ser_uint160 a = le_bytes 20 (unat a)"
definition ser_i32 :: "int \<Rightarrow> valtype" where "ser_i32 a = le_bytes 4 (nat (a mod 2 ^ 32))"
definition ser_i64 :: "int \<Rightarrow> valtype" where "ser_i64 a = le_bytes 8 (nat (a mod 2 ^ 64))"
definition ser_bool :: "bool \<Rightarrow> valtype" where "ser_bool a = [if a then 1 else 0]"

definition unser_u8 :: "byte reader" where
  "unser_u8 s = rbind (READDATA 1 s) (\<lambda>b r. Inr (of_nat (le_nat b), r))"
definition unser_u16 :: "u16 reader" where
  "unser_u16 s = rbind (READDATA 2 s) (\<lambda>b r. Inr (of_nat (le_nat b), r))"
definition unser_u32 :: "u32 reader" where
  "unser_u32 s = rbind (READDATA 4 s) (\<lambda>b r. Inr (of_nat (le_nat b), r))"
definition unser_u64 :: "u64 reader" where
  "unser_u64 s = rbind (READDATA 8 s) (\<lambda>b r. Inr (of_nat (le_nat b), r))"
definition unser_uint256 :: "uint256 reader" where
  "unser_uint256 s = rbind (READDATA 32 s) (\<lambda>b r. Inr (of_nat (le_nat b), r))"
definition unser_uint160 :: "uint160 reader" where
  "unser_uint160 s = rbind (READDATA 20 s) (\<lambda>b r. Inr (of_nat (le_nat b), r))"
definition unser_i32 :: "int reader" where
  "unser_i32 s = rbind (READDATA 4 s) (\<lambda>b r. Inr (s32 (int (le_nat b)), r))"
definition unser_i64 :: "int reader" where
  "unser_i64 s = rbind (READDATA 8 s) (\<lambda>b r. Inr (s64 (int (le_nat b)), r))"
definition unser_bool :: "bool reader" where
  "unser_bool s = rbind (READDATA 1 s) (\<lambda>b r. Inr (le_nat b \<noteq> 0, r))"

section \<open>Compact sizes\<close>

definition GetSizeOfCompactSize :: "u64 \<Rightarrow> nat" where
  "GetSizeOfCompactSize nSize =
     (if nSize < 253 then 1
      else if nSize \<le> 0xffff then 1 + 2
      else if nSize \<le> 0xffffffff then 1 + 4
      else 1 + 8)"

definition WriteCompactSize :: "u64 \<Rightarrow> valtype" where
  "WriteCompactSize nSize =
     (if nSize < 253 then ser_u8 (ucast nSize)
      else if nSize \<le> 0xffff then ser_u8 253 @ ser_u16 (ucast nSize)
      else if nSize \<le> 0xffffffff then ser_u8 254 @ ser_u32 (ucast nSize)
      else ser_u8 255 @ ser_u64 nSize)"

definition size_limit :: "u64 \<Rightarrow> u64 reader" where
  "size_limit nSizeRet s = (if unat nSizeRet > MAX_SIZE then Inl SizeTooLarge else Inr (nSizeRet, s))"

definition ReadCompactSize :: "u64 reader" where
  "ReadCompactSize is = rbind (unser_u8 is) (\<lambda>chSize is.
     if chSize < 253 then size_limit (ucast chSize) is
     else if chSize = 253 then rbind (unser_u16 is) (\<lambda>xSize is.
       if (ucast xSize :: u64) < 253 then Inl NonCanonical else size_limit (ucast xSize) is)
     else if chSize = 254 then rbind (unser_u32 is) (\<lambda>xSize is.
       if (ucast xSize :: u64) < 0x10000 then Inl NonCanonical else size_limit (ucast xSize) is)
     else rbind (unser_u64 is) (\<lambda>xSize is.
       if xSize < 0x100000000 then Inl NonCanonical else size_limit xSize is))"

section \<open>Strings, vectors, pairs, maps and sets\<close>

definition ser_string :: "valtype \<Rightarrow> valtype" where
  "ser_string str = WriteCompactSize (of_nat (length str)) @ (if str \<noteq> [] then str else [])"

definition unser_string :: "valtype reader" where
  "unser_string is = rbind (ReadCompactSize is) (\<lambda>n is.
     let nSize = unat (ucast n :: u32) in if nSize \<noteq> 0 then READDATA nSize is else Inr ([], is))"

text \<open>Vectors of fundamental elements are read in blocks of at most five million bytes (here for
  \<^verbatim>\<open>unsigned char\<close>, \<^verbatim>\<open>sizeof(T) = 1\<close>), so that a bogus size cannot exhaust memory.\<close>

definition ser_bytes :: "valtype \<Rightarrow> valtype" where
  "ser_bytes v = WriteCompactSize (of_nat (length v)) @ (if v \<noteq> [] then v else [])"

function unser_blocks :: "nat \<Rightarrow> nat \<Rightarrow> valtype \<Rightarrow> valtype reader" where
  "unser_blocks nSize i v is =
     (if i < nSize then
        let blk = min (nSize - i) (1 + 4999999 div 1) in
        rbind (READDATA blk is) (\<lambda>b is. unser_blocks nSize (i + blk) (v @ b) is)
      else Inr (v, is))"
  by pat_completeness auto
termination by (relation "measure (\<lambda>(nSize, i, v, is). nSize - i)") auto

definition unser_bytes :: "valtype reader" where
  "unser_bytes is = rbind (ReadCompactSize is) (\<lambda>n is. unser_blocks (unat (ucast n :: u32)) 0 [] is)"

text \<open>Vectors of other elements: the vector grows in steps of \<^verbatim>\<open>5000000 / sizeof(T)\<close>
  elements, written \<^verbatim>\<open>step\<close>; no element type is larger than that, so the step is positive.\<close>

definition ser_vector :: "('a \<Rightarrow> valtype) \<Rightarrow> 'a list \<Rightarrow> valtype" where
  "ser_vector ser v = WriteCompactSize (of_nat (length v)) @ concat (map ser v)"

fun unser_each :: "'a reader \<Rightarrow> nat \<Rightarrow> 'a list \<Rightarrow> 'a list reader" where
  "unser_each unser 0 v is = Inr (v, is)"
| "unser_each unser (Suc k) v is = rbind (unser is) (\<lambda>x is. unser_each unser k (v @ [x]) is)"

function unser_grow :: "nat \<Rightarrow> 'a reader \<Rightarrow> nat \<Rightarrow> nat \<Rightarrow> 'a list \<Rightarrow> 'a list reader" where
  "unser_grow step unser nSize nMid v is =
     (if nMid < nSize \<and> 0 < step then
        let nMid' = (if nMid + step > nSize then nSize else nMid + step) in
        rbind (unser_each unser (nMid' - nMid) v is) (\<lambda>v is. unser_grow step unser nSize nMid' v is)
      else Inr (v, is))"
  by pat_completeness auto
termination by (relation "measure (\<lambda>(step, unser, nSize, nMid, v, is). nSize - nMid)") auto

definition unser_vector :: "nat \<Rightarrow> 'a reader \<Rightarrow> 'a list reader" where
  "unser_vector step unser is =
     rbind (ReadCompactSize is) (\<lambda>n is. unser_grow step unser (unat (ucast n :: u32)) 0 [] is)"

definition ser_pair :: "('a \<Rightarrow> valtype) \<Rightarrow> ('b \<Rightarrow> valtype) \<Rightarrow> 'a \<times> 'b \<Rightarrow> valtype" where
  "ser_pair serK serT item = serK (fst item) @ serT (snd item)"

definition unser_pair :: "'a reader \<Rightarrow> 'b reader \<Rightarrow> ('a \<times> 'b) reader" where
  "unser_pair unK unT is = rbind (unK is) (\<lambda>k is. rbind (unT is) (\<lambda>t is. Inr ((k, t), is)))"

text \<open>A \<^verbatim>\<open>std::map\<close> is the list of its pairs in key order; \<^verbatim>\<open>insert\<close> leaves a
  present key alone.  A \<^verbatim>\<open>std::set\<close> is the ordered list of its keys.\<close>

fun map_insert :: "'k :: linorder \<times> 't \<Rightarrow> ('k \<times> 't) list \<Rightarrow> ('k \<times> 't) list" where
  "map_insert kt [] = [kt]"
| "map_insert kt (kt' # m) =
     (if fst kt < fst kt' then kt # kt' # m
      else if fst kt = fst kt' then kt' # m
      else kt' # map_insert kt m)"

definition ser_map :: "('k \<Rightarrow> valtype) \<Rightarrow> ('t \<Rightarrow> valtype) \<Rightarrow> ('k \<times> 't) list \<Rightarrow> valtype" where
  "ser_map serK serT m = WriteCompactSize (of_nat (length m)) @ concat (map (ser_pair serK serT) m)"

fun unser_map_items :: "('k :: linorder \<times> 't) reader \<Rightarrow> nat \<Rightarrow> ('k \<times> 't) list \<Rightarrow> ('k \<times> 't) list reader" where
  "unser_map_items unser 0 m is = Inr (m, is)"
| "unser_map_items unser (Suc n) m is =
     rbind (unser is) (\<lambda>item is. unser_map_items unser n (map_insert item m) is)"

definition unser_map :: "'k :: linorder reader \<Rightarrow> 't reader \<Rightarrow> ('k \<times> 't) list reader" where
  "unser_map unK unT is = rbind (ReadCompactSize is)
     (\<lambda>n is. unser_map_items (unser_pair unK unT) (unat (ucast n :: u32)) [] is)"

definition ser_set :: "('k \<Rightarrow> valtype) \<Rightarrow> 'k list \<Rightarrow> valtype" where
  "ser_set ser m = WriteCompactSize (of_nat (length m)) @ concat (map ser m)"

fun unser_set_items :: "'k :: linorder reader \<Rightarrow> nat \<Rightarrow> 'k list \<Rightarrow> 'k list reader" where
  "unser_set_items unser 0 m is = Inr (m, is)"
| "unser_set_items unser (Suc n) m is = rbind (unser is) (\<lambda>k is.
     unser_set_items unser n (map fst (map_insert (k, ()) (map (\<lambda>x. (x, ())) m))) is)"

definition unser_set :: "'k :: linorder reader \<Rightarrow> 'k list reader" where
  "unser_set unser is = rbind (ReadCompactSize is) (\<lambda>n is. unser_set_items unser (unat (ucast n :: u32)) [] is)"

declare unser_blocks.simps [simp del] unser_grow.simps [simp del]

section \<open>The stream class\<close>

record CDataStream =
  ds_vch :: valtype
  ds_nReadPos :: u32
  ds_state :: u16
  ds_exceptmask :: u16
  ds_nType :: int
  ds_nVersion :: int

text \<open>The bits of \<^verbatim>\<open>std::ios\<close> the class uses.\<close>

definition badbit :: u16 where "badbit = 1"
definition failbit :: u16 where "failbit = 4"

definition ds_Init :: "valtype \<Rightarrow> int \<Rightarrow> int \<Rightarrow> CDataStream" where
  "ds_Init v t n = \<lparr> ds_vch = v, ds_nReadPos = 0, ds_state = 0, ds_exceptmask = badbit OR failbit, ds_nType = t, ds_nVersion = n \<rparr>"

definition ds_data :: "CDataStream \<Rightarrow> valtype" where
  "ds_data s = drop (unat (ds_nReadPos s)) (ds_vch s)"

definition ds_size :: "CDataStream \<Rightarrow> nat" where
  "ds_size s = length (ds_vch s) - unat (ds_nReadPos s)"

definition ds_append :: "CDataStream \<Rightarrow> CDataStream \<Rightarrow> CDataStream" where
  "ds_append s b = s\<lparr>ds_vch := ds_vch s @ ds_data b\<rparr>"

definition ds_setstate :: "u16 \<Rightarrow> CDataStream \<Rightarrow> ser_error + CDataStream" where
  "ds_setstate bits s =
     (let s = s\<lparr>ds_state := ds_state s OR bits\<rparr> in
      if ds_state s AND ds_exceptmask s \<noteq> 0 then Inl EndOfData else Inr s)"

definition ds_read :: "nat \<Rightarrow> CDataStream \<Rightarrow> ser_error + valtype \<times> CDataStream" where
  "ds_read nSize s =
     (let nReadPosNext = ds_nReadPos s + of_nat nSize in
      if unat nReadPosNext \<ge> length (ds_vch s) then
        if unat nReadPosNext > length (ds_vch s) then
          (case ds_setstate failbit s of
             Inl e \<Rightarrow> Inl e
           | Inr s \<Rightarrow>
               Inr (ds_data s @ replicate (nSize - length (ds_data s)) 0, s\<lparr>ds_nReadPos := 0, ds_vch := []\<rparr>))
        else Inr (take nSize (ds_data s), s\<lparr>ds_nReadPos := 0, ds_vch := []\<rparr>)
      else Inr (take nSize (ds_data s), s\<lparr>ds_nReadPos := nReadPosNext\<rparr>))"

definition ds_ignore :: "nat \<Rightarrow> CDataStream \<Rightarrow> ser_error + CDataStream" where
  "ds_ignore nSize s =
     (let nReadPosNext = ds_nReadPos s + of_nat nSize in
      if unat nReadPosNext \<ge> length (ds_vch s) then
        (case (if unat nReadPosNext > length (ds_vch s) then ds_setstate failbit s else Inr s) of
           Inl e \<Rightarrow> Inl e
         | Inr s \<Rightarrow> Inr (s\<lparr>ds_nReadPos := 0, ds_vch := []\<rparr>))
      else Inr (s\<lparr>ds_nReadPos := nReadPosNext\<rparr>))"

definition ds_write :: "valtype \<Rightarrow> CDataStream \<Rightarrow> CDataStream" where
  "ds_write b s = s\<lparr>ds_vch := ds_vch s @ b\<rparr>"

definition ds_Compact :: "CDataStream \<Rightarrow> CDataStream" where
  "ds_Compact s = s\<lparr>ds_vch := drop (unat (ds_nReadPos s)) (ds_vch s), ds_nReadPos := 0\<rparr>"

definition ds_Rewind :: "nat \<Rightarrow> CDataStream \<Rightarrow> bool \<times> CDataStream" where
  "ds_Rewind n s = (if n > unat (ds_nReadPos s) then (False, s) else (True, s\<lparr>ds_nReadPos := ds_nReadPos s - of_nat n\<rparr>))"

definition ds_Serialize :: "CDataStream \<Rightarrow> valtype" where
  "ds_Serialize s = (if ds_vch s \<noteq> [] then ds_vch s else [])"

definition ds_GetAndClear :: "CDataStream \<Rightarrow> valtype \<times> CDataStream" where
  "ds_GetAndClear s = (ds_data s, s\<lparr>ds_vch := [], ds_nReadPos := 0\<rparr>)"

definition GetSerializeSize_bytes :: "valtype \<Rightarrow> nat" where
  "GetSerializeSize_bytes v = GetSizeOfCompactSize (of_nat (length v)) + length v * 1"

definition GetSerializeSize_vector :: "('a \<Rightarrow> nat) \<Rightarrow> 'a list \<Rightarrow> nat" where
  "GetSerializeSize_vector sz v = foldl (\<lambda>nSize x. nSize + sz x) (GetSizeOfCompactSize (of_nat (length v))) v"

section \<open>Fundamental types are codecs\<close>

lemma rbind_simps [simp]: "rbind (Inl e) f = Inl e" "rbind (Inr (x, s)) f = f x s"
  by (simp_all add: rbind_def)

lemma rbind_Inr: "rbind q f = Inr y \<longleftrightarrow> (\<exists>x s. q = Inr (x, s) \<and> f x s = Inr y)"
  by (auto simp: rbind_def split: sum.splits)

lemma rbind_assoc: "rbind (rbind q f) g = rbind q (\<lambda>x s. rbind (f x s) g)"
  by (auto simp: rbind_def split: sum.splits)

lemma READDATA_append [simp]: "length b = n \<Longrightarrow> READDATA n (b @ s) = Inr (b, s)"
  by (auto simp: READDATA_def)

lemma READDATA_Inr: "READDATA n s = Inr (b, s') \<longleftrightarrow> s = b @ s' \<and> length b = n"
  by (auto simp: READDATA_def)

lemma ser_lengths [simp]:
  "length (ser_u8 a8) = 1" "length (ser_u16 a16) = 2" "length (ser_u32 a32) = 4" "length (ser_u64 a64) = 8"
  "length (ser_uint256 a256) = 32" "length (ser_uint160 a160) = 20" "length (ser_i32 i) = 4"
  "length (ser_i64 i) = 8" "length (ser_bool b) = 1"
  by (simp_all add: ser_u8_def ser_u16_def ser_u32_def ser_u64_def ser_uint256_def ser_uint160_def
      ser_i32_def ser_i64_def ser_bool_def)

locale codec =
  fixes ser :: "'a \<Rightarrow> valtype" and unser :: "'a reader" and ok :: "'a \<Rightarrow> bool"
  assumes unser_ser: "ok x \<Longrightarrow> unser (ser x @ r) = Inr (x, r)"
    and ser_unser: "unser s = Inr (x, r) \<Longrightarrow> s = ser x @ r \<and> ok x"
begin

lemma unser_iff: "unser s = Inr (x, r) \<longleftrightarrow> s = ser x @ r \<and> ok x"
  using unser_ser ser_unser by blast

lemma prefix_free: "ok x \<Longrightarrow> ok y \<Longrightarrow> ser x @ r = ser y @ r' \<Longrightarrow> x = y \<and> r = r'"
  using unser_ser [of x r] unser_ser [of y r'] by (metis Inr_inject Pair_inject)

lemma ser_inject: "ok x \<Longrightarrow> ok y \<Longrightarrow> ser x = ser y \<longleftrightarrow> x = y"
  using prefix_free [of x y "[]" "[]"] by metis

lemma unser_each_ser:
  "list_all ok xs \<Longrightarrow> unser_each unser (length xs) v (concat (map ser xs) @ r) = Inr (v @ xs, r)"
  by (induction xs arbitrary: v) (auto simp: unser_ser)

lemma unser_each_unser:
  "unser_each unser n v s = Inr (w, r) \<Longrightarrow>
     \<exists>xs. w = v @ xs \<and> length xs = n \<and> list_all ok xs \<and> s = concat (map ser xs) @ r"
proof (induction n arbitrary: v s)
  case (Suc n)
  then obtain x s' where x: "unser s = Inr (x, s')" "unser_each unser n (v @ [x]) s' = Inr (w, r)"
    by (auto simp: rbind_Inr)
  then obtain xs where "w = (v @ [x]) @ xs" "length xs = n" "list_all ok xs" "s' = concat (map ser xs) @ r"
    using Suc.IH by blast
  with ser_unser [OF x(1)] show ?case by (intro exI [of _ "x # xs"]) auto
qed auto

end

lemma codec_fixed:
  assumes "\<And>x. length (ser x) = n" "\<And>x. dec (ser x) = x" "\<And>b. length b = n \<Longrightarrow> ser (dec b) = b"
  shows "codec ser (\<lambda>s. rbind (READDATA n s) (\<lambda>b r. Inr (dec b, r))) (\<lambda>x. True)"
proof
  fix x r show "rbind (READDATA n (ser x @ r)) (\<lambda>b r. Inr (dec b, r)) = Inr (x, r)"
    by (simp add: assms(1,2))
next
  fix s x r assume "rbind (READDATA n s) (\<lambda>b r. Inr (dec b, r)) = Inr (x, r)"
  then obtain b where "READDATA n s = Inr (b, r)" "x = dec b" by (auto simp: rbind_Inr)
  then show "s = ser x @ r \<and> True" using assms(3) [of b] by (simp add: READDATA_Inr)
qed

lemma le_bytes_word: "length b = k \<Longrightarrow> 8 * k = LENGTH('a :: len) \<Longrightarrow> le_bytes k (unat (of_nat (le_nat b) :: 'a word)) = b"
proof -
  assume k: "length b = k" "8 * k = LENGTH('a)"
  have "le_nat b < 256 ^ k" using le_nat_less [of b] k by simp
  also have "(256 :: nat) ^ k = 2 ^ LENGTH('a)" by (simp add: k(2) [symmetric] power_mult)
  finally show ?thesis using k le_bytes_nat [of b] by (simp add: unat_of_nat)
qed

lemma le_nat_word: "8 * k = LENGTH('a :: len) \<Longrightarrow> of_nat (le_nat (le_bytes k (unat (x :: 'a word)))) = x"
proof -
  assume k: "8 * k = LENGTH('a)"
  have "(256 :: nat) ^ k = 2 ^ LENGTH('a)" by (simp add: k [symmetric] power_mult)
  then have "le_nat (le_bytes k (unat x)) = unat x"
    using unsigned_less [of x, where 'a = nat] by (simp add: le_nat_bytes)
  then show ?thesis by simp
qed

lemma codec_word:
  assumes "8 * k = LENGTH('a :: len)"
  shows "codec (\<lambda>x :: 'a word. le_bytes k (unat x)) (\<lambda>s. rbind (READDATA k s) (\<lambda>b r. Inr (of_nat (le_nat b), r))) (\<lambda>x. True)"
  by (rule codec_fixed) (simp_all add: assms le_nat_word le_bytes_word)

lemma le_bytes_2: "le_bytes 2 x = [of_nat x, of_nat (x div 256)]"
proof -
  have "(2 :: nat) = Suc (Suc 0)" by simp
  then show ?thesis by (simp only: le_bytes.simps)
qed

lemma ser_u8_le: "ser_u8 = (\<lambda>a. le_bytes 1 (unat a))"
  by (rule ext) (simp add: ser_u8_def)

interpretation u8: codec ser_u8 unser_u8 "\<lambda>x. True"
  unfolding ser_u8_le unser_u8_def [abs_def] by (rule codec_word) simp

interpretation u16: codec ser_u16 unser_u16 "\<lambda>x. True"
  unfolding ser_u16_def [abs_def] unser_u16_def [abs_def] by (rule codec_word) simp

interpretation u32: codec ser_u32 unser_u32 "\<lambda>x. True"
  unfolding ser_u32_def [abs_def] unser_u32_def [abs_def] by (rule codec_word) simp

interpretation u64: codec ser_u64 unser_u64 "\<lambda>x. True"
  unfolding ser_u64_def [abs_def] unser_u64_def [abs_def] by (rule codec_word) simp

interpretation c256: codec ser_uint256 unser_uint256 "\<lambda>x. True"
  unfolding ser_uint256_def [abs_def] unser_uint256_def [abs_def] by (rule codec_word) simp

interpretation c160: codec ser_uint160 unser_uint160 "\<lambda>x. True"
  unfolding ser_uint160_def [abs_def] unser_uint160_def [abs_def] by (rule codec_word) simp

lemma nat_mod_bound: "0 < k \<Longrightarrow> nat (a mod int k) < k"
  by (metis nat_int nat_mono_iff of_nat_0_less_iff pos_mod_bound)

lemma s32_wrap: "s32 (a mod 2 ^ 32) = s32 a" "s32 a mod 2 ^ 32 = a mod 2 ^ 32" "int32_range (s32 a)"
proof -
  show "s32 (a mod 2 ^ 32) = s32 a" unfolding s32_def by (simp only: mod_add_left_eq)
  show "s32 a mod 2 ^ 32 = a mod 2 ^ 32" unfolding s32_def mod_diff_left_eq by simp
  have "0 \<le> (a + 2 ^ 31) mod 2 ^ 32" and "(a + 2 ^ 31) mod 2 ^ 32 < (2 ^ 32 :: int)" by simp_all
  then show "int32_range (s32 a)" by (simp add: s32_def int32_range_def)
qed

lemma s64_wrap: "s64 (a mod 2 ^ 64) = s64 a" "s64 a mod 2 ^ 64 = a mod 2 ^ 64"
  unfolding s64_def by (simp only: mod_add_left_eq) (simp only: mod_diff_left_eq, simp)

interpretation i32: codec ser_i32 unser_i32 int32_range
proof
  fix a r assume a: "int32_range a"
  have "nat (a mod 2 ^ 32) < 256 ^ 4" using nat_mod_bound [of "2 ^ 32" a] by simp
  then have "int (le_nat (ser_i32 a)) = a mod 2 ^ 32" by (simp add: ser_i32_def le_nat_bytes_id)
  then show "unser_i32 (ser_i32 a @ r) = Inr (a, r)"
    using s32_wrap(1) [of a] s32_id [OF a] by (simp add: unser_i32_def)
next
  fix s a r assume "unser_i32 s = Inr (a, r)"
  then obtain b where b: "s = b @ r" "length b = 4" "a = s32 (int (le_nat b))"
    by (auto simp: unser_i32_def rbind_Inr READDATA_Inr)
  have "int (le_nat b) < 2 ^ 32" using le_nat_less [of b] b(2) by simp
  then have "a mod 2 ^ 32 = int (le_nat b)" unfolding b(3) s32_wrap(2) by simp
  then have "ser_i32 a = b" using le_bytes_nat [of b] b by (simp add: ser_i32_def)
  then show "s = ser_i32 a @ r \<and> int32_range a" using b s32_wrap(3) by simp
qed

interpretation i64: codec ser_i64 unser_i64 int64_range
proof
  fix a r assume a: "int64_range a"
  have "nat (a mod 2 ^ 64) < 256 ^ 8" using nat_mod_bound [of "2 ^ 64" a] by simp
  then have "int (le_nat (ser_i64 a)) = a mod 2 ^ 64" by (simp add: ser_i64_def le_nat_bytes_id)
  then show "unser_i64 (ser_i64 a @ r) = Inr (a, r)"
    using s64_wrap(1) [of a] s64_id [OF a] by (simp add: unser_i64_def)
next
  fix s a r assume "unser_i64 s = Inr (a, r)"
  then obtain b where b: "s = b @ r" "length b = 8" "a = s64 (int (le_nat b))"
    by (auto simp: unser_i64_def rbind_Inr READDATA_Inr)
  have "int (le_nat b) < 2 ^ 64" using le_nat_less [of b] b(2) by simp
  then have "a mod 2 ^ 64 = int (le_nat b)" unfolding b(3) s64_wrap(2) by simp
  then have "ser_i64 a = b" using le_bytes_nat [of b] b by (simp add: ser_i64_def)
  then show "s = ser_i64 a @ r \<and> int64_range a" using b s64_range by simp
qed

section \<open>Compact sizes are codecs\<close>

lemma unat_ucast_less: "unat (x :: 'a :: len word) < 2 ^ LENGTH('b :: len) \<Longrightarrow> unat (ucast x :: 'b word) = unat x"
  by (simp add: unsigned_ucast_eq take_bit_nat_eq_self)

lemma ucast_ucast_less: "unat (x :: 'a :: len word) < 2 ^ LENGTH('b :: len) \<Longrightarrow> ucast (ucast x :: 'b word) = x"
  by (metis unat_ucast_less unsigned_less word_unat_eq_iff)

lemma byte_ge_253: "\<not> (c :: byte) < 253 \<Longrightarrow> c = 253 \<or> c = 254 \<or> c = 255"
proof -
  assume "\<not> c < 253"
  then have "253 \<le> unat c" by (simp add: word_less_nat_alt)
  moreover have "unat c < 256" by (rule unat_byte_less)
  ultimately have "unat c = 253 \<or> unat c = 254 \<or> unat c = 255" by linarith
  then show ?thesis by (simp add: word_unat_eq_iff)
qed

interpretation csize: codec WriteCompactSize ReadCompactSize "\<lambda>n. unat n \<le> MAX_SIZE"
proof
  fix n :: u64 and r assume n: "unat n \<le> MAX_SIZE"
  consider "n < 253" | "\<not> n < 253" "n \<le> 0xffff" | "\<not> n \<le> 0xffff" "n \<le> 0xffffffff" | "\<not> n \<le> 0xffffffff"
    by blast
  then show "ReadCompactSize (WriteCompactSize n @ r) = Inr (n, r)"
  proof cases
    case 1
    then have "unat n < 253" by (simp add: word_less_nat_alt)
    with 1 n show ?thesis
      by (simp add: WriteCompactSize_def ReadCompactSize_def u8.unser_ser size_limit_def
          ucast_ucast_less word_less_nat_alt unat_ucast_less)
  next
    case 2
    then have "unat n \<le> 0xffff" by (simp add: word_le_nat_alt)
    with 2 n show ?thesis
      by (simp add: WriteCompactSize_def ReadCompactSize_def u8.unser_ser u16.unser_ser size_limit_def ucast_ucast_less)
  next
    case 3
    then have "unat n \<le> 0xffffffff" "\<not> n < 253" "\<not> n < 0x10000" by (simp_all add: word_le_nat_alt word_less_nat_alt)
    with 3 n show ?thesis
      by (simp add: WriteCompactSize_def ReadCompactSize_def u8.unser_ser u32.unser_ser size_limit_def ucast_ucast_less)
  next
    case 4
    then show ?thesis using n by (simp add: word_le_nat_alt MAX_SIZE_def)
  qed
next
  fix s n r assume "ReadCompactSize s = Inr (n, r)"
  then obtain c s1 where c: "s = ser_u8 c @ s1"
    and h: "(if c < 253 then size_limit (ucast c) s1
       else if c = 253 then rbind (unser_u16 s1) (\<lambda>x t. if (ucast x :: u64) < 253 then Inl NonCanonical else size_limit (ucast x) t)
       else if c = 254 then rbind (unser_u32 s1) (\<lambda>x t. if (ucast x :: u64) < 0x10000 then Inl NonCanonical else size_limit (ucast x) t)
       else rbind (unser_u64 s1) (\<lambda>x t. if x < 0x100000000 then Inl NonCanonical else size_limit x t)) = Inr (n, r)"
    by (auto simp: ReadCompactSize_def rbind_Inr u8.unser_iff)
  show "s = WriteCompactSize n @ r \<and> unat n \<le> MAX_SIZE"
  proof (cases "c < 253")
    case True
    then have "n = ucast c" "s1 = r" "unat n \<le> MAX_SIZE" using h by (auto simp: size_limit_def split: if_splits)
    moreover have "(ucast c :: u64) < 253" using True by (simp add: word_less_nat_alt unat_ucast_less order_less_trans [OF unat_byte_less])
    ultimately show ?thesis using c
      by (simp add: WriteCompactSize_def ucast_ucast_less order_less_trans [OF unat_byte_less])
  next
    case False
    then consider "c = 253" | "c = 254" | "c = 255" using byte_ge_253 [of c] by blast
    then show ?thesis
    proof cases
      case 1
      then obtain x :: u16 where x: "s1 = ser_u16 x @ r" "n = ucast x" "\<not> (ucast x :: u64) < 253" "unat n \<le> MAX_SIZE"
        using h by (auto simp: rbind_Inr u16.unser_iff size_limit_def split: if_splits)
      then show ?thesis using c 1 unsigned_less [of x, where 'a = nat]
        by (simp add: WriteCompactSize_def word_le_nat_alt unat_ucast_less ucast_ucast_less)
    next
      case 2
      then obtain x :: u32 where x: "s1 = ser_u32 x @ r" "n = ucast x" "\<not> (ucast x :: u64) < 0x10000" "unat n \<le> MAX_SIZE"
        using h by (auto simp: rbind_Inr u32.unser_iff size_limit_def split: if_splits)
      then show ?thesis using c 2 unsigned_less [of x, where 'a = nat]
        by (simp add: WriteCompactSize_def word_le_nat_alt word_less_nat_alt unat_ucast_less ucast_ucast_less)
    next
      case 3
      then have "\<not> n < 0x100000000" "unat n \<le> MAX_SIZE"
        using h by (auto simp: rbind_Inr u64.unser_iff size_limit_def split: if_splits)
      then show ?thesis by (simp add: word_less_nat_alt MAX_SIZE_def)
    qed
  qed
qed

lemma length_WriteCompactSize: "length (WriteCompactSize n) = GetSizeOfCompactSize n"
  by (simp add: WriteCompactSize_def GetSizeOfCompactSize_def)

section \<open>Containers are codecs\<close>

text \<open>A size that passed \<^verbatim>\<open>ReadCompactSize\<close> fits the \<^verbatim>\<open>unsigned int\<close> it is stored in.\<close>

lemma size_u32: "unat (n :: u64) \<le> MAX_SIZE \<Longrightarrow> unat (ucast n :: u32) = unat n"
  by (rule unat_ucast_less) (simp add: MAX_SIZE_def)

lemma size_of_nat: "n \<le> MAX_SIZE \<Longrightarrow> unat (of_nat n :: u64) = n"
  by (simp add: unat_of_nat MAX_SIZE_def)

lemma READDATA_add:
  "READDATA (a + b) s = rbind (READDATA a s) (\<lambda>x s. rbind (READDATA b s) (\<lambda>y s. Inr (x @ y, s)))"
  by (auto simp: READDATA_def take_add add.commute)

lemma unser_blocks_whole:
  "i \<le> nSize \<Longrightarrow> unser_blocks nSize i v s = rbind (READDATA (nSize - i) s) (\<lambda>b s. Inr (v @ b, s))"
proof (induction nSize i v s rule: unser_blocks.induct)
  case (1 nSize i v s)
  let ?blk = "min (nSize - i) (1 + 4999999 div 1)"
  show ?case
  proof (cases "i < nSize")
    case True
    then have le: "i + ?blk \<le> nSize" by simp
    have "unser_blocks nSize i v s = rbind (READDATA ?blk s) (\<lambda>b t. unser_blocks nSize (i + ?blk) (v @ b) t)"
      using True by (simp add: unser_blocks.simps [of nSize i] Let_def)
    also have "\<dots> = rbind (READDATA ?blk s) (\<lambda>b t. rbind (READDATA (nSize - (i + ?blk)) t) (\<lambda>c u. Inr ((v @ b) @ c, u)))"
      using 1(1) [OF True refl le] by (simp only:)
    also have "\<dots> = rbind (READDATA (nSize - i) s) (\<lambda>b s. Inr (v @ b, s))"
    proof -
      have e: "nSize - i = ?blk + (nSize - (i + ?blk))" using True by simp
      show ?thesis unfolding arg_cong [OF e, of READDATA] READDATA_add rbind_assoc by simp
    qed
    finally show ?thesis .
  next
    case False
    with 1(2) show ?thesis by (subst unser_blocks.simps) (simp add: READDATA_def)
  qed
qed

interpretation bytes: codec ser_bytes unser_bytes "\<lambda>v. length v \<le> MAX_SIZE"
proof
  fix v r assume "length (v :: valtype) \<le> MAX_SIZE"
  then show "unser_bytes (ser_bytes v @ r) = Inr (v, r)"
    by (simp add: unser_bytes_def ser_bytes_def csize.unser_ser size_u32 size_of_nat unser_blocks_whole)
next
  fix s v r assume "unser_bytes s = Inr (v, r)"
  then obtain n s1 where n: "ReadCompactSize s = Inr (n, s1)" "unser_blocks (unat (ucast n :: u32)) 0 [] s1 = Inr (v, r)"
    by (auto simp: unser_bytes_def rbind_Inr)
  have le: "unat n \<le> MAX_SIZE" and s: "s = WriteCompactSize n @ s1" using csize.ser_unser [OF n(1)] by auto
  have v: "s1 = v @ r" "length v = unat n" using n(2) le by (auto simp: unser_blocks_whole size_u32 rbind_Inr READDATA_Inr)
  have "of_nat (length v) = n" by (simp add: v(2))
  then show "s = ser_bytes v @ r \<and> length v \<le> MAX_SIZE" using s v le by (simp add: ser_bytes_def)
qed

lemma unser_each_add:
  "unser_each unser (m + n) v s = rbind (unser_each unser m v s) (\<lambda>v s. unser_each unser n v s)"
  by (induction m arbitrary: v s) (auto simp: rbind_def split: sum.splits)

lemma unser_grow_each:
  "0 < step \<Longrightarrow> nMid \<le> nSize \<Longrightarrow> unser_grow step unser nSize nMid v s = unser_each unser (nSize - nMid) v s"
proof (induction step unser nSize nMid v s rule: unser_grow.induct)
  case (1 step unser nSize nMid v s)
  let ?m = "if nMid + step > nSize then nSize else nMid + step"
  show ?case
  proof (cases "nMid < nSize")
    case True
    have g: "unser_grow step unser nSize nMid v s
        = rbind (unser_each unser (?m - nMid) v s) (\<lambda>v s. unser_grow step unser nSize ?m v s)"
      using True 1(2) by (simp add: unser_grow.simps [of step unser nSize nMid] Let_def)
    have ih: "unser_grow step unser nSize ?m v' s' = unser_each unser (nSize - ?m) v' s'" for v' s'
      using 1(1) [OF _ refl, of v' s'] True 1(2) by auto
    have "nSize - nMid = (?m - nMid) + (nSize - ?m)" using True by simp
    then show ?thesis unfolding g ih using unser_each_add by metis
  next
    case False
    with 1(3) show ?thesis by (subst unser_grow.simps) simp
  qed
qed

lemma codec_vector:
  assumes "codec ser unser ok" and "0 < step"
  shows "codec (ser_vector ser) (unser_vector step unser) (\<lambda>v. length v \<le> MAX_SIZE \<and> list_all ok v)"
proof
  fix v r assume v: "length v \<le> MAX_SIZE \<and> list_all ok v"
  then show "unser_vector step unser (ser_vector ser v @ r) = Inr (v, r)"
    using codec.unser_each_ser [OF assms(1), of v "[]"]
    by (simp add: unser_vector_def ser_vector_def csize.unser_ser size_u32 size_of_nat unser_grow_each assms(2))
next
  fix s v r assume "unser_vector step unser s = Inr (v, r)"
  then obtain n s1 where n: "ReadCompactSize s = Inr (n, s1)" "unser_each unser (unat (ucast n :: u32)) [] s1 = Inr (v, r)"
    by (auto simp: unser_vector_def rbind_Inr unser_grow_each assms(2))
  have le: "unat n \<le> MAX_SIZE" and s: "s = WriteCompactSize n @ s1" using csize.ser_unser [OF n(1)] by auto
  have v: "length v = unat n" "list_all ok v" "s1 = concat (map ser v) @ r"
    using codec.unser_each_unser [OF assms(1) n(2)] size_u32 [OF le] by auto
  have "of_nat (length v) = n" by (simp add: v(1))
  then show "s = ser_vector ser v @ r \<and> length v \<le> MAX_SIZE \<and> list_all ok v"
    using s v le by (simp add: ser_vector_def)
qed

lemma codec_pair:
  assumes "codec serK unK okK" and "codec serT unT okT"
  shows "codec (ser_pair serK serT) (unser_pair unK unT) (\<lambda>(k, t). okK k \<and> okT t)"
  by unfold_locales
    (auto simp: ser_pair_def unser_pair_def rbind_Inr codec.unser_iff [OF assms(1)] codec.unser_iff [OF assms(2)]
      codec.unser_ser [OF assms(1)] codec.unser_ser [OF assms(2)])

interpretation str: codec ser_string unser_string "\<lambda>v. length v \<le> MAX_SIZE"
proof
  fix v r assume "length (v :: valtype) \<le> MAX_SIZE"
  then show "unser_string (ser_string v @ r) = Inr (v, r)"
    by (simp add: unser_string_def ser_string_def csize.unser_ser size_u32 size_of_nat)
next
  fix s v r assume "unser_string s = Inr (v, r)"
  then obtain n s1 where n: "ReadCompactSize s = Inr (n, s1)"
    "(if unat (ucast n :: u32) \<noteq> 0 then READDATA (unat (ucast n :: u32)) s1 else Inr ([], s1)) = Inr (v, r)"
    by (auto simp: unser_string_def rbind_Inr Let_def)
  have le: "unat n \<le> MAX_SIZE" and s: "s = WriteCompactSize n @ s1" using csize.ser_unser [OF n(1)] by auto
  have v: "s1 = v @ r" "length v = unat n" using n(2) le by (auto simp: size_u32 READDATA_Inr split: if_splits)
  have "of_nat (length v) = n" by (simp add: v(2))
  then show "s = ser_string v @ r \<and> length v \<le> MAX_SIZE" using s v le by (simp add: ser_string_def)
qed

text \<open>Maps: reading back an ordered map rebuilds it, since each key is inserted past the others.\<close>

lemma map_insert_last: "sorted_wrt (<) (map fst m) \<Longrightarrow> list_all (\<lambda>x. fst x < k) m \<Longrightarrow> map_insert (k, t) m = m @ [(k, t)]"
  by (induction m) auto

lemma unser_map_items_ser:
  assumes "codec serK unK okK" and "codec serT unT okT"
  shows "sorted_wrt (<) (map fst (m @ xs)) \<Longrightarrow> list_all (\<lambda>(k, t). okK k \<and> okT t) xs \<Longrightarrow>
    unser_map_items (unser_pair unK unT) (length xs) m (concat (map (ser_pair serK serT) xs) @ r) = Inr (m @ xs, r)"
proof (induction xs arbitrary: m)
  case (Cons x xs)
  obtain k t where x: "x = (k, t)" by force
  have "map_insert x m = m @ [x]" using Cons.prems x
    by (auto simp: list_all_iff sorted_wrt_append intro!: map_insert_last)
  then show ?case
    using Cons.IH [of "m @ [x]"] Cons.prems x codec.unser_ser [OF codec_pair [OF assms], of x]
    by auto
qed auto

lemma unser_map_ser:
  assumes "codec serK unK okK" and "codec serT unT okT"
    and "sorted_wrt (<) (map fst m)" and "list_all (\<lambda>(k, t). okK k \<and> okT t) m" and "length m \<le> MAX_SIZE"
  shows "unser_map unK unT (ser_map serK serT m @ r) = Inr (m, r)"
  using unser_map_items_ser [OF assms(1,2), of "[]" m] assms(3-)
  by (simp add: unser_map_def ser_map_def csize.unser_ser size_u32 size_of_nat)

lemma unser_set_items_ser:
  assumes "codec ser unser ok"
  shows "sorted_wrt (<) (m @ xs) \<Longrightarrow> list_all ok xs \<Longrightarrow>
    unser_set_items unser (length xs) m (concat (map ser xs) @ r) = Inr (m @ xs, r)"
proof (induction xs arbitrary: m)
  case (Cons x xs)
  have "map_insert (x, ()) (map (\<lambda>x. (x, ())) m) = map (\<lambda>x. (x, ())) m @ [(x, ())]" using Cons.prems
    by (intro map_insert_last) (auto simp: list_all_iff sorted_wrt_append o_def)
  then show ?case
    using Cons.IH [of "m @ [x]"] Cons.prems codec.unser_ser [OF assms, of x] by (auto simp: o_def)
qed auto

lemma unser_set_ser:
  assumes "codec ser unser ok" and "sorted_wrt (<) m" and "list_all ok m" and "length m \<le> MAX_SIZE"
  shows "unser_set unser (ser_set ser m @ r) = Inr (m, r)"
  using unser_set_items_ser [OF assms(1), of "[]" m] assms(2-)
  by (simp add: unser_set_def ser_set_def csize.unser_ser size_u32 size_of_nat)

section \<open>The stream class implements the byte stream\<close>

text \<open>A stream object in use: the read position lies in the buffer, the buffer stays below two
  gigabytes, no error bit is set, and errors throw.\<close>

definition ds_ok :: "CDataStream \<Rightarrow> bool" where
  "ds_ok s \<longleftrightarrow> unat (ds_nReadPos s) \<le> length (ds_vch s) \<and> length (ds_vch s) < 2 ^ 31
     \<and> ds_state s = 0 \<and> ds_exceptmask s AND failbit \<noteq> 0"

definition ds_abs :: "ser_error + valtype \<times> CDataStream \<Rightarrow> ser_error + valtype \<times> valtype" where
  "ds_abs r = (case r of Inl e \<Rightarrow> Inl e | Inr (b, s) \<Rightarrow> Inr (b, ds_data s))"

locale byte_stream =
  fixes rd :: "nat \<Rightarrow> 's \<Rightarrow> ser_error + valtype \<times> 's" and wr :: "valtype \<Rightarrow> 's \<Rightarrow> 's"
    and data :: "'s \<Rightarrow> valtype" and inv :: "'s \<Rightarrow> bool" and room :: "'s \<Rightarrow> nat"
  assumes rd_data: "inv s \<Longrightarrow> n < 2 ^ 31 \<Longrightarrow>
      (case rd n s of Inl e \<Rightarrow> Inl e | Inr (b, s') \<Rightarrow> Inr (b, data s')) = READDATA n (data s)"
    and rd_inv: "inv s \<Longrightarrow> n < 2 ^ 31 \<Longrightarrow> rd n s = Inr (b, s') \<Longrightarrow> inv s'"
    and wr_data: "inv s \<Longrightarrow> length b \<le> room s \<Longrightarrow> data (wr b s) = data s @ b"
    and wr_inv: "inv s \<Longrightarrow> length b \<le> room s \<Longrightarrow> inv (wr b s)"
begin

lemma rd_Inr: "inv s \<Longrightarrow> n < 2 ^ 31 \<Longrightarrow> n \<le> length (data s) \<Longrightarrow>
    \<exists>s'. rd n s = Inr (take n (data s), s') \<and> data s' = drop n (data s) \<and> inv s'"
  using rd_data [of s n] rd_inv [of s n] by (auto simp: READDATA_def split: sum.splits)

lemma rd_Inl: "inv s \<Longrightarrow> n < 2 ^ 31 \<Longrightarrow> length (data s) < n \<Longrightarrow> rd n s = Inl EndOfData"
  using rd_data [of s n] by (auto simp: READDATA_def split: sum.splits)

text \<open>A stream is a queue: what was written last is read after everything that was there.\<close>

lemma wr_rd:
  assumes "inv s" "length b \<le> room s" "length (data s) + length b < 2 ^ 31"
  shows "\<exists>s' s''. rd (length (data s)) (wr b s) = Inr (data s, s') \<and> rd (length b) s' = Inr (b, s'')
    \<and> data s'' = [] \<and> inv s''"
proof -
  from assms obtain s' where 1: "rd (length (data s)) (wr b s) = Inr (data s, s')" "data s' = b" "inv s'"
    using rd_Inr [OF wr_inv [OF assms(1,2)], of "length (data s)"] wr_data [OF assms(1,2)] by auto
  with rd_Inr [OF 1(3), of "length b"] assms(3) show ?thesis by auto
qed

end

lemma ds_read_next:
  assumes "ds_ok s" "n < 2 ^ 31"
  shows "unat (ds_nReadPos s + of_nat n) = unat (ds_nReadPos s) + n"
proof -
  have "unat (ds_nReadPos s) + n < 4294967296" using assms unfolding ds_ok_def by simp
  then show ?thesis by (simp add: unat_word_ariths unat_of_nat)
qed

lemma ds_read_spec:
  assumes "ds_ok s" "n < 2 ^ 31"
  shows "ds_abs (ds_read n s) = READDATA n (ds_data s)"
    and "ds_read n s = Inr (b, s') \<Longrightarrow> ds_ok s'"
proof -
  note next_pos = ds_read_next [OF assms]
  have le: "unat (ds_nReadPos s) \<le> length (ds_vch s)" using assms by (simp add: ds_ok_def)
  have fail: "ds_setstate failbit s = Inl EndOfData" using assms
    by (simp add: ds_ok_def ds_setstate_def Let_def and.commute)
  show "ds_abs (ds_read n s) = READDATA n (ds_data s)"
    using le by (auto simp: ds_read_def ds_abs_def Let_def next_pos fail READDATA_def ds_data_def
        add.commute [of n])
  assume "ds_read n s = Inr (b, s')"
  then show "ds_ok s'" using assms
    by (auto simp: ds_read_def ds_ok_def Let_def next_pos fail split: if_splits)
qed

interpretation ds: byte_stream ds_read ds_write ds_data ds_ok "\<lambda>s. 2 ^ 31 - 1 - length (ds_vch s)"
proof
  fix s n b s' assume s: "ds_ok s" and n: "(n :: nat) < 2 ^ 31"
  show "(case ds_read n s of Inl e \<Rightarrow> Inl e | Inr (b, s') \<Rightarrow> Inr (b, ds_data s')) = READDATA n (ds_data s)"
    using ds_read_spec(1) [OF s n] by (simp add: ds_abs_def)
  show "ds_ok s'" if "ds_read n s = Inr (b, s')" using ds_read_spec(2) [OF s n that] .
next
  fix s b assume s: "ds_ok s" and b: "length (b :: valtype) \<le> 2 ^ 31 - 1 - length (ds_vch s)"
  show "ds_data (ds_write b s) = ds_data s @ b" using s by (simp add: ds_data_def ds_write_def ds_ok_def)
  show "ds_ok (ds_write b s)" using s b by (auto simp: ds_write_def ds_ok_def)
qed

lemma ds_ignore_spec:
  assumes "ds_ok s" "n < 2 ^ 31"
  shows "ds_ignore n s = (case ds_read n s of Inl e \<Rightarrow> Inl e | Inr (b, s') \<Rightarrow> Inr s')"
  using assms by (auto simp: ds_ignore_def ds_read_def Let_def split: sum.splits)

lemma ds_rewind_read:
  assumes "ds_ok s" "n < length (ds_data s)"
  shows "\<exists>s'. ds_read n s = Inr (take n (ds_data s), s') \<and> ds_Rewind n s' = (True, s)"
proof -
  have n: "n < 2 ^ 31" and lt: "unat (ds_nReadPos s) + n < length (ds_vch s)"
    using assms by (auto simp: ds_ok_def ds_data_def)
  show ?thesis using lt ds_read_next [OF assms(1) n]
    by (simp add: ds_read_def Let_def ds_Rewind_def)
qed

section \<open>Properties\<close>

text \<open>Compact sizes are canonical: every size up to \<^verbatim>\<open>MAX_SIZE\<close> is read back as written, and
  whatever \<^verbatim>\<open>ReadCompactSize\<close> accepts is the encoding \<^verbatim>\<open>WriteCompactSize\<close> produces for the
  size it returns, which is at most \<^verbatim>\<open>MAX_SIZE\<close>; the length is what
  \<^verbatim>\<open>GetSizeOfCompactSize\<close> announces.\<close>

theorem compact_size_canonical:
  "(ReadCompactSize s = Inr (n, r) \<longleftrightarrow> s = WriteCompactSize n @ r \<and> unat n \<le> MAX_SIZE)
    \<and> length (WriteCompactSize n) = GetSizeOfCompactSize n"
  by (simp add: csize.unser_iff length_WriteCompactSize)

text \<open>Byte vectors, read in blocks of five million, and vectors of any serialised element type, read
  in growing steps, are decoded exactly from their encoding: decoding accepts a byte string if and only if it
  starts with the encoding of the value it returns.\<close>

theorem vector_codec:
  assumes "codec ser unser ok" and "0 < step"
  shows "(unser_bytes s = Inr (b, r) \<longleftrightarrow> s = ser_bytes b @ r \<and> length b \<le> MAX_SIZE)
    \<and> (unser_vector step unser s = Inr (v, r) \<longleftrightarrow>
         s = ser_vector ser v @ r \<and> length v \<le> MAX_SIZE \<and> list_all ok v)"
  using bytes.unser_iff codec.unser_iff [OF codec_vector [OF assms]] by blast

theorem vector_codec_witness:
  "unser_vector 3 unser_u16 (ser_vector ser_u16 [1, 2, 0x0304, 5] @ [9]) = Inr ([1, 2, 0x0304, 5], [9])
    \<and> ser_vector ser_u16 [1, 2, 0x0304, 5] = [4, 1, 0, 2, 0, 4, 3, 5, 0]"
proof -
  have "unser_vector 3 unser_u16 (ser_vector ser_u16 [1, 2, 0x0304, 5] @ [9]) = Inr ([1, 2, 0x0304, 5], [9])"
    using vector_codec [OF u16.codec_axioms, of 3 "ser_vector ser_u16 [1, 2, 0x0304, 5] @ [9]"]
    by (simp add: MAX_SIZE_def)
  moreover have "ser_vector ser_u16 [1, 2, 0x0304, 5] = [4, 1, 0, 2, 0, 4, 3, 5, 0]"
    unfolding ser_u16_def [abs_def] le_bytes_2 by (simp add: ser_vector_def WriteCompactSize_def ser_u8_def)
  ultimately show ?thesis by blast
qed

text \<open>\<^verbatim>\<open>CDataStream\<close> is a byte queue: a read returns the front of the unread data and removes it,
  or throws when there is not enough; the read position and the clearing of an emptied buffer are invisible;
  a write appends; a read that does not empty the buffer can be rewound.\<close>

theorem datastream_queue:
  assumes "ds_ok s" and "n < 2 ^ 31"
  shows "ds_abs (ds_read n s) = READDATA n (ds_data s)
    \<and> (\<forall>b s'. ds_read n s = Inr (b, s') \<longrightarrow> ds_ok s')
    \<and> ds_data (ds_write b s) = ds_data s @ b
    \<and> ds_data (ds_Compact s) = ds_data s
    \<and> (n < length (ds_data s) \<longrightarrow> (\<exists>s'. ds_read n s = Inr (take n (ds_data s), s') \<and> ds_Rewind n s' = (True, s)))"
proof -
  have "ds_data (ds_write b s) = ds_data s @ b" "ds_data (ds_Compact s) = ds_data s"
    using assms(1) by (simp_all add: ds_data_def ds_write_def ds_Compact_def ds_ok_def)
  then show ?thesis using ds_read_spec [OF assms] ds_rewind_read [OF assms(1)] by blast
qed

theorem datastream_queue_witness:
  "ds_abs (ds_read 2 (ds_Init [1, 2, 3] 0 0)) = Inr ([1, 2], [3])
    \<and> ds_abs (ds_read 4 (ds_Init [1, 2, 3] 0 0)) = Inl EndOfData"
proof -
  have ok: "ds_ok (ds_Init [1, 2, 3] 0 0)" by (simp add: ds_ok_def ds_Init_def badbit_def failbit_def)
  show ?thesis
    using datastream_queue [OF ok, of 2] datastream_queue [OF ok, of 4]
    by (simp add: READDATA_def ds_data_def ds_Init_def)
qed

text \<open>The comment on \<^verbatim>\<open>CDataStream::Serialize\<close> says that writing a stream to a stream
  concatenates like \<^verbatim>\<open>+=\<close>; it does so exactly when nothing has been read from the stream, because the
  bytes already consumed are written again.\<close>

theorem stream_into_stream:
  assumes "ds_ok b"
  shows "ds_write (ds_Serialize b) s = ds_append s b \<longleftrightarrow> ds_nReadPos b = 0"
proof -
  have "ds_vch b = drop k (ds_vch b) \<longleftrightarrow> k = 0" if "k \<le> length (ds_vch b)" for k
    using that by (metis append_self_conv2 append_take_drop_id drop0 length_0_conv length_take min.absorb2)
  then have "ds_Serialize b = ds_data b \<longleftrightarrow> unat (ds_nReadPos b) = 0"
    using assms by (auto simp: ds_Serialize_def ds_data_def ds_ok_def)
  then show ?thesis
    by (auto simp: ds_write_def ds_append_def unsigned_eq_0_iff dest: arg_cong [where f = ds_vch])
qed

theorem stream_into_stream_witness:
  "(\<lambda>s. ds_write (ds_Serialize s) (ds_Init [] 0 0) \<noteq> ds_append (ds_Init [] 0 0) s)
     ((ds_Init [1, 2, 3] 0 0)\<lparr>ds_nReadPos := 1\<rparr>)"
  using stream_into_stream [of "(ds_Init [1, 2, 3] 0 0)\<lparr>ds_nReadPos := 1\<rparr>" "ds_Init [] 0 0"]
  by (simp add: ds_ok_def ds_Init_def badbit_def failbit_def)

end
