(* ===== verification/Script.thy ===== *)
theory Script
  imports Hobo_Prelude Ext_Crypto Bignum Serialize
begin

text \<open>
  Scripts, \<^verbatim>\<open>script.h\<close> and the parts of \<^verbatim>\<open>script.cpp\<close> that read a script without running
  it: the opcodes, pushing data and numbers, the instruction decoder, deletion of a pattern, signature
  operation counts and the push-only and canonical-push tests.  A script is its byte sequence; a position in a
  script is the suffix that starts there.
\<close>

unbundle bit_operations_syntax

section \<open>Opcodes\<close>

type_synonym CScript = "byte list"
type_synonym opcodetype = nat

abbreviation (input) OP_0 :: opcodetype where "OP_0 \<equiv> 0x00"
abbreviation (input) OP_FALSE :: opcodetype where "OP_FALSE \<equiv> OP_0"
abbreviation (input) OP_PUSHDATA1 :: opcodetype where "OP_PUSHDATA1 \<equiv> 0x4c"
abbreviation (input) OP_PUSHDATA2 :: opcodetype where "OP_PUSHDATA2 \<equiv> 0x4d"
abbreviation (input) OP_PUSHDATA4 :: opcodetype where "OP_PUSHDATA4 \<equiv> 0x4e"
abbreviation (input) OP_1NEGATE :: opcodetype where "OP_1NEGATE \<equiv> 0x4f"
abbreviation (input) OP_RESERVED :: opcodetype where "OP_RESERVED \<equiv> 0x50"
abbreviation (input) OP_1 :: opcodetype where "OP_1 \<equiv> 0x51"
abbreviation (input) OP_TRUE :: opcodetype where "OP_TRUE \<equiv> OP_1"
abbreviation (input) OP_2 :: opcodetype where "OP_2 \<equiv> 0x52"
abbreviation (input) OP_3 :: opcodetype where "OP_3 \<equiv> 0x53"
abbreviation (input) OP_4 :: opcodetype where "OP_4 \<equiv> 0x54"
abbreviation (input) OP_5 :: opcodetype where "OP_5 \<equiv> 0x55"
abbreviation (input) OP_6 :: opcodetype where "OP_6 \<equiv> 0x56"
abbreviation (input) OP_7 :: opcodetype where "OP_7 \<equiv> 0x57"
abbreviation (input) OP_8 :: opcodetype where "OP_8 \<equiv> 0x58"
abbreviation (input) OP_9 :: opcodetype where "OP_9 \<equiv> 0x59"
abbreviation (input) OP_10 :: opcodetype where "OP_10 \<equiv> 0x5a"
abbreviation (input) OP_11 :: opcodetype where "OP_11 \<equiv> 0x5b"
abbreviation (input) OP_12 :: opcodetype where "OP_12 \<equiv> 0x5c"
abbreviation (input) OP_13 :: opcodetype where "OP_13 \<equiv> 0x5d"
abbreviation (input) OP_14 :: opcodetype where "OP_14 \<equiv> 0x5e"
abbreviation (input) OP_15 :: opcodetype where "OP_15 \<equiv> 0x5f"
abbreviation (input) OP_16 :: opcodetype where "OP_16 \<equiv> 0x60"
abbreviation (input) OP_NOP :: opcodetype where "OP_NOP \<equiv> 0x61"
abbreviation (input) OP_VER :: opcodetype where "OP_VER \<equiv> 0x62"
abbreviation (input) OP_IF :: opcodetype where "OP_IF \<equiv> 0x63"
abbreviation (input) OP_NOTIF :: opcodetype where "OP_NOTIF \<equiv> 0x64"
abbreviation (input) OP_VERIF :: opcodetype where "OP_VERIF \<equiv> 0x65"
abbreviation (input) OP_VERNOTIF :: opcodetype where "OP_VERNOTIF \<equiv> 0x66"
abbreviation (input) OP_ELSE :: opcodetype where "OP_ELSE \<equiv> 0x67"
abbreviation (input) OP_ENDIF :: opcodetype where "OP_ENDIF \<equiv> 0x68"
abbreviation (input) OP_VERIFY :: opcodetype where "OP_VERIFY \<equiv> 0x69"
abbreviation (input) OP_RETURN :: opcodetype where "OP_RETURN \<equiv> 0x6a"
abbreviation (input) OP_TOALTSTACK :: opcodetype where "OP_TOALTSTACK \<equiv> 0x6b"
abbreviation (input) OP_FROMALTSTACK :: opcodetype where "OP_FROMALTSTACK \<equiv> 0x6c"
abbreviation (input) OP_2DROP :: opcodetype where "OP_2DROP \<equiv> 0x6d"
abbreviation (input) OP_2DUP :: opcodetype where "OP_2DUP \<equiv> 0x6e"
abbreviation (input) OP_3DUP :: opcodetype where "OP_3DUP \<equiv> 0x6f"
abbreviation (input) OP_2OVER :: opcodetype where "OP_2OVER \<equiv> 0x70"
abbreviation (input) OP_2ROT :: opcodetype where "OP_2ROT \<equiv> 0x71"
abbreviation (input) OP_2SWAP :: opcodetype where "OP_2SWAP \<equiv> 0x72"
abbreviation (input) OP_IFDUP :: opcodetype where "OP_IFDUP \<equiv> 0x73"
abbreviation (input) OP_DEPTH :: opcodetype where "OP_DEPTH \<equiv> 0x74"
abbreviation (input) OP_DROP :: opcodetype where "OP_DROP \<equiv> 0x75"
abbreviation (input) OP_DUP :: opcodetype where "OP_DUP \<equiv> 0x76"
abbreviation (input) OP_NIP :: opcodetype where "OP_NIP \<equiv> 0x77"
abbreviation (input) OP_OVER :: opcodetype where "OP_OVER \<equiv> 0x78"
abbreviation (input) OP_PICK :: opcodetype where "OP_PICK \<equiv> 0x79"
abbreviation (input) OP_ROLL :: opcodetype where "OP_ROLL \<equiv> 0x7a"
abbreviation (input) OP_ROT :: opcodetype where "OP_ROT \<equiv> 0x7b"
abbreviation (input) OP_SWAP :: opcodetype where "OP_SWAP \<equiv> 0x7c"
abbreviation (input) OP_TUCK :: opcodetype where "OP_TUCK \<equiv> 0x7d"
abbreviation (input) OP_CAT :: opcodetype where "OP_CAT \<equiv> 0x7e"
abbreviation (input) OP_SUBSTR :: opcodetype where "OP_SUBSTR \<equiv> 0x7f"
abbreviation (input) OP_LEFT :: opcodetype where "OP_LEFT \<equiv> 0x80"
abbreviation (input) OP_RIGHT :: opcodetype where "OP_RIGHT \<equiv> 0x81"
abbreviation (input) OP_SIZE :: opcodetype where "OP_SIZE \<equiv> 0x82"
abbreviation (input) OP_INVERT :: opcodetype where "OP_INVERT \<equiv> 0x83"
abbreviation (input) OP_AND :: opcodetype where "OP_AND \<equiv> 0x84"
abbreviation (input) OP_OR :: opcodetype where "OP_OR \<equiv> 0x85"
abbreviation (input) OP_XOR :: opcodetype where "OP_XOR \<equiv> 0x86"
abbreviation (input) OP_EQUAL :: opcodetype where "OP_EQUAL \<equiv> 0x87"
abbreviation (input) OP_EQUALVERIFY :: opcodetype where "OP_EQUALVERIFY \<equiv> 0x88"
abbreviation (input) OP_RESERVED1 :: opcodetype where "OP_RESERVED1 \<equiv> 0x89"
abbreviation (input) OP_RESERVED2 :: opcodetype where "OP_RESERVED2 \<equiv> 0x8a"
abbreviation (input) OP_1ADD :: opcodetype where "OP_1ADD \<equiv> 0x8b"
abbreviation (input) OP_1SUB :: opcodetype where "OP_1SUB \<equiv> 0x8c"
abbreviation (input) OP_2MUL :: opcodetype where "OP_2MUL \<equiv> 0x8d"
abbreviation (input) OP_2DIV :: opcodetype where "OP_2DIV \<equiv> 0x8e"
abbreviation (input) OP_NEGATE :: opcodetype where "OP_NEGATE \<equiv> 0x8f"
abbreviation (input) OP_ABS :: opcodetype where "OP_ABS \<equiv> 0x90"
abbreviation (input) OP_NOT :: opcodetype where "OP_NOT \<equiv> 0x91"
abbreviation (input) OP_0NOTEQUAL :: opcodetype where "OP_0NOTEQUAL \<equiv> 0x92"
abbreviation (input) OP_ADD :: opcodetype where "OP_ADD \<equiv> 0x93"
abbreviation (input) OP_SUB :: opcodetype where "OP_SUB \<equiv> 0x94"
abbreviation (input) OP_MUL :: opcodetype where "OP_MUL \<equiv> 0x95"
abbreviation (input) OP_DIV :: opcodetype where "OP_DIV \<equiv> 0x96"
abbreviation (input) OP_MOD :: opcodetype where "OP_MOD \<equiv> 0x97"
abbreviation (input) OP_LSHIFT :: opcodetype where "OP_LSHIFT \<equiv> 0x98"
abbreviation (input) OP_RSHIFT :: opcodetype where "OP_RSHIFT \<equiv> 0x99"
abbreviation (input) OP_BOOLAND :: opcodetype where "OP_BOOLAND \<equiv> 0x9a"
abbreviation (input) OP_BOOLOR :: opcodetype where "OP_BOOLOR \<equiv> 0x9b"
abbreviation (input) OP_NUMEQUAL :: opcodetype where "OP_NUMEQUAL \<equiv> 0x9c"
abbreviation (input) OP_NUMEQUALVERIFY :: opcodetype where "OP_NUMEQUALVERIFY \<equiv> 0x9d"
abbreviation (input) OP_NUMNOTEQUAL :: opcodetype where "OP_NUMNOTEQUAL \<equiv> 0x9e"
abbreviation (input) OP_LESSTHAN :: opcodetype where "OP_LESSTHAN \<equiv> 0x9f"
abbreviation (input) OP_GREATERTHAN :: opcodetype where "OP_GREATERTHAN \<equiv> 0xa0"
abbreviation (input) OP_LESSTHANOREQUAL :: opcodetype where "OP_LESSTHANOREQUAL \<equiv> 0xa1"
abbreviation (input) OP_GREATERTHANOREQUAL :: opcodetype where "OP_GREATERTHANOREQUAL \<equiv> 0xa2"
abbreviation (input) OP_MIN :: opcodetype where "OP_MIN \<equiv> 0xa3"
abbreviation (input) OP_MAX :: opcodetype where "OP_MAX \<equiv> 0xa4"
abbreviation (input) OP_WITHIN :: opcodetype where "OP_WITHIN \<equiv> 0xa5"
abbreviation (input) OP_RIPEMD160 :: opcodetype where "OP_RIPEMD160 \<equiv> 0xa6"
abbreviation (input) OP_SHA1 :: opcodetype where "OP_SHA1 \<equiv> 0xa7"
abbreviation (input) OP_SHA256 :: opcodetype where "OP_SHA256 \<equiv> 0xa8"
abbreviation (input) OP_HASH160 :: opcodetype where "OP_HASH160 \<equiv> 0xa9"
abbreviation (input) OP_HASH256 :: opcodetype where "OP_HASH256 \<equiv> 0xaa"
abbreviation (input) OP_CODESEPARATOR :: opcodetype where "OP_CODESEPARATOR \<equiv> 0xab"
abbreviation (input) OP_CHECKSIG :: opcodetype where "OP_CHECKSIG \<equiv> 0xac"
abbreviation (input) OP_CHECKSIGVERIFY :: opcodetype where "OP_CHECKSIGVERIFY \<equiv> 0xad"
abbreviation (input) OP_CHECKMULTISIG :: opcodetype where "OP_CHECKMULTISIG \<equiv> 0xae"
abbreviation (input) OP_CHECKMULTISIGVERIFY :: opcodetype where "OP_CHECKMULTISIGVERIFY \<equiv> 0xaf"
abbreviation (input) OP_NOP1 :: opcodetype where "OP_NOP1 \<equiv> 0xb0"
abbreviation (input) OP_NOP2 :: opcodetype where "OP_NOP2 \<equiv> 0xb1"
abbreviation (input) OP_NOP3 :: opcodetype where "OP_NOP3 \<equiv> 0xb2"
abbreviation (input) OP_NOP4 :: opcodetype where "OP_NOP4 \<equiv> 0xb3"
abbreviation (input) OP_NOP5 :: opcodetype where "OP_NOP5 \<equiv> 0xb4"
abbreviation (input) OP_NOP6 :: opcodetype where "OP_NOP6 \<equiv> 0xb5"
abbreviation (input) OP_NOP7 :: opcodetype where "OP_NOP7 \<equiv> 0xb6"
abbreviation (input) OP_NOP8 :: opcodetype where "OP_NOP8 \<equiv> 0xb7"
abbreviation (input) OP_NOP9 :: opcodetype where "OP_NOP9 \<equiv> 0xb8"
abbreviation (input) OP_NOP10 :: opcodetype where "OP_NOP10 \<equiv> 0xb9"
abbreviation (input) OP_SMALLINTEGER :: opcodetype where "OP_SMALLINTEGER \<equiv> 0xfa"
abbreviation (input) OP_PUBKEYS :: opcodetype where "OP_PUBKEYS \<equiv> 0xfb"
abbreviation (input) OP_PUBKEYHASH :: opcodetype where "OP_PUBKEYHASH \<equiv> 0xfd"
abbreviation (input) OP_PUBKEY :: opcodetype where "OP_PUBKEY \<equiv> 0xfe"
abbreviation (input) OP_INVALIDOPCODE :: opcodetype where "OP_INVALIDOPCODE \<equiv> 0xff"

definition op_names :: "(opcodetype \<times> string) list" where
  "op_names = [(OP_0, ''0''), (OP_PUSHDATA1, ''OP_PUSHDATA1''), (OP_PUSHDATA2, ''OP_PUSHDATA2''),
     (OP_PUSHDATA4, ''OP_PUSHDATA4''), (OP_1NEGATE, ''-1''), (OP_RESERVED, ''OP_RESERVED''),
     (OP_1, ''1''), (OP_2, ''2''), (OP_3, ''3''), (OP_4, ''4''), (OP_5, ''5''), (OP_6, ''6''),
     (OP_7, ''7''), (OP_8, ''8''), (OP_9, ''9''), (OP_10, ''10''), (OP_11, ''11''), (OP_12, ''12''),
     (OP_13, ''13''), (OP_14, ''14''), (OP_15, ''15''), (OP_16, ''16''), (OP_NOP, ''OP_NOP''),
     (OP_VER, ''OP_VER''), (OP_IF, ''OP_IF''), (OP_NOTIF, ''OP_NOTIF''), (OP_VERIF, ''OP_VERIF''),
     (OP_VERNOTIF, ''OP_VERNOTIF''), (OP_ELSE, ''OP_ELSE''), (OP_ENDIF, ''OP_ENDIF''),
     (OP_VERIFY, ''OP_VERIFY''), (OP_RETURN, ''OP_RETURN''), (OP_TOALTSTACK, ''OP_TOALTSTACK''),
     (OP_FROMALTSTACK, ''OP_FROMALTSTACK''), (OP_2DROP, ''OP_2DROP''), (OP_2DUP, ''OP_2DUP''),
     (OP_3DUP, ''OP_3DUP''), (OP_2OVER, ''OP_2OVER''), (OP_2ROT, ''OP_2ROT''),
     (OP_2SWAP, ''OP_2SWAP''), (OP_IFDUP, ''OP_IFDUP''), (OP_DEPTH, ''OP_DEPTH''),
     (OP_DROP, ''OP_DROP''), (OP_DUP, ''OP_DUP''), (OP_NIP, ''OP_NIP''), (OP_OVER, ''OP_OVER''),
     (OP_PICK, ''OP_PICK''), (OP_ROLL, ''OP_ROLL''), (OP_ROT, ''OP_ROT''), (OP_SWAP, ''OP_SWAP''),
     (OP_TUCK, ''OP_TUCK''), (OP_CAT, ''OP_CAT''), (OP_SUBSTR, ''OP_SUBSTR''),
     (OP_LEFT, ''OP_LEFT''), (OP_RIGHT, ''OP_RIGHT''), (OP_SIZE, ''OP_SIZE''),
     (OP_INVERT, ''OP_INVERT''), (OP_AND, ''OP_AND''), (OP_OR, ''OP_OR''), (OP_XOR, ''OP_XOR''),
     (OP_EQUAL, ''OP_EQUAL''), (OP_EQUALVERIFY, ''OP_EQUALVERIFY''),
     (OP_RESERVED1, ''OP_RESERVED1''), (OP_RESERVED2, ''OP_RESERVED2''), (OP_1ADD, ''OP_1ADD''),
     (OP_1SUB, ''OP_1SUB''), (OP_2MUL, ''OP_2MUL''), (OP_2DIV, ''OP_2DIV''),
     (OP_NEGATE, ''OP_NEGATE''), (OP_ABS, ''OP_ABS''), (OP_NOT, ''OP_NOT''),
     (OP_0NOTEQUAL, ''OP_0NOTEQUAL''), (OP_ADD, ''OP_ADD''), (OP_SUB, ''OP_SUB''),
     (OP_MUL, ''OP_MUL''), (OP_DIV, ''OP_DIV''), (OP_MOD, ''OP_MOD''), (OP_LSHIFT, ''OP_LSHIFT''),
     (OP_RSHIFT, ''OP_RSHIFT''), (OP_BOOLAND, ''OP_BOOLAND''), (OP_BOOLOR, ''OP_BOOLOR''),
     (OP_NUMEQUAL, ''OP_NUMEQUAL''), (OP_NUMEQUALVERIFY, ''OP_NUMEQUALVERIFY''),
     (OP_NUMNOTEQUAL, ''OP_NUMNOTEQUAL''), (OP_LESSTHAN, ''OP_LESSTHAN''),
     (OP_GREATERTHAN, ''OP_GREATERTHAN''), (OP_LESSTHANOREQUAL, ''OP_LESSTHANOREQUAL''),
     (OP_GREATERTHANOREQUAL, ''OP_GREATERTHANOREQUAL''), (OP_MIN, ''OP_MIN''), (OP_MAX, ''OP_MAX''),
     (OP_WITHIN, ''OP_WITHIN''), (OP_RIPEMD160, ''OP_RIPEMD160''), (OP_SHA1, ''OP_SHA1''),
     (OP_SHA256, ''OP_SHA256''), (OP_HASH160, ''OP_HASH160''), (OP_HASH256, ''OP_HASH256''),
     (OP_CODESEPARATOR, ''OP_CODESEPARATOR''), (OP_CHECKSIG, ''OP_CHECKSIG''),
     (OP_CHECKSIGVERIFY, ''OP_CHECKSIGVERIFY''), (OP_CHECKMULTISIG, ''OP_CHECKMULTISIG''),
     (OP_CHECKMULTISIGVERIFY, ''OP_CHECKMULTISIGVERIFY''), (OP_NOP1, ''OP_NOP1''),
     (OP_NOP2, ''OP_NOP2''), (OP_NOP3, ''OP_NOP3''), (OP_NOP4, ''OP_NOP4''), (OP_NOP5, ''OP_NOP5''),
     (OP_NOP6, ''OP_NOP6''), (OP_NOP7, ''OP_NOP7''), (OP_NOP8, ''OP_NOP8''), (OP_NOP9, ''OP_NOP9''),
     (OP_NOP10, ''OP_NOP10''), (OP_INVALIDOPCODE, ''OP_INVALIDOPCODE'')]"

definition GetOpName :: "opcodetype \<Rightarrow> string" where
  "GetOpName opcode = (case map_of op_names opcode of Some s \<Rightarrow> s | None \<Rightarrow> ''OP_UNKNOWN'')"

section \<open>Building scripts\<close>

text \<open>The length prefix of a push, by size class, and the push itself.\<close>

definition push_header :: "nat \<Rightarrow> byte list" where
  "push_header n =
     (if n < OP_PUSHDATA1 then [of_nat n]
      else if n \<le> 0xff then [of_nat OP_PUSHDATA1, of_nat n]
      else if n \<le> 0xffff then of_nat OP_PUSHDATA2 # ser_u16 (of_nat n)
      else of_nat OP_PUSHDATA4 # ser_u32 (of_nat n))"

definition push_data :: "valtype \<Rightarrow> CScript \<Rightarrow> CScript" where
  "push_data b s = s @ push_header (length b) @ b"

definition push_opcode :: "opcodetype \<Rightarrow> CScript \<Rightarrow> CScript option" where
  "push_opcode opcode s = (if opcode > 0xff then None else Some (s @ [of_nat opcode]))"

definition push_int64 :: "ext \<Rightarrow> int \<Rightarrow> CScript \<Rightarrow> CScript" where
  "push_int64 E n s =
     (if n = -1 \<or> (n \<ge> 1 \<and> n \<le> 16) then s @ [of_int (n + (int OP_1 - 1))]
      else push_data (getvch E (setint64 E n)) s)"

definition push_uint64 :: "ext \<Rightarrow> u64 \<Rightarrow> CScript \<Rightarrow> CScript" where
  "push_uint64 E n s =
     (if n \<ge> 1 \<and> n \<le> 16 then s @ [ucast (n + (of_nat OP_1 - 1))]
      else push_data (getvch E (setuint64 E n)) s)"

definition push_uint160 :: "uint160 \<Rightarrow> CScript \<Rightarrow> CScript" where
  "push_uint160 b s = s @ [20] @ ser_uint160 b"

definition push_uint256 :: "uint256 \<Rightarrow> CScript \<Rightarrow> CScript" where
  "push_uint256 b s = s @ [32] @ ser_uint256 b"

section \<open>Decoding instructions\<close>

text \<open>\<^verbatim>\<open>GetOp2\<close> returns false (None) or the opcode, its immediate operand and the position
  behind it.  After the size is known, \<^verbatim>\<open>get_operand\<close> takes the operand.\<close>

definition get_operand :: "opcodetype \<Rightarrow> nat \<Rightarrow> CScript \<Rightarrow> (opcodetype \<times> valtype \<times> CScript) option" where
  "get_operand opcode nSize pc = (if length pc < nSize then None else Some (opcode, take nSize pc, drop nSize pc))"

fun GetOp2 :: "CScript \<Rightarrow> (opcodetype \<times> valtype \<times> CScript) option" where
  "GetOp2 [] = None"
| "GetOp2 (c # pc) =
     (let opcode = unat c in
      if opcode \<le> OP_PUSHDATA4 then
        if opcode < OP_PUSHDATA1 then get_operand opcode opcode pc
        else if opcode = OP_PUSHDATA1 then
          if length pc < 1 then None else get_operand opcode (le_nat (take 1 pc)) (drop 1 pc)
        else if opcode = OP_PUSHDATA2 then
          if length pc < 2 then None else get_operand opcode (le_nat (take 2 pc)) (drop 2 pc)
        else
          if length pc < 4 then None else get_operand opcode (le_nat (take 4 pc)) (drop 4 pc)
      else Some (opcode, [], pc))"

definition DecodeOP_N :: "opcodetype \<Rightarrow> nat" where
  "DecodeOP_N opcode = (if opcode = OP_0 then 0 else opcode - (OP_1 - 1))"

definition EncodeOP_N :: "nat \<Rightarrow> opcodetype" where
  "EncodeOP_N n = (if n = 0 then OP_0 else OP_1 + n - 1)"

text \<open>The decoder always moves forward.\<close>

lemma get_operand_shorter: "get_operand opcode n pc = Some (op, v, r) \<Longrightarrow> length r \<le> length pc"
  by (auto simp: get_operand_def split: if_splits)

lemma GetOp2_shorter: "GetOp2 s = Some (op, v, r) \<Longrightarrow> length r < length s"
  by (cases s) (auto simp: Let_def split: if_splits dest!: get_operand_shorter)

section \<open>Scanning scripts\<close>

text \<open>The inner loop of \<^verbatim>\<open>FindAndDelete\<close> erases copies of the pattern at the current
  position, the outer one steps over an instruction.\<close>

function erase_copies :: "CScript \<Rightarrow> CScript \<Rightarrow> nat \<times> CScript" where
  "erase_copies b pc =
     (if b \<noteq> [] \<and> length pc \<ge> length b \<and> take (length b) pc = b then
        (let (k, r) = erase_copies b (drop (length b) pc) in (Suc k, r))
      else (0, pc))"
  by pat_completeness auto
termination
  by (relation "measure (\<lambda>(b, pc). length pc)")
    (auto intro!: diff_less dest: order_less_le_trans simp flip: length_greater_0_conv)

declare erase_copies.simps [simp del]

lemma erase_copies_shorter: "length (snd (erase_copies b pc)) \<le> length pc"
proof (induction b pc rule: erase_copies.induct)
  case (1 b pc)
  then show ?case by (subst erase_copies.simps) (auto simp: split_beta)
qed

function delete_loop :: "CScript \<Rightarrow> CScript \<Rightarrow> nat \<times> CScript" where
  "delete_loop b pc =
     (let (k, pc) = erase_copies b pc in
      case GetOp2 pc of
        None \<Rightarrow> (k, pc)
      | Some (opcode, v, pc') \<Rightarrow>
          let (k', r) = delete_loop b pc' in (k + k', take (length pc - length pc') pc @ r))"
  by pat_completeness auto
termination
proof (relation "measure (\<lambda>(b, pc). length pc)", goal_cases)
  case (2 b pc x k pc2 x2 op y v pc')
  then have "pc2 = snd (erase_copies b pc)" by (metis snd_conv)
  then show ?case using 2 erase_copies_shorter [of b pc] GetOp2_shorter [of pc2 op v pc'] by auto
qed simp

definition FindAndDelete :: "CScript \<Rightarrow> CScript \<Rightarrow> nat \<times> CScript" where
  "FindAndDelete b s = (if b = [] then (0, s) else delete_loop b s)"

function Find_op :: "opcodetype \<Rightarrow> CScript \<Rightarrow> nat" where
  "Find_op opx pc =
     (case GetOp2 pc of
        None \<Rightarrow> 0
      | Some (opcode, v, pc') \<Rightarrow> (if opcode = opx then 1 else 0) + Find_op opx pc')"
  by pat_completeness auto
termination by (relation "measure (\<lambda>(opx, pc). length pc)") (auto dest!: GetOp2_shorter)

function IsPushOnly :: "CScript \<Rightarrow> bool" where
  "IsPushOnly pc =
     (if pc = [] then True
      else case GetOp2 pc of
        None \<Rightarrow> False
      | Some (opcode, v, pc') \<Rightarrow> if opcode > OP_16 then False else IsPushOnly pc')"
  by pat_completeness auto
termination by (relation "measure length") (auto dest!: GetOp2_shorter)

function sigop_loop :: "bool \<Rightarrow> opcodetype \<Rightarrow> nat \<Rightarrow> CScript \<Rightarrow> nat" where
  "sigop_loop fAccurate lastOpcode n pc =
     (if pc = [] then n
      else case GetOp2 pc of
        None \<Rightarrow> n
      | Some (opcode, v, pc') \<Rightarrow>
          let n = (if opcode = OP_CHECKSIG \<or> opcode = OP_CHECKSIGVERIFY then n + 1
                   else if opcode = OP_CHECKMULTISIG \<or> opcode = OP_CHECKMULTISIGVERIFY then
                     if fAccurate \<and> lastOpcode \<ge> OP_1 \<and> lastOpcode \<le> OP_16 then n + DecodeOP_N lastOpcode
                     else n + 20
                   else n)
          in sigop_loop fAccurate opcode n pc')"
  by pat_completeness auto
termination by (relation "measure (\<lambda>(fAccurate, lastOpcode, n, pc). length pc)") (auto dest!: GetOp2_shorter)

definition GetSigOpCount :: "bool \<Rightarrow> CScript \<Rightarrow> nat" where
  "GetSigOpCount fAccurate s = sigop_loop fAccurate OP_INVALIDOPCODE 0 s"

definition IsPayToScriptHash :: "CScript \<Rightarrow> bool" where
  "IsPayToScriptHash s \<longleftrightarrow>
     length s = 23 \<and> s ! 0 = of_nat OP_HASH160 \<and> s ! 1 = 0x14 \<and> s ! 22 = of_nat OP_EQUAL"

text \<open>The last push of a push-only input script, in \<^verbatim>\<open>data\<close>.\<close>

function last_push :: "valtype \<Rightarrow> CScript \<Rightarrow> valtype option" where
  "last_push data pc =
     (if pc = [] then Some data
      else case GetOp2 pc of
        None \<Rightarrow> None
      | Some (opcode, v, pc') \<Rightarrow> if opcode > OP_16 then None else last_push v pc')"
  by pat_completeness auto
termination by (relation "measure (\<lambda>(data, pc). length pc)") (auto dest!: GetOp2_shorter)

definition GetSigOpCount_sig :: "CScript \<Rightarrow> CScript \<Rightarrow> nat" where
  "GetSigOpCount_sig s scriptSig =
     (if \<not> IsPayToScriptHash s then GetSigOpCount True s
      else case last_push [] scriptSig of
        None \<Rightarrow> 0
      | Some subscript \<Rightarrow> GetSigOpCount True subscript)"

definition canonical_push :: "opcodetype \<Rightarrow> valtype \<Rightarrow> bool" where
  "canonical_push opcode data =
     (if opcode > OP_16 then True
      else if opcode < OP_PUSHDATA1 \<and> opcode > OP_0 \<and> (length data = 1 \<and> data ! 0 \<le> 16) then False
      else if opcode = OP_PUSHDATA1 \<and> length data < OP_PUSHDATA1 then False
      else if opcode = OP_PUSHDATA2 \<and> length data \<le> 0xFF then False
      else if opcode = OP_PUSHDATA4 \<and> length data \<le> 0xFFFF then False
      else True)"

function HasCanonicalPushes :: "CScript \<Rightarrow> bool" where
  "HasCanonicalPushes pc =
     (if pc = [] then True
      else case GetOp2 pc of
        None \<Rightarrow> False
      | Some (opcode, data, pc') \<Rightarrow> if \<not> canonical_push opcode data then False else HasCanonicalPushes pc')"
  by pat_completeness auto
termination by (relation "measure length") (auto dest!: GetOp2_shorter)

lemmas scan_simps [simp del] =
  delete_loop.simps Find_op.simps IsPushOnly.simps sigop_loop.simps last_push.simps HasCanonicalPushes.simps

section \<open>Instruction streams\<close>

text \<open>The specification of all the scanning loops: the instructions of a script with the undecodable
  rest.  An instruction is its opcode, operand and bytes.\<close>

function instrs :: "CScript \<Rightarrow> (opcodetype \<times> valtype \<times> byte list) list \<times> CScript" where
  "instrs s =
     (case GetOp2 s of
        None \<Rightarrow> ([], s)
      | Some (opcode, v, r) \<Rightarrow>
          let (is, t) = instrs r in ((opcode, v, take (length s - length r) s) # is, t))"
  by pat_completeness auto
termination by (relation "measure length") (auto dest!: GetOp2_shorter)

declare instrs.simps [simp del]

lemma get_operand_suffix: "get_operand opcode n pc = Some (op, v, r) \<longleftrightarrow> op = opcode \<and> length v = n \<and> pc = v @ r"
  by (auto simp: get_operand_def)

text \<open>The bytes of one instruction.\<close>

definition size_bytes :: "opcodetype \<Rightarrow> nat" where
  "size_bytes opcode =
     (if opcode = OP_PUSHDATA1 then 1 else if opcode = OP_PUSHDATA2 then 2 else if opcode = OP_PUSHDATA4 then 4 else 0)"

definition op_encoding :: "opcodetype \<Rightarrow> valtype \<Rightarrow> byte list \<Rightarrow> bool" where
  "op_encoding opcode v b \<longleftrightarrow>
     (\<exists>c h. b = c # h @ v \<and> opcode = unat c \<and> length h = size_bytes opcode \<and>
       length v = (if opcode < OP_PUSHDATA1 then opcode else if opcode \<le> OP_PUSHDATA4 then le_nat h else 0))"

lemma GetOp2_push:
  "unat c \<le> OP_PUSHDATA4 \<Longrightarrow> GetOp2 (c # pc) =
     (if length pc < size_bytes (unat c) then None
      else get_operand (unat c) (if unat c < OP_PUSHDATA1 then unat c else le_nat (take (size_bytes (unat c)) pc))
        (drop (size_bytes (unat c)) pc))"
proof -
  assume le: "unat c \<le> OP_PUSHDATA4"
  then consider "unat c < OP_PUSHDATA1" | "unat c = OP_PUSHDATA1" | "unat c = OP_PUSHDATA2" | "unat c = OP_PUSHDATA4"
    by linarith
  then show ?thesis by cases (auto simp: size_bytes_def Let_def)
qed

lemma op_encoding_ex:
  "(\<exists>b. c # pc = b @ r \<and> op_encoding op v b) \<longleftrightarrow>
     op = unat c \<and> (\<exists>h. length h = size_bytes op \<and> pc = h @ v @ r \<and>
       length v = (if op < OP_PUSHDATA1 then op else if op \<le> OP_PUSHDATA4 then le_nat h else 0))"
  (is "?L \<longleftrightarrow> op = unat c \<and> (\<exists>h. ?P h)")
proof
  assume ?L
  then show "op = unat c \<and> (\<exists>h. ?P h)" by (auto simp: op_encoding_def)
next
  assume "op = unat c \<and> (\<exists>h. ?P h)"
  then obtain h where h: "op = unat c" "?P h" by blast
  then have "c # pc = (c # h @ v) @ r" and "op_encoding op v (c # h @ v)"
    unfolding op_encoding_def by auto
  then show ?L by blast
qed

lemma GetOp2_iff: "GetOp2 s = Some (op, v, r) \<longleftrightarrow> (\<exists>b. s = b @ r \<and> op_encoding op v b)"
proof (cases s)
  case (Cons c pc)
  show ?thesis
  proof (cases "unat c \<le> OP_PUSHDATA4")
    case True
    let ?k = "size_bytes (unat c)"
    have "GetOp2 s = Some (op, v, r) \<longleftrightarrow> op = unat c \<and> (\<exists>h. length h = ?k \<and> pc = h @ v @ r \<and>
        length v = (if unat c < OP_PUSHDATA1 then unat c else le_nat h))"
      (is "?L \<longleftrightarrow> op = unat c \<and> (\<exists>h. ?P h)")
    proof
      assume ?L
      then have "op = unat c \<and> ?P (take ?k pc)"
        unfolding Cons GetOp2_push [OF True] by (auto simp: get_operand_suffix split: if_splits) (metis append_take_drop_id)+
      then show "op = unat c \<and> (\<exists>h. ?P h)" by blast
    next
      assume "op = unat c \<and> (\<exists>h. ?P h)"
      then obtain h where "op = unat c" "?P h" by blast
      then show ?L unfolding Cons GetOp2_push [OF True] by (simp add: get_operand_suffix)
    qed
    then show ?thesis using True unfolding Cons op_encoding_ex by auto
  next
    case False
    then show ?thesis unfolding Cons op_encoding_ex by (auto simp: size_bytes_def Let_def)
  qed
qed (auto simp: op_encoding_def)

lemma op_encoding_nonempty: "op_encoding op v b \<Longrightarrow> b \<noteq> []"
  by (auto simp: op_encoding_def)

lemma GetOp2_append: "GetOp2 s = Some (op, v, r) \<Longrightarrow> GetOp2 (s @ x) = Some (op, v, r @ x)"
  by (auto simp: GetOp2_iff)

text \<open>Instructions are self-delimiting: what follows does not change the first instruction.\<close>

lemma op_encoding_unique:
  assumes "op_encoding op v b" "op_encoding op' v' b'" "b @ r = b' @ r'"
  shows "op = op' \<and> v = v' \<and> b = b' \<and> r = r'"
proof -
  have "GetOp2 (b @ r) = Some (op, v, r)" "GetOp2 (b' @ r') = Some (op', v', r')"
    using assms(1,2) by (auto simp: GetOp2_iff)
  with assms(3) show ?thesis by simp
qed

lemma instrs_Cons:
  "op_encoding op v b \<Longrightarrow> instrs (b @ r) = ((op, v, b) # fst (instrs r), snd (instrs r))"
proof -
  assume "op_encoding op v b"
  then have "GetOp2 (b @ r) = Some (op, v, r)" by (auto simp: GetOp2_iff)
  then show ?thesis by (subst instrs.simps) (simp add: split_beta)
qed

lemma instrs_None: "GetOp2 s = None \<Longrightarrow> instrs s = ([], s)"
  by (subst instrs.simps) simp

text \<open>Induction over the instructions of a script.\<close>

lemma script_induct [case_names Stuck Instr]:
  assumes "\<And>s. GetOp2 s = None \<Longrightarrow> P s"
    and "\<And>op v b r. op_encoding op v b \<Longrightarrow> P r \<Longrightarrow> P (b @ r)"
  shows "P s"
proof (induction "length s" arbitrary: s rule: less_induct)
  case less
  show ?case
  proof (cases "GetOp2 s")
    case (Some x)
    obtain op v r where "x = (op, v, r)" by (cases x)
    with Some obtain b where b: "s = b @ r" "op_encoding op v b" by (auto simp: GetOp2_iff)
    have "length r < length s" using b op_encoding_nonempty [OF b(2)] by simp
    then show ?thesis using less assms(2) [OF b(2)] b(1) by simp
  qed (rule assms(1))
qed

lemma instrs_bytes: "concat (map (snd \<circ> snd) (fst (instrs s))) @ snd (instrs s) = s"
  by (induction s rule: script_induct) (simp_all add: instrs_None instrs_Cons)

lemma script_rest_stuck: "GetOp2 (snd (instrs s)) = None"
  by (induction s rule: script_induct) (simp_all add: instrs_None instrs_Cons)

text \<open>Each scanning loop as a function of the instruction list.\<close>

lemma GetOp2_encoding: "op_encoding op v b \<Longrightarrow> GetOp2 (b @ r) = Some (op, v, r)"
  by (auto simp: GetOp2_iff)

lemma Find_op_instrs: "Find_op opx s = length (filter (\<lambda>i. fst i = opx) (fst (instrs s)))"
proof (induction s rule: script_induct)
  case (Stuck s)
  then show ?case by (subst Find_op.simps) (simp add: instrs_None)
next
  case (Instr op v b r)
  then show ?case by (subst Find_op.simps) (simp add: GetOp2_encoding instrs_Cons)
qed

lemma IsPushOnly_instrs:
  "IsPushOnly s \<longleftrightarrow> snd (instrs s) = [] \<and> list_all (\<lambda>i. fst i \<le> OP_16) (fst (instrs s))"
proof (induction s rule: script_induct)
  case (Stuck s)
  then show ?case by (subst IsPushOnly.simps) (simp add: instrs_None)
next
  case (Instr op v b r)
  then show ?case
    by (subst IsPushOnly.simps) (auto simp: GetOp2_encoding instrs_Cons op_encoding_nonempty)
qed

lemma HasCanonicalPushes_instrs:
  "HasCanonicalPushes s \<longleftrightarrow>
     snd (instrs s) = [] \<and> list_all (\<lambda>i. canonical_push (fst i) (fst (snd i))) (fst (instrs s))"
proof (induction s rule: script_induct)
  case (Stuck s)
  then show ?case by (subst HasCanonicalPushes.simps) (simp add: instrs_None)
next
  case (Instr op v b r)
  then show ?case
    by (subst HasCanonicalPushes.simps) (auto simp: GetOp2_encoding instrs_Cons op_encoding_nonempty)
qed

lemma last_push_instrs:
  "last_push d s = (if IsPushOnly s then Some (last (d # map (fst \<circ> snd) (fst (instrs s)))) else None)"
proof (induction s arbitrary: d rule: script_induct)
  case (Stuck s)
  then show ?case by (subst last_push.simps, subst IsPushOnly.simps) (simp add: instrs_None)
next
  case (Instr op v b r)
  then show ?case
    by (subst last_push.simps, subst IsPushOnly.simps)
      (auto simp: GetOp2_encoding instrs_Cons op_encoding_nonempty)
qed

text \<open>The weight of an instruction in the signature operation count, given its predecessor.\<close>

definition sigop_weight :: "bool \<Rightarrow> opcodetype \<Rightarrow> opcodetype \<Rightarrow> nat" where
  "sigop_weight fAccurate lastOpcode opcode =
     (if opcode = OP_CHECKSIG \<or> opcode = OP_CHECKSIGVERIFY then 1
      else if opcode = OP_CHECKMULTISIG \<or> opcode = OP_CHECKMULTISIGVERIFY then
        if fAccurate \<and> lastOpcode \<ge> OP_1 \<and> lastOpcode \<le> OP_16 then DecodeOP_N lastOpcode else 20
      else 0)"

fun sigop_sum :: "bool \<Rightarrow> opcodetype \<Rightarrow> opcodetype list \<Rightarrow> nat" where
  "sigop_sum fAccurate prev [] = 0"
| "sigop_sum fAccurate prev (op # ops) = sigop_weight fAccurate prev op + sigop_sum fAccurate op ops"

lemma sigop_loop_instrs: "sigop_loop fAccurate prev n s = n + sigop_sum fAccurate prev (map fst (fst (instrs s)))"
proof (induction s arbitrary: n prev rule: script_induct)
  case (Stuck s)
  then show ?case by (subst sigop_loop.simps) (simp add: instrs_None)
next
  case (Instr op v b r)
  then show ?case
    by (subst sigop_loop.simps)
      (simp add: GetOp2_encoding instrs_Cons op_encoding_nonempty Let_def sigop_weight_def)
qed

lemma sigop_sum_bounds:
  "sigop_sum True prev ops \<le> sigop_sum False prev ops" "sigop_sum fAccurate prev ops \<le> 20 * length ops"
proof -
  have "sigop_weight True l op \<le> sigop_weight False l op" "sigop_weight f l op \<le> 20" for f l op
    by (auto simp: sigop_weight_def DecodeOP_N_def)
  note w = this
  show "sigop_sum True prev ops \<le> sigop_sum False prev ops"
    by (induction ops arbitrary: prev) (auto intro: add_mono w)
  show "sigop_sum fAccurate prev ops \<le> 20 * length ops"
    by (induction ops arbitrary: prev) (use w in \<open>auto intro!: add_mono\<close>)
qed

lemma instrs_length: "length (fst (instrs s)) \<le> length s"
  by (induction s rule: script_induct)
    (auto simp: instrs_None instrs_Cons dest!: op_encoding_nonempty simp: neq_Nil_conv)

section \<open>Pushes\<close>

lemma op_encoding_push:
  assumes "length v < 2 ^ 32"
  shows "op_encoding (unat (hd (push_header (length v)))) v (push_header (length v) @ v)"
proof -
  let ?n = "length v"
  consider "?n < OP_PUSHDATA1" | "OP_PUSHDATA1 \<le> ?n" "?n \<le> 0xff" | "0xff < ?n" "?n \<le> 0xffff" | "0xffff < ?n"
    by linarith
  then show ?thesis
  proof cases
    case 1
    then show ?thesis by (simp add: push_header_def op_encoding_def size_bytes_def)
  next
    case 2
    then show ?thesis by (simp add: push_header_def op_encoding_def size_bytes_def)
  next
    case 3
    then show ?thesis
      by (simp add: push_header_def op_encoding_def size_bytes_def ser_u16_def unat_of_nat le_nat_bytes)
  next
    case 4
    then show ?thesis using assms
      by (simp add: push_header_def op_encoding_def size_bytes_def ser_u32_def unat_of_nat le_nat_bytes)
  qed
qed

lemma push_header_opcode: "unat (hd (push_header n)) \<le> OP_PUSHDATA4"
  by (simp add: push_header_def)

section \<open>Deleting an instruction\<close>

lemma erase_copies_match:
  "b \<noteq> [] \<Longrightarrow> erase_copies b (b @ r) = (Suc (fst (erase_copies b r)), snd (erase_copies b r))"
  by (subst erase_copies.simps) (simp add: split_beta)

lemma erase_copies_none: "(\<nexists>r. s = b @ r) \<Longrightarrow> erase_copies b s = (0, s)"
  by (subst erase_copies.simps) (metis append_take_drop_id)

lemma delete_loop_match:
  "b \<noteq> [] \<Longrightarrow> delete_loop b (b @ r) = (Suc (fst (delete_loop b r)), snd (delete_loop b r))"
  by (subst (1 2 3) delete_loop.simps) (auto simp: erase_copies_match split_beta Let_def split: option.splits)

lemma delete_loop_instrs:
  assumes "op_encoding opb vb b"
  shows "delete_loop b s =
    (length (filter (\<lambda>i. snd (snd i) = b) (fst (instrs s))),
     concat (map (snd \<circ> snd) (filter (\<lambda>i. snd (snd i) \<noteq> b) (fst (instrs s)))) @ snd (instrs s))"
proof (induction s rule: script_induct)
  case (Stuck s)
  have "\<nexists>r. s = b @ r" using Stuck GetOp2_encoding [OF assms] by auto
  then show ?case using Stuck by (subst delete_loop.simps) (simp add: erase_copies_none instrs_None)
next
  case (Instr op v c r)
  show ?case
  proof (cases "c = b")
    case True
    with Instr show ?thesis
      by (simp add: delete_loop_match op_encoding_nonempty [OF assms] instrs_Cons)
  next
    case False
    have "\<nexists>x. c @ r = b @ x" using op_encoding_unique [OF Instr(1) assms] False by blast
    then have "delete_loop b (c @ r) = (fst (delete_loop b r), c @ snd (delete_loop b r))"
      by (subst delete_loop.simps) (simp add: erase_copies_none GetOp2_encoding [OF Instr(1)] split_beta)
    with Instr False show ?thesis by (simp add: instrs_Cons)
  qed
qed

lemma instrs_filter_bytes:
  assumes "list_all (\<lambda>i. op_encoding (fst i) (fst (snd i)) (snd (snd i))) is" "GetOp2 t = None"
  shows "instrs (concat (map (snd \<circ> snd) is) @ t) = (is, t)"
  using assms by (induction "is") (auto simp: instrs_None instrs_Cons)

lemma instrs_encoding: "list_all (\<lambda>i. op_encoding (fst i) (fst (snd i)) (snd (snd i))) (fst (instrs s))"
  by (induction s rule: script_induct) (simp_all add: instrs_None instrs_Cons)

lemma push_data_instrs:
  "length v < 2 ^ 32 \<Longrightarrow> snd (instrs s) = [] \<Longrightarrow>
     fst (instrs (push_data v s)) = fst (instrs s) @ [(unat (hd (push_header (length v))), v, push_header (length v) @ v)]
     \<and> snd (instrs (push_data v s)) = []"
proof (induction s rule: script_induct)
  case (Stuck s)
  then have "s = []" by (simp add: instrs_None)
  then show ?case using instrs_Cons [OF op_encoding_push [OF Stuck(2)], of "[]"]
    by (simp add: push_data_def instrs_None)
next
  case (Instr op v' b r)
  then show ?case using instrs_Cons [OF Instr(1)] by (simp add: push_data_def)
qed

section \<open>Properties\<close>

text \<open>Pushing and decoding are inverse: a pushed value is decoded, in its size class, with the
  value as operand and the decoder placed behind it; the four instruction bytes are self-delimiting, so a decoded
  instruction does not depend on what follows it.\<close>

theorem push_decode:
  assumes "length v < 2 ^ 32"
  shows "\<exists>op. GetOp2 (push_data v [] @ r) = Some (op, v, r) \<and> op \<le> OP_PUSHDATA4
    \<and> (op < OP_PUSHDATA1 \<longleftrightarrow> length v < OP_PUSHDATA1)
    \<and> canonical_push op v = (\<not> (length v = 1 \<and> v ! 0 \<le> 16))"
proof -
  let ?op = "unat (hd (push_header (length v)))"
  have "GetOp2 (push_data v [] @ r) = Some (?op, v, r)"
    using GetOp2_encoding [OF op_encoding_push [OF assms], of r] by (simp add: push_data_def)
  moreover have "?op < OP_PUSHDATA1 \<longleftrightarrow> length v < OP_PUSHDATA1" by (simp add: push_header_def)
  moreover have "canonical_push ?op v = (\<not> (length v = 1 \<and> v ! 0 \<le> 16))"
    by (auto simp: canonical_push_def push_header_def)
  ultimately show ?thesis using push_header_opcode by blast
qed

theorem push_decode_witness:
  "\<exists>op. GetOp2 (push_data (replicate 80 7) [] @ [0xac]) = Some (op, replicate 80 7, [0xac]) \<and> \<not> op < OP_PUSHDATA1"
proof -
  have "length (replicate 80 (7 :: byte)) < 2 ^ 32" by simp
  from push_decode [OF this, of "[0xac]"] show ?thesis by auto
qed

text \<open>\<^verbatim>\<open>FindAndDelete\<close> of a single instruction (the use the signature check makes of it)
  removes exactly the instructions equal to it, at instruction boundaries only, counts them, and keeps all
  other instructions and an undecodable tail as they were.\<close>

theorem FindAndDelete_instruction:
  assumes "length v < 2 ^ 32"
  shows "let b = push_data v []; (n, s') = FindAndDelete b s in
    n = length (filter (\<lambda>i. snd (snd i) = b) (fst (instrs s)))
    \<and> fst (instrs s') = filter (\<lambda>i. snd (snd i) \<noteq> b) (fst (instrs s))
    \<and> snd (instrs s') = snd (instrs s)
    \<and> FindAndDelete b s' = (0, s')"
proof -
  let ?b = "push_data v []"
  have e: "op_encoding (unat (hd (push_header (length v)))) v ?b"
    using op_encoding_push [OF assms] by (simp add: push_data_def)
  let ?f = "filter (\<lambda>i. snd (snd i) \<noteq> ?b) (fst (instrs s))"
  let ?s' = "concat (map (snd \<circ> snd) ?f) @ snd (instrs s)"
  have d: "FindAndDelete ?b x = delete_loop ?b x" for x
    using op_encoding_nonempty [OF e] by (simp add: FindAndDelete_def)
  have "list_all (\<lambda>i. op_encoding (fst i) (fst (snd i)) (snd (snd i))) ?f"
    using instrs_encoding [of s] unfolding list_all_iff by simp
  then have "instrs ?s' = (?f, snd (instrs s))"
    by (rule instrs_filter_bytes) (rule script_rest_stuck)
  then show ?thesis by (simp add: d delete_loop_instrs [OF e])
qed

theorem FindAndDelete_instruction_witness:
  "FindAndDelete [1, 5] [1, 5, 0x76, 2, 1, 5, 1, 5] = (2, [0x76, 2, 1, 5])"
proof -
  have i: "instrs [1, 5, 0x76, 2, 1, 5, 1, 5] = ([(1, [5], [1, 5]), (0x76, [], [0x76]), (2, [1, 5], [2, 1, 5]), (1, [5], [1, 5])], [])"
    by (simp add: instrs.simps get_operand_def)
  have b: "push_data [5] [] = [1, 5]" by (simp add: push_data_def push_header_def)
  show ?thesis
    using FindAndDelete_instruction [of "[5]" "[1, 5, 0x76, 2, 1, 5, 1, 5]"]
      instrs_bytes [of "snd (FindAndDelete [1, 5] [1, 5, 0x76, 2, 1, 5, 1, 5])"]
    by (simp add: b i split_beta Let_def prod_eq_iff)
qed

text \<open>Signature operation counts: the accurate count never exceeds the conservative one, both are at most
  twenty per instruction and hence per byte, and the count of a pay-to-script-hash output is the accurate count
  of the last value a push-only input script pushes, and zero for any other input script.\<close>

theorem sigop_counts:
  "GetSigOpCount True s \<le> GetSigOpCount False s \<and> GetSigOpCount fAccurate s \<le> 20 * length s
    \<and> GetSigOpCount_sig s scriptSig =
        (if \<not> IsPayToScriptHash s then GetSigOpCount True s
         else if IsPushOnly scriptSig then
           GetSigOpCount True (last ([] # map (fst \<circ> snd) (fst (instrs scriptSig))))
         else 0)"
proof -
  have "sigop_sum f l (map fst (fst (instrs s))) \<le> 20 * length s" for f l
    using sigop_sum_bounds(2) [of f l "map fst (fst (instrs s))"] instrs_length [of s] by simp
  then show ?thesis
    by (simp add: GetSigOpCount_def sigop_loop_instrs sigop_sum_bounds(1) GetSigOpCount_sig_def last_push_instrs)
qed

text \<open>The fast test for pay-to-script-hash accepts exactly the scripts
  \<^verbatim>\<open>OP_HASH160 <20 bytes> OP_EQUAL\<close> with a direct push, which is what \<^verbatim>\<open>push_uint160\<close> between the two
  opcodes writes.\<close>

theorem p2sh_pattern:
  "IsPayToScriptHash s \<longleftrightarrow> (\<exists>h. s = push_uint160 h [of_nat OP_HASH160] @ [of_nat OP_EQUAL])"
proof
  assume h: "IsPayToScriptHash s"
  then have l: "length s = 23" by (simp add: IsPayToScriptHash_def)
  let ?m = "take 20 (drop 2 s)"
  have "s = [s ! 0, s ! 1] @ ?m @ [s ! 22]"
  proof (rule nth_equalityI)
    fix i assume "i < length s"
    then have "i = 0 \<or> i = 1 \<or> (2 \<le> i \<and> i - 2 < 20) \<or> i = 22" using l by linarith
    then show "s ! i = ([s ! 0, s ! 1] @ ?m @ [s ! 22]) ! i"
      using l by (auto simp: nth_append numeral_2_eq_2 Suc_diff_Suc)
  qed (simp add: l)
  moreover have "ser_uint160 (of_nat (le_nat ?m)) = ?m"
    using l by (simp add: ser_uint160_def le_bytes_word)
  ultimately show "\<exists>h. s = push_uint160 h [of_nat OP_HASH160] @ [of_nat OP_EQUAL]"
    using h by (intro exI [of _ "of_nat (le_nat ?m)"]) (simp add: push_uint160_def IsPayToScriptHash_def)
next
  assume "\<exists>h. s = push_uint160 h [of_nat OP_HASH160] @ [of_nat OP_EQUAL]"
  then show "IsPayToScriptHash s" by (auto simp: push_uint160_def IsPayToScriptHash_def nth_append)
qed

text \<open>Small integers round trip through their opcodes, and \<^verbatim>\<open>push_int64\<close> writes an instruction whose
  opcode gives the number back for -1 and 1 to 16, and a data push whose operand decodes to the number otherwise.\<close>

theorem push_int64_decode:
  assumes "mpi_documented E" and "int64_range n"
  shows "\<exists>op v. GetOp2 (push_int64 E n [] @ r) = Some (op, v, r)
    \<and> (if n = -1 \<or> 1 \<le> n \<and> n \<le> 16 then v = [] \<and> int op = n + int OP_RESERVED else setvch E v = n \<and> op < OP_PUSHDATA1)"
proof (cases "n = -1 \<or> 1 \<le> n \<and> n \<le> 16")
  case True
  then have r: "0 \<le> n + 80" "nat (n + 80) < 256" "\<not> nat (n + 80) \<le> OP_PUSHDATA4" by auto
  have "of_int (n + (int OP_1 - 1)) = (of_nat (nat (n + 80)) :: byte)"
    using word_of_nat_nat [OF r(1), where 'a = 8] by simp
  then have "push_int64 E n [] = [of_nat (nat (n + 80))]" using True unfolding push_int64_def by (simp only: if_True append_Nil)
  moreover obtain k where "nat (n + 80) = k" "k < 256" "\<not> k \<le> OP_PUSHDATA4" "int k = n + 80" using r by auto
  ultimately show ?thesis using True by (simp add: Let_def)
next
  case False
  let ?v = "getvch E n"
  have "\<bar>n\<bar> < 128 * 256 ^ 8" using assms(2) by (auto simp: int64_range_def)
  then have l: "length ?v \<le> 9" using length_mpi_enc_le [of n 8] by (simp add: getvch_enc [OF assms(1)])
  then have "GetOp2 (push_data ?v [] @ r) = Some (unat (hd (push_header (length ?v))), ?v, r)"
    using GetOp2_encoding [OF op_encoding_push, of ?v r] by (simp add: push_data_def)
  moreover have "setvch E ?v = n" using setvch_getvch [OF assms(1), of n] l by simp
  moreover have "push_int64 E n [] = push_data ?v []"
    using False by (simp only: push_int64_def setint64_id [OF assms] if_False)
  moreover have "unat (hd (push_header (length ?v))) < OP_PUSHDATA1" using l by (simp add: push_header_def)
  ultimately show ?thesis using False by auto
qed

theorem push_int64_decode_witness:
  "\<exists>op v. GetOp2 (push_int64 ext_example (- 1000) [] @ [0x76]) = Some (op, v, [0x76]) \<and> setvch ext_example v = - 1000"
  using push_int64_decode [OF ext_example_documented(1), of "- 1000" "[0x76]"] by (auto simp: int64_range_def)

end
