(* ===== verification/Tx_Data.thy ===== *)
theory Tx_Data
  imports Hobo_Prelude Ext_Crypto Serialize Script
begin

text \<open>
  Hashes (\<^verbatim>\<open>hash.h\<close>) and the transaction data of \<^verbatim>\<open>main.h\<close>: out-points, inputs, outputs,
  transactions and the transaction index record, each with its serialised form, null tests and the
  predicates that classify a transaction.  Every type is an instance of the \<^verbatim>\<open>codec\<close> interface, so
  its encoding is unambiguous.
\<close>

unbundle bit_operations_syntax

section \<open>Hashes\<close>

definition uint256_of_bytes :: "valtype \<Rightarrow> uint256" where
  "uint256_of_bytes b = of_nat (le_nat b)"

definition uint160_of_bytes :: "valtype \<Rightarrow> uint160" where
  "uint160_of_bytes b = of_nat (le_nat b)"

definition Hash :: "ext \<Rightarrow> valtype \<Rightarrow> uint256" where
  "Hash E b = uint256_of_bytes (SHA256 E (SHA256 E b))"

text \<open>\<^verbatim>\<open>SHA256_Update\<close> feeds the hash function piece by piece; the context is the bytes fed so far.\<close>

definition Hash2 :: "ext \<Rightarrow> valtype \<Rightarrow> valtype \<Rightarrow> uint256" where
  "Hash2 E b1 b2 = uint256_of_bytes (SHA256 E (SHA256 E (b1 @ b2)))"

definition Hash3 :: "ext \<Rightarrow> valtype \<Rightarrow> valtype \<Rightarrow> valtype \<Rightarrow> uint256" where
  "Hash3 E b1 b2 b3 = uint256_of_bytes (SHA256 E (SHA256 E (b1 @ b2 @ b3)))"

record CHashWriter =
  hw_ctx :: valtype

definition hw_Init :: CHashWriter where "hw_Init = \<lparr> hw_ctx = [] \<rparr>"

definition hw_write :: "valtype \<Rightarrow> CHashWriter \<Rightarrow> CHashWriter" where
  "hw_write b w = w\<lparr>hw_ctx := hw_ctx w @ b\<rparr>"

definition hw_GetHash :: "ext \<Rightarrow> CHashWriter \<Rightarrow> uint256" where
  "hw_GetHash E w = uint256_of_bytes (SHA256 E (SHA256 E (hw_ctx w)))"

definition SerializeHash :: "ext \<Rightarrow> ('a \<Rightarrow> valtype) \<Rightarrow> 'a \<Rightarrow> uint256" where
  "SerializeHash E ser obj = hw_GetHash E (hw_write (ser obj) hw_Init)"

definition Hash160 :: "ext \<Rightarrow> valtype \<Rightarrow> uint160" where
  "Hash160 E b = uint160_of_bytes (RIPEMD160 E (SHA256 E b))"

section \<open>Out-points, inputs and outputs\<close>

record COutPoint =
  op_hash :: uint256
  op_n :: u32

definition op_SetNull :: COutPoint where
  "op_SetNull = \<lparr> op_hash = 0, op_n = - 1 \<rparr>"

definition op_IsNull :: "COutPoint \<Rightarrow> bool" where
  "op_IsNull p \<longleftrightarrow> op_hash p = 0 \<and> op_n p = - 1"

definition op_less :: "COutPoint \<Rightarrow> COutPoint \<Rightarrow> bool" where
  "op_less a b \<longleftrightarrow> op_hash a < op_hash b \<or> (op_hash a = op_hash b \<and> op_n a < op_n b)"

definition ser_outpoint :: "COutPoint \<Rightarrow> valtype" where
  "ser_outpoint p = ser_uint256 (op_hash p) @ ser_u32 (op_n p)"

definition unser_outpoint :: "COutPoint reader" where
  "unser_outpoint s = rbind (unser_uint256 s) (\<lambda>h s. rbind (unser_u32 s) (\<lambda>k s.
     Inr (\<lparr> op_hash = h, op_n = k \<rparr>, s)))"

record CTxIn =
  prevout :: COutPoint
  scriptSig :: CScript
  nSequence :: u32

definition txin_new :: "uint256 \<Rightarrow> u32 \<Rightarrow> CScript \<Rightarrow> u32 \<Rightarrow> CTxIn" where
  "txin_new hashPrevTx nOut sig nSeq =
     \<lparr> prevout = \<lparr> op_hash = hashPrevTx, op_n = nOut \<rparr>, scriptSig = sig, nSequence = nSeq \<rparr>"

definition txin_IsFinal :: "CTxIn \<Rightarrow> bool" where
  "txin_IsFinal i \<longleftrightarrow> nSequence i = - 1"

definition ser_txin :: "CTxIn \<Rightarrow> valtype" where
  "ser_txin i = ser_outpoint (prevout i) @ ser_bytes (scriptSig i) @ ser_u32 (nSequence i)"

definition unser_txin :: "CTxIn reader" where
  "unser_txin s = rbind (unser_outpoint s) (\<lambda>p s. rbind (unser_bytes s) (\<lambda>sg s. rbind (unser_u32 s) (\<lambda>q s.
     Inr (\<lparr> prevout = p, scriptSig = sg, nSequence = q \<rparr>, s))))"

record CTxOut =
  nValue :: int
  scriptPubKey :: CScript

definition txout_SetNull :: CTxOut where "txout_SetNull = \<lparr> nValue = - 1, scriptPubKey = [] \<rparr>"
definition txout_IsNull :: "CTxOut \<Rightarrow> bool" where "txout_IsNull out \<longleftrightarrow> nValue out = - 1"
definition txout_SetEmpty :: CTxOut where "txout_SetEmpty = \<lparr> nValue = 0, scriptPubKey = [] \<rparr>"
definition txout_IsEmpty :: "CTxOut \<Rightarrow> bool" where
  "txout_IsEmpty out \<longleftrightarrow> nValue out = 0 \<and> scriptPubKey out = []"

definition ser_txout :: "CTxOut \<Rightarrow> valtype" where
  "ser_txout out = ser_i64 (nValue out) @ ser_bytes (scriptPubKey out)"

definition unser_txout :: "CTxOut reader" where
  "unser_txout s = rbind (unser_i64 s) (\<lambda>v s. rbind (unser_bytes s) (\<lambda>k s.
     Inr (\<lparr> nValue = v, scriptPubKey = k \<rparr>, s)))"

section \<open>Transactions\<close>

record CTransaction =
  tx_nVersion :: int
  tx_nTime :: u32
  vin :: "CTxIn list"
  vout :: "CTxOut list"
  nLockTime :: u32

text \<open>Element sizes of the x86-64 build, which fix the growth steps of the vector reader.\<close>

definition sizeof_CTxIn :: nat where "sizeof_CTxIn = 72"
definition sizeof_CTxOut :: nat where "sizeof_CTxOut = 32"
definition sizeof_CDiskTxPos :: nat where "sizeof_CDiskTxPos = 12"

definition ser_tx :: "CTransaction \<Rightarrow> valtype" where
  "ser_tx tx = ser_i32 (tx_nVersion tx) @ ser_u32 (tx_nTime tx) @ ser_vector ser_txin (vin tx)
     @ ser_vector ser_txout (vout tx) @ ser_u32 (nLockTime tx)"

definition unser_tx :: "CTransaction reader" where
  "unser_tx s = rbind (unser_i32 s) (\<lambda>v s. rbind (unser_u32 s) (\<lambda>t s.
     rbind (unser_vector (5000000 div sizeof_CTxIn) unser_txin s) (\<lambda>i s.
     rbind (unser_vector (5000000 div sizeof_CTxOut) unser_txout s) (\<lambda>out s.
     rbind (unser_u32 s) (\<lambda>l s.
       Inr (\<lparr> tx_nVersion = v, tx_nTime = t, vin = i, vout = out, nLockTime = l \<rparr>, s))))))"

text \<open>\<^verbatim>\<open>SetNull\<close> takes the adjusted network time.\<close>

definition tx_SetNull :: "u32 \<Rightarrow> CTransaction" where
  "tx_SetNull GetAdjustedTime =
     \<lparr> tx_nVersion = 1, tx_nTime = GetAdjustedTime, vin = [], vout = [], nLockTime = 0 \<rparr>"

definition tx_IsNull :: "CTransaction \<Rightarrow> bool" where
  "tx_IsNull tx \<longleftrightarrow> vin tx = [] \<and> vout tx = []"

definition tx_GetHash :: "ext \<Rightarrow> CTransaction \<Rightarrow> uint256" where
  "tx_GetHash E tx = SerializeHash E ser_tx tx"

definition IsCoinBase :: "CTransaction \<Rightarrow> bool" where
  "IsCoinBase tx \<longleftrightarrow> length (vin tx) = 1 \<and> op_IsNull (prevout (vin tx ! 0)) \<and> length (vout tx) \<ge> 1"

definition IsCoinStake :: "CTransaction \<Rightarrow> bool" where
  "IsCoinStake tx \<longleftrightarrow> length (vin tx) > 0 \<and> \<not> op_IsNull (prevout (vin tx ! 0)) \<and> length (vout tx) \<ge> 2
     \<and> txout_IsEmpty (vout tx ! 0)"

section \<open>The transaction index record\<close>

record CDiskTxPos =
  nFile :: u32
  nBlockPos :: u32
  nTxPos :: u32

definition pos_SetNull :: CDiskTxPos where
  "pos_SetNull = \<lparr> nFile = - 1, nBlockPos = 0, nTxPos = 0 \<rparr>"

definition pos_IsNull :: "CDiskTxPos \<Rightarrow> bool" where
  "pos_IsNull p \<longleftrightarrow> nFile p = - 1"

definition ser_pos :: "CDiskTxPos \<Rightarrow> valtype" where
  "ser_pos p = ser_u32 (nFile p) @ ser_u32 (nBlockPos p) @ ser_u32 (nTxPos p)"

definition unser_pos :: "CDiskTxPos reader" where
  "unser_pos s = rbind (unser_u32 s) (\<lambda>f s. rbind (unser_u32 s) (\<lambda>b s. rbind (unser_u32 s) (\<lambda>t s.
     Inr (\<lparr> nFile = f, nBlockPos = b, nTxPos = t \<rparr>, s))))"

record CTxIndex =
  txi_pos :: CDiskTxPos
  vSpent :: "CDiskTxPos list"

definition txindex_new :: "CDiskTxPos \<Rightarrow> nat \<Rightarrow> CTxIndex" where
  "txindex_new posIn nOutputs = \<lparr> txi_pos = posIn, vSpent = replicate nOutputs pos_SetNull \<rparr>"

text \<open>On disk the record starts with the client version the caller passes; it is read and dropped.\<close>

definition ser_txindex :: "int \<Rightarrow> CTxIndex \<Rightarrow> valtype" where
  "ser_txindex ver x = ser_i32 ver @ ser_pos (txi_pos x) @ ser_vector ser_pos (vSpent x)"

definition unser_txindex :: "(int \<times> CTxIndex) reader" where
  "unser_txindex s = rbind (unser_i32 s) (\<lambda>v s. rbind (unser_pos s) (\<lambda>p s.
     rbind (unser_vector (5000000 div sizeof_CDiskTxPos) unser_pos s) (\<lambda>sp s.
       Inr ((v, \<lparr> txi_pos = p, vSpent = sp \<rparr>), s))))"

section \<open>The data types are codecs\<close>

definition txin_ok :: "CTxIn \<Rightarrow> bool" where
  "txin_ok i \<longleftrightarrow> length (scriptSig i) \<le> MAX_SIZE"

definition txout_ok :: "CTxOut \<Rightarrow> bool" where
  "txout_ok out \<longleftrightarrow> int64_range (nValue out) \<and> length (scriptPubKey out) \<le> MAX_SIZE"

definition tx_ok :: "CTransaction \<Rightarrow> bool" where
  "tx_ok tx \<longleftrightarrow> int32_range (tx_nVersion tx)
     \<and> length (vin tx) \<le> MAX_SIZE \<and> list_all txin_ok (vin tx)
     \<and> length (vout tx) \<le> MAX_SIZE \<and> list_all txout_ok (vout tx)"

lemma record_codec:
  assumes "\<And>x r. ok x \<Longrightarrow> unser (ser x @ r) = Inr (x, r)"
    and "\<And>s x r. unser s = Inr (x, r) \<Longrightarrow> s = ser x @ r \<and> ok x"
  shows "codec ser unser ok"
  using assms by unfold_locales auto

lemmas unser_iffs = u32.unser_iff c256.unser_iff i32.unser_iff i64.unser_iff bytes.unser_iff
lemmas unser_sers = u32.unser_ser c256.unser_ser i32.unser_ser i64.unser_ser bytes.unser_ser

interpretation outpoint: codec ser_outpoint unser_outpoint "\<lambda>p. True"
  by (rule record_codec) (auto simp: ser_outpoint_def unser_outpoint_def unser_sers unser_iffs rbind_Inr)

interpretation txin: codec ser_txin unser_txin txin_ok
  by (rule record_codec)
    (auto simp: ser_txin_def unser_txin_def txin_ok_def unser_sers unser_iffs outpoint.unser_ser outpoint.unser_iff rbind_Inr)

interpretation txout: codec ser_txout unser_txout txout_ok
  by (rule record_codec) (auto simp: ser_txout_def unser_txout_def txout_ok_def unser_sers unser_iffs rbind_Inr)

interpretation txins: codec "ser_vector ser_txin" "unser_vector (5000000 div sizeof_CTxIn) unser_txin"
    "\<lambda>v. length v \<le> MAX_SIZE \<and> list_all txin_ok v"
  by (rule codec_vector [OF txin.codec_axioms]) (simp add: sizeof_CTxIn_def)

interpretation txouts: codec "ser_vector ser_txout" "unser_vector (5000000 div sizeof_CTxOut) unser_txout"
    "\<lambda>v. length v \<le> MAX_SIZE \<and> list_all txout_ok v"
  by (rule codec_vector [OF txout.codec_axioms]) (simp add: sizeof_CTxOut_def)

interpretation tx: codec ser_tx unser_tx tx_ok
  by (rule record_codec)
    (auto simp: ser_tx_def unser_tx_def tx_ok_def unser_sers unser_iffs txins.unser_ser txins.unser_iff
      txouts.unser_ser txouts.unser_iff rbind_Inr)

interpretation diskpos: codec ser_pos unser_pos "\<lambda>p. True"
  by (rule record_codec) (auto simp: ser_pos_def unser_pos_def unser_sers unser_iffs rbind_Inr)

interpretation diskposs: codec "ser_vector ser_pos" "unser_vector (5000000 div sizeof_CDiskTxPos) unser_pos"
    "\<lambda>v. length v \<le> MAX_SIZE \<and> list_all (\<lambda>p. True) v"
  by (rule codec_vector [OF diskpos.codec_axioms]) (simp add: sizeof_CDiskTxPos_def)

lemma txindex_roundtrip:
  "int32_range ver \<Longrightarrow> length (vSpent x) \<le> MAX_SIZE \<Longrightarrow> unser_txindex (ser_txindex ver x @ r) = Inr ((ver, x), r)"
  by (simp add: ser_txindex_def unser_txindex_def unser_sers diskpos.unser_ser diskposs.unser_ser list_all_iff)

text \<open>Feeding a hash writer in pieces is hashing the concatenation.\<close>

lemma hash_writer: "hw_GetHash E (hw_write b2 (hw_write b1 hw_Init)) = Hash2 E b1 b2"
  by (simp add: hw_GetHash_def hw_write_def hw_Init_def Hash2_def)

lemma tx_GetHash_Hash: "tx_GetHash E tx = Hash E (ser_tx tx)"
  by (simp add: tx_GetHash_def SerializeHash_def hw_GetHash_def hw_write_def hw_Init_def Hash_def)

text \<open>A transaction is a coin base, a coin stake, or neither, never both.\<close>

lemma coinbase_not_coinstake: "IsCoinBase tx \<Longrightarrow> \<not> IsCoinStake tx"
  by (simp add: IsCoinBase_def IsCoinStake_def)

section \<open>Properties\<close>

text \<open>C31. Transactions have one encoding: the reader accepts a byte string exactly when it starts with the encoding of
  the well-formed transaction it returns, and leaves the rest.  Two different well-formed transactions therefore
  have different encodings, so a transaction identifier is the hash of an unambiguous message.\<close>

theorem transaction_codec:
  "(unser_tx s = Inr (tx, r) \<longleftrightarrow> s = ser_tx tx @ r \<and> tx_ok tx)
    \<and> tx_GetHash E tx = Hash E (ser_tx tx)"
  using tx.unser_iff tx_GetHash_Hash by blast

end
