(* ===== verification/Key.thy ===== *)
theory Key
  imports Hobo_Prelude Ext_Crypto Serialize Tx_Data
begin

text \<open>
  Keys, \<^verbatim>\<open>key.h\<close> and \<^verbatim>\<open>key.cpp\<close>: the range test on signature elements, public keys, and the key object
  over OpenSSL's \<^verbatim>\<open>EC_KEY\<close>, which holds an optional private number, an optional public point and the form
  (2 compressed, 4 uncompressed, 6 hybrid) in which the point is written.
\<close>

unbundle bit_operations_syntax

section \<open>Range of signature elements\<close>

text \<open>The three loops of \<^verbatim>\<open>CompareBigEndian\<close>.\<close>

fun strip_longer :: "nat \<Rightarrow> byte list \<Rightarrow> byte list option" where
  "strip_longer 0 c = Some c"
| "strip_longer (Suc k) [] = Some []"
| "strip_longer (Suc k) (x # c) = (if x \<noteq> 0 then None else strip_longer k c)"

fun compare_equal_length :: "byte list \<Rightarrow> byte list \<Rightarrow> int" where
  "compare_equal_length (x # c1) (y # c2) =
     (if x > y then 1 else if y > x then - 1 else compare_equal_length c1 c2)"
| "compare_equal_length c1 c2 = 0"

definition CompareBigEndian :: "byte list \<Rightarrow> byte list \<Rightarrow> int" where
  "CompareBigEndian c1 c2 =
     (case strip_longer (length c1 - length c2) c1 of
        None \<Rightarrow> 1
      | Some c1 \<Rightarrow>
          (case strip_longer (length c2 - length c1) c2 of
             None \<Rightarrow> - 1
           | Some c2 \<Rightarrow> compare_equal_length c1 c2))"

definition vchMaxModOrder :: "byte list" where
  "vchMaxModOrder =
    [0xFF,0xFF,0xFF,0xFF,0xFF,0xFF,0xFF,0xFF,0xFF,0xFF,0xFF,0xFF,0xFF,0xFF,0xFF,0xFE,
     0xBA,0xAE,0xDC,0xE6,0xAF,0x48,0xA0,0x3B,0xBF,0xD2,0x5E,0x8C,0xD0,0x36,0x41,0x40]"

definition vchMaxModHalfOrder :: "byte list" where
  "vchMaxModHalfOrder =
    [0x7F,0xFF,0xFF,0xFF,0xFF,0xFF,0xFF,0xFF,0xFF,0xFF,0xFF,0xFF,0xFF,0xFF,0xFF,0xFF,
     0x5D,0x57,0x6E,0x73,0x57,0xA4,0x50,0x1D,0xDF,0xE9,0x2F,0x46,0x68,0x1B,0x20,0xA0]"

definition CheckSignatureElement :: "byte list \<Rightarrow> bool \<Rightarrow> bool" where
  "CheckSignatureElement vch half \<longleftrightarrow>
     CompareBigEndian vch [] > 0 \<and> CompareBigEndian vch (if half then vchMaxModHalfOrder else vchMaxModOrder) \<le> 0"

section \<open>Public keys\<close>

type_synonym CPubKey = "byte list"
type_synonym CKeyID = uint160
type_synonym CScriptID = uint160

definition pubkey_GetID :: "ext \<Rightarrow> CPubKey \<Rightarrow> CKeyID" where
  "pubkey_GetID E k = Hash160 E k"

definition pubkey_IsValid :: "CPubKey \<Rightarrow> bool" where
  "pubkey_IsValid k \<longleftrightarrow> length k = 33 \<or> length k = 65"

definition pubkey_IsCompressed :: "CPubKey \<Rightarrow> bool" where
  "pubkey_IsCompressed k \<longleftrightarrow> length k = 33"

section \<open>Key objects\<close>

record EC_KEY =
  ec_priv :: "BIGNUM option"
  ec_pub :: "EC_POINT option"
  ec_form :: nat

record CKey =
  pkey :: EC_KEY
  fSet :: bool
  fCompressedPubKey :: bool

datatype key_error = KeyError string

definition EC_KEY_new :: EC_KEY where
  "EC_KEY_new = \<lparr> ec_priv = None, ec_pub = None, ec_form = 4 \<rparr>"

definition key_SetCompressedPubKey :: "CKey \<Rightarrow> CKey" where
  "key_SetCompressedPubKey k = k\<lparr>pkey := (pkey k)\<lparr>ec_form := 2\<rparr>, fCompressedPubKey := True\<rparr>"

definition key_Reset :: CKey where
  "key_Reset = \<lparr> pkey = EC_KEY_new, fSet = False, fCompressedPubKey = False \<rparr>"

text \<open>Assignment copies the OpenSSL object and \<^verbatim>\<open>fSet\<close>, but not the flag.\<close>

definition key_assign :: "CKey \<Rightarrow> CKey \<Rightarrow> CKey" where
  "key_assign this b = this\<lparr>pkey := pkey b, fSet := fSet b\<rparr>"

definition key_IsNull :: "CKey \<Rightarrow> bool" where "key_IsNull k \<longleftrightarrow> \<not> fSet k"
definition key_IsCompressed :: "CKey \<Rightarrow> bool" where "key_IsCompressed k \<longleftrightarrow> fCompressedPubKey k"

text \<open>The pair drawn by \<^verbatim>\<open>EC_KEY_generate_key\<close> is an argument.\<close>

definition key_MakeNewKey :: "BIGNUM \<times> EC_POINT \<Rightarrow> bool \<Rightarrow> CKey \<Rightarrow> CKey" where
  "key_MakeNewKey drawn fCompressed k =
     (let k = k\<lparr>pkey := (pkey k)\<lparr>ec_priv := Some (fst drawn), ec_pub := Some (snd drawn)\<rparr>\<rparr>;
          k = (if fCompressed then key_SetCompressedPubKey k else k)
      in k\<lparr>fSet := True\<rparr>)"

definition key_SetSecret :: "ext \<Rightarrow> byte list \<Rightarrow> bool \<Rightarrow> CKey \<Rightarrow> key_error + CKey" where
  "key_SetSecret E vchSecret fCompressed k =
     (if length vchSecret \<noteq> 32 then Inl (KeyError ''CKey::SetSecret() : secret must be 32 bytes'')
      else case EC_KEY_regenerate_key E (int (be_nat vchSecret)) of
        None \<Rightarrow> Inl (KeyError ''CKey::SetSecret() : EC_KEY_regenerate_key failed'')
      | Some q \<Rightarrow>
          let k = k\<lparr>pkey := EC_KEY_new\<lparr>ec_priv := Some (int (be_nat vchSecret)), ec_pub := Some q\<rparr>, fSet := True\<rparr>
          in Inr (if fCompressed \<or> fCompressedPubKey k then key_SetCompressedPubKey k else k))"

definition key_GetSecret :: "CKey \<Rightarrow> key_error + byte list \<times> bool" where
  "key_GetSecret k =
     (case ec_priv (pkey k) of
        None \<Rightarrow> Inl (KeyError ''CKey::GetSecret() : EC_KEY_get0_private_key failed'')
      | Some bn \<Rightarrow>
          let b = mag_bytes (nat bn) in Inr (replicate (32 - length b) 0 @ b, fCompressedPubKey k))"

definition key_SetPubKey :: "ext \<Rightarrow> CPubKey \<Rightarrow> CKey \<Rightarrow> bool \<times> CKey" where
  "key_SetPubKey E vchPubKey k =
     (case o2i_ECPublicKey E vchPubKey of
        Some (q, form) \<Rightarrow>
          let k = k\<lparr>pkey := (pkey k)\<lparr>ec_pub := Some q, ec_form := form\<rparr>, fSet := True\<rparr>
          in (True, if length vchPubKey = 33 then key_SetCompressedPubKey k else k)
      | None \<Rightarrow> (False, key_Reset))"

definition key_GetPubKey :: "ext \<Rightarrow> CKey \<Rightarrow> key_error + CPubKey" where
  "key_GetPubKey E k =
     (case ec_pub (pkey k) of
        None \<Rightarrow> Inl (KeyError ''CKey::GetPubKey() : i2o_ECPublicKey failed'')
      | Some q \<Rightarrow>
          let b = i2o_ECPublicKey E q (ec_form (pkey k))
          in if b = [] then Inl (KeyError ''CKey::GetPubKey() : i2o_ECPublicKey failed'') else Inr b)"

definition key_Verify :: "ext \<Rightarrow> uint256 \<Rightarrow> byte list \<Rightarrow> CKey \<Rightarrow> bool" where
  "key_Verify E h vchSig k =
     (case ec_pub (pkey k) of None \<Rightarrow> False | Some q \<Rightarrow> ECDSA_verify E (ser_uint256 h) vchSig q = 1)"

text \<open>The low-S step of signing: \<^verbatim>\<open>s\<close> above half the group order is replaced by its negative.\<close>

definition low_s :: "ext \<Rightarrow> BIGNUM \<Rightarrow> BIGNUM" where
  "low_s E s = (if s > EC_GROUP_get0_order E div 2 then EC_GROUP_get0_order E - s else s)"

definition key_Sign :: "ext \<Rightarrow> uint256 \<Rightarrow> CKey \<Rightarrow> (byte list) option" where
  "key_Sign E h k =
     (case ec_priv (pkey k) of
        None \<Rightarrow> None
      | Some x \<Rightarrow>
          (case ECDSA_do_sign E (ser_uint256 h) x of
             None \<Rightarrow> None
           | Some (r, s) \<Rightarrow>
               let vchSig = i2d_ECDSA_SIG E (r, low_s E s)
               in if \<not> key_Verify E h vchSig k then None else Some vchSig))"

section \<open>The comparison is the order of the numbers\<close>

lemma be_nat_order:
  assumes "length c1 = length c2" "x < y"
  shows "be_nat (x # c1) < be_nat (y # c2)"
proof -
  have "be_nat (x # c1) < (unat x + 1) * 256 ^ length c1" using be_nat_less [of c1] by (simp add: be_nat_Cons)
  also have "\<dots> \<le> unat y * 256 ^ length c1" using assms(2) by (intro mult_right_mono) (simp_all add: word_less_nat_alt)
  also have "\<dots> \<le> be_nat (y # c2)" using assms(1) by (simp add: be_nat_Cons)
  finally show ?thesis .
qed

lemma compare_equal_length_sgn:
  "length c1 = length c2 \<Longrightarrow> compare_equal_length c1 c2 = sgn (int (be_nat c1) - int (be_nat c2))"
proof (induction c1 c2 rule: compare_equal_length.induct)
  case (1 x c1 y c2)
  then have l: "length c1 = length c2" by simp
  consider "x < y" | "y < x" | "x = y" by fastforce
  then show ?case
  proof cases
    case 1
    then show ?thesis using be_nat_order [OF l 1] by (simp add: sgn_if)
  next
    case 2
    then show ?thesis using be_nat_order [OF l [symmetric] 2] by (simp add: sgn_if)
  next
    case 3
    with 1 l show ?thesis by (simp add: be_nat_Cons)
  qed
qed auto

lemma strip_longer_Some:
  "strip_longer k c = Some d \<Longrightarrow> k \<le> length c \<Longrightarrow> be_nat d = be_nat c \<and> length d = length c - k"
  by (induction k c arbitrary: d rule: strip_longer.induct) (auto simp: be_nat_Cons split: if_splits)

lemma strip_longer_None:
  "strip_longer k c = None \<Longrightarrow> k \<le> length c \<Longrightarrow> 256 ^ (length c - k) \<le> be_nat c"
proof (induction k c rule: strip_longer.induct)
  case (3 k x c)
  show ?case
  proof (cases "x = 0")
    case False
    then have "1 \<le> unat x" by (simp add: Suc_le_eq unat_gt_0)
    have "(256 :: nat) ^ (length c - k) \<le> 256 ^ length c" by (rule power_increasing) simp_all
    also have "\<dots> \<le> unat x * 256 ^ length c" using \<open>1 \<le> unat x\<close> by simp
    also have "\<dots> \<le> be_nat (x # c)" by (simp add: be_nat_Cons)
    finally show ?thesis by simp
  qed (use 3 in \<open>simp add: be_nat_Cons\<close>)
qed auto

lemma CompareBigEndian_sgn: "CompareBigEndian c1 c2 = sgn (int (be_nat c1) - int (be_nat c2))"
proof (cases "strip_longer (length c1 - length c2) c1")
  case None
  then have "length c1 - length c2 \<noteq> 0" by (cases "length c1 - length c2") auto
  then have "256 ^ length c2 \<le> be_nat c1" using strip_longer_None [OF None] by simp
  then have "be_nat c2 < be_nat c1" using be_nat_less [of c2] by simp
  with None show ?thesis by (simp add: CompareBigEndian_def)
next
  case (Some d1)
  then have d1: "be_nat d1 = be_nat c1" "length d1 = min (length c1) (length c2)"
    using strip_longer_Some [OF Some] by auto
  show ?thesis
  proof (cases "strip_longer (length c2 - length d1) c2")
    case None
    then have "length c2 - length d1 \<noteq> 0" by (cases "length c2 - length d1") auto
    then have "256 ^ length d1 \<le> be_nat c2" using strip_longer_None [OF None] by simp
    then have "be_nat c1 < be_nat c2" using be_nat_less [of d1] d1 by simp
    with None Some show ?thesis by (simp add: CompareBigEndian_def)
  next
    case (Some d2)
    then have "be_nat d2 = be_nat c2" "length d2 = length d1"
      using strip_longer_Some [OF Some] d1(2) by auto
    with d1 Some \<open>strip_longer (length c1 - length c2) c1 = Some d1\<close> show ?thesis
      by (simp add: CompareBigEndian_def compare_equal_length_sgn)
  qed
qed

section \<open>Properties\<close>

text \<open>A signature element passes the check exactly when, as a big-endian number of any length, it lies between one
  and the bound; the bound for the low half is half the bound for the whole range.\<close>

theorem signature_element_range:
  "(CheckSignatureElement v False \<longleftrightarrow> 1 \<le> be_nat v \<and> be_nat v \<le> be_nat vchMaxModOrder)
    \<and> (CheckSignatureElement v True \<longleftrightarrow> 1 \<le> be_nat v \<and> be_nat v \<le> be_nat vchMaxModHalfOrder)
    \<and> be_nat vchMaxModOrder = 2 * be_nat vchMaxModHalfOrder"
proof -
  have "be_nat vchMaxModOrder = 2 * be_nat vchMaxModHalfOrder"
    by (simp add: vchMaxModOrder_def vchMaxModHalfOrder_def be_nat_def)
  then show ?thesis by (auto simp: CheckSignatureElement_def CompareBigEndian_sgn sgn_if)
qed

text \<open>Signing writes a low-S signature that verifies under the key's own public point; an element returned by the
  library in the range of the group order stays in range.\<close>

theorem sign_low_s:
  assumes "key_Sign E h k = Some sig"
  shows "key_Verify E h sig k \<and> (\<exists>x r s. ec_priv (pkey k) = Some x \<and> ECDSA_do_sign E (ser_uint256 h) x = Some (r, s)
    \<and> sig = i2d_ECDSA_SIG E (r, low_s E s)
    \<and> (0 < s \<and> s < EC_GROUP_get0_order E \<longrightarrow> 0 < low_s E s \<and> low_s E s \<le> EC_GROUP_get0_order E div 2))"
proof -
  obtain x r s where "ec_priv (pkey k) = Some x" "ECDSA_do_sign E (ser_uint256 h) x = Some (r, s)"
    "sig = i2d_ECDSA_SIG E (r, low_s E s)" "key_Verify E h sig k"
    using assms by (auto simp: key_Sign_def Let_def split: option.splits if_splits)
  then show ?thesis by (auto simp: low_s_def)
qed

theorem sign_low_s_witness:
  "\<exists>k sig. key_Sign ext_example 5 k = Some sig \<and> key_Verify ext_example 5 sig k"
proof -
  let ?k = "key_Reset\<lparr>pkey := \<lparr> ec_priv = Some 3, ec_pub = Some [2], ec_form = 2 \<rparr>\<rparr>"
  have "key_Sign ext_example 5 ?k = Some [0x30, 6, 2, 1, 1, 2, 1, 1]"
    by (simp add: key_Sign_def key_Verify_def ext_example_def)
  with sign_low_s [OF this] show ?thesis by blast
qed

text \<open>Copying a key by assignment leaves the compressed flag of the target as it was: the copy of a key marked as
  compressed into a fresh object is not marked, although it writes the same public key.\<close>

theorem key_assign_flag:
  "key_IsCompressed (key_assign this b) = key_IsCompressed this
    \<and> key_GetPubKey E (key_assign this b) = key_GetPubKey E b
    \<and> \<not> key_IsCompressed (key_assign key_Reset (key_SetCompressedPubKey b))"
  by (simp add: key_assign_def key_IsCompressed_def key_GetPubKey_def key_Reset_def Let_def split: option.split)

lemma length_mag_bytes_le: "n < 256 ^ k \<Longrightarrow> length (mag_bytes n) \<le> k"
proof (induction k arbitrary: n)
  case (Suc k)
  then have "n div 256 < 256 ^ k" by (simp add: less_mult_imp_div_less mult.commute)
  with Suc.IH show ?case by (subst mag_bytes.simps) simp
qed simp

text \<open>A secret of 32 bytes survives \<^verbatim>\<open>SetSecret\<close> and \<^verbatim>\<open>GetSecret\<close> unchanged.\<close>

theorem secret_roundtrip:
  assumes "key_SetSecret E b c k = Inr k'"
  shows "key_GetSecret k' = Inr (b, c \<or> fCompressedPubKey k)"
proof -
  have b: "length b = 32" using assms by (simp add: key_SetSecret_def split: if_splits)
  have "be_nat b < 256 ^ 32" using be_nat_less [of b] unfolding b .
  then have l: "length (mag_bytes (be_nat b)) \<le> 32" by (rule length_mag_bytes_le)
  have "replicate (32 - length (mag_bytes (be_nat b))) 0 @ mag_bytes (be_nat b) = b"
    using b l by (subst be_nat_inject [symmetric]) (simp_all add: be_nat_append be_nat_mag_bytes)
  then show ?thesis using assms b
    by (auto simp: key_SetSecret_def key_GetSecret_def key_SetCompressedPubKey_def Let_def split: option.splits if_splits)
qed

theorem secret_roundtrip_witness:
  "\<exists>k'. key_SetSecret ext_example (replicate 31 0 @ [7]) True key_Reset = Inr k'
    \<and> key_GetSecret k' = Inr (replicate 31 0 @ [7], True)"
proof -
  obtain k' where "key_SetSecret ext_example (replicate 31 0 @ [7]) True key_Reset = Inr k'"
    by (simp add: key_SetSecret_def ext_example_def Let_def)
  with secret_roundtrip [OF this] show ?thesis by auto
qed

end
