(* ===== verification/Sig_Check.thy ===== *)
theory Sig_Check
  imports Hobo_Prelude Ext_Crypto Serialize Script Tx_Data Key
    "HOL-Library.List_Lexorder" "HOL-Library.Product_Lexorder"
begin

text \<open>
  Signature checking, from \<^verbatim>\<open>script.cpp\<close>: the canonical-form tests on keys and signatures, the hash a
  signature commits to, the cache of verified signatures, and \<^verbatim>\<open>CheckSig\<close>, which tries libsecp256k1 first
  and falls back to OpenSSL.
\<close>

unbundle bit_operations_syntax

section \<open>Flags\<close>

abbreviation (input) SIGHASH_ALL :: int where "SIGHASH_ALL \<equiv> 1"
abbreviation (input) SIGHASH_NONE :: int where "SIGHASH_NONE \<equiv> 2"
abbreviation (input) SIGHASH_SINGLE :: int where "SIGHASH_SINGLE \<equiv> 3"
abbreviation (input) SIGHASH_ANYONECANPAY :: int where "SIGHASH_ANYONECANPAY \<equiv> 0x80"

abbreviation (input) SCRIPT_VERIFY_NONE :: u32 where "SCRIPT_VERIFY_NONE \<equiv> 0"
abbreviation (input) SCRIPT_VERIFY_P2SH :: u32 where "SCRIPT_VERIFY_P2SH \<equiv> 1"
abbreviation (input) SCRIPT_VERIFY_STRICTENC :: u32 where "SCRIPT_VERIFY_STRICTENC \<equiv> 2"
abbreviation (input) SCRIPT_VERIFY_LOW_S :: u32 where "SCRIPT_VERIFY_LOW_S \<equiv> 4"
abbreviation (input) SCRIPT_VERIFY_NOCACHE :: u32 where "SCRIPT_VERIFY_NOCACHE \<equiv> 8"
abbreviation (input) SCRIPT_VERIFY_NULLDUMMY :: u32 where "SCRIPT_VERIFY_NULLDUMMY \<equiv> 16"

definition STRICT_FORMAT_FLAGS :: u32 where
  "STRICT_FORMAT_FLAGS = SCRIPT_VERIFY_STRICTENC OR SCRIPT_VERIFY_LOW_S OR SCRIPT_VERIFY_NULLDUMMY"
definition MANDATORY_SCRIPT_VERIFY_FLAGS :: u32 where
  "MANDATORY_SCRIPT_VERIFY_FLAGS = SCRIPT_VERIFY_P2SH"
definition STRICT_FLAGS :: u32 where
  "STRICT_FLAGS = MANDATORY_SCRIPT_VERIFY_FLAGS OR STRICT_FORMAT_FLAGS"
definition SOFT_FLAGS :: u32 where
  "SOFT_FLAGS = STRICT_FLAGS AND NOT STRICT_FORMAT_FLAGS"

section \<open>Canonical encodings\<close>

definition IsCanonicalPubKey :: "valtype \<Rightarrow> u32 \<Rightarrow> bool" where
  "IsCanonicalPubKey vchPubKey flags =
     (if flags AND SCRIPT_VERIFY_STRICTENC = 0 then True
      else if length vchPubKey < 33 then False
      else if vchPubKey ! 0 = 0x04 then length vchPubKey = 65
      else if vchPubKey ! 0 = 0x02 \<or> vchPubKey ! 0 = 0x03 then length vchPubKey = 33
      else False)"

text \<open>An integer of a DER signature: its type byte, its length and its bytes, not negative and not
  padded more than needed.\<close>

definition canonical_integer :: "byte \<Rightarrow> nat \<Rightarrow> byte list \<Rightarrow> bool" where
  "canonical_integer tag nLen v =
     (if tag \<noteq> 0x02 then False
      else if nLen = 0 then False
      else if v ! 0 AND 0x80 \<noteq> 0 then False
      else if nLen > 1 \<and> v ! 0 = 0x00 \<and> v ! 1 AND 0x80 = 0 then False
      else True)"

definition IsCanonicalSignature :: "valtype \<Rightarrow> u32 \<Rightarrow> bool" where
  "IsCanonicalSignature vchSig flags =
     (if flags AND SCRIPT_VERIFY_STRICTENC = 0 then True
      else if length vchSig < 9 then False
      else if length vchSig > 73 then False
      else let nHashType = vchSig ! (length vchSig - 1) AND NOT 0x80 in
        if nHashType < 1 \<or> nHashType > 3 then False
        else if vchSig ! 0 \<noteq> 0x30 then False
        else if unat (vchSig ! 1) \<noteq> length vchSig - 3 then False
        else let nLenR = unat (vchSig ! 3) in
          if 5 + nLenR \<ge> length vchSig then False
          else let nLenS = unat (vchSig ! (5 + nLenR)) in
            if nLenR + nLenS + 7 \<noteq> length vchSig then False
            else let R = drop 4 vchSig; S = drop (6 + nLenR) vchSig in
              if \<not> canonical_integer (vchSig ! 2) nLenR R then False
              else if \<not> canonical_integer (vchSig ! (4 + nLenR)) nLenS S then False
              else if flags AND SCRIPT_VERIFY_LOW_S \<noteq> 0 then CheckSignatureElement (take nLenS S) True
              else True)"

section \<open>The hash a signature commits to\<close>

definition blank_signatures :: "CTxIn list \<Rightarrow> CTxIn list" where
  "blank_signatures v = map (\<lambda>i. i\<lparr>scriptSig := []\<rparr>) v"

definition zero_other_sequences :: "nat \<Rightarrow> CTxIn list \<Rightarrow> CTxIn list" where
  "zero_other_sequences nIn v = map (\<lambda>(k, i). if k \<noteq> nIn then i\<lparr>nSequence := 0\<rparr> else i) (enumerate 0 v)"

text \<open>The transaction that is hashed; None where the code logs an error and returns the number 1.\<close>

definition sighash_tx :: "CScript \<Rightarrow> CTransaction \<Rightarrow> nat \<Rightarrow> int \<Rightarrow> CTransaction option" where
  "sighash_tx scriptCode txTo nIn nHashType =
     (if nIn \<ge> length (vin txTo) then None
      else
        let scriptCode = snd (FindAndDelete [of_nat OP_CODESEPARATOR] scriptCode);
            v = blank_signatures (vin txTo);
            v = v[nIn := (v ! nIn)\<lparr>scriptSig := scriptCode\<rparr>];
            txTmp = txTo\<lparr>vin := v\<rparr>;
            anyone = (\<lambda>t. if nHashType AND SIGHASH_ANYONECANPAY \<noteq> 0 then t\<lparr>vin := [vin t ! nIn]\<rparr> else t)
        in if nHashType AND 0x1f = SIGHASH_NONE then
             Some (anyone (txTmp\<lparr>vout := [], vin := zero_other_sequences nIn (vin txTmp)\<rparr>))
           else if nHashType AND 0x1f = SIGHASH_SINGLE then
             if nIn \<ge> length (vout txTmp) then None
             else Some (anyone (txTmp\<lparr>vout := replicate nIn txout_SetNull @ [vout txTmp ! nIn],
                                      vin := zero_other_sequences nIn (vin txTmp)\<rparr>))
           else Some (anyone txTmp))"

definition SignatureHash :: "ext \<Rightarrow> CScript \<Rightarrow> CTransaction \<Rightarrow> nat \<Rightarrow> int \<Rightarrow> uint256" where
  "SignatureHash E scriptCode txTo nIn nHashType =
     (case sighash_tx scriptCode txTo nIn nHashType of
        None \<Rightarrow> 1
      | Some txTmp \<Rightarrow> Hash E (ser_tx txTmp @ ser_i32 nHashType))"

section \<open>The cache of verified signatures\<close>

type_synonym sigdata = "uint256 \<times> valtype \<times> CPubKey"

text \<open>The set in its order, the configured size, and the random numbers drawn for eviction.\<close>

record CSignatureCache =
  setValid :: "sigdata list"
  nMaxCacheSize :: int
  rand_hash :: "nat \<Rightarrow> uint256"
  rand_used :: nat

definition cache_Get :: "uint256 \<Rightarrow> valtype \<Rightarrow> CPubKey \<Rightarrow> CSignatureCache \<Rightarrow> bool" where
  "cache_Get h vchSig pubKey c = List.member (setValid c) (h, vchSig, pubKey)"

definition evict_one :: "uint256 \<Rightarrow> sigdata list \<Rightarrow> sigdata list" where
  "evict_one randomHash s =
     (case dropWhile (\<lambda>x. x < (randomHash, [], [])) s of
        [] \<Rightarrow> remove1 (hd s) s
      | it # _ \<Rightarrow> remove1 it s)"

lemma evict_one_remove: "s \<noteq> [] \<Longrightarrow> \<exists>x \<in> set s. evict_one r s = remove1 x s"
proof (cases "dropWhile (\<lambda>x. x < (r, [], [])) s")
  case Nil
  assume "s \<noteq> []"
  then have "hd s \<in> set s" by (rule list.set_sel)
  with Nil show ?thesis by (intro bexI [of _ "hd s"]) (simp_all only: evict_one_def list.case)
next
  case (Cons y ys)
  then have "y \<in> set s" by (metis list.set_intros(1) set_dropWhileD)
  with Cons show ?thesis by (intro bexI [of _ y]) (simp_all only: evict_one_def list.case)
qed

lemma evict_one_length: "s \<noteq> [] \<Longrightarrow> length (evict_one r s) < length s"
  using evict_one_remove [of s r] by (auto simp: length_remove1 length_pos_if_in_set)

text \<open>The loop runs only with a positive bound, so the set it shrinks is not empty.\<close>

function cache_evict :: "CSignatureCache \<Rightarrow> CSignatureCache" where
  "cache_evict c =
     (if int (length (setValid c)) > nMaxCacheSize c \<and> setValid c \<noteq> [] then
        cache_evict (c\<lparr>setValid := evict_one (rand_hash c (rand_used c)) (setValid c), rand_used := Suc (rand_used c)\<rparr>)
      else c)"
  by pat_completeness auto
termination by (relation "measure (\<lambda>c. length (setValid c))") (auto simp: evict_one_length)

declare cache_evict.simps [simp del]

definition cache_Set :: "uint256 \<Rightarrow> valtype \<Rightarrow> CPubKey \<Rightarrow> CSignatureCache \<Rightarrow> CSignatureCache" where
  "cache_Set h vchSig pubKey c =
     (if nMaxCacheSize c \<le> 0 then c
      else let c = cache_evict c in c\<lparr>setValid := insort_insert (h, vchSig, pubKey) (setValid c)\<rparr>)"

section \<open>Verification\<close>

definition VerifyECDSASecp :: "ext \<Rightarrow> valtype \<Rightarrow> uint256 \<Rightarrow> valtype \<Rightarrow> int" where
  "VerifyECDSASecp E vchPubKey h vchSig =
     (if vchPubKey = [] \<or> vchSig = [] then - 1
      else case secp256k1_ec_pubkey_parse E vchPubKey of
        None \<Rightarrow> - 1
      | Some pubkey \<Rightarrow>
          (case secp256k1_ecdsa_signature_parse_der E vchSig of
             None \<Rightarrow> - 1
           | Some sig \<Rightarrow>
               secp256k1_ecdsa_verify E (secp256k1_ecdsa_signature_normalize E sig) (ser_uint256 h) pubkey))"

definition CheckSig :: "ext \<Rightarrow> valtype \<Rightarrow> valtype \<Rightarrow> CScript \<Rightarrow> CTransaction \<Rightarrow> nat \<Rightarrow> int \<Rightarrow> u32 \<Rightarrow>
    CSignatureCache \<Rightarrow> key_error + bool \<times> CSignatureCache" where
  "CheckSig E vchSig vchPubKey scriptCode txTo nIn nHashType flags c =
     (let (set, key) = key_SetPubKey E vchPubKey key_Reset in
      if \<not> set then Inr (False, c)
      else case key_GetPubKey E key of
        Inl e \<Rightarrow> Inl e
      | Inr pubkey \<Rightarrow>
          if \<not> pubkey_IsValid pubkey then Inr (False, c)
          else if vchSig = [] then Inr (False, c)
          else if nHashType \<noteq> 0 \<and> nHashType \<noteq> uint (last vchSig) then Inr (False, c)
          else
            let nHashType = (if nHashType = 0 then uint (last vchSig) else nHashType);
                vchSig = butlast vchSig;
                sighash = SignatureHash E scriptCode txTo nIn nHashType
            in if cache_Get sighash vchSig pubkey c then Inr (True, c)
               else
                 let secpResult = VerifyECDSASecp E vchPubKey sighash vchSig;
                     fVerified = (if secpResult \<ge> 0 then secpResult = 1 else key_Verify E sighash vchSig key)
                 in if \<not> fVerified then Inr (False, c)
                    else Inr (True, if flags AND SCRIPT_VERIFY_NOCACHE = 0 then cache_Set sighash vchSig pubkey c else c))"

section \<open>The cache is transparent\<close>

text \<open>Writing a point in the form it was read in gives the bytes that were read.\<close>

definition point_codec_documented :: "ext \<Rightarrow> bool" where
  "point_codec_documented E \<longleftrightarrow>
     (\<forall>b q form. o2i_ECPublicKey E b = Some (q, form) \<longrightarrow> b \<noteq> [] \<and> i2o_ECPublicKey E q (if length b = 33 then 2 else form) = b)"

lemma ext_example_point_codec: "point_codec_documented ext_example"
  by (auto simp: point_codec_documented_def ext_example_def split: if_splits)

definition sig_verified :: "ext \<Rightarrow> CPubKey \<Rightarrow> uint256 \<Rightarrow> valtype \<Rightarrow> bool" where
  "sig_verified E pk h sig =
     (let r = VerifyECDSASecp E pk h sig
      in if r \<ge> 0 then r = 1 else key_Verify E h sig (snd (key_SetPubKey E pk key_Reset)))"

text \<open>What the code decides without a cache.\<close>

definition CheckSig_spec :: "ext \<Rightarrow> valtype \<Rightarrow> valtype \<Rightarrow> CScript \<Rightarrow> CTransaction \<Rightarrow> nat \<Rightarrow> int \<Rightarrow> bool" where
  "CheckSig_spec E sig pk scriptCode txTo nIn nHashType \<longleftrightarrow>
     fst (key_SetPubKey E pk key_Reset) \<and> pubkey_IsValid pk \<and> sig \<noteq> [] \<and> (nHashType = 0 \<or> nHashType = uint (last sig))
     \<and> sig_verified E pk (SignatureHash E scriptCode txTo nIn (uint (last sig))) (butlast sig)"

definition cache_ok :: "ext \<Rightarrow> CSignatureCache \<Rightarrow> bool" where
  "cache_ok E c \<longleftrightarrow> sorted (setValid c) \<and> distinct (setValid c)
     \<and> (\<forall>(h, sig, pk) \<in> set (setValid c). sig_verified E pk h sig)"

lemma cache_evict_set:
  "set (setValid (cache_evict c)) \<subseteq> set (setValid c) \<and>
   (sorted (setValid c) \<longrightarrow> sorted (setValid (cache_evict c))) \<and>
   (distinct (setValid c) \<longrightarrow> distinct (setValid (cache_evict c))) \<and>
   nMaxCacheSize (cache_evict c) = nMaxCacheSize c \<and>
   (0 < nMaxCacheSize c \<longrightarrow> int (length (setValid (cache_evict c))) \<le> nMaxCacheSize c)"
proof (induction c rule: cache_evict.induct)
  case (1 c)
  show ?case
  proof (cases "int (length (setValid c)) > nMaxCacheSize c \<and> setValid c \<noteq> []")
    case True
    obtain x where x: "evict_one (rand_hash c (rand_used c)) (setValid c) = remove1 x (setValid c)"
      using evict_one_remove True by blast
    show ?thesis
      using 1 [OF True] set_remove1_subset [of x "setValid c"]
      unfolding cache_evict.simps [of c] if_P [OF True] x by (auto simp: sorted_remove1)
  next
    case False
    then show ?thesis unfolding cache_evict.simps [of c] if_not_P [OF False] by auto
  qed
qed

lemma cache_Set_ok:
  assumes "cache_ok E c" "sig_verified E pk h sig"
  shows "cache_ok E (cache_Set h sig pk c)"
proof -
  let ?e = "cache_evict c"
  have "sorted (setValid ?e)" "distinct (setValid ?e)" "\<forall>(h, sig, pk) \<in> set (setValid ?e). sig_verified E pk h sig"
    using assms(1) cache_evict_set [of c] unfolding cache_ok_def by blast+
  then show ?thesis using assms
    by (auto simp: cache_Set_def cache_ok_def Let_def set_insort_insert distinct_insort_insert sorted_insort_insert)
qed

lemma cache_Set_length:
  assumes "0 < nMaxCacheSize c"
  shows "int (length (setValid (cache_Set h sig pk c))) \<le> nMaxCacheSize c + 1"
    and "nMaxCacheSize (cache_Set h sig pk c) = nMaxCacheSize c"
proof -
  have "int (length (insort_insert x s)) \<le> int (length s) + 1" for x and s :: "sigdata list"
    by (simp add: insort_insert_key_def)
  from this [of "(h, sig, pk)" "setValid (cache_evict c)"]
  show "int (length (setValid (cache_Set h sig pk c))) \<le> nMaxCacheSize c + 1"
    using cache_evict_set [of c] assms by (simp add: cache_Set_def Let_def)
  show "nMaxCacheSize (cache_Set h sig pk c) = nMaxCacheSize c"
    using cache_evict_set [of c] by (simp add: cache_Set_def Let_def)
qed

lemma key_SetPubKey_GetPubKey:
  assumes "point_codec_documented E" "key_SetPubKey E pk key_Reset = (True, k)"
  shows "key_GetPubKey E k = Inr pk"
proof -
  obtain q f where q: "o2i_ECPublicKey E pk = Some (q, f)"
    using assms(2) by (auto simp: key_SetPubKey_def split: option.splits)
  then have "pk \<noteq> []" "i2o_ECPublicKey E q (if length pk = 33 then 2 else f) = pk"
    using assms(1) by (auto simp: point_codec_documented_def)
  then show ?thesis using assms(2) q
    by (auto simp: key_SetPubKey_def key_GetPubKey_def key_SetCompressedPubKey_def Let_def split: if_splits)
qed

lemma CheckSig_correct:
  assumes "point_codec_documented E" "cache_ok E c"
  shows "\<exists>c'. CheckSig E sig pk sc tx nIn ht flags c = Inr (CheckSig_spec E sig pk sc tx nIn ht, c') \<and> cache_ok E c'"
proof (cases "key_SetPubKey E pk key_Reset")
  case (Pair ok k)
  show ?thesis
  proof (cases "ok \<and> pubkey_IsValid pk \<and> sig \<noteq> [] \<and> (ht = 0 \<or> ht = uint (last sig))")
    case True
    then have get: "key_GetPubKey E k = Inr pk" using key_SetPubKey_GetPubKey [OF assms(1)] Pair by simp
    let ?h = "SignatureHash E sc tx nIn (uint (last sig))"
    have ht: "(if ht = 0 then uint (last sig) else ht) = uint (last sig)" using True by auto
    have v: "(let r = VerifyECDSASecp E pk ?h (butlast sig) in if r \<ge> 0 then r = 1 else key_Verify E ?h (butlast sig) k)
        = sig_verified E pk ?h (butlast sig)" using Pair by (simp add: sig_verified_def)
    have spec: "CheckSig_spec E sig pk sc tx nIn ht = sig_verified E pk ?h (butlast sig)"
      using True Pair by (simp add: CheckSig_spec_def)
    have hit: "sig_verified E pk ?h (butlast sig)" if "cache_Get ?h (butlast sig) pk c"
      using assms(2) that by (auto simp: cache_ok_def cache_Get_def)
    show ?thesis
      using True hit cache_Set_ok [OF assms(2), of pk ?h "butlast sig"] assms(2) v
      unfolding spec by (auto simp: CheckSig_def Pair get ht Let_def)
  next
    case False
    then show ?thesis using assms(2) key_SetPubKey_GetPubKey [OF assms(1), of pk k] Pair
      by (cases ok) (auto simp: CheckSig_def CheckSig_spec_def)
  qed
qed

section \<open>What a signature commits to\<close>

lemma sighash_fields:
  assumes "sighash_tx sc tx nIn ht = Some t"
  shows "tx_nVersion t = tx_nVersion tx" "tx_nTime t = tx_nTime tx" "nLockTime t = nLockTime tx" "nIn < length (vin tx)"
  using assms by (auto simp: sighash_tx_def Let_def split: if_splits)

lemma zero_other_sequences_nth:
  "k < length v \<Longrightarrow> zero_other_sequences nIn v ! k = (if k \<noteq> nIn then (v ! k)\<lparr>nSequence := 0\<rparr> else v ! k)"
  by (simp add: zero_other_sequences_def nth_enumerate_eq)

lemma length_zero_other_sequences [simp]: "length (zero_other_sequences nIn v) = length v"
  by (simp add: zero_other_sequences_def)

lemma blank_signatures_cong:
  "map prevout v = map prevout w \<Longrightarrow> map nSequence v = map nSequence w \<Longrightarrow> blank_signatures v = blank_signatures w"
  unfolding blank_signatures_def
  by (rule nth_equalityI) (auto dest: map_eq_imp_length_eq simp: list_eq_iff_nth_eq)

lemma sighash_all_tx:
  assumes "nIn < length (vin tx)" "ht AND 0x1f \<noteq> SIGHASH_NONE" "ht AND 0x1f \<noteq> SIGHASH_SINGLE" "ht AND 0x80 = 0"
  shows "sighash_tx sc tx nIn ht = Some (tx\<lparr>vin := (blank_signatures (vin tx))
    [nIn := (blank_signatures (vin tx) ! nIn)\<lparr>scriptSig := snd (FindAndDelete [of_nat OP_CODESEPARATOR] sc)\<rparr>]\<rparr>)"
  using assms by (simp add: sighash_tx_def Let_def)

lemma blank_update_inject:
  assumes "(blank_signatures v)[n := (blank_signatures v ! n)\<lparr>scriptSig := a\<rparr>]
      = (blank_signatures w)[n := (blank_signatures w ! n)\<lparr>scriptSig := b\<rparr>]" and "n < length v"
  shows "a = b \<and> map prevout v = map prevout w \<and> map nSequence v = map nSequence w"
proof -
  let ?V = "(blank_signatures v)[n := (blank_signatures v ! n)\<lparr>scriptSig := a\<rparr>]"
  let ?W = "(blank_signatures w)[n := (blank_signatures w ! n)\<lparr>scriptSig := b\<rparr>]"
  have l: "length v = length w" using arg_cong [OF assms(1), of length] by (simp add: blank_signatures_def)
  have "?V ! n = ?W ! n" using assms(1) by simp
  then have "a = b" using assms(2) l by (auto simp: blank_signatures_def dest: arg_cong [where f = scriptSig])
  moreover have "prevout (v ! k) = prevout (w ! k) \<and> nSequence (v ! k) = nSequence (w ! k)" if "k < length v" for k
  proof -
    have "?V ! k = ?W ! k" using assms(1) by simp
    then show ?thesis using that l assms(2)
      by (cases "k = n") (auto simp: blank_signatures_def dest: arg_cong [where f = prevout] arg_cong [where f = nSequence])
  qed
  ultimately show ?thesis using l by (auto simp: list_eq_iff_nth_eq)
qed

definition sighash_message :: "CScript \<Rightarrow> CTransaction \<Rightarrow> nat \<Rightarrow> int \<Rightarrow> valtype option" where
  "sighash_message sc tx nIn ht = map_option (\<lambda>t. ser_tx t @ ser_i32 ht) (sighash_tx sc tx nIn ht)"

section \<open>Properties\<close>

text \<open>C23. The signature cache is transparent: with a cache that holds only verified signatures, \<^verbatim>\<open>CheckSig\<close> does
  not throw, decides exactly what it decides without a cache, and leaves a cache that again holds only verified
  signatures.  A cached verdict can never accept a signature that the libraries reject.\<close>

theorem checksig_cache_transparent:
  assumes "point_codec_documented E" and "cache_ok E c"
  shows "\<exists>c'. CheckSig E sig pk sc tx nIn ht flags c = Inr (CheckSig_spec E sig pk sc tx nIn ht, c') \<and> cache_ok E c'"
  by (rule CheckSig_correct [OF assms])

theorem checksig_cache_transparent_witness:
  "\<exists>c'. CheckSig ext_example [0x30, 1] (replicate 33 2) [] (tx_SetNull 0) 0 0 0
      \<lparr> setValid = [], nMaxCacheSize = 1, rand_hash = (\<lambda>n. 0), rand_used = 0 \<rparr> = Inr (True, c')"
proof -
  let ?c = "\<lparr> setValid = [], nMaxCacheSize = 1, rand_hash = (\<lambda>n. 0), rand_used = 0 \<rparr>"
  have "cache_ok ext_example ?c" by (simp add: cache_ok_def)
  moreover have "CheckSig_spec ext_example [0x30, 1] (replicate 33 2) [] (tx_SetNull 0) 0 0"
    by (simp add: CheckSig_spec_def sig_verified_def VerifyECDSASecp_def key_SetPubKey_def key_Verify_def
        pubkey_IsValid_def key_SetCompressedPubKey_def ext_example_def Let_def)
  ultimately show ?thesis
    using checksig_cache_transparent [OF ext_example_point_codec, of ?c "[0x30, 1]" "replicate 33 2" "[]" "tx_SetNull 0" 0 0 0]
    by auto
qed

text \<open>The cache stays within one entry of its configured size, whatever is inserted and whatever
  random numbers choose the entries to evict; with a size of zero or less nothing is stored.\<close>

theorem cache_bounded:
  "(0 < nMaxCacheSize c \<longrightarrow> int (length (setValid (cache_Set h sig pk c))) \<le> nMaxCacheSize c + 1
      \<and> cache_Get h sig pk (cache_Set h sig pk c))
    \<and> (nMaxCacheSize c \<le> 0 \<longrightarrow> cache_Set h sig pk c = c)"
proof -
  have "(h, sig, pk) \<in> set (insort_insert (h, sig, pk) s)" for s :: "sigdata list"
    by (simp add: set_insort_insert)
  then show ?thesis using cache_Set_length(1) [of c h sig pk] by (auto simp: cache_Set_def cache_Get_def Let_def)
qed

theorem cache_bounded_witness:
  "int (length (setValid (cache_Set 1 [1] [2]
      \<lparr> setValid = [(3, [3], [3]), (4, [4], [4])], nMaxCacheSize = 1, rand_hash = (\<lambda>n. 9), rand_used = 0 \<rparr>))) \<le> 2"
  using cache_bounded [of "\<lparr> setValid = [(3, [3], [3]), (4, [4], [4])], nMaxCacheSize = 1, rand_hash = (\<lambda>n. 9), rand_used = 0 \<rparr>" 1 "[1]" "[2]"]
  by simp

text \<open>C22. A signature of type \<^verbatim>\<open>SIGHASH_ALL\<close> commits to the whole transaction: two transactions with the same
  signed message agree in version, time, lock time, outputs, spent out-points and sequence numbers, and the script
  codes agree up to code separators.\<close>

theorem sighash_all_commits:
  assumes "nIn < length (vin tx1)" "nIn < length (vin tx2)"
    and "ht AND 0x1f \<noteq> SIGHASH_NONE" "ht AND 0x1f \<noteq> SIGHASH_SINGLE" "ht AND 0x80 = 0" "int32_range ht"
    and "tx_ok (the (sighash_tx sc1 tx1 nIn ht))" "tx_ok (the (sighash_tx sc2 tx2 nIn ht))"
    and "sighash_message sc1 tx1 nIn ht = sighash_message sc2 tx2 nIn ht"
  shows "tx_nVersion tx1 = tx_nVersion tx2 \<and> tx_nTime tx1 = tx_nTime tx2 \<and> nLockTime tx1 = nLockTime tx2
    \<and> vout tx1 = vout tx2 \<and> map prevout (vin tx1) = map prevout (vin tx2)
    \<and> map nSequence (vin tx1) = map nSequence (vin tx2)
    \<and> snd (FindAndDelete [of_nat OP_CODESEPARATOR] sc1) = snd (FindAndDelete [of_nat OP_CODESEPARATOR] sc2)"
proof -
  note s1 = sighash_all_tx [OF assms(1) assms(3-5), of sc1]
  note s2 = sighash_all_tx [OF assms(2) assms(3-5), of sc2]
  have "the (sighash_tx sc1 tx1 nIn ht) = the (sighash_tx sc2 tx2 nIn ht)"
    using assms(9) tx.prefix_free [OF assms(7,8)] unfolding sighash_message_def s1 s2 by simp
  then have t: "tx1\<lparr>vin := (blank_signatures (vin tx1))[nIn := (blank_signatures (vin tx1) ! nIn)
        \<lparr>scriptSig := snd (FindAndDelete [of_nat OP_CODESEPARATOR] sc1)\<rparr>]\<rparr>
      = tx2\<lparr>vin := (blank_signatures (vin tx2))[nIn := (blank_signatures (vin tx2) ! nIn)
        \<lparr>scriptSig := snd (FindAndDelete [of_nat OP_CODESEPARATOR] sc2)\<rparr>]\<rparr>"
    unfolding s1 s2 by simp
  have "tx_nVersion tx1 = tx_nVersion tx2" "tx_nTime tx1 = tx_nTime tx2" "nLockTime tx1 = nLockTime tx2"
    "vout tx1 = vout tx2"
    using arg_cong [OF t, of tx_nVersion] arg_cong [OF t, of tx_nTime] arg_cong [OF t, of nLockTime]
      arg_cong [OF t, of vout] by simp_all
  moreover note blank_update_inject [OF arg_cong [OF t, of vin, simplified] assms(1)]
  ultimately show ?thesis by simp
qed

definition example_tx :: "CScript \<Rightarrow> CTransaction" where
  "example_tx sig = \<lparr> tx_nVersion = 1, tx_nTime = 0,
     vin = [\<lparr> prevout = \<lparr> op_hash = 7, op_n = 0 \<rparr>, scriptSig = sig, nSequence = 5 \<rparr>],
     vout = [\<lparr> nValue = 3, scriptPubKey = [] \<rparr>], nLockTime = 0 \<rparr>"

theorem sighash_all_commits_witness:
  "sighash_message [] (example_tx [1, 9]) 0 1 = sighash_message [] (example_tx []) 0 1
    \<and> map prevout (vin (example_tx [1, 9])) = map prevout (vin (example_tx []))"
proof -
  have d: "snd (FindAndDelete [171] []) = []" by (simp add: FindAndDelete_def delete_loop.simps erase_copies.simps)
  have s: "sighash_tx [] (example_tx x) 0 1 = Some (example_tx [])" for x
    using d by (simp add: sighash_tx_def example_tx_def blank_signatures_def Let_def)
  have "tx_ok (example_tx [])"
    by (simp add: tx_ok_def example_tx_def txin_ok_def txout_ok_def MAX_SIZE_def int32_range_def int64_range_def)
  then show ?thesis
    using sighash_all_commits [of 0 "example_tx [1, 9]" "example_tx []" 1 "[]" "[]"]
    by (simp add: s sighash_message_def int32_range_def) (simp add: example_tx_def)
qed

text \<open>No signature commits to another signature: the hash does not change when the input scripts of the transaction
  are replaced.  With type \<^verbatim>\<open>SIGHASH_NONE\<close> it does not depend on the outputs either.\<close>

theorem sighash_ignores:
  assumes "map prevout (vin tx1) = map prevout (vin tx2)" "map nSequence (vin tx1) = map nSequence (vin tx2)"
    "tx_nVersion tx1 = tx_nVersion tx2" "tx_nTime tx1 = tx_nTime tx2" "nLockTime tx1 = nLockTime tx2"
    "vout tx1 = vout tx2 \<or> ht AND 0x1f = SIGHASH_NONE"
  shows "SignatureHash E sc tx1 nIn ht = SignatureHash E sc tx2 nIn ht"
proof -
  have "length (vin tx1) = length (vin tx2)" using assms(1) by (rule map_eq_imp_length_eq)
  moreover have "blank_signatures (vin tx1) = blank_signatures (vin tx2)" by (rule blank_signatures_cong [OF assms(1,2)])
  ultimately have "sighash_tx sc tx1 nIn ht = sighash_tx sc tx2 nIn ht"
    using assms(3-) by (auto simp: sighash_tx_def Let_def)
  then show ?thesis by (simp add: SignatureHash_def)
qed

theorem sighash_ignores_witness:
  "SignatureHash ext_example [0x51] (example_tx [1, 9]) 0 2 = SignatureHash ext_example [0x51] ((example_tx [])\<lparr>vout := []\<rparr>) 0 2"
  by (rule sighash_ignores) (simp_all add: example_tx_def)

end
