(* ===== verification/Interpreter.thy ===== *)
theory Interpreter
  imports Hobo_Prelude Ext_Crypto Bignum Script Tx_Data Key Sig_Check "HOL-Library.Sublist"
begin

text \<open>
  The script interpreter, \<^verbatim>\<open>EvalScript\<close> of \<^verbatim>\<open>script.cpp\<close>.  The machine state holds the stack, the alternate
  stack and the conditional stack, each listed from its top (\<^verbatim>\<open>stacktop(-k)\<close> is element \<^verbatim>\<open>k - 1\<close>), the
  operation count, the suffix of the script behind the last code separator, and the global signature cache.
  An operation returns whether the run goes on, and the state; where the code returns false or throws, the first
  component is False and the state is what the code leaves behind, since callers look at the stack even then.
\<close>

unbundle bit_operations_syntax

section \<open>Values\<close>

definition vchFalse :: valtype where "vchFalse = []"
definition vchTrue :: valtype where "vchTrue = [1]"
definition nMaxNumSize :: nat where "nMaxNumSize = 4"
definition MAX_SCRIPT_ELEMENT_SIZE :: nat where "MAX_SCRIPT_ELEMENT_SIZE = 520"

definition CastToBigNum :: "ext \<Rightarrow> valtype \<Rightarrow> BIGNUM option" where
  "CastToBigNum E vch =
     (if length vch > nMaxNumSize then None else Some (setvch E (getvch E (setvch E vch))))"

fun CastToBool :: "valtype \<Rightarrow> bool" where
  "CastToBool [] = False"
| "CastToBool (b # vch) =
     (if b \<noteq> 0 then (if vch = [] \<and> b = 0x80 then False else True) else CastToBool vch)"

definition bool_vch :: "bool \<Rightarrow> valtype" where
  "bool_vch f = (if f then vchTrue else vchFalse)"

section \<open>The machine\<close>

record vm =
  vm_stack :: "valtype list"
  vm_altstack :: "valtype list"
  vm_vfExec :: "bool list"
  vm_nOpCount :: int
  vm_codehash :: CScript
  vm_cache :: CSignatureCache

text \<open>The arguments that stay fixed during a run.\<close>

record sigctx =
  ctx_txTo :: CTransaction
  ctx_nIn :: nat
  ctx_flags :: u32
  ctx_nHashType :: int

text \<open>An operation that only touches the stack, as a function on it.\<close>

definition on_stack :: "(valtype list \<Rightarrow> bool \<times> valtype list) \<Rightarrow> vm \<Rightarrow> bool \<times> vm" where
  "on_stack f m = (let (b, s) = f (vm_stack m) in (b, m\<lparr>vm_stack := s\<rparr>))"

section \<open>Constants and control flow\<close>

text \<open>The \<^verbatim>\<open>CBigNum(int)\<close> constructor sets a non-negative number as a word and a negative one
  through \<^verbatim>\<open>setint64\<close>.\<close>

definition bn_of_int :: "ext \<Rightarrow> int \<Rightarrow> BIGNUM" where
  "bn_of_int E n = (if n \<ge> 0 then n else setint64 E n)"

definition op_number :: "ext \<Rightarrow> opcodetype \<Rightarrow> valtype list \<Rightarrow> bool \<times> valtype list" where
  "op_number E opcode st = (True, getvch E (bn_of_int E (int opcode - (int OP_1 - 1))) # st)"

definition op_if :: "bool \<Rightarrow> opcodetype \<Rightarrow> vm \<Rightarrow> bool \<times> vm" where
  "op_if fExec opcode m =
     (if fExec then
        (case vm_stack m of
           [] \<Rightarrow> (False, m)
         | vch # s \<Rightarrow>
             let fValue = CastToBool vch;
                 fValue = (if opcode = OP_NOTIF then \<not> fValue else fValue)
             in (True, m\<lparr>vm_stack := s, vm_vfExec := fValue # vm_vfExec m\<rparr>))
      else (True, m\<lparr>vm_vfExec := False # vm_vfExec m\<rparr>))"

definition op_control :: "bool \<Rightarrow> opcodetype \<Rightarrow> vm \<Rightarrow> bool \<times> vm" where
  "op_control fExec opcode m =
     (if opcode = OP_NOP \<or> (OP_NOP1 \<le> opcode \<and> opcode \<le> OP_NOP10) then (True, m)
      else if opcode = OP_IF \<or> opcode = OP_NOTIF then op_if fExec opcode m
      else if opcode = OP_ELSE then
        (case vm_vfExec m of [] \<Rightarrow> (False, m) | f # fs \<Rightarrow> (True, m\<lparr>vm_vfExec := (\<not> f) # fs\<rparr>))
      else if opcode = OP_ENDIF then
        (case vm_vfExec m of [] \<Rightarrow> (False, m) | f # fs \<Rightarrow> (True, m\<lparr>vm_vfExec := fs\<rparr>))
      else if opcode = OP_VERIFY then
        (case vm_stack m of
           [] \<Rightarrow> (False, m)
         | v # s \<Rightarrow> if CastToBool v then (True, m\<lparr>vm_stack := s\<rparr>) else (False, m))
      else (False, m))"

section \<open>Stack operations\<close>

definition op_altstack :: "opcodetype \<Rightarrow> vm \<Rightarrow> bool \<times> vm" where
  "op_altstack opcode m =
     (if opcode = OP_TOALTSTACK then
        (case vm_stack m of
           [] \<Rightarrow> (False, m)
         | v # s \<Rightarrow> (True, m\<lparr>vm_stack := s, vm_altstack := v # vm_altstack m\<rparr>))
      else
        (case vm_altstack m of
           [] \<Rightarrow> (False, m)
         | v # s \<Rightarrow> (True, m\<lparr>vm_stack := v # vm_stack m, vm_altstack := s\<rparr>)))"

definition op_stack2 :: "opcodetype \<Rightarrow> valtype list \<Rightarrow> bool \<times> valtype list" where
  "op_stack2 opcode st =
     (if opcode = OP_2DROP then
        (case st of x2 # x1 # s \<Rightarrow> (True, s) | _ \<Rightarrow> (False, st))
      else if opcode = OP_2DUP then
        (case st of x2 # x1 # s \<Rightarrow> (True, x2 # x1 # x2 # x1 # s) | _ \<Rightarrow> (False, st))
      else if opcode = OP_3DUP then
        (case st of x3 # x2 # x1 # s \<Rightarrow> (True, x3 # x2 # x1 # x3 # x2 # x1 # s) | _ \<Rightarrow> (False, st))
      else if opcode = OP_2OVER then
        (case st of x4 # x3 # x2 # x1 # s \<Rightarrow> (True, x2 # x1 # x4 # x3 # x2 # x1 # s) | _ \<Rightarrow> (False, st))
      else if opcode = OP_2ROT then
        (case st of x6 # x5 # x4 # x3 # x2 # x1 # s \<Rightarrow> (True, x2 # x1 # x6 # x5 # x4 # x3 # s) | _ \<Rightarrow> (False, st))
      else
        (case st of x4 # x3 # x2 # x1 # s \<Rightarrow> (True, x2 # x1 # x4 # x3 # s) | _ \<Rightarrow> (False, st)))"

definition op_stack1 :: "ext \<Rightarrow> opcodetype \<Rightarrow> valtype list \<Rightarrow> bool \<times> valtype list" where
  "op_stack1 E opcode st =
     (if opcode = OP_IFDUP then
        (case st of v # s \<Rightarrow> (True, if CastToBool v then v # v # s else v # s) | _ \<Rightarrow> (False, st))
      else if opcode = OP_DEPTH then (True, getvch E (int (length st)) # st)
      else if opcode = OP_DROP then (case st of v # s \<Rightarrow> (True, s) | _ \<Rightarrow> (False, st))
      else if opcode = OP_DUP then (case st of v # s \<Rightarrow> (True, v # v # s) | _ \<Rightarrow> (False, st))
      else if opcode = OP_NIP then (case st of x2 # x1 # s \<Rightarrow> (True, x2 # s) | _ \<Rightarrow> (False, st))
      else (case st of x2 # x1 # s \<Rightarrow> (True, x1 # x2 # x1 # s) | _ \<Rightarrow> (False, st)))"

definition op_pick_roll :: "ext \<Rightarrow> opcodetype \<Rightarrow> valtype list \<Rightarrow> bool \<times> valtype list" where
  "op_pick_roll E opcode st =
     (if length st < 2 then (False, st)
      else case CastToBigNum E (st ! 0) of
        None \<Rightarrow> (False, st)
      | Some bn \<Rightarrow>
          let n = getint E bn; s = tl st in
          if n < 0 \<or> n \<ge> int (length s) then (False, s)
          else let vch = s ! nat n;
                   s' = (if opcode = OP_ROLL then take (nat n) s @ drop (Suc (nat n)) s else s)
               in (True, vch # s'))"

definition op_stack3 :: "ext \<Rightarrow> opcodetype \<Rightarrow> valtype list \<Rightarrow> bool \<times> valtype list" where
  "op_stack3 E opcode st =
     (if opcode = OP_ROT then (case st of x3 # x2 # x1 # s \<Rightarrow> (True, x1 # x3 # x2 # s) | _ \<Rightarrow> (False, st))
      else if opcode = OP_SWAP then (case st of x2 # x1 # s \<Rightarrow> (True, x1 # x2 # s) | _ \<Rightarrow> (False, st))
      else if opcode = OP_TUCK then (case st of x2 # x1 # s \<Rightarrow> (True, x2 # x1 # x2 # s) | _ \<Rightarrow> (False, st))
      else (case st of v # s \<Rightarrow> (True, getvch E (int (length v)) # v # s) | _ \<Rightarrow> (False, st)))"

section \<open>Comparison, arithmetic and hashing\<close>

definition op_equal :: "opcodetype \<Rightarrow> valtype list \<Rightarrow> bool \<times> valtype list" where
  "op_equal opcode st =
     (case st of
        vch2 # vch1 # s \<Rightarrow>
          let fEqual = (vch1 = vch2); st = bool_vch fEqual # s in
          if opcode = OP_EQUALVERIFY then (if fEqual then (True, s) else (False, st)) else (True, st)
      | _ \<Rightarrow> (False, st))"

definition num1_value :: "opcodetype \<Rightarrow> BIGNUM \<Rightarrow> BIGNUM" where
  "num1_value opcode bn =
     (if opcode = OP_1ADD then bn + 1
      else if opcode = OP_1SUB then bn - 1
      else if opcode = OP_NEGATE then - bn
      else if opcode = OP_ABS then (if bn < 0 then - bn else bn)
      else if opcode = OP_NOT then (if bn = 0 then 1 else 0)
      else (if bn \<noteq> 0 then 1 else 0))"

definition op_num1 :: "ext \<Rightarrow> opcodetype \<Rightarrow> valtype list \<Rightarrow> bool \<times> valtype list" where
  "op_num1 E opcode st =
     (case st of
        [] \<Rightarrow> (False, st)
      | v # s \<Rightarrow>
          (case CastToBigNum E v of
             None \<Rightarrow> (False, st)
           | Some bn \<Rightarrow> (True, getvch E (num1_value opcode bn) # s)))"

definition num2_value :: "opcodetype \<Rightarrow> BIGNUM \<Rightarrow> BIGNUM \<Rightarrow> BIGNUM" where
  "num2_value opcode bn1 bn2 =
     (if opcode = OP_ADD then bn1 + bn2
      else if opcode = OP_SUB then bn1 - bn2
      else if opcode = OP_BOOLAND then (if bn1 \<noteq> 0 \<and> bn2 \<noteq> 0 then 1 else 0)
      else if opcode = OP_BOOLOR then (if bn1 \<noteq> 0 \<or> bn2 \<noteq> 0 then 1 else 0)
      else if opcode = OP_NUMEQUAL then (if bn1 = bn2 then 1 else 0)
      else if opcode = OP_NUMEQUALVERIFY then (if bn1 = bn2 then 1 else 0)
      else if opcode = OP_NUMNOTEQUAL then (if bn1 \<noteq> bn2 then 1 else 0)
      else if opcode = OP_LESSTHAN then (if bn1 < bn2 then 1 else 0)
      else if opcode = OP_GREATERTHAN then (if bn1 > bn2 then 1 else 0)
      else if opcode = OP_LESSTHANOREQUAL then (if bn1 \<le> bn2 then 1 else 0)
      else if opcode = OP_GREATERTHANOREQUAL then (if bn1 \<ge> bn2 then 1 else 0)
      else if opcode = OP_MIN then (if bn1 < bn2 then bn1 else bn2)
      else (if bn1 > bn2 then bn1 else bn2))"

definition op_num2 :: "ext \<Rightarrow> opcodetype \<Rightarrow> valtype list \<Rightarrow> bool \<times> valtype list" where
  "op_num2 E opcode st =
     (case st of
        v2 # v1 # s \<Rightarrow>
          (case (CastToBigNum E v1, CastToBigNum E v2) of
             (Some bn1, Some bn2) \<Rightarrow>
               let r = getvch E (num2_value opcode bn1 bn2) in
               if opcode = OP_NUMEQUALVERIFY then (if CastToBool r then (True, s) else (False, r # s))
               else (True, r # s)
           | _ \<Rightarrow> (False, st))
      | _ \<Rightarrow> (False, st))"

definition op_within :: "ext \<Rightarrow> valtype list \<Rightarrow> bool \<times> valtype list" where
  "op_within E st =
     (case st of
        v3 # v2 # v1 # s \<Rightarrow>
          (case (CastToBigNum E v1, CastToBigNum E v2, CastToBigNum E v3) of
             (Some bn1, Some bn2, Some bn3) \<Rightarrow> (True, bool_vch (bn2 \<le> bn1 \<and> bn1 < bn3) # s)
           | _ \<Rightarrow> (False, st))
      | _ \<Rightarrow> (False, st))"

definition hash_value :: "ext \<Rightarrow> opcodetype \<Rightarrow> valtype \<Rightarrow> valtype" where
  "hash_value E opcode vch =
     (if opcode = OP_RIPEMD160 then RIPEMD160 E vch
      else if opcode = OP_SHA1 then SHA1 E vch
      else if opcode = OP_SHA256 then SHA256 E vch
      else if opcode = OP_HASH160 then ser_uint160 (Hash160 E vch)
      else ser_uint256 (Hash E vch))"

definition op_hash_value :: "ext \<Rightarrow> opcodetype \<Rightarrow> valtype list \<Rightarrow> bool \<times> valtype list" where
  "op_hash_value E opcode st =
     (case st of [] \<Rightarrow> (False, st) | v # s \<Rightarrow> (True, hash_value E opcode v # s))"

section \<open>Signatures\<close>

definition checked_sig :: "ext \<Rightarrow> sigctx \<Rightarrow> valtype \<Rightarrow> valtype \<Rightarrow> CScript \<Rightarrow> CSignatureCache \<Rightarrow>
    key_error + bool \<times> CSignatureCache" where
  "checked_sig E ctx vchSig vchPubKey scriptCode c =
     (if IsCanonicalSignature vchSig (ctx_flags ctx) \<and> IsCanonicalPubKey vchPubKey (ctx_flags ctx) then
        CheckSig E vchSig vchPubKey scriptCode (ctx_txTo ctx) (ctx_nIn ctx) (ctx_nHashType ctx) (ctx_flags ctx) c
      else Inr (False, c))"

definition op_checksig :: "ext \<Rightarrow> sigctx \<Rightarrow> opcodetype \<Rightarrow> vm \<Rightarrow> bool \<times> vm" where
  "op_checksig E ctx opcode m =
     (case vm_stack m of
        vchPubKey # vchSig # s \<Rightarrow>
          let scriptCode = snd (FindAndDelete (push_data vchSig []) (vm_codehash m)) in
          (case checked_sig E ctx vchSig vchPubKey scriptCode (vm_cache m) of
             Inl e \<Rightarrow> (False, m)
           | Inr (fSuccess, c) \<Rightarrow>
               let m = m\<lparr>vm_cache := c, vm_stack := bool_vch fSuccess # s\<rparr> in
               if opcode = OP_CHECKSIGVERIFY then
                 (if fSuccess then (True, m\<lparr>vm_stack := s\<rparr>) else (False, m))
               else (True, m))
      | _ \<Rightarrow> (False, m))"

text \<open>The loop that matches signatures to keys in order; it stops as soon as more signatures
  than keys are left.\<close>

function msig_loop :: "ext \<Rightarrow> sigctx \<Rightarrow> valtype list \<Rightarrow> CScript \<Rightarrow> nat \<Rightarrow> int \<Rightarrow> nat \<Rightarrow> int \<Rightarrow> bool \<Rightarrow> CSignatureCache \<Rightarrow>
    (key_error + bool) \<times> CSignatureCache" where
  "msig_loop E ctx st scriptCode isig nSigs ikey nKeys fSuccess c =
     (if fSuccess \<and> nSigs > 0 then
        (case checked_sig E ctx (st ! (isig - 1)) (st ! (ikey - 1)) scriptCode c of
           Inl e \<Rightarrow> (Inl e, c)
         | Inr (fOk, c') \<Rightarrow>
             let isig = (if fOk then isig + 1 else isig);
                 nSigs = (if fOk then nSigs - 1 else nSigs);
                 nKeys = nKeys - 1
             in msig_loop E ctx st scriptCode isig nSigs (ikey + 1) nKeys (\<not> nSigs > nKeys) c')
      else (Inr fSuccess, c))"
  by pat_completeness auto
termination
  by (relation "measure (\<lambda>(E, ctx, st, sc, isig, nSigs, ikey, nKeys, fSuccess, c). nat (nKeys + 1) + (if fSuccess then 1 else 0))")
    (auto split: if_splits)

declare msig_loop.simps [simp del]

text \<open>The end of the operation: remove the arguments, look at the dummy, push the result.\<close>

definition msig_finish :: "sigctx \<Rightarrow> opcodetype \<Rightarrow> bool \<Rightarrow> nat \<Rightarrow> vm \<Rightarrow> bool \<times> vm" where
  "msig_finish ctx opcode fSuccess i m =
     (let m = m\<lparr>vm_stack := drop (i - 1) (vm_stack m)\<rparr> in
      case vm_stack m of
        [] \<Rightarrow> (False, m)
      | dummy # s \<Rightarrow>
          if ctx_flags ctx AND SCRIPT_VERIFY_NULLDUMMY \<noteq> 0 \<and> dummy \<noteq> [] then (False, m)
          else
            let m = m\<lparr>vm_stack := bool_vch fSuccess # s\<rparr> in
            if opcode = OP_CHECKMULTISIGVERIFY then
              (if fSuccess then (True, m\<lparr>vm_stack := s\<rparr>) else (False, m))
            else (True, m))"

definition delete_sigs :: "valtype list \<Rightarrow> nat \<Rightarrow> nat \<Rightarrow> CScript \<Rightarrow> CScript" where
  "delete_sigs st isig nSigsCount scriptCode =
     fold (\<lambda>k sc. snd (FindAndDelete (push_data (st ! (isig + k - 1)) []) sc)) [0..<nSigsCount] scriptCode"

definition op_checkmultisig :: "ext \<Rightarrow> sigctx \<Rightarrow> opcodetype \<Rightarrow> vm \<Rightarrow> bool \<times> vm" where
  "op_checkmultisig E ctx opcode m =
     (let st = vm_stack m in
      if length st < 1 then (False, m)
      else case CastToBigNum E (st ! 0) of None \<Rightarrow> (False, m) | Some bnKeys \<Rightarrow>
      let nKeysCount = getint E bnKeys in
      if nKeysCount < 0 \<or> nKeysCount > 20 then (False, m)
      else let m = m\<lparr>vm_nOpCount := vm_nOpCount m + nKeysCount\<rparr> in
      if vm_nOpCount m > 201 then (False, m)
      else let ikey = 2; i = ikey + nat nKeysCount in
      if length st < i then (False, m)
      else case CastToBigNum E (st ! (i - 1)) of None \<Rightarrow> (False, m) | Some bnSigs \<Rightarrow>
      let nSigsCount = getint E bnSigs in
      if nSigsCount < 0 \<or> nSigsCount > nKeysCount then (False, m)
      else let isig = i + 1; i = isig + nat nSigsCount in
      if length st < i then (False, m)
      else let scriptCode = delete_sigs st isig (nat nSigsCount) (vm_codehash m) in
      case msig_loop E ctx st scriptCode isig nSigsCount ikey nKeysCount True (vm_cache m) of
        (Inl e, c) \<Rightarrow> (False, m\<lparr>vm_cache := c\<rparr>)
      | (Inr fSuccess, c) \<Rightarrow> msig_finish ctx opcode fSuccess i (m\<lparr>vm_cache := c\<rparr>))"

section \<open>One instruction\<close>

definition disabled_opcode :: "opcodetype \<Rightarrow> bool" where
  "disabled_opcode opcode \<longleftrightarrow>
     opcode \<in> {OP_CAT, OP_SUBSTR, OP_LEFT, OP_RIGHT, OP_INVERT, OP_AND, OP_OR, OP_XOR, OP_2MUL, OP_2DIV,
       OP_MUL, OP_DIV, OP_MOD, OP_LSHIFT, OP_RSHIFT}"

text \<open>The switch, with the position behind the instruction for the code separator.\<close>

definition eval_switch :: "ext \<Rightarrow> sigctx \<Rightarrow> bool \<Rightarrow> opcodetype \<Rightarrow> CScript \<Rightarrow> vm \<Rightarrow> bool \<times> vm" where
  "eval_switch E ctx fExec opcode pc m =
     (if opcode = OP_1NEGATE \<or> (OP_1 \<le> opcode \<and> opcode \<le> OP_16) then on_stack (op_number E opcode) m
      else if opcode \<in> {OP_NOP, OP_IF, OP_NOTIF, OP_ELSE, OP_ENDIF, OP_VERIFY, OP_RETURN}
        \<or> (OP_NOP1 \<le> opcode \<and> opcode \<le> OP_NOP10) then op_control fExec opcode m
      else if opcode \<in> {OP_TOALTSTACK, OP_FROMALTSTACK} then op_altstack opcode m
      else if opcode \<in> {OP_2DROP, OP_2DUP, OP_3DUP, OP_2OVER, OP_2ROT, OP_2SWAP} then on_stack (op_stack2 opcode) m
      else if opcode \<in> {OP_IFDUP, OP_DEPTH, OP_DROP, OP_DUP, OP_NIP, OP_OVER} then on_stack (op_stack1 E opcode) m
      else if opcode \<in> {OP_PICK, OP_ROLL} then on_stack (op_pick_roll E opcode) m
      else if opcode \<in> {OP_ROT, OP_SWAP, OP_TUCK, OP_SIZE} then on_stack (op_stack3 E opcode) m
      else if opcode \<in> {OP_EQUAL, OP_EQUALVERIFY} then on_stack (op_equal opcode) m
      else if opcode \<in> {OP_1ADD, OP_1SUB, OP_NEGATE, OP_ABS, OP_NOT, OP_0NOTEQUAL} then on_stack (op_num1 E opcode) m
      else if opcode \<in> {OP_ADD, OP_SUB, OP_BOOLAND, OP_BOOLOR, OP_NUMEQUAL, OP_NUMEQUALVERIFY, OP_NUMNOTEQUAL,
        OP_LESSTHAN, OP_GREATERTHAN, OP_LESSTHANOREQUAL, OP_GREATERTHANOREQUAL, OP_MIN, OP_MAX}
        then on_stack (op_num2 E opcode) m
      else if opcode = OP_WITHIN then on_stack (op_within E) m
      else if opcode \<in> {OP_RIPEMD160, OP_SHA1, OP_SHA256, OP_HASH160, OP_HASH256} then on_stack (op_hash_value E opcode) m
      else if opcode = OP_CODESEPARATOR then (True, m\<lparr>vm_codehash := pc\<rparr>)
      else if opcode \<in> {OP_CHECKSIG, OP_CHECKSIGVERIFY} then op_checksig E ctx opcode m
      else if opcode \<in> {OP_CHECKMULTISIG, OP_CHECKMULTISIGVERIFY} then op_checkmultisig E ctx opcode m
      else (False, m))"

definition size_limits :: "vm \<Rightarrow> bool" where
  "size_limits m \<longleftrightarrow> \<not> length (vm_stack m) + length (vm_altstack m) > 1000"

definition count_op :: "opcodetype \<Rightarrow> vm \<Rightarrow> vm" where
  "count_op opcode m = (if opcode > OP_16 then m\<lparr>vm_nOpCount := vm_nOpCount m + 1\<rparr> else m)"

definition exec_op :: "ext \<Rightarrow> sigctx \<Rightarrow> bool \<Rightarrow> opcodetype \<Rightarrow> valtype \<Rightarrow> CScript \<Rightarrow> vm \<Rightarrow> bool \<times> vm" where
  "exec_op E ctx fExec opcode vchPushValue pc m =
     (if fExec \<and> opcode \<le> OP_PUSHDATA4 then (True, m\<lparr>vm_stack := vchPushValue # vm_stack m\<rparr>)
      else if fExec \<or> (OP_IF \<le> opcode \<and> opcode \<le> OP_ENDIF) then eval_switch E ctx fExec opcode pc m
      else (True, m))"

definition eval_step :: "ext \<Rightarrow> sigctx \<Rightarrow> opcodetype \<Rightarrow> valtype \<Rightarrow> CScript \<Rightarrow> vm \<Rightarrow> bool \<times> vm" where
  "eval_step E ctx opcode vchPushValue pc m =
     (let fExec = list_all (\<lambda>f. f) (vm_vfExec m) in
      if length vchPushValue > MAX_SCRIPT_ELEMENT_SIZE then (False, m)
      else let m = count_op opcode m in
      if opcode > OP_16 \<and> vm_nOpCount m > 201 then (False, m)
      else if disabled_opcode opcode then (False, m)
      else let (ok, m) = exec_op E ctx fExec opcode vchPushValue pc m in (ok \<and> size_limits m, m))"

function eval_loop :: "ext \<Rightarrow> sigctx \<Rightarrow> CScript \<Rightarrow> vm \<Rightarrow> bool \<times> vm" where
  "eval_loop E ctx pc m =
     (if pc = [] then (vm_vfExec m = [], m)
      else case GetOp2 pc of
        None \<Rightarrow> (False, m)
      | Some (opcode, vchPushValue, pc') \<Rightarrow>
          (case eval_step E ctx opcode vchPushValue pc' m of
             (False, m) \<Rightarrow> (False, m)
           | (True, m) \<Rightarrow> eval_loop E ctx pc' m))"
  by pat_completeness auto
termination by (relation "measure (\<lambda>(E, ctx, pc, m). length pc)") (auto dest!: GetOp2_shorter)

declare eval_loop.simps [simp del]

definition vm_init :: "valtype list \<Rightarrow> CScript \<Rightarrow> CSignatureCache \<Rightarrow> vm" where
  "vm_init st script c =
     \<lparr> vm_stack = st, vm_altstack = [], vm_vfExec = [], vm_nOpCount = 0, vm_codehash = script, vm_cache = c \<rparr>"

definition EvalScript :: "ext \<Rightarrow> sigctx \<Rightarrow> valtype list \<Rightarrow> CScript \<Rightarrow> CSignatureCache \<Rightarrow>
    bool \<times> valtype list \<times> CSignatureCache" where
  "EvalScript E ctx st script c =
     (if length script > 10000 then (False, st, c)
      else let (r, m) = eval_loop E ctx script (vm_init st script c) in (r, vm_stack m, vm_cache m))"

section \<open>Matching signatures to keys\<close>

definition sig_ok :: "ext \<Rightarrow> sigctx \<Rightarrow> CScript \<Rightarrow> valtype \<Rightarrow> valtype \<Rightarrow> bool" where
  "sig_ok E ctx sc sig pk \<longleftrightarrow>
     IsCanonicalSignature sig (ctx_flags ctx) \<and> IsCanonicalPubKey pk (ctx_flags ctx)
     \<and> CheckSig_spec E sig pk sc (ctx_txTo ctx) (ctx_nIn ctx) (ctx_nHashType ctx)"

lemma checked_sig_correct:
  assumes "point_codec_documented E" "cache_ok E c"
  shows "\<exists>c'. checked_sig E ctx sig pk sc c = Inr (sig_ok E ctx sc sig pk, c') \<and> cache_ok E c'"
  using CheckSig_correct [OF assms] assms(2) by (auto simp: checked_sig_def sig_ok_def)

fun greedy :: "('a \<Rightarrow> 'b \<Rightarrow> bool) \<Rightarrow> 'a list \<Rightarrow> 'b list \<Rightarrow> bool" where
  "greedy P [] ks = True"
| "greedy P (s # ss) [] = False"
| "greedy P (s # ss) (k # ks) = (if P s k then greedy P ss ks else greedy P (s # ss) ks)"

lemma greedy_length: "greedy P ss ks \<Longrightarrow> length ss \<le> length ks"
  by (induction P ss ks rule: greedy.induct) (auto split: if_splits)

text \<open>The greedy search is complete: it succeeds exactly when the signatures match some keys in order.\<close>

lemma greedy_weaken: "greedy P (s # ss) ks \<Longrightarrow> greedy P ss ks"
proof (induction ks arbitrary: s ss)
  case (Cons k ks)
  show ?case
  proof (cases ss)
    case (Cons s' ss')
    show ?thesis
    proof (cases "P s k")
      case True
      then have "greedy P (s' # ss') ks" using Cons.prems Cons by simp
      then show ?thesis using Cons.IH [of s' ss'] Cons by simp
    next
      case False
      then have "greedy P (s # ss) ks" using Cons.prems by simp
      then have "greedy P ss ks" by (rule Cons.IH)
      then show ?thesis using Cons Cons.IH [of s' ss'] by simp
    qed
  qed simp
qed simp

lemma greedy_complete: "(\<exists>sub. subseq sub ks \<and> list_all2 P ss sub) \<Longrightarrow> greedy P ss ks"
proof (elim exE conjE)
  fix sub assume "subseq sub ks" "list_all2 P ss sub"
  then show "greedy P ss ks"
  proof (induction arbitrary: ss rule: list_emb.induct)
    case (list_emb_Cons xs ys y)
    then have g: "greedy P ss ys" by simp
    show ?case
    proof (cases ss)
      case (Cons s ss')
      then show ?thesis using g greedy_weaken [of P s ss' ys] by simp
    qed simp
  next
    case (list_emb_Cons2 x y xs ys)
    then obtain s ss' where "ss = s # ss'" "P s y" "list_all2 P ss' xs" by (auto simp: list_all2_Cons2)
    with list_emb_Cons2.IH show ?case by simp
  qed simp
qed

lemma greedy_sound: "greedy P ss ks \<Longrightarrow> \<exists>sub. subseq sub ks \<and> list_all2 P ss sub"
proof (induction P ss ks rule: greedy.induct)
  case (1 P ks)
  show ?case by (intro exI [of _ "[]"]) simp
next
  case (3 P s ss k ks)
  show ?case
  proof (cases "P s k")
    case True
    with 3 obtain sub where "subseq sub ks" "list_all2 P ss sub" by auto
    with True show ?thesis by (intro exI [of _ "k # sub"]) simp
  next
    case False
    with 3 obtain sub where "subseq sub ks" "list_all2 P (s # ss) sub" by auto
    then show ?thesis by (intro exI [of _ sub]) auto
  qed
qed simp

lemma msig_loop_greedy:
  assumes E: "point_codec_documented E"
  shows "cache_ok E c \<Longrightarrow> st = A @ sigs @ B \<Longrightarrow> st = C @ keys @ D \<Longrightarrow>
    \<exists>c'. msig_loop E ctx st sc (Suc (length A)) (int (length sigs)) (Suc (length C)) (int (length keys))
          (length sigs \<le> length keys) c = (Inr (greedy (sig_ok E ctx sc) sigs keys), c') \<and> cache_ok E c'"
proof (induction keys arbitrary: sigs A C c)
  case Nil
  then show ?case by (cases sigs) (simp_all add: msig_loop.simps)
next
  case (Cons key keys)
  show ?case
  proof (cases "length sigs \<le> length (key # keys) \<and> sigs \<noteq> []")
    case False
    then show ?thesis using Cons.prems(1) greedy_length [of "sig_ok E ctx sc" sigs "key # keys"]
      by (subst msig_loop.simps) (cases sigs, auto)
  next
    case True
    then obtain s ss where sigs: "sigs = s # ss" by (cases sigs) auto
    have "st ! length A = s" using Cons.prems(2) sigs by simp
    moreover have "st ! length C = key" unfolding Cons.prems(3) by simp
    ultimately have st: "st ! length A = s" "st ! length C = key" .
    obtain c1 where c1: "checked_sig E ctx s key sc c = Inr (sig_ok E ctx sc s key, c1)" "cache_ok E c1"
      using checked_sig_correct [OF E Cons.prems(1)] by blast
    let ?sigs = "if sig_ok E ctx sc s key then ss else sigs"
    let ?A = "if sig_ok E ctx sc s key then A @ [s] else A"
    have step: "msig_loop E ctx st sc (Suc (length A)) (int (length sigs)) (Suc (length C)) (int (length (key # keys)))
        (length sigs \<le> length (key # keys)) c
      = msig_loop E ctx st sc (Suc (length ?A)) (int (length ?sigs)) (Suc (length (C @ [key]))) (int (length keys))
        (length ?sigs \<le> length keys) c1"
    proof -
      have "(1 + int (length ss) \<le> int (length keys)) = (Suc (length ss) \<le> length keys)" by linarith
      then show ?thesis using True sigs by (subst msig_loop.simps) (simp add: st c1(1) Let_def not_less)
    qed
    have "st = ?A @ ?sigs @ B" "st = (C @ [key]) @ keys @ D" using Cons.prems(2,3) sigs by simp_all
    note ih = Cons.IH [OF c1(2) this]
    have g: "greedy (sig_ok E ctx sc) sigs (key # keys) = greedy (sig_ok E ctx sc) ?sigs keys" using sigs by simp
    show ?thesis unfolding step g by (rule ih)
  qed
qed

section \<open>Runs do not depend on the cache\<close>

definition vm_sim :: "ext \<Rightarrow> vm \<Rightarrow> vm \<Rightarrow> bool" where
  "vm_sim E m1 m2 \<longleftrightarrow> cache_ok E (vm_cache m1) \<and> cache_ok E (vm_cache m2)
     \<and> vm_stack m2 = vm_stack m1 \<and> vm_altstack m2 = vm_altstack m1 \<and> vm_vfExec m2 = vm_vfExec m1
     \<and> vm_nOpCount m2 = vm_nOpCount m1 \<and> vm_codehash m2 = vm_codehash m1"

lemma vm_sim_update: "vm_sim E m1 m2 \<Longrightarrow> m2 = m1\<lparr>vm_cache := vm_cache m2\<rparr>"
  by (cases m1, cases m2) (simp add: vm_sim_def)

definition res_sim :: "ext \<Rightarrow> bool \<times> vm \<Rightarrow> bool \<times> vm \<Rightarrow> bool" where
  "res_sim E r1 r2 \<longleftrightarrow> fst r1 = fst r2 \<and> vm_sim E (snd r1) (snd r2)"

text \<open>Operations that do not look at the cache.\<close>

definition cache_free :: "(vm \<Rightarrow> bool \<times> vm) \<Rightarrow> bool" where
  "cache_free f \<longleftrightarrow> (\<forall>m. vm_cache (snd (f m)) = vm_cache m) \<and>
     (\<forall>m c. f (m\<lparr>vm_cache := c\<rparr>) = (fst (f m), (snd (f m))\<lparr>vm_cache := c\<rparr>))"

lemma cache_free_sim:
  assumes "cache_free f" "vm_sim E m1 m2"
  shows "res_sim E (f m1) (f m2)"
proof -
  have m2: "m2 = m1\<lparr>vm_cache := vm_cache m2\<rparr>" using assms(2) by (rule vm_sim_update)
  have "f m2 = (fst (f m1), (snd (f m1))\<lparr>vm_cache := vm_cache m2\<rparr>)"
    using assms(1) m2 unfolding cache_free_def by metis
  then show ?thesis using assms by (simp add: res_sim_def vm_sim_def cache_free_def)
qed

lemma cache_free_on_stack: "cache_free (on_stack f)"
  by (simp add: cache_free_def on_stack_def split_beta)

lemma cache_free_control: "cache_free (op_control fExec opcode)" "cache_free (op_altstack opcode)"
  by (auto simp: cache_free_def op_control_def op_if_def op_altstack_def Let_def split: list.splits)

lemma cache_free_codesep: "cache_free (\<lambda>m. (True, m\<lparr>vm_codehash := pc\<rparr>))" "cache_free (\<lambda>m. (b, m))"
  by (auto simp: cache_free_def)

lemma op_checksig_sim:
  assumes E: "point_codec_documented E" and s: "vm_sim E m1 m2"
  shows "res_sim E (op_checksig E ctx opcode m1) (op_checksig E ctx opcode m2)"
proof -
  obtain c where m2: "m2 = m1\<lparr>vm_cache := c\<rparr>" "cache_ok E c" "cache_ok E (vm_cache m1)"
    using s vm_sim_update [OF s] unfolding vm_sim_def by blast
  consider "length (vm_stack m1) < 2" | pk sig st where "vm_stack m1 = pk # sig # st"
    by (metis length_Cons list.size(3) less_2_cases_iff neq_Nil_conv One_nat_def)
  then show ?thesis
  proof cases
    case 1
    then show ?thesis using s
      by (auto simp: op_checksig_def res_sim_def m2(1) split: list.splits)
  next
    case 2
    let ?sc = "snd (FindAndDelete (push_data sig []) (vm_codehash m1))"
    obtain c1 where c1: "checked_sig E ctx sig pk ?sc (vm_cache m1) = Inr (sig_ok E ctx ?sc sig pk, c1)" "cache_ok E c1"
      using checked_sig_correct [OF E m2(3)] by blast
    obtain c2 where c2: "checked_sig E ctx sig pk ?sc c = Inr (sig_ok E ctx ?sc sig pk, c2)" "cache_ok E c2"
      using checked_sig_correct [OF E m2(2)] by blast
    show ?thesis
      using 2 c1 c2 by (auto simp: op_checksig_def res_sim_def vm_sim_def m2(1) Let_def)
  qed
qed

lemma msig_result:
  assumes E: "point_codec_documented E" and "cache_ok E c" "0 \<le> nSigs" "nSigs \<le> nKeys"
    and l: "Suc (Suc (Suc (nat nKeys))) + nat nSigs \<le> length st"
  shows "\<exists>c'. msig_loop E ctx st sc (Suc (Suc (Suc (nat nKeys)))) nSigs 2 nKeys True c
    = (Inr (greedy (sig_ok E ctx sc) (take (nat nSigs) (drop (Suc (Suc (nat nKeys))) st)) (take (nat nKeys) (drop 1 st))), c')
    \<and> cache_ok E c'"
proof -
  let ?sigs = "take (nat nSigs) (drop (Suc (Suc (nat nKeys))) st)" and ?keys = "take (nat nKeys) (drop 1 st)"
  let ?A = "take (Suc (Suc (nat nKeys))) st" and ?B = "drop (nat nSigs) (drop (Suc (Suc (nat nKeys))) st)"
  let ?C = "take 1 st" and ?D = "drop (nat nKeys) (drop 1 st)"
  have a: "Suc (length ?A) = Suc (Suc (Suc (nat nKeys)))" "int (length ?sigs) = nSigs" "Suc (length ?C) = 2" "int (length ?keys) = nKeys"
    using l assms(3,4) by auto
  have "length ?sigs \<le> length ?keys" using a(2,4) assms(4) by linarith
  then have b: "(length ?sigs \<le> length ?keys) = True" by simp
  have "st = ?A @ ?sigs @ ?B" "st = ?C @ ?keys @ ?D" by (simp_all only: append_take_drop_id)
  from msig_loop_greedy [OF E assms(2) this, of ctx sc] show ?thesis unfolding a b .
qed

lemma op_checkmultisig_sim:
  assumes E: "point_codec_documented E" and s: "vm_sim E m1 m2"
  shows "res_sim E (op_checkmultisig E ctx opcode m1) (op_checkmultisig E ctx opcode m2)"
proof -
  obtain c where m2: "m2 = m1\<lparr>vm_cache := c\<rparr>" "cache_ok E c" "cache_ok E (vm_cache m1)"
    using s vm_sim_update [OF s] unfolding vm_sim_def by blast
  have fin: "res_sim E (msig_finish ctx opcode b i (m\<lparr>vm_cache := d1\<rparr>)) (msig_finish ctx opcode b i (m\<lparr>vm_cache := d2\<rparr>))"
    if "cache_ok E d1" "cache_ok E d2" for b i m d1 d2
    using that by (auto simp: msig_finish_def res_sim_def vm_sim_def Let_def split: list.splits)
  have stop: "res_sim E (False, m1\<lparr>vm_nOpCount := k\<rparr>) (False, m2\<lparr>vm_nOpCount := k\<rparr>)" "res_sim E (False, m1) (False, m2)" for k
    using m2 by (auto simp: res_sim_def vm_sim_def)
  let ?st = "vm_stack m1"
  show ?thesis
  proof (cases "CastToBigNum E (?st ! 0)")
    case None
    then show ?thesis using stop by (simp add: op_checkmultisig_def Let_def m2(1))
  next
    case (Some bk)
    let ?nk = "getint E bk"
    show ?thesis
    proof (cases "CastToBigNum E (?st ! Suc (nat ?nk))")
      case None
      with Some show ?thesis using stop(1) [of "vm_nOpCount m1 + ?nk"] stop(2)
        by (simp add: op_checkmultisig_def Let_def m2(1))
    next
      case bs: (Some bs)
      let ?ns = "getint E bs"
      let ?sc = "delete_sigs ?st (Suc (Suc (Suc (nat ?nk)))) (nat ?ns) (vm_codehash m1)"
      show ?thesis
      proof (cases "0 \<le> ?ns \<and> ?ns \<le> ?nk \<and> Suc (Suc (Suc (nat ?nk))) + nat ?ns \<le> length ?st")
        case True
        obtain c1 where c1: "msig_loop E ctx ?st ?sc (Suc (Suc (Suc (nat ?nk)))) ?ns 2 ?nk True (vm_cache m1)
            = (Inr (greedy (sig_ok E ctx ?sc) (take (nat ?ns) (drop (Suc (Suc (nat ?nk))) ?st)) (take (nat ?nk) (drop 1 ?st))), c1)"
            "cache_ok E c1" using msig_result [OF E m2(3)] True by blast
        obtain c2 where c2: "msig_loop E ctx ?st ?sc (Suc (Suc (Suc (nat ?nk)))) ?ns 2 ?nk True c
            = (Inr (greedy (sig_ok E ctx ?sc) (take (nat ?ns) (drop (Suc (Suc (nat ?nk))) ?st)) (take (nat ?nk) (drop 1 ?st))), c2)"
            "cache_ok E c2" using msig_result [OF E m2(2)] True by blast
        show ?thesis
          using Some bs True c1 c2 stop(1) [of "vm_nOpCount m1 + ?nk"] stop(2)
            fin [OF c1(2) c2(2), of _ _ "m1\<lparr>vm_nOpCount := vm_nOpCount m1 + ?nk\<rparr>"]
          by (simp add: op_checkmultisig_def Let_def m2(1))
      next
        case False
        then consider "?ns < 0" | "?nk < ?ns" | "length ?st < Suc (Suc (Suc (nat ?nk))) + nat ?ns" by linarith
        then show ?thesis using Some bs stop(1) [of "vm_nOpCount m1 + ?nk"] stop(2)
          by cases (simp_all add: op_checkmultisig_def Let_def m2(1))
      qed
    qed
  qed
qed

lemma eval_switch_cases:
  assumes "P (on_stack (op_number E opcode))" "P (op_control fExec opcode)" "P (op_altstack opcode)"
    "P (on_stack (op_stack2 opcode))" "P (on_stack (op_stack1 E opcode))" "P (on_stack (op_pick_roll E opcode))"
    "P (on_stack (op_stack3 E opcode))" "P (on_stack (op_equal opcode))" "P (on_stack (op_num1 E opcode))"
    "P (on_stack (op_num2 E opcode))" "P (on_stack (op_within E))" "P (on_stack (op_hash_value E opcode))"
    "P (\<lambda>m. (True, m\<lparr>vm_codehash := pc\<rparr>))" "P (op_checksig E ctx opcode)" "P (op_checkmultisig E ctx opcode)"
    "P (\<lambda>m. (False, m))"
  shows "P (eval_switch E ctx fExec opcode pc)"
proof -
  have if_P: "P f \<Longrightarrow> P g \<Longrightarrow> P (\<lambda>m. if b then f m else g m)" for b f g by (cases b) simp_all
  show ?thesis unfolding eval_switch_def [abs_def] by (intro if_P assms)
qed

lemma eval_switch_sim:
  assumes E: "point_codec_documented E"
  shows "\<forall>m1 m2. vm_sim E m1 m2 \<longrightarrow> res_sim E (eval_switch E ctx fExec opcode pc m1) (eval_switch E ctx fExec opcode pc m2)"
  by (rule eval_switch_cases)
    (auto intro: cache_free_sim [OF cache_free_on_stack] cache_free_sim [OF cache_free_control(1)]
      cache_free_sim [OF cache_free_control(2)] cache_free_sim [OF cache_free_codesep(1)]
      cache_free_sim [OF cache_free_codesep(2)] op_checksig_sim [OF E] op_checkmultisig_sim [OF E])

lemma eval_step_sim:
  assumes E: "point_codec_documented E" and s: "vm_sim E m1 m2"
  shows "res_sim E (eval_step E ctx opcode v pc m1) (eval_step E ctx opcode v pc m2)"
proof -
  have u: "vm_sim E (count_op opcode m1) (count_op opcode m2)" using s by (simp add: vm_sim_def count_op_def)
  have ex: "res_sim E (exec_op E ctx f opcode v pc (count_op opcode m1)) (exec_op E ctx f opcode v pc (count_op opcode m2))" for f
    using eval_switch_sim [OF E] u by (auto simp: exec_op_def res_sim_def vm_sim_def)
  show ?thesis using s u ex
    by (auto simp: eval_step_def Let_def res_sim_def vm_sim_def size_limits_def split_beta)
qed

lemma eval_loop_sim:
  assumes E: "point_codec_documented E"
  shows "vm_sim E m1 m2 \<Longrightarrow> res_sim E (eval_loop E ctx pc m1) (eval_loop E ctx pc m2)"
proof (induction "length pc" arbitrary: pc m1 m2 rule: less_induct)
  case less
  show ?case
  proof (cases "GetOp2 pc")
    case None
    then show ?thesis using less.prems
      by (subst (1 2) eval_loop.simps) (auto simp: res_sim_def vm_sim_def)
  next
    case (Some x)
    obtain op v r where x: "x = (op, v, r)" by (cases x)
    have ne: "pc \<noteq> []" using Some by auto
    have e: "eval_loop E ctx pc m = (let (b, m') = eval_step E ctx op v r m in if b then eval_loop E ctx r m' else (False, m'))" for m
      using Some x ne by (subst eval_loop.simps) (auto split: prod.split bool.split)
    have "res_sim E (eval_step E ctx op v r m1) (eval_step E ctx op v r m2)" by (rule eval_step_sim [OF E less.prems])
    then show ?thesis using less.hyps [of r] GetOp2_shorter Some x unfolding e
      by (auto simp: res_sim_def split_beta)
  qed
qed

end
