(* ===== verification/Interp_Limits.thy ===== *)
theory Interp_Limits
  imports Interpreter
begin

text \<open>
  Properties of script runs: resource limits that hold at every step, independence of the signature cache, and what a
  successful run says about the script.
\<close>

unbundle bit_operations_syntax

section \<open>Resource limits\<close>

abbreviation (input) small :: "valtype \<Rightarrow> bool" where "small v \<equiv> length v \<le> MAX_SCRIPT_ELEMENT_SIZE"

definition elems_ok :: "vm \<Rightarrow> bool" where
  "elems_ok m \<longleftrightarrow> list_all small (vm_stack m) \<and> list_all small (vm_altstack m)"

definition vm_inv :: "vm \<Rightarrow> bool" where
  "vm_inv m \<longleftrightarrow> elems_ok m \<and> size_limits m \<and> vm_nOpCount m \<le> 201"

lemma getvch_small: "mpi_documented E \<Longrightarrow> \<bar>n\<bar> \<le> 2 ^ 32 \<Longrightarrow> small (getvch E n)"
  using length_mpi_enc_le [of n 4] by (simp add: getvch_enc MAX_SCRIPT_ELEMENT_SIZE_def)

lemma CastToBigNum_value:
  assumes "mpi_documented E" "CastToBigNum E v = Some bn"
  shows "bn = setvch E v \<and> \<bar>bn\<bar> < 2 ^ 31"
proof -
  have l: "length v \<le> 4" and bn: "bn = setvch E (getvch E (setvch E v))"
    using assms(2) by (auto simp: CastToBigNum_def nMaxNumSize_def split: if_splits)
  have r: "\<bar>setvch E v\<bar> < 2 ^ 31" by (rule setvch_4_less [OF assms(1) l])
  then have "length (getvch E (setvch E v)) \<le> 4" using getvch_length_4 [OF assms(1)] by blast
  then have "setvch E (getvch E (setvch E v)) = setvch E v" by (intro setvch_getvch [OF assms(1)]) simp
  with bn r show ?thesis by simp
qed

lemma small_simple [simp]: "small []" "small vchTrue" "small vchFalse" "small (bool_vch f)"
  by (simp_all add: vchTrue_def vchFalse_def bool_vch_def MAX_SCRIPT_ELEMENT_SIZE_def)

lemma small_num:
  assumes "mpi_documented E" "CastToBigNum E v1 = Some b1" "CastToBigNum E v2 = Some b2"
  shows "small (getvch E (num1_value opcode b1))" "small (getvch E (num2_value opcode b1 b2))"
proof -
  have r: "\<bar>b1\<bar> < 2 ^ 31" "\<bar>b2\<bar> < 2 ^ 31" using CastToBigNum_value [OF assms(1)] assms(2,3) by blast+
  have if_le: "\<bar>a\<bar> \<le> k \<Longrightarrow> \<bar>b\<bar> \<le> k \<Longrightarrow> \<bar>if c then a else b\<bar> \<le> k" for a b k :: int and c by simp
  have "\<bar>num1_value opcode b1\<bar> \<le> 2 ^ 32" unfolding num1_value_def by (intro if_le) (use r in simp_all)
  then show "small (getvch E (num1_value opcode b1))" by (rule getvch_small [OF assms(1)])
  have "\<bar>num2_value opcode b1 b2\<bar> \<le> 2 ^ 32" unfolding num2_value_def by (intro if_le) (use r in simp_all)
  then show "small (getvch E (num2_value opcode b1 b2))" by (rule getvch_small [OF assms(1)])
qed

lemma small_hash: "hash_sizes E \<Longrightarrow> small (hash_value E opcode v)"
  by (auto simp: hash_value_def hash_sizes_def MAX_SCRIPT_ELEMENT_SIZE_def)

text \<open>Stack functions keep the elements small, on a stack within the limits.\<close>

definition keeps_small :: "(valtype list \<Rightarrow> bool \<times> valtype list) \<Rightarrow> bool" where
  "keeps_small f \<longleftrightarrow> (\<forall>st. list_all small st \<longrightarrow> length st \<le> 1000 \<longrightarrow> list_all small (snd (f st)))"

lemma keeps_small_number: "mpi_documented E \<Longrightarrow> opcode < 256 \<Longrightarrow> keeps_small (op_number E opcode)"
  by (auto simp: keeps_small_def op_number_def bn_of_int_def setint64_id int64_range_def intro!: getvch_small)

lemma keeps_small_stack2: "keeps_small (op_stack2 opcode)"
  by (auto simp: keeps_small_def op_stack2_def split: list.splits)

lemma keeps_small_stack1: "mpi_documented E \<Longrightarrow> keeps_small (op_stack1 E opcode)"
  by (auto simp: keeps_small_def op_stack1_def intro!: getvch_small split: list.splits)

lemma keeps_small_pick: "keeps_small (op_pick_roll E opcode)"
proof -
  have "set (snd (op_pick_roll E opcode st)) \<subseteq> set st" for st
  proof (cases st)
    case (Cons x s)
    then show ?thesis
      by (auto simp: op_pick_roll_def Let_def split: option.splits dest: in_set_takeD in_set_dropD intro: nth_mem)
  qed (simp add: op_pick_roll_def)
  then show ?thesis unfolding keeps_small_def list_all_iff by blast
qed

lemma keeps_small_stack3: "mpi_documented E \<Longrightarrow> keeps_small (op_stack3 E opcode)"
  by (auto simp: keeps_small_def op_stack3_def MAX_SCRIPT_ELEMENT_SIZE_def
      intro!: getvch_small [unfolded MAX_SCRIPT_ELEMENT_SIZE_def] split: list.splits)

lemma keeps_small_equal: "keeps_small (op_equal opcode)"
  by (auto simp: keeps_small_def op_equal_def Let_def split: list.splits)

lemma keeps_small_num1: "mpi_documented E \<Longrightarrow> keeps_small (op_num1 E opcode)"
  by (auto simp: keeps_small_def op_num1_def small_num(1) split: list.splits option.splits)

lemma keeps_small_num2: "mpi_documented E \<Longrightarrow> keeps_small (op_num2 E opcode)"
  by (auto simp: keeps_small_def op_num2_def small_num(2) Let_def split: list.splits option.splits)

lemma keeps_small_within: "keeps_small (op_within E)"
  by (auto simp: keeps_small_def op_within_def split: list.splits option.splits)

lemma keeps_small_hash: "hash_sizes E \<Longrightarrow> keeps_small (op_hash_value E opcode)"
  by (auto simp: keeps_small_def op_hash_value_def small_hash split: list.splits)

text \<open>One operation of the switch, and one step.\<close>

definition keeps_limits :: "(vm \<Rightarrow> bool \<times> vm) \<Rightarrow> bool" where
  "keeps_limits f \<longleftrightarrow> (\<forall>m. vm_inv m \<longrightarrow> elems_ok (snd (f m)) \<and> (fst (f m) \<longrightarrow> vm_nOpCount (snd (f m)) \<le> 201))"

lemma keeps_limits_on_stack: "keeps_small f \<Longrightarrow> keeps_limits (on_stack f)"
  by (auto simp: keeps_limits_def keeps_small_def on_stack_def vm_inv_def elems_ok_def size_limits_def split_beta)

lemma keeps_limits_control: "keeps_limits (op_control fExec opcode)" "keeps_limits (op_altstack opcode)"
  "keeps_limits (\<lambda>m. (True, m\<lparr>vm_codehash := pc\<rparr>))" "keeps_limits (\<lambda>m. (False, m))"
  by (auto simp: keeps_limits_def vm_inv_def elems_ok_def op_control_def op_if_def op_altstack_def Let_def split: list.splits)

lemma keeps_limits_checksig: "keeps_limits (op_checksig E ctx opcode)"
  by (auto simp: keeps_limits_def vm_inv_def elems_ok_def op_checksig_def Let_def split: list.splits sum.splits)

lemma msig_finish_limits:
  "elems_ok m \<Longrightarrow> elems_ok (snd (msig_finish ctx opcode b i m)) \<and> vm_nOpCount (snd (msig_finish ctx opcode b i m)) = vm_nOpCount m"
proof -
  assume a: "elems_ok m"
  then have "list_all small (drop (i - 1) (vm_stack m))" by (auto simp: elems_ok_def list_all_iff dest: in_set_dropD)
  with a show ?thesis by (auto simp: elems_ok_def msig_finish_def Let_def split: list.splits)
qed

lemma keeps_limits_multisig: "keeps_limits (op_checkmultisig E ctx opcode)"
proof -
  have "elems_ok (snd (op_checkmultisig E ctx opcode m)) \<and>
      (fst (op_checkmultisig E ctx opcode m) \<longrightarrow> vm_nOpCount (snd (op_checkmultisig E ctx opcode m)) \<le> 201)" if "vm_inv m" for m
  proof -
    have e: "elems_ok m" "elems_ok (m\<lparr>vm_nOpCount := k\<rparr>)" "elems_ok (m\<lparr>vm_nOpCount := k, vm_cache := c\<rparr>)" for k c
      using that by (auto simp: vm_inv_def elems_ok_def)
    show ?thesis
      using e msig_finish_limits [OF e(3)]
      by (auto simp: op_checkmultisig_def Let_def split: option.splits prod.splits sum.splits)
  qed
  then show ?thesis by (auto simp: keeps_limits_def)
qed

lemma eval_switch_limits:
  assumes "mpi_documented E" "hash_sizes E" "opcode < 256"
  shows "keeps_limits (eval_switch E ctx fExec opcode pc)"
  by (rule eval_switch_cases)
    (intro keeps_limits_on_stack keeps_limits_control keeps_limits_checksig keeps_limits_multisig
      keeps_small_number keeps_small_stack2 keeps_small_stack1 keeps_small_pick keeps_small_stack3 keeps_small_equal
      keeps_small_num1 keeps_small_num2 keeps_small_within keeps_small_hash assms)+

lemma exec_op_limits:
  assumes "mpi_documented E" "hash_sizes E" "opcode < 256" "small v" "vm_inv m"
  shows "elems_ok (snd (exec_op E ctx fExec opcode v pc m))"
    and "fst (exec_op E ctx fExec opcode v pc m) \<Longrightarrow> vm_nOpCount (snd (exec_op E ctx fExec opcode v pc m)) \<le> 201"
  using eval_switch_limits [OF assms(1-3), of ctx fExec pc] assms(4,5)
  by (auto simp: exec_op_def keeps_limits_def vm_inv_def elems_ok_def)

lemma eval_step_inv:
  assumes "mpi_documented E" "hash_sizes E" "opcode < 256" "vm_inv m" "eval_step E ctx opcode v pc m = (True, m')"
  shows "vm_inv m'"
proof -
  let ?f = "list_all (\<lambda>f. f) (vm_vfExec m)"
  have v: "small v" and n: "vm_nOpCount (count_op opcode m) \<le> 201"
    and x: "exec_op E ctx ?f opcode v pc (count_op opcode m) = (True, m')" and s: "size_limits m'"
    using assms(4,5) by (auto simp: eval_step_def Let_def count_op_def vm_inv_def split: if_splits prod.splits)
  have "vm_inv (count_op opcode m)" using assms(4) n by (auto simp: vm_inv_def elems_ok_def count_op_def size_limits_def)
  from exec_op_limits [OF assms(1-3) v this, of ctx ?f pc] x s show ?thesis by (simp add: vm_inv_def)
qed

section \<open>Runs as sequences of steps\<close>

text \<open>The states a run passes through between instructions.\<close>

inductive reaches :: "ext \<Rightarrow> sigctx \<Rightarrow> CScript \<Rightarrow> vm \<Rightarrow> CScript \<Rightarrow> vm \<Rightarrow> bool" for E ctx where
  start: "reaches E ctx pc m pc m"
| step: "reaches E ctx pc m pc1 m1 \<Longrightarrow> GetOp2 pc1 = Some (opcode, v, pc2) \<Longrightarrow>
    eval_step E ctx opcode v pc2 m1 = (True, m2) \<Longrightarrow> reaches E ctx pc m pc2 m2"

lemma reaches_first:
  "reaches E ctx pc1 m1 pc2 m2 \<Longrightarrow> GetOp2 pc = Some (opcode, v, pc1) \<Longrightarrow>
     eval_step E ctx opcode v pc1 m = (True, m1) \<Longrightarrow> reaches E ctx pc m pc2 m2"
  by (induction rule: reaches.induct) (blast intro: reaches.intros)+

lemma eval_loop_step:
  "GetOp2 pc = Some (opcode, v, pc') \<Longrightarrow> eval_loop E ctx pc m =
     (let (b, m') = eval_step E ctx opcode v pc' m in if b then eval_loop E ctx pc' m' else (False, m'))"
  by (subst eval_loop.simps) (auto split: prod.split bool.split)

lemma eval_loop_True:
  assumes "GetOp2 pc = Some (opcode, v, pc')" "eval_loop E ctx pc m = (True, m')"
  obtains m1 where "eval_step E ctx opcode v pc' m = (True, m1)" "eval_loop E ctx pc' m1 = (True, m')"
proof (cases "eval_step E ctx opcode v pc' m")
  case (Pair b m1)
  then show ?thesis using that assms(2) by (simp add: eval_loop_step [OF assms(1)] split: if_splits)
qed

lemma eval_loop_reaches:
  "eval_loop E ctx pc m = (True, m') \<Longrightarrow> reaches E ctx pc m [] m' \<and> vm_vfExec m' = []"
proof (induction "length pc" arbitrary: pc m rule: less_induct)
  case less
  show ?case
  proof (cases "GetOp2 pc")
    case None
    then show ?thesis using less.prems by (subst (asm) eval_loop.simps) (auto split: if_splits intro: reaches.start)
  next
    case (Some x)
    obtain op v r where x: "x = (op, v, r)" by (cases x)
    obtain m1 where m1: "eval_step E ctx op v r m = (True, m1)" "eval_loop E ctx r m1 = (True, m')"
      by (rule eval_loop_True [OF Some [unfolded x] less.prems])
    have "length r < length pc" using GetOp2_shorter Some x by blast
    from less.hyps [OF this m1(2)] reaches_first [OF _ Some [unfolded x] m1(1)] show ?thesis by blast
  qed
qed

lemma reaches_eval_loop: "reaches E ctx pc m pc' m' \<Longrightarrow> eval_loop E ctx pc m = eval_loop E ctx pc' m'"
  by (induction rule: reaches.induct) (simp_all add: eval_loop_step)

lemma op_encoding_byte: "op_encoding op v b \<Longrightarrow> op < 256"
  by (auto simp: op_encoding_def)

lemma GetOp2_byte: "GetOp2 pc = Some (op, v, r) \<Longrightarrow> op < 256"
  by (auto simp: GetOp2_iff dest: op_encoding_byte)

lemma reaches_inv:
  assumes "mpi_documented E" "hash_sizes E"
  shows "reaches E ctx pc m pc' m' \<Longrightarrow> vm_inv m \<Longrightarrow> vm_inv m'"
  by (induction rule: reaches.induct) (auto intro: eval_step_inv [OF assms] GetOp2_byte)

text \<open>The operation count never goes down.\<close>

lemma msig_finish_count [simp]: "vm_nOpCount (snd (msig_finish ctx opcode b i m)) = vm_nOpCount m"
  by (auto simp: msig_finish_def Let_def split: list.splits)

lemma eval_switch_count:
  "\<forall>m. vm_nOpCount m \<le> vm_nOpCount (snd (eval_switch E ctx fExec opcode pc m))"
proof -
  have ms: "vm_nOpCount m \<le> vm_nOpCount (snd (op_checkmultisig E ctx opcode m))" for m
    by (auto simp: op_checkmultisig_def Let_def split: option.splits prod.splits sum.splits)
  show ?thesis
    by (rule eval_switch_cases)
      (auto simp: ms on_stack_def split_beta op_control_def op_if_def op_altstack_def op_checksig_def Let_def
        split: list.splits sum.splits)
qed

lemma eval_step_count:
  assumes "eval_step E ctx opcode v pc m = (True, m')"
  shows "vm_nOpCount m + (if opcode > OP_16 then 1 else 0) \<le> vm_nOpCount m'" "\<not> disabled_opcode opcode" "small v"
proof -
  let ?f = "list_all (\<lambda>f. f) (vm_vfExec m)"
  have x: "exec_op E ctx ?f opcode v pc (count_op opcode m) = (True, m')" and d: "\<not> disabled_opcode opcode" "small v"
    using assms by (auto simp: eval_step_def Let_def split: if_splits prod.splits)
  have "vm_nOpCount (count_op opcode m) \<le> vm_nOpCount (snd (exec_op E ctx ?f opcode v pc (count_op opcode m)))"
    using eval_switch_count by (auto simp: exec_op_def)
  then have "vm_nOpCount (count_op opcode m) \<le> vm_nOpCount m'" by (simp only: x snd_conv)
  then show "vm_nOpCount m + (if opcode > OP_16 then 1 else 0) \<le> vm_nOpCount m'" by (simp add: count_op_def split: if_splits)
  show "\<not> disabled_opcode opcode" "small v" by (rule d)+
qed

text \<open>What a finished run says about the script that was run.\<close>

definition plain_script :: "CScript \<Rightarrow> bool" where
  "plain_script s \<longleftrightarrow> snd (instrs s) = [] \<and>
     list_all (\<lambda>i. \<not> disabled_opcode (fst i) \<and> small (fst (snd i))) (fst (instrs s))"

definition op_total :: "CScript \<Rightarrow> nat" where
  "op_total s = length (filter (\<lambda>i. fst i > OP_16) (fst (instrs s)))"

lemma eval_loop_plain:
  "eval_loop E ctx pc m = (True, m') \<Longrightarrow> plain_script pc \<and> vm_nOpCount m + int (op_total pc) \<le> vm_nOpCount m'"
proof (induction pc arbitrary: m rule: script_induct)
  case (Stuck s)
  then show ?case by (subst (asm) eval_loop.simps) (auto simp: plain_script_def op_total_def instrs_None split: if_splits)
next
  case (Instr op v b r)
  obtain m1 where m1: "eval_step E ctx op v r m = (True, m1)" "eval_loop E ctx r m1 = (True, m')"
    by (rule eval_loop_True [OF GetOp2_encoding [OF Instr(1)] Instr(3)])
  from Instr(2) [OF m1(2)] eval_step_count [OF m1(1)] show ?case
    by (auto simp: plain_script_def op_total_def instrs_Cons [OF Instr(1)] split: if_splits)
qed

text \<open>A concrete context and an empty cache.\<close>

definition example_ctx :: sigctx where
  "example_ctx = \<lparr> ctx_txTo = tx_SetNull 0, ctx_nIn = 0, ctx_flags = 0, ctx_nHashType = 0 \<rparr>"

definition empty_cache :: "int \<Rightarrow> CSignatureCache" where
  "empty_cache n = \<lparr> setValid = [], nMaxCacheSize = n, rand_hash = (\<lambda>n. 0), rand_used = 0 \<rparr>"

lemma empty_cache_ok: "cache_ok E (empty_cache n)"
  by (simp add: cache_ok_def empty_cache_def)

lemma example_push_step:
  "eval_step E ctx 1 [7] [] (vm_init [] [1, 7] c) = (True, (vm_init [] [1, 7] c)\<lparr>vm_stack := [[7]]\<rparr>)"
  by (simp add: eval_step_def vm_init_def MAX_SCRIPT_ELEMENT_SIZE_def count_op_def disabled_opcode_def exec_op_def size_limits_def)

section \<open>Properties\<close>

text \<open>C20. Resource limits: at every point of a script run that starts within the limits, the two stacks together hold at
  most a thousand elements, no element is longer than 520 bytes, and at most 201 operations were counted.\<close>

theorem script_run_limits:
  assumes "mpi_documented E" and "hash_sizes E"
    and "list_all small st" and "length st \<le> 1000" and "reaches E ctx script (vm_init st script c) pc m"
  shows "length (vm_stack m) + length (vm_altstack m) \<le> 1000 \<and> list_all small (vm_stack m @ vm_altstack m)
    \<and> vm_nOpCount m \<le> 201"
proof -
  have "vm_inv (vm_init st script c)" using assms(3,4) by (simp add: vm_inv_def elems_ok_def size_limits_def vm_init_def)
  from reaches_inv [OF assms(1,2,5) this] show ?thesis by (simp add: vm_inv_def elems_ok_def size_limits_def)
qed

theorem script_run_limits_witness:
  "\<exists>pc m. reaches ext_example example_ctx [1, 7] (vm_init [] [1, 7] (empty_cache 0)) pc m
    \<and> vm_stack m = [[7]] \<and> length (vm_stack m) + length (vm_altstack m) \<le> 1000"
proof -
  have "GetOp2 [1, 7] = Some (1, [7], [])" by (simp add: get_operand_def)
  then have r: "reaches ext_example example_ctx [1, 7] (vm_init [] [1, 7] (empty_cache 0)) []
      ((vm_init [] [1, 7] (empty_cache 0))\<lparr>vm_stack := [[7]]\<rparr>)"
    using example_push_step by (blast intro: reaches.intros)
  from script_run_limits [OF ext_example_documented(1,3) _ _ r] r show ?thesis by fastforce
qed

text \<open>C21. What a script that runs to a true result looks like: it is at most 10000 bytes, decodes to the end, contains no
  disabled opcode and no operand over 520 bytes, not even in a branch that was not taken, and has at most 201 operations.\<close>

theorem accepted_script_plain:
  assumes "mpi_documented E" and "hash_sizes E" and "list_all small st" and "length st \<le> 1000"
    and "EvalScript E ctx st script c = (True, st', c')"
  shows "length script \<le> 10000 \<and> plain_script script \<and> op_total script \<le> 201 \<and> length st' \<le> 1000 \<and> list_all small st'"
proof -
  obtain m where m: "eval_loop E ctx script (vm_init st script c) = (True, m)" "vm_stack m = st'" "length script \<le> 10000"
    using assms(5) by (auto simp: EvalScript_def split: if_splits prod.splits)
  have "vm_inv (vm_init st script c)" using assms(3,4) by (simp add: vm_inv_def elems_ok_def size_limits_def vm_init_def)
  then have "vm_inv m" using reaches_inv [OF assms(1,2)] eval_loop_reaches [OF m(1)] by blast
  moreover have "plain_script script" "int (op_total script) \<le> vm_nOpCount m"
    using eval_loop_plain [OF m(1)] by (simp_all add: vm_init_def)
  ultimately show ?thesis using m(2,3) by (auto simp: vm_inv_def elems_ok_def size_limits_def)
qed

theorem accepted_script_plain_witness:
  "EvalScript ext_example example_ctx [] [1, 7] (empty_cache 0) = (True, [[7]], empty_cache 0) \<and> plain_script [1, 7]"
proof -
  have g: "GetOp2 [1, 7] = Some (1, [7], [])" by (simp add: get_operand_def)
  have e: "EvalScript ext_example example_ctx [] [1, 7] (empty_cache 0) = (True, [[7]], empty_cache 0)"
    unfolding EvalScript_def eval_loop_step [OF g] example_push_step by (simp add: eval_loop.simps vm_init_def)
  from accepted_script_plain [OF ext_example_documented(1,3) _ _ e] e show ?thesis by simp
qed

text \<open>C14. The verdict and the final stack of a script do not depend on what the signature cache holds, as long as it
  holds only verified signatures, and it still does afterwards.\<close>

theorem eval_cache_independent:
  assumes "point_codec_documented E" and "cache_ok E c1" and "cache_ok E c2"
  shows "fst (EvalScript E ctx st script c1) = fst (EvalScript E ctx st script c2)
    \<and> fst (snd (EvalScript E ctx st script c1)) = fst (snd (EvalScript E ctx st script c2))
    \<and> cache_ok E (snd (snd (EvalScript E ctx st script c1)))"
proof -
  have "vm_sim E (vm_init st script c1) (vm_init st script c2)" using assms(2,3) by (simp add: vm_sim_def vm_init_def)
  from eval_loop_sim [OF assms(1) this, of ctx script] show ?thesis
    using assms(2) by (auto simp: EvalScript_def res_sim_def vm_sim_def split_beta)
qed

theorem eval_cache_independent_witness:
  "fst (EvalScript ext_example example_ctx [[1], replicate 33 2] [0xac] (empty_cache 0))
    = fst (EvalScript ext_example example_ctx [[1], replicate 33 2] [0xac] (empty_cache 9))"
  using eval_cache_independent [OF ext_example_point_codec empty_cache_ok empty_cache_ok] by blast

text \<open>C8. \<^verbatim>\<open>OP_CHECKMULTISIG\<close> decides an existence question: with well-formed counts on the stack it goes on and pushes
  true exactly when the signatures, checked over the code without their own pushes, match some of the keys in the
  same order, although the loop never looks back;
  it removes the counts, keys, signatures and the extra dummy element.\<close>

theorem multisig_matching:
  assumes "mpi_documented E" "get_word_documented E" "point_codec_documented E" "cache_ok E (vm_cache m)"
    and "vm_stack m = getvch E (int (length keys)) # keys @ getvch E (int (length sigs)) # sigs @ dummy # rest"
    and "length keys \<le> 20" "length sigs \<le> length keys" "vm_nOpCount m + int (length keys) \<le> 201"
    and "ctx_flags ctx AND SCRIPT_VERIFY_NULLDUMMY = 0 \<or> dummy = []"
    and "sc = delete_sigs (vm_stack m) (length keys + 3) (length sigs) (vm_codehash m)"
  shows "\<exists>c'. op_checkmultisig E ctx OP_CHECKMULTISIG m =
      (True, m\<lparr>vm_stack := bool_vch (\<exists>sub. subseq sub keys \<and> list_all2 (sig_ok E ctx sc) sigs sub) # rest,
               vm_nOpCount := vm_nOpCount m + int (length keys), vm_cache := c'\<rparr>) \<and> cache_ok E c'"
proof -
  let ?k = "length keys" and ?s = "length sigs" and ?st = "vm_stack m"
  have num: "CastToBigNum E (getvch E (int n)) = Some (int n) \<and> getint E (int n) = int n" if "n \<le> 20" for n
  proof -
    have l: "length (getvch E (int n)) \<le> 4" using getvch_length_4 [OF assms(1)] that by simp
    then have c: "CastToBigNum E (getvch E (int n)) = Some (setvch E (getvch E (setvch E (getvch E (int n)))))"
      by (simp add: CastToBigNum_def nMaxNumSize_def)
    have "setvch E (getvch E (int n)) = int n" using setvch_getvch [OF assms(1)] l by simp
    with c CastToBigNum_value [OF assms(1) c] getint_clamp [OF assms(2), of "int n"] that show ?thesis
      by (simp add: INT_MAX_def)
  qed
  have i: "?st ! 0 = getvch E (int ?k)" "?st ! Suc ?k = getvch E (int ?s)" "Suc (Suc (Suc ?k)) + ?s \<le> length ?st"
    unfolding assms(5) by (simp_all add: nth_append)
  have ne: "?st \<noteq> []" unfolding assms(5) by simp
  have d: "take ?s (drop (Suc (Suc ?k)) ?st) = sigs" "take ?k (drop (Suc 0) ?st) = keys" "drop (Suc (Suc ?k) + ?s) ?st = dummy # rest"
    unfolding assms(5) by simp_all
  let ?sc = "delete_sigs ?st (Suc (Suc (Suc ?k))) ?s (vm_codehash m)"
  obtain c' where c': "msig_loop E ctx ?st ?sc (Suc (Suc (Suc ?k))) (int ?s) 2 (int ?k) True (vm_cache m)
      = (Inr (greedy (sig_ok E ctx ?sc) sigs keys), c')" "cache_ok E c'"
    using msig_result [OF assms(3,4), of "int ?s" "int ?k" ?st ctx ?sc] i(3) assms(7) by (auto simp: d)
  have g: "greedy (sig_ok E ctx ?sc) sigs keys = (\<exists>sub. subseq sub keys \<and> list_all2 (sig_ok E ctx ?sc) sigs sub)"
    using greedy_sound greedy_complete by blast
  have "op_checkmultisig E ctx OP_CHECKMULTISIG m = msig_finish ctx OP_CHECKMULTISIG (greedy (sig_ok E ctx ?sc) sigs keys)
      (Suc (Suc (Suc ?k)) + ?s) (m\<lparr>vm_nOpCount := vm_nOpCount m + int ?k, vm_cache := c'\<rparr>)"
    using num [OF assms(6)] num [of ?s] assms(6-8) i c'(1) ne by (simp add: op_checkmultisig_def Let_def)
  moreover have "sc = ?sc" unfolding assms(10) by (simp add: numeral_3_eq_3)
  ultimately show ?thesis using c'(2) assms(9) d(3) unfolding g
    by (intro exI [of _ c']) (auto simp: msig_finish_def Let_def)
qed

theorem multisig_matching_witness:
  "fst (op_checkmultisig ext_example example_ctx OP_CHECKMULTISIG
      (vm_init ([getvch ext_example 1, replicate 33 2, getvch ext_example 1, [0x30, 1], []]) [] (empty_cache 0)))"
proof -
  let ?m = "vm_init ([getvch ext_example 1, replicate 33 2, getvch ext_example 1, [0x30, 1], []]) [] (empty_cache 0)"
  have "\<exists>c'. op_checkmultisig ext_example example_ctx OP_CHECKMULTISIG ?m =
      (True, ?m\<lparr>vm_stack := bool_vch (\<exists>sub. subseq sub [replicate 33 2] \<and> list_all2 (sig_ok ext_example example_ctx
                 (delete_sigs (vm_stack ?m) (length [replicate 33 (2 :: byte)] + 3) (length [[0x30, 1 :: byte]]) (vm_codehash ?m)))
                 [[0x30, 1]] sub) # [],
               vm_nOpCount := vm_nOpCount ?m + int (length [replicate 33 (2 :: byte)]), vm_cache := c'\<rparr>) \<and> cache_ok ext_example c'"
    by (rule multisig_matching [OF ext_example_documented(1,2) ext_example_point_codec, where dummy = "[]"])
      (simp_all add: vm_init_def empty_cache_ok)
  then show ?thesis by auto
qed

end
