(* ===== verification/Standard.thy ===== *)
theory Standard
  imports Hobo_Prelude Ext_Crypto Bignum Script Tx_Data Key Sig_Check Interpreter Interp_Limits
begin

text \<open>
  Standard scripts, from \<^verbatim>\<open>script.cpp\<close>: recognising the standard output types, extracting destinations, deciding
  whether an output belongs to a key store, verifying an input against the output it spends, signing, and combining
  partial signatures.  A key store is the table of its virtual functions.
\<close>

unbundle bit_operations_syntax

section \<open>Output types and destinations\<close>

datatype txnouttype = TX_NONSTANDARD | TX_PUBKEY | TX_PUBKEYHASH | TX_SCRIPTHASH | TX_MULTISIG | TX_NULL_DATA

definition GetTxnOutputType :: "txnouttype \<Rightarrow> string" where
  "GetTxnOutputType t =
     (case t of TX_NONSTANDARD \<Rightarrow> ''nonstandard'' | TX_PUBKEY \<Rightarrow> ''pubkey'' | TX_PUBKEYHASH \<Rightarrow> ''pubkeyhash''
      | TX_SCRIPTHASH \<Rightarrow> ''scripthash'' | TX_MULTISIG \<Rightarrow> ''multisig'' | TX_NULL_DATA \<Rightarrow> ''nulldata'')"

datatype CTxDestination = CNoDestination | DestKey CKeyID | DestScript CScriptID

datatype isminetype = MINE_NO | MINE_WATCH_ONLY | MINE_SPENDABLE

definition mTemplates :: "(txnouttype \<times> CScript) list" where
  "mTemplates =
     [(TX_PUBKEY, map of_nat [OP_PUBKEY, OP_CHECKSIG]),
      (TX_PUBKEYHASH, map of_nat [OP_DUP, OP_HASH160, OP_PUBKEYHASH, OP_EQUALVERIFY, OP_CHECKSIG]),
      (TX_MULTISIG, map of_nat [OP_SMALLINTEGER, OP_PUBKEYS, OP_SMALLINTEGER, OP_CHECKMULTISIG]),
      (TX_NULL_DATA, map of_nat [OP_RETURN])]"

section \<open>Matching templates\<close>

text \<open>The inner loop at \<^verbatim>\<open>OP_PUBKEYS\<close>: it collects operands of key size and stops at the first
  instruction that is not one.  At the end of the script the decoder leaves the invalid opcode.\<close>

function pubkeys_loop :: "opcodetype \<Rightarrow> valtype \<Rightarrow> CScript \<Rightarrow> valtype list \<Rightarrow>
    opcodetype \<times> valtype \<times> CScript \<times> valtype list" where
  "pubkeys_loop opcode1 vch1 pc1 sols =
     (if length vch1 \<ge> 33 \<and> length vch1 \<le> 120 then
        (case GetOp2 pc1 of
           None \<Rightarrow> (OP_INVALIDOPCODE, [], pc1, sols @ [vch1])
         | Some (op, v, pc) \<Rightarrow> pubkeys_loop op v pc (sols @ [vch1]))
      else (opcode1, vch1, pc1, sols))"
  by pat_completeness auto
termination by (relation "measure (\<lambda>(op, v, pc, s). length pc)") (auto dest!: GetOp2_shorter)

declare pubkeys_loop.simps [simp del]

text \<open>Matching one instruction against one template opcode: the new solutions, or None to give up.\<close>

definition match_op :: "opcodetype \<Rightarrow> valtype \<Rightarrow> opcodetype \<Rightarrow> valtype \<Rightarrow> valtype list \<Rightarrow> valtype list option" where
  "match_op opcode1 vch1 opcode2 vch2 sols =
     (if opcode2 = OP_PUBKEY then
        (if length vch1 < 33 \<or> length vch1 > 120 then None else Some (sols @ [vch1]))
      else if opcode2 = OP_PUBKEYHASH then
        (if length vch1 \<noteq> 20 then None else Some (sols @ [vch1]))
      else if opcode2 = OP_SMALLINTEGER then
        (if opcode1 = OP_0 \<or> (opcode1 \<ge> OP_1 \<and> opcode1 \<le> OP_16) then Some (sols @ [[of_nat (DecodeOP_N opcode1)]])
         else None)
      else if opcode1 \<noteq> opcode2 \<or> vch1 \<noteq> vch2 then None
      else Some sols)"

lemma pubkeys_loop_shorter: "pubkeys_loop op v pc s = (op', v', pc', s') \<Longrightarrow> length pc' \<le> length pc"
proof (induction op v pc s rule: pubkeys_loop.induct)
  case (1 op v pc s)
  show ?case
  proof (cases "33 \<le> length v \<and> length v \<le> 120")
    case True
    show ?thesis
    proof (cases "GetOp2 pc")
      case None
      with True 1(2) show ?thesis by (simp add: pubkeys_loop.simps [of op v pc s])
    next
      case (Some x)
      obtain a b c where x: "x = (a, b, c)" by (cases x)
      have "length pc' \<le> length c"
        using 1(1) [OF True Some x [symmetric] refl] 1(2) True Some x by (simp add: pubkeys_loop.simps [of op v pc s])
      with GetOp2_shorter [of pc a b c] Some x show ?thesis by simp
    qed
  next
    case False
    with 1(2) show ?thesis by (auto simp: pubkeys_loop.simps [of op v pc s])
  qed
qed

function match_loop :: "CScript \<Rightarrow> CScript \<Rightarrow> valtype list \<Rightarrow> valtype list option" where
  "match_loop pc1 pc2 sols =
     (if pc1 = [] \<and> pc2 = [] then Some sols
      else case GetOp2 pc1 of None \<Rightarrow> None | Some (opcode1, vch1, pc1) \<Rightarrow>
      (case GetOp2 pc2 of None \<Rightarrow> None | Some (opcode2, vch2, pc2) \<Rightarrow>
       if opcode2 = OP_PUBKEYS then
         (case pubkeys_loop opcode1 vch1 pc1 sols of (opcode1, vch1, pc1, sols) \<Rightarrow>
          (case GetOp2 pc2 of None \<Rightarrow> None | Some (opcode2, vch2, pc2) \<Rightarrow>
           (case match_op opcode1 vch1 opcode2 vch2 sols of None \<Rightarrow> None | Some sols \<Rightarrow> match_loop pc1 pc2 sols)))
       else
         (case match_op opcode1 vch1 opcode2 vch2 sols of None \<Rightarrow> None | Some sols \<Rightarrow> match_loop pc1 pc2 sols)))"
  by pat_completeness auto
termination
  by (relation "measure (\<lambda>(pc1, pc2, sols). length pc1)")
    (auto dest!: GetOp2_shorter pubkeys_loop_shorter [OF sym])

declare match_loop.simps [simp del]

fun scan_templates :: "CScript \<Rightarrow> (txnouttype \<times> CScript) list \<Rightarrow> bool \<times> txnouttype \<times> valtype list" where
  "scan_templates script1 [] = (False, TX_NONSTANDARD, [])"
| "scan_templates script1 ((t, script2) # ts) =
     (case match_loop script1 script2 [] of
        None \<Rightarrow> scan_templates script1 ts
      | Some sols \<Rightarrow>
          if t = TX_MULTISIG then
            let m = hd sols ! 0; n = last sols ! 0 in
            (\<not> (m < 1 \<or> n < 1 \<or> m > n \<or> length sols - 2 \<noteq> unat n), t, sols)
          else (True, t, sols))"

definition Solver :: "CScript \<Rightarrow> bool \<times> txnouttype \<times> valtype list" where
  "Solver spk =
     (if IsPayToScriptHash spk then (True, TX_SCRIPTHASH, [take 20 (drop 2 spk)])
      else scan_templates spk mTemplates)"

definition ScriptSigArgsExpected :: "txnouttype \<Rightarrow> valtype list \<Rightarrow> int" where
  "ScriptSigArgsExpected t sols =
     (case t of
        TX_NONSTANDARD \<Rightarrow> - 1
      | TX_NULL_DATA \<Rightarrow> - 1
      | TX_PUBKEY \<Rightarrow> 1
      | TX_PUBKEYHASH \<Rightarrow> 2
      | TX_MULTISIG \<Rightarrow> (if length sols < 1 \<or> length (sols ! 0) < 1 then - 1 else uint (sols ! 0 ! 0) + 1)
      | TX_SCRIPTHASH \<Rightarrow> 1)"

definition IsStandard :: "CScript \<Rightarrow> bool \<times> txnouttype" where
  "IsStandard spk =
     (let (ok, whichType, sols) = Solver spk in
      if \<not> ok then (False, whichType)
      else if whichType = TX_MULTISIG then
        let m = hd sols ! 0; n = last sols ! 0 in
        if n < 1 \<or> n > 3 then (False, whichType)
        else if m < 1 \<or> m > n then (False, whichType)
        else (True, whichType)
      else (whichType \<noteq> TX_NONSTANDARD, whichType))"

section \<open>Destinations\<close>

definition ExtractDestination :: "ext \<Rightarrow> CScript \<Rightarrow> CTxDestination option" where
  "ExtractDestination E spk =
     (let (ok, whichType, sols) = Solver spk in
      if \<not> ok then None
      else if whichType = TX_PUBKEY then Some (DestKey (pubkey_GetID E (sols ! 0)))
      else if whichType = TX_PUBKEYHASH then Some (DestKey (uint160_of_bytes (sols ! 0)))
      else if whichType = TX_SCRIPTHASH then Some (DestScript (uint160_of_bytes (sols ! 0)))
      else None)"

definition ExtractDestinations :: "ext \<Rightarrow> CScript \<Rightarrow> (txnouttype \<times> CTxDestination list \<times> int) option" where
  "ExtractDestinations E spk =
     (let (ok, typeRet, sols) = Solver spk in
      if \<not> ok then None
      else if typeRet = TX_NULL_DATA then None
      else if typeRet = TX_MULTISIG then
        Some (typeRet, map (\<lambda>k. DestKey (pubkey_GetID E k)) (butlast (tl sols)), uint (hd sols ! 0))
      else case ExtractDestination E spk of None \<Rightarrow> None | Some address \<Rightarrow> Some (typeRet, [address], 1))"

text \<open>\<^verbatim>\<open>CScriptVisitor\<close>: the script that pays to a destination.\<close>

definition SetDestination :: "CTxDestination \<Rightarrow> CScript" where
  "SetDestination dest =
     (case dest of
        CNoDestination \<Rightarrow> []
      | DestKey keyID \<Rightarrow> push_uint160 keyID [of_nat OP_DUP, of_nat OP_HASH160] @ [of_nat OP_EQUALVERIFY, of_nat OP_CHECKSIG]
      | DestScript scriptID \<Rightarrow> push_uint160 scriptID [of_nat OP_HASH160] @ [of_nat OP_EQUAL])"

definition SetMultisig :: "nat \<Rightarrow> CPubKey list \<Rightarrow> CScript" where
  "SetMultisig nRequired keys =
     fold push_data keys [of_nat (EncodeOP_N nRequired)] @ [of_nat (EncodeOP_N (length keys)), of_nat OP_CHECKMULTISIG]"

section \<open>Key stores as the client sees them\<close>

text \<open>The virtual functions a client of \<^verbatim>\<open>CKeyStore\<close> calls, on a store in a fixed state.\<close>

record key_store =
  ks_HaveKey :: "CKeyID \<Rightarrow> bool"
  ks_GetKey :: "CKeyID \<Rightarrow> CKey option"
  ks_GetPubKey :: "CKeyID \<Rightarrow> CPubKey option"
  ks_HaveCScript :: "CScriptID \<Rightarrow> bool"
  ks_GetCScript :: "CScriptID \<Rightarrow> CScript option"
  ks_HaveWatchOnly :: "CScript \<Rightarrow> bool"

definition HaveKeys :: "ext \<Rightarrow> valtype list \<Rightarrow> key_store \<Rightarrow> nat" where
  "HaveKeys E pubkeys ks = foldl (\<lambda>nResult pk. if ks_HaveKey ks (pubkey_GetID E pk) then nResult + 1 else nResult) 0 pubkeys"

definition watch_only :: "key_store \<Rightarrow> CScript \<Rightarrow> isminetype" where
  "watch_only ks spk = (if ks_HaveWatchOnly ks spk then MINE_WATCH_ONLY else MINE_NO)"

text \<open>The recursion follows redeem scripts, whose nesting only the hash function bounds; None is a run that does
  not return.\<close>

partial_function (option) IsMine :: "ext \<Rightarrow> key_store \<Rightarrow> CScript \<Rightarrow> isminetype option" where
  "IsMine E ks spk =
     (case Solver spk of (ok, whichType, sols) \<Rightarrow>
      if \<not> ok then Some (watch_only ks spk)
      else case whichType of
        TX_NONSTANDARD \<Rightarrow> Some (watch_only ks spk)
      | TX_NULL_DATA \<Rightarrow> Some (watch_only ks spk)
      | TX_PUBKEY \<Rightarrow>
          Some (if ks_HaveKey ks (pubkey_GetID E (sols ! 0)) then MINE_SPENDABLE else watch_only ks spk)
      | TX_PUBKEYHASH \<Rightarrow>
          Some (if ks_HaveKey ks (uint160_of_bytes (sols ! 0)) then MINE_SPENDABLE else watch_only ks spk)
      | TX_SCRIPTHASH \<Rightarrow>
          (case ks_GetCScript ks (uint160_of_bytes (sols ! 0)) of
             None \<Rightarrow> Some (watch_only ks spk)
           | Some subscript \<Rightarrow>
               Option.bind (IsMine E ks subscript)
                 (\<lambda>ret. Some (if ret = MINE_SPENDABLE then ret else watch_only ks spk)))
      | TX_MULTISIG \<Rightarrow>
          (let keys = butlast (tl sols) in
           Some (if HaveKeys E keys ks = length keys then MINE_SPENDABLE else watch_only ks spk)))"

definition IsMine_dest :: "ext \<Rightarrow> key_store \<Rightarrow> CTxDestination \<Rightarrow> isminetype option" where
  "IsMine_dest E ks dest = IsMine E ks (SetDestination dest)"

section \<open>Verifying an input\<close>

text \<open>The result, and the signature cache.  \<^verbatim>\<open>CastToBool(stack.back())\<close> looks at the top element.\<close>

definition top_true :: "valtype list \<Rightarrow> bool" where
  "top_true st = (case st of [] \<Rightarrow> False | v # _ \<Rightarrow> CastToBool v)"

definition VerifyScript :: "ext \<Rightarrow> CScript \<Rightarrow> CScript \<Rightarrow> sigctx \<Rightarrow> CSignatureCache \<Rightarrow> bool \<times> CSignatureCache" where
  "VerifyScript E sig spk ctx c =
     (case EvalScript E ctx [] sig c of
        (False, _, c) \<Rightarrow> (False, c)
      | (True, stack1, c) \<Rightarrow>
          (case EvalScript E ctx stack1 spk c of
             (False, _, c) \<Rightarrow> (False, c)
           | (True, stack2, c) \<Rightarrow>
               if \<not> top_true stack2 then (False, c)
               else if ctx_flags ctx AND SCRIPT_VERIFY_P2SH \<noteq> 0 \<and> IsPayToScriptHash spk then
                 if \<not> IsPushOnly sig then (False, c)
                 else
                   (case EvalScript E ctx (tl stack1) (hd stack1) c of
                      (False, _, c) \<Rightarrow> (False, c)
                    | (True, stack3, c) \<Rightarrow> (top_true stack3, c))
               else (True, c)))"

section \<open>Signing\<close>

definition Sign1 :: "ext \<Rightarrow> CKeyID \<Rightarrow> key_store \<Rightarrow> uint256 \<Rightarrow> int \<Rightarrow> CScript \<Rightarrow> bool \<times> CScript" where
  "Sign1 E address ks h nHashType ret =
     (case ks_GetKey ks address of
        None \<Rightarrow> (False, ret)
      | Some key \<Rightarrow>
          (case key_Sign E h key of
             None \<Rightarrow> (False, ret)
           | Some vchSig \<Rightarrow> (True, push_data (vchSig @ [of_int nHashType]) ret)))"

fun SignN_loop :: "ext \<Rightarrow> key_store \<Rightarrow> uint256 \<Rightarrow> int \<Rightarrow> nat \<Rightarrow> valtype list \<Rightarrow> nat \<Rightarrow> CScript \<Rightarrow> nat \<times> CScript" where
  "SignN_loop E ks h nHashType nRequired [] nSigned ret = (nSigned, ret)"
| "SignN_loop E ks h nHashType nRequired (pubkey # pubkeys) nSigned ret =
     (if nSigned < nRequired then
        let (ok, ret) = Sign1 E (pubkey_GetID E pubkey) ks h nHashType ret
        in SignN_loop E ks h nHashType nRequired pubkeys (if ok then nSigned + 1 else nSigned) ret
      else (nSigned, ret))"

definition SignN :: "ext \<Rightarrow> valtype list \<Rightarrow> key_store \<Rightarrow> uint256 \<Rightarrow> int \<Rightarrow> CScript \<Rightarrow> bool \<times> CScript" where
  "SignN E multisigdata ks h nHashType ret =
     (let nRequired = unat (hd multisigdata ! 0);
          (nSigned, ret) = SignN_loop E ks h nHashType nRequired (butlast (tl multisigdata)) 0 ret
      in (nSigned = nRequired, ret))"

definition Solver_sign :: "ext \<Rightarrow> key_store \<Rightarrow> CScript \<Rightarrow> uint256 \<Rightarrow> int \<Rightarrow> bool \<times> CScript \<times> txnouttype" where
  "Solver_sign E ks spk h nHashType =
     (let (ok, whichType, sols) = Solver spk in
      if \<not> ok then (False, [], whichType)
      else case whichType of
        TX_NONSTANDARD \<Rightarrow> (False, [], whichType)
      | TX_NULL_DATA \<Rightarrow> (False, [], whichType)
      | TX_PUBKEY \<Rightarrow>
          (let (r, s) = Sign1 E (pubkey_GetID E (sols ! 0)) ks h nHashType [] in (r, s, whichType))
      | TX_PUBKEYHASH \<Rightarrow>
          (let keyID = uint160_of_bytes (sols ! 0); (r, s) = Sign1 E keyID ks h nHashType [] in
           if \<not> r then (False, s, whichType)
           else (True, push_data (case ks_GetPubKey ks keyID of Some k \<Rightarrow> k | None \<Rightarrow> []) s, whichType))
      | TX_SCRIPTHASH \<Rightarrow>
          (case ks_GetCScript ks (uint160_of_bytes (sols ! 0)) of
             None \<Rightarrow> (False, [], whichType)
           | Some s \<Rightarrow> (True, s, whichType))
      | TX_MULTISIG \<Rightarrow>
          (let (r, s) = SignN E sols ks h nHashType [of_nat OP_0] in (r, s, whichType)))"

text \<open>\<^verbatim>\<open>SignSignature\<close> writes the input script of the transaction whether or not it succeeds.\<close>

definition set_scriptSig :: "CTransaction \<Rightarrow> nat \<Rightarrow> CScript \<Rightarrow> CTransaction" where
  "set_scriptSig tx nIn s = tx\<lparr>vin := (vin tx)[nIn := (vin tx ! nIn)\<lparr>scriptSig := s\<rparr>]\<rparr>"

definition verify_solution :: "ext \<Rightarrow> CScript \<Rightarrow> CTransaction \<Rightarrow> nat \<Rightarrow> CSignatureCache \<Rightarrow> bool \<times> CTransaction \<times> CSignatureCache" where
  "verify_solution E fromPubKey txTo nIn c =
     (let (r, c) = VerifyScript E (scriptSig (vin txTo ! nIn)) fromPubKey
            \<lparr> ctx_txTo = txTo, ctx_nIn = nIn, ctx_flags = STRICT_FLAGS, ctx_nHashType = 0 \<rparr> c
      in (r, txTo, c))"

definition SignSignature :: "ext \<Rightarrow> key_store \<Rightarrow> CScript \<Rightarrow> CTransaction \<Rightarrow> nat \<Rightarrow> int \<Rightarrow> CSignatureCache \<Rightarrow>
    bool \<times> CTransaction \<times> CSignatureCache" where
  "SignSignature E ks fromPubKey txTo nIn nHashType c =
     (let h = SignatureHash E fromPubKey txTo nIn nHashType;
          (ok, sig, whichType) = Solver_sign E ks fromPubKey h nHashType;
          txTo = set_scriptSig txTo nIn sig
      in if \<not> ok then (False, txTo, c)
         else if whichType = TX_SCRIPTHASH then
           let subscript = sig;
               hash2 = SignatureHash E subscript txTo nIn nHashType;
               (ok2, sig2, subType) = Solver_sign E ks subscript hash2 nHashType;
               txTo = set_scriptSig txTo nIn (push_data subscript sig2)
           in if \<not> (ok2 \<and> subType \<noteq> TX_SCRIPTHASH) then (False, txTo, c)
              else verify_solution E fromPubKey txTo nIn c
         else verify_solution E fromPubKey txTo nIn c)"

section \<open>Combining partial signatures\<close>

definition PushAll :: "valtype list \<Rightarrow> CScript" where
  "PushAll values = fold push_data values []"

text \<open>One signature is tried against the keys that have none yet; the first that accepts it gets it.\<close>

fun assign_sig :: "ext \<Rightarrow> CScript \<Rightarrow> CTransaction \<Rightarrow> nat \<Rightarrow> valtype \<Rightarrow> valtype list \<Rightarrow> (valtype \<rightharpoonup> valtype) \<Rightarrow> CSignatureCache \<Rightarrow>
    key_error + (valtype \<rightharpoonup> valtype) \<times> CSignatureCache" where
  "assign_sig E spk txTo nIn sig [] sigs c = Inr (sigs, c)"
| "assign_sig E spk txTo nIn sig (pubkey # pubkeys) sigs c =
     (if sigs pubkey \<noteq> None then assign_sig E spk txTo nIn sig pubkeys sigs c
      else case CheckSig E sig pubkey spk txTo nIn 0 0 c of
        Inl e \<Rightarrow> Inl e
      | Inr (True, c) \<Rightarrow> Inr (sigs(pubkey \<mapsto> sig), c)
      | Inr (False, c) \<Rightarrow> assign_sig E spk txTo nIn sig pubkeys sigs c)"

fun assign_sigs :: "ext \<Rightarrow> CScript \<Rightarrow> CTransaction \<Rightarrow> nat \<Rightarrow> valtype list \<Rightarrow> valtype list \<Rightarrow> (valtype \<rightharpoonup> valtype) \<Rightarrow> CSignatureCache \<Rightarrow>
    key_error + (valtype \<rightharpoonup> valtype) \<times> CSignatureCache" where
  "assign_sigs E spk txTo nIn [] pubkeys sigs c = Inr (sigs, c)"
| "assign_sigs E spk txTo nIn (sig # allsigs) pubkeys sigs c =
     (case assign_sig E spk txTo nIn sig pubkeys sigs c of
        Inl e \<Rightarrow> Inl e
      | Inr (sigs, c) \<Rightarrow> assign_sigs E spk txTo nIn allsigs pubkeys sigs c)"

text \<open>The merged script: the signatures in key order up to the required number, then placeholders.\<close>

fun merge_sigs :: "nat \<Rightarrow> valtype list \<Rightarrow> (valtype \<rightharpoonup> valtype) \<Rightarrow> nat \<Rightarrow> CScript \<Rightarrow> nat \<times> CScript" where
  "merge_sigs nSigsRequired [] sigs nSigsHave result = (nSigsHave, result)"
| "merge_sigs nSigsRequired (pubkey # pubkeys) sigs nSigsHave result =
     (if nSigsHave < nSigsRequired then
        (case sigs pubkey of
           Some sig \<Rightarrow> merge_sigs nSigsRequired pubkeys sigs (nSigsHave + 1) (push_data sig result)
         | None \<Rightarrow> merge_sigs nSigsRequired pubkeys sigs nSigsHave result)
      else (nSigsHave, result))"

definition CombineMultisig :: "ext \<Rightarrow> CScript \<Rightarrow> CTransaction \<Rightarrow> nat \<Rightarrow> valtype list \<Rightarrow> valtype list \<Rightarrow> valtype list \<Rightarrow> CSignatureCache \<Rightarrow>
    key_error + CScript \<times> CSignatureCache" where
  "CombineMultisig E spk txTo nIn sols sigs1 sigs2 c =
     (let allsigs = fold insort_insert (filter (\<lambda>v. v \<noteq> []) (sigs1 @ sigs2)) [];
          nSigsRequired = unat (hd sols ! 0);
          pubkeys = butlast (tl sols)
      in case assign_sigs E spk txTo nIn allsigs pubkeys Map.empty c of
           Inl e \<Rightarrow> Inl e
         | Inr (sigs, c) \<Rightarrow>
             let (nSigsHave, result) = merge_sigs nSigsRequired pubkeys sigs 0 [of_nat OP_0]
             in Inr (result @ replicate (nSigsRequired - nSigsHave) (of_nat OP_0), c))"

text \<open>The signature vectors are in the order of the code: first pushed first.\<close>

function combine_by_type :: "ext \<Rightarrow> CScript \<Rightarrow> CTransaction \<Rightarrow> nat \<Rightarrow> txnouttype \<Rightarrow> valtype list \<Rightarrow> valtype list \<Rightarrow> valtype list \<Rightarrow> CSignatureCache \<Rightarrow>
    key_error + CScript \<times> CSignatureCache" where
  "combine_by_type E spk txTo nIn txType sols sigs1 sigs2 c =
     (case txType of
        TX_NONSTANDARD \<Rightarrow> Inr (PushAll (if length sigs1 \<ge> length sigs2 then sigs1 else sigs2), c)
      | TX_NULL_DATA \<Rightarrow> Inr (PushAll (if length sigs1 \<ge> length sigs2 then sigs1 else sigs2), c)
      | TX_PUBKEY \<Rightarrow> Inr (PushAll (if sigs1 = [] \<or> sigs1 ! 0 = [] then sigs2 else sigs1), c)
      | TX_PUBKEYHASH \<Rightarrow> Inr (PushAll (if sigs1 = [] \<or> sigs1 ! 0 = [] then sigs2 else sigs1), c)
      | TX_SCRIPTHASH \<Rightarrow>
          (if sigs1 = [] \<or> last sigs1 = [] then Inr (PushAll sigs2, c)
           else if sigs2 = [] \<or> last sigs2 = [] then Inr (PushAll sigs1, c)
           else
             let pubKey2 = last sigs1; (_, txType2, sols2) = Solver pubKey2 in
             (case combine_by_type E pubKey2 txTo nIn txType2 sols2 (butlast sigs1) (butlast sigs2) c of
                Inl e \<Rightarrow> Inl e
              | Inr (result, c) \<Rightarrow> Inr (push_data pubKey2 result, c)))
      | TX_MULTISIG \<Rightarrow> CombineMultisig E spk txTo nIn sols sigs1 sigs2 c)"
  by pat_completeness auto
termination by (relation "measure (\<lambda>(E, spk, txTo, nIn, txType, sols, sigs1, sigs2, c). length sigs1)") auto

declare combine_by_type.simps [simp del]

definition CombineSignatures :: "ext \<Rightarrow> u32 \<Rightarrow> CScript \<Rightarrow> CTransaction \<Rightarrow> nat \<Rightarrow> CScript \<Rightarrow> CScript \<Rightarrow> CSignatureCache \<Rightarrow>
    key_error + CScript \<times> CSignatureCache" where
  "CombineSignatures E now spk txTo nIn scriptSig1 scriptSig2 c =
     (let (_, txType, sols) = Solver spk;
          ctx = \<lparr> ctx_txTo = tx_SetNull now, ctx_nIn = 0, ctx_flags = SCRIPT_VERIFY_STRICTENC, ctx_nHashType = 0 \<rparr>;
          (_, stack1, c) = EvalScript E ctx [] scriptSig1 c;
          (_, stack2, c) = EvalScript E ctx [] scriptSig2 c
      in combine_by_type E spk txTo nIn txType sols (rev stack1) (rev stack2) c)"

section \<open>Running known instructions\<close>

lemma GetOp2_opcode: "OP_PUSHDATA4 < unat b \<Longrightarrow> GetOp2 (b # r) = Some (unat b, [], r)"
  by simp

lemma GetOp2_push_data:
  assumes "length v < 2 ^ 32"
  shows "\<exists>op. GetOp2 (push_header (length v) @ v @ r) = Some (op, v, r) \<and> op \<le> OP_PUSHDATA4"
  using GetOp2_encoding [OF op_encoding_push [OF assms], of r] push_header_opcode by force

lemma eval_loop_Nil [simp]: "eval_loop E ctx [] m = (vm_vfExec m = [], m)"
  by (simp add: eval_loop.simps)

lemma eval_loop_push:
  assumes "length v \<le> MAX_SCRIPT_ELEMENT_SIZE" "vm_vfExec m = []"
  shows "eval_loop E ctx (push_header (length v) @ v @ r) m =
    (let m' = m\<lparr>vm_stack := v # vm_stack m\<rparr> in if size_limits m' then eval_loop E ctx r m' else (False, m'))"
proof -
  have "length v < 2 ^ 32" using assms by (simp add: MAX_SCRIPT_ELEMENT_SIZE_def)
  then obtain op where op: "GetOp2 (push_header (length v) @ v @ r) = Some (op, v, r)" "op \<le> OP_PUSHDATA4"
    using GetOp2_push_data by blast
  have ne: "push_header (length v) @ v @ r \<noteq> []" by (simp add: push_header_def)
  have "\<not> disabled_opcode op" using op(2) by (auto simp: disabled_opcode_def)
  then have "eval_step E ctx op v r m = (size_limits (m\<lparr>vm_stack := v # vm_stack m\<rparr>), m\<lparr>vm_stack := v # vm_stack m\<rparr>)"
    using assms op(2) by (simp add: eval_step_def count_op_def exec_op_def Let_def)
  then show ?thesis using op ne by (subst eval_loop.simps) (auto simp: Let_def split: bool.splits)
qed

lemma eval_loop_op:
  assumes "OP_16 < unat b" "\<not> disabled_opcode (unat b)" "vm_vfExec m = []" "vm_nOpCount m < 201"
  shows "eval_loop E ctx (b # r) m =
    (let (ok, m') = eval_switch E ctx True (unat b) r (m\<lparr>vm_nOpCount := vm_nOpCount m + 1\<rparr>) in
     if ok \<and> size_limits m' then eval_loop E ctx r m' else (False, m'))"
proof -
  have "eval_step E ctx (unat b) [] r m =
      (let (ok, m') = eval_switch E ctx True (unat b) r (m\<lparr>vm_nOpCount := vm_nOpCount m + 1\<rparr>) in (ok \<and> size_limits m', m'))"
    using assms by (simp add: eval_step_def count_op_def exec_op_def Let_def MAX_SCRIPT_ELEMENT_SIZE_def)
  then show ?thesis using assms(1)
    by (subst eval_loop.simps) (auto simp: GetOp2_opcode Let_def split_beta split: prod.splits bool.splits simp del: GetOp2.simps)
qed

lemma length_ser_uint160 [simp]: "length (ser_uint160 h) = 20"
  by (simp add: ser_uint160_def)

lemma ser_uint160_inject [simp]: "ser_uint160 a = ser_uint160 b \<longleftrightarrow> a = b"
proof
  assume "ser_uint160 a = ser_uint160 b"
  then have "(of_nat (le_nat (le_bytes 20 (unat a))) :: uint160) = of_nat (le_nat (le_bytes 20 (unat b)))"
    by (simp add: ser_uint160_def)
  then show "a = b" by (simp only: le_nat_word [where 'a = 160, of 20, simplified])
qed simp

lemma push_header_20: "push_header 20 = [20]"
  by (simp add: push_header_def)

lemma dest_key_script:
  "SetDestination (DestKey h) =
     0x76 # 0xa9 # push_header (length (ser_uint160 h)) @ ser_uint160 h @ [0x88, 0xac]"
  by (simp add: SetDestination_def push_uint160_def push_header_20)

lemma CastToBool_bool_vch [simp]: "CastToBool (bool_vch b) = b"
  by (simp add: bool_vch_def vchTrue_def vchFalse_def)

lemma eval_two_pushes:
  assumes "length sig \<le> MAX_SCRIPT_ELEMENT_SIZE" "length pk \<le> MAX_SCRIPT_ELEMENT_SIZE"
  shows "EvalScript E ctx [] (push_data pk (push_data sig [])) c = (True, [pk, sig], c)"
proof -
  have h: "length (push_header n) \<le> 5" for n by (simp add: push_header_def ser_u16_def ser_u32_def)
  have "length (push_data pk (push_data sig [])) \<le> 10000"
    using assms h [of "length sig"] h [of "length pk"] by (simp add: push_data_def MAX_SCRIPT_ELEMENT_SIZE_def)
  moreover have "eval_loop E ctx (push_data pk (push_data sig [])) (vm_init [] s c) =
      (True, (vm_init [] s c)\<lparr>vm_stack := [pk, sig]\<rparr>)" for s
    using eval_loop_push [OF assms(1), of "vm_init [] s c" E ctx "push_header (length pk) @ pk"]
      eval_loop_push [OF assms(2), of "(vm_init [] s c)\<lparr>vm_stack := [sig]\<rparr>" E ctx "[]"]
    by (simp add: push_data_def vm_init_def size_limits_def)
  ultimately show ?thesis by (simp add: EvalScript_def vm_init_def)
qed

lemmas step_simps = vm_init_def size_limits_def on_stack_def op_stack1_def op_equal_def op_hash_value_def hash_value_def
  disabled_opcode_def Let_def bool_vch_def

lemma eval_key_hash:
  defines "sc \<equiv> \<lambda>sig h. snd (FindAndDelete (push_data sig []) (SetDestination (DestKey h)))"
  shows "EvalScript E ctx [pk, sig] (SetDestination (DestKey h)) c =
    (if Hash160 E pk = h then
       (case checked_sig E ctx sig pk (sc sig h) c of
          Inl e \<Rightarrow> (False, [pk, sig], c) | Inr (ok, c') \<Rightarrow> (True, [bool_vch ok], c'))
     else (False, [vchFalse, pk, sig], c))"
proof -
  let ?s = "SetDestination (DestKey h)"
  let ?m = "\<lambda>st n. \<lparr> vm_stack = st, vm_altstack = [], vm_vfExec = [], vm_nOpCount = n, vm_codehash = ?s, vm_cache = c \<rparr>"
  let ?r = "push_header (length (ser_uint160 h)) @ ser_uint160 h @ [0x88, 0xac]"
  have "eval_loop E ctx (0x76 # 0xa9 # ?r) (?m [pk, sig] 0) = eval_loop E ctx (0xa9 # ?r) (?m [pk, pk, sig] 1)"
    by (subst eval_loop_op) (simp_all add: step_simps eval_switch_def)
  also have "\<dots> = eval_loop E ctx ?r (?m [ser_uint160 (Hash160 E pk), pk, sig] 2)"
    by (subst eval_loop_op) (simp_all add: step_simps eval_switch_def)
  also have "\<dots> = eval_loop E ctx [0x88, 0xac] (?m [ser_uint160 h, ser_uint160 (Hash160 E pk), pk, sig] 2)"
    by (subst eval_loop_push) (simp_all add: step_simps MAX_SCRIPT_ELEMENT_SIZE_def)
  also have "\<dots> = (if Hash160 E pk = h then eval_loop E ctx [0xac] (?m [pk, sig] 3) else (False, ?m [vchFalse, pk, sig] 3))"
    by (subst eval_loop_op) (simp_all add: step_simps eval_switch_def)
  also have "eval_loop E ctx [0xac] (?m [pk, sig] 3) =
      (case checked_sig E ctx sig pk (sc sig h) c of
          Inl e \<Rightarrow> (False, ?m [pk, sig] 4) | Inr (ok, c') \<Rightarrow> (True, (?m [bool_vch ok] 4)\<lparr>vm_cache := c'\<rparr>))"
    by (subst eval_loop_op) (simp_all add: step_simps eval_switch_def op_checksig_def sc_def split: sum.splits prod.splits)
  finally have "eval_loop E ctx ?s (?m [pk, sig] 0) =
      (if Hash160 E pk = h then
        (case checked_sig E ctx sig pk (sc sig h) c of
           Inl e \<Rightarrow> (False, ?m [pk, sig] 4) | Inr (ok, c') \<Rightarrow> (True, (?m [bool_vch ok] 4)\<lparr>vm_cache := c'\<rparr>))
       else (False, ?m [vchFalse, pk, sig] 3))"
    unfolding dest_key_script [symmetric] .
  moreover have "length ?s \<le> 10000" by (simp add: dest_key_script push_header_20)
  ultimately show ?thesis by (auto simp: EvalScript_def vm_init_def split: sum.splits prod.splits)
qed

lemma op_encoding_single: "OP_PUSHDATA4 < unat b \<Longrightarrow> op_encoding (unat b) [] [b]"
  by (simp add: op_encoding_def size_bytes_def)

lemma instrs_byte: "OP_PUSHDATA4 < unat b \<Longrightarrow> instrs (b # r) = ((unat b, [], [b]) # fst (instrs r), snd (instrs r))"
  using instrs_Cons [OF op_encoding_single, of b r] by simp

lemma instrs_push:
  "length v < 2 ^ 32 \<Longrightarrow> instrs (push_header (length v) @ v @ r) =
     ((unat (hd (push_header (length v))), v, push_header (length v) @ v) # fst (instrs r), snd (instrs r))"
  using instrs_Cons [OF op_encoding_push, of v r] by simp

lemma instrs_dest_key:
  "instrs (SetDestination (DestKey h)) =
     ([(0x76, [], [0x76]), (0xa9, [], [0xa9]), (20, ser_uint160 h, 20 # ser_uint160 h), (0x88, [], [0x88]), (0xac, [], [0xac])], [])"
  using instrs_push [of "ser_uint160 h" "[0x88, 0xac]"]
  by (simp add: dest_key_script instrs_byte instrs_None push_header_20)

lemma FindAndDelete_dest_key:
  assumes "length sig < 2 ^ 32" "sig \<noteq> ser_uint160 h"
  shows "FindAndDelete (push_data sig []) (SetDestination (DestKey h)) = (0, SetDestination (DestKey h))"
proof -
  let ?b = "push_data sig []"
  have e: "op_encoding (unat (hd (push_header (length sig)))) sig ?b"
    using op_encoding_push [OF assms(1)] by (simp add: push_data_def)
  have d: "FindAndDelete ?b x = delete_loop ?b x" for x
    using op_encoding_nonempty [OF e] by (simp add: FindAndDelete_def)
  have nb: "[x] \<noteq> ?b" if "OP_PUSHDATA4 < unat x" for x
    using that push_header_opcode [of "length sig"] by (auto simp: push_data_def push_header_def split: if_splits)
  have "?b \<noteq> 20 # ser_uint160 h"
  proof
    assume "?b = 20 # ser_uint160 h"
    then have "op_encoding 20 (ser_uint160 h) ?b" by (simp add: op_encoding_def size_bytes_def)
    from op_encoding_unique [OF e this refl] assms(2) show False by simp
  qed
  then show ?thesis
    using instrs_bytes [of "SetDestination (DestKey h)"] nb [of "0x76"] nb [of "0xa9"]
      nb [of "0x88"] nb [of "0xac"]
    by (simp add: d delete_loop_instrs [OF e] instrs_dest_key)
qed

text \<open>C15. Spending a key-hash output with a signature and a key succeeds exactly when the key hashes to the
  destination and the signature, over the output script itself, is accepted for that key.\<close>

theorem key_hash_spend:
  assumes "point_codec_documented E" and "cache_ok E c"
    and "length sig \<le> MAX_SCRIPT_ELEMENT_SIZE" and "length pk \<le> MAX_SCRIPT_ELEMENT_SIZE" and "sig \<noteq> ser_uint160 h"
  shows "fst (VerifyScript E (push_data pk (push_data sig [])) (SetDestination (DestKey h)) ctx c) \<longleftrightarrow>
    Hash160 E pk = h \<and> sig_ok E ctx (SetDestination (DestKey h)) sig pk"
proof -
  have "length sig < 2 ^ 32" using assms(3) by (simp add: MAX_SCRIPT_ELEMENT_SIZE_def)
  then have f: "snd (FindAndDelete (push_data sig []) (SetDestination (DestKey h))) = SetDestination (DestKey h)"
    using FindAndDelete_dest_key assms(5) by simp
  have "\<not> IsPayToScriptHash (SetDestination (DestKey h))" by (simp add: IsPayToScriptHash_def dest_key_script)
  moreover obtain c' where "checked_sig E ctx sig pk (SetDestination (DestKey h)) c
      = Inr (sig_ok E ctx (SetDestination (DestKey h)) sig pk, c')"
    using checked_sig_correct [OF assms(1,2)] by blast
  ultimately show ?thesis
    by (auto simp: VerifyScript_def eval_two_pushes [OF assms(3,4)] eval_key_hash f top_true_def)
qed

theorem key_hash_spend_witness:
  "fst (VerifyScript ext_example (push_data (replicate 33 2) (push_data [0x30, 1] []))
      (SetDestination (DestKey (Hash160 ext_example (replicate 33 2)))) example_ctx (empty_cache 0)) \<longleftrightarrow>
    sig_ok ext_example example_ctx (SetDestination (DestKey (Hash160 ext_example (replicate 33 2)))) [0x30, 1] (replicate 33 2)"
proof -
  let ?h = "Hash160 ext_example (replicate 33 2)"
  have "length [0x30, 1 :: byte] \<noteq> length (ser_uint160 ?h)" by (simp only: length_ser_uint160) simp
  then have "[0x30, 1 :: byte] \<noteq> ser_uint160 ?h" by metis
  then show ?thesis
    using key_hash_spend [OF ext_example_point_codec empty_cache_ok, of "[0x30, 1]" "replicate 33 2" ?h]
    by (simp add: MAX_SCRIPT_ELEMENT_SIZE_def)
qed

lemma dest_script_script:
  "SetDestination (DestScript h) = 0xa9 # push_header (length (ser_uint160 h)) @ ser_uint160 h @ [0x87]"
  by (simp add: SetDestination_def push_uint160_def push_header_20)

text \<open>An output script of the script-hash form compares the hash of the top element; pushing the hash itself counts
  against the stack limit.\<close>

lemma eval_script_hash:
  "EvalScript E ctx (v # rest) (SetDestination (DestScript h)) c =
     (if length rest < 999 then (True, bool_vch (Hash160 E v = h) # rest, c)
      else if length rest = 999 then (False, ser_uint160 h # ser_uint160 (Hash160 E v) # rest, c)
      else (False, ser_uint160 (Hash160 E v) # rest, c))"
proof -
  let ?s = "SetDestination (DestScript h)"
  let ?m = "\<lambda>st n. \<lparr> vm_stack = st, vm_altstack = [], vm_vfExec = [], vm_nOpCount = n, vm_codehash = ?s, vm_cache = c \<rparr>"
  let ?r = "push_header (length (ser_uint160 h)) @ ser_uint160 h @ [0x87]"
  have 1: "eval_loop E ctx (0xa9 # ?r) (?m (v # rest) 0) =
      (if length rest < 1000 then eval_loop E ctx ?r (?m (ser_uint160 (Hash160 E v) # rest) 1)
       else (False, ?m (ser_uint160 (Hash160 E v) # rest) 1))"
    by (subst eval_loop_op) (simp_all add: step_simps eval_switch_def)
  have 2: "eval_loop E ctx ?r (?m (ser_uint160 (Hash160 E v) # rest) 1) =
      (if length rest < 999 then eval_loop E ctx [0x87] (?m (ser_uint160 h # ser_uint160 (Hash160 E v) # rest) 1)
       else (False, ?m (ser_uint160 h # ser_uint160 (Hash160 E v) # rest) 1))"
    by (subst eval_loop_push) (simp_all add: step_simps MAX_SCRIPT_ELEMENT_SIZE_def)
  have 3: "eval_loop E ctx [0x87] (?m (ser_uint160 h # ser_uint160 (Hash160 E v) # rest) 1) =
      (True, ?m (bool_vch (Hash160 E v = h) # rest) 2)" if "length rest < 999"
    using that by (subst eval_loop_op) (simp_all add: step_simps eval_switch_def)
  have "length ?s \<le> 10000" by (simp add: dest_script_script push_header_20)
  then show ?thesis using 1 2 3 by (auto simp: EvalScript_def vm_init_def dest_script_script)
qed

lemma eval_script_hash_Nil: "fst (EvalScript E ctx [] (SetDestination (DestScript h)) c) = False"
proof -
  let ?r = "push_header (length (ser_uint160 h)) @ ser_uint160 h @ [0x87]"
  have "\<not> fst (eval_loop E ctx (0xa9 # ?r) (vm_init [] s c))" for s
    by (subst eval_loop_op) (simp_all add: step_simps eval_switch_def)
  then show ?thesis by (simp add: EvalScript_def split_beta dest_script_script)
qed

text \<open>C9. Spending a script-hash output, under the script-hash rule, succeeds exactly when the input script only
  pushes, its last push hashes to the destination, and that push, run as a script on the elements before it, leaves true.\<close>

theorem script_hash_spend:
  assumes "ctx_flags ctx AND SCRIPT_VERIFY_P2SH \<noteq> 0"
  shows "fst (VerifyScript E sig (SetDestination (DestScript h)) ctx c) \<longleftrightarrow>
    IsPushOnly sig \<and> (\<exists>redeem rest c1. EvalScript E ctx [] sig c = (True, redeem # rest, c1) \<and> length rest < 999
      \<and> Hash160 E redeem = h \<and> (case EvalScript E ctx rest redeem c1 of (r, st, _) \<Rightarrow> r \<and> top_true st))"
proof -
  have p: "IsPayToScriptHash (SetDestination (DestScript h))"
    by (simp add: IsPayToScriptHash_def dest_script_script push_header_20 nth_append nth_Cons')
  obtain r st c1 where e: "EvalScript E ctx [] sig c = (r, st, c1)" by (metis prod_cases3)
  show ?thesis
  proof (cases st)
    case Nil
    obtain st2 c2 where "EvalScript E ctx [] (SetDestination (DestScript h)) c1 = (False, st2, c2)"
      using eval_script_hash_Nil [of E ctx h c1] by (metis prod_cases3 fst_conv)
    then show ?thesis using e Nil by (cases r) (simp_all add: VerifyScript_def)
  next
    case (Cons v rest)
    obtain r3 st3 c3 where e3: "EvalScript E ctx rest v c1 = (r3, st3, c3)" by (metis prod_cases3)
    have "fst (VerifyScript E sig (SetDestination (DestScript h)) ctx c) \<longleftrightarrow>
        IsPushOnly sig \<and> r \<and> length rest < 999 \<and> Hash160 E v = h \<and> r3 \<and> top_true st3"
      using assms p by (cases r; cases r3) (simp_all add: VerifyScript_def e Cons eval_script_hash e3 top_true_def)
    then show ?thesis using e3 by (auto simp: e Cons)
  qed
qed

theorem script_hash_spend_witness:
  "fst (VerifyScript ext_example [2, 1, 1] (SetDestination (DestScript (Hash160 ext_example [1, 1])))
      (example_ctx\<lparr>ctx_flags := SCRIPT_VERIFY_P2SH\<rparr>) (empty_cache 0))"
proof -
  let ?ctx = "example_ctx\<lparr>ctx_flags := SCRIPT_VERIFY_P2SH\<rparr>"
  have push: "push_header 2 = [2]" "push_header 1 = [1]" by (simp_all add: push_header_def)
  have 1: "EvalScript ext_example ?ctx [] [2, 1, 1] (empty_cache 0) = (True, [[1, 1]], empty_cache 0)"
    using eval_loop_push [of "[1, 1]" "vm_init [] [2, 1, 1] (empty_cache 0)" ext_example ?ctx "[]"]
    by (simp add: EvalScript_def push vm_init_def size_limits_def MAX_SCRIPT_ELEMENT_SIZE_def numeral_2_eq_2 [symmetric])
  have 2: "EvalScript ext_example ?ctx [] [1, 1] (empty_cache 0) = (True, [[1]], empty_cache 0)"
    using eval_loop_push [of "[1]" "vm_init [] [1, 1] (empty_cache 0)" ext_example ?ctx "[]"] push(2)
    by (simp add: EvalScript_def vm_init_def size_limits_def MAX_SCRIPT_ELEMENT_SIZE_def)
  have 3: "IsPushOnly [2, 1, 1]"
    using instrs_push [of "[1, 1]" "[]"] by (simp add: IsPushOnly_instrs push instrs_None numeral_2_eq_2 [symmetric])
  show ?thesis
    using script_hash_spend [of ?ctx ext_example "[2, 1, 1]" "Hash160 ext_example [1, 1]" "empty_cache 0"] 1 2 3
    by (simp add: top_true_def)
qed

section \<open>Recognising the scripts the wallet writes\<close>

lemma match_loop_end: "match_loop [] [] sols = Some sols"
  by (simp add: match_loop.simps)

lemma match_loop_step:
  assumes "GetOp2 pc1 = Some (op1, v1, r1)" "GetOp2 pc2 = Some (op2, v2, r2)" "op2 \<noteq> OP_PUBKEYS"
  shows "match_loop pc1 pc2 sols =
    (case match_op op1 v1 op2 v2 sols of None \<Rightarrow> None | Some sols \<Rightarrow> match_loop r1 r2 sols)"
  using assms by (subst match_loop.simps) (auto simp del: GetOp2.simps(2))

lemma GetOp2_single: "GetOp2 [] = None" "OP_PUSHDATA4 < unat b \<Longrightarrow> GetOp2 (b # r) = Some (unat b, [], r)"
  by simp_all

lemma uint160_of_ser [simp]: "uint160_of_bytes (ser_uint160 h) = h"
  by (simp add: uint160_of_bytes_def ser_uint160_def le_nat_word [where 'a = 160, of 20, simplified])

lemma Solver_dest_script: "Solver (SetDestination (DestScript h)) = (True, TX_SCRIPTHASH, [ser_uint160 h])"
  by (simp add: Solver_def IsPayToScriptHash_def dest_script_script push_header_20 nth_append nth_Cons')

lemma Solver_dest_key: "Solver (SetDestination (DestKey h)) = (True, TX_PUBKEYHASH, [ser_uint160 h])"
proof -
  have p: "GetOp2 (20 # ser_uint160 h @ r) = Some (20, ser_uint160 h, r)" for r
    by (simp add: get_operand_suffix)
  have 1: "match_loop (0x76 # 0xa9 # 20 # ser_uint160 h @ [0x88, 0xac]) (map of_nat [OP_PUBKEY, OP_CHECKSIG]) [] = None"
    by (simp add: match_loop_step GetOp2_single match_op_def del: GetOp2.simps)
  have 2: "match_loop (0x76 # 0xa9 # 20 # ser_uint160 h @ [0x88, 0xac])
      (map of_nat [OP_DUP, OP_HASH160, OP_PUBKEYHASH, OP_EQUALVERIFY, OP_CHECKSIG]) [] = Some [ser_uint160 h]"
    by (simp add: match_loop_step GetOp2_single p match_op_def match_loop_end del: GetOp2.simps)
  show ?thesis using 1 2
    by (simp add: Solver_def IsPayToScriptHash_def dest_key_script push_header_20 mTemplates_def)
qed

text \<open>A script written for a destination is recognised as paying to that destination, and it is standard.\<close>

theorem destination_roundtrip:
  assumes "d \<noteq> CNoDestination"
  shows "ExtractDestination E (SetDestination d) = Some d \<and> fst (IsStandard (SetDestination d))"
  using assms by (cases d) (simp_all add: ExtractDestination_def IsStandard_def Solver_dest_key Solver_dest_script)

theorem destination_roundtrip_witness:
  "ExtractDestination ext_example (SetDestination (DestKey 7)) = Some (DestKey 7)"
  using destination_roundtrip [of "DestKey 7" ext_example] by simp

lemma fold_push_data: "fold push_data ks s = s @ concat (map (\<lambda>k. push_header (length k) @ k) ks)"
  by (induction ks arbitrary: s) (simp_all add: push_data_def)

abbreviation key_sized :: "valtype \<Rightarrow> bool" where
  "key_sized v \<equiv> 33 \<le> length v \<and> length v \<le> 120"

lemma pubkeys_loop_keys:
  assumes "list_all key_sized (v # ks)" "OP_PUSHDATA4 < unat b"
  shows "pubkeys_loop op v (concat (map (\<lambda>k. push_header (length k) @ k) ks) @ b # r) sols = (unat b, [], r, sols @ v # ks)"
  using assms(1)
proof (induction ks arbitrary: op v sols)
  case Nil
  then show ?case using assms(2) by (simp add: pubkeys_loop.simps [of _ v] pubkeys_loop.simps [of _ "[]"] GetOp2_single del: GetOp2.simps)
next
  case (Cons k ks)
  let ?r = "concat (map (\<lambda>k. push_header (length k) @ k) ks) @ b # r"
  have "length k < 2 ^ 32" using Cons.prems by simp
  then obtain op' where "GetOp2 (push_header (length k) @ k @ ?r) = Some (op', k, ?r)" using GetOp2_push_data by blast
  then show ?case using Cons by (simp add: pubkeys_loop.simps [of _ v])
qed

lemma match_loop_keys:
  assumes "list_all key_sized (v # ks)" "OP_PUSHDATA4 < unat b" "OP_PUSHDATA4 < unat b2"
  shows "match_loop (concat (map (\<lambda>k. push_header (length k) @ k) (v # ks)) @ b # r) (of_nat OP_PUBKEYS # b2 # r2) sols =
    (case match_op (unat b) [] (unat b2) [] (sols @ v # ks) of None \<Rightarrow> None | Some sols \<Rightarrow> match_loop r r2 sols)"
proof -
  let ?r = "concat (map (\<lambda>k. push_header (length k) @ k) ks) @ b # r"
  have "length v < 2 ^ 32" using assms(1) by simp
  then obtain op where "GetOp2 (push_header (length v) @ v @ ?r) = Some (op, v, ?r)" using GetOp2_push_data by blast
  moreover have "GetOp2 (of_nat OP_PUBKEYS # b2 # r2) = Some (OP_PUBKEYS, [], b2 # r2)" by simp
  ultimately show ?thesis using pubkeys_loop_keys [OF assms(1,2), of op r sols] assms(3)
    by (subst match_loop.simps) (simp add: GetOp2_single del: GetOp2.simps)
qed

lemma unat_EncodeOP_N: "1 \<le> n \<Longrightarrow> n \<le> 16 \<Longrightarrow> unat (of_nat (EncodeOP_N n) :: byte) = 80 + n"
  unfolding EncodeOP_N_def unat_of_nat_byte by simp

lemma Solver_multisig:
  assumes "1 \<le> m" "m \<le> length keys" "length keys \<le> 16" "list_all key_sized keys"
  shows "Solver (SetMultisig m keys) = (True, TX_MULTISIG, [of_nat m] # keys @ [[of_nat (length keys)]])"
proof -
  obtain v ks where k: "keys = v # ks" using assms by (cases keys) auto
  let ?bm = "of_nat (EncodeOP_N m) :: byte" and ?bn = "of_nat (EncodeOP_N (length keys)) :: byte"
  let ?pushes = "concat (map (\<lambda>k. push_header (length k) @ k) keys)"
  have s: "SetMultisig m keys = ?bm # ?pushes @ ?bn # [0xae]" by (simp add: SetMultisig_def fold_push_data)
  have bm: "unat ?bm = 80 + m" and bn: "unat ?bn = 80 + length keys" using assms unat_EncodeOP_N by simp_all
  have p: "\<not> IsPayToScriptHash (SetMultisig m keys)"
    using bm assms(2,3) by (auto simp: s IsPayToScriptHash_def dest!: arg_cong [where f = unat])
  have 1: "match_loop (SetMultisig m keys) (map of_nat [OP_PUBKEY, OP_CHECKSIG]) [] = None"
    using bm assms by (simp add: s match_loop_step GetOp2_single match_op_def del: GetOp2.simps)
  have 2: "match_loop (SetMultisig m keys) (map of_nat [OP_DUP, OP_HASH160, OP_PUBKEYHASH, OP_EQUALVERIFY, OP_CHECKSIG]) [] = None"
    using bm assms by (simp add: s match_loop_step GetOp2_single match_op_def del: GetOp2.simps)
  have "match_loop (SetMultisig m keys) (map of_nat [OP_SMALLINTEGER, OP_PUBKEYS, OP_SMALLINTEGER, OP_CHECKMULTISIG]) []
      = match_loop (?pushes @ ?bn # [0xae]) [251, 250, 0xae] [[of_nat m]]"
    using bm assms by (simp add: s match_loop_step GetOp2_single match_op_def DecodeOP_N_def del: GetOp2.simps)
  also have "\<dots> = match_loop [0xae] [0xae] ([of_nat m] # keys @ [[of_nat (length keys)]])"
    using match_loop_keys [of v ks ?bn 250 "[0xae]" "[0xae]" "[[of_nat m]]"] bn assms
    by (simp add: k match_op_def DecodeOP_N_def)
  also have "\<dots> = Some ([of_nat m] # keys @ [[of_nat (length keys)]])"
    by (simp add: match_loop_step GetOp2_single match_op_def match_loop_end del: GetOp2.simps)
  finally have 3: "match_loop (SetMultisig m keys) (map of_nat [OP_SMALLINTEGER, OP_PUBKEYS, OP_SMALLINTEGER, OP_CHECKMULTISIG]) []
      = Some ([of_nat m] # keys @ [[of_nat (length keys)]])" .
  have "unat (of_nat m :: byte) = m" "unat (of_nat (length keys) :: byte) = length keys"
    using assms by (simp_all add: unat_of_nat)
  then have "\<not> (of_nat m :: byte) < 1" "\<not> (of_nat (length keys) :: byte) < 1" "\<not> (of_nat m :: byte) > of_nat (length keys)"
    using assms by (auto simp: word_less_nat_alt)
  then show ?thesis using p 1 2 3 assms \<open>unat (of_nat (length keys) :: byte) = length keys\<close>
    by (simp add: Solver_def mTemplates_def Let_def)
qed

text \<open>A multisignature script built for between 1 and 16 keys of key size is recognised with its threshold and keys
  in order; it is standard exactly up to three keys.\<close>

theorem multisig_recognised:
  assumes "1 \<le> m" and "m \<le> length keys" and "length keys \<le> 16" and "list_all key_sized keys"
  shows "ExtractDestinations E (SetMultisig m keys) = Some (TX_MULTISIG, map (DestKey \<circ> pubkey_GetID E) keys, int m)
    \<and> fst (IsStandard (SetMultisig m keys)) = (length keys \<le> 3)"
proof -
  have u: "unat (of_nat m :: byte) = m" "unat (of_nat (length keys) :: byte) = length keys"
    using assms by (simp_all add: unat_of_nat)
  then have "uint (of_nat m :: byte) = int m" by (metis uint_nat)
  then show ?thesis using u assms Solver_multisig [OF assms]
    by (auto simp: ExtractDestinations_def IsStandard_def Let_def word_less_nat_alt comp_def)
qed

theorem multisig_recognised_witness:
  "fst (IsStandard (SetMultisig 2 [replicate 33 2, replicate 33 3, replicate 65 4]))"
  using multisig_recognised [of 2 "[replicate 33 2, replicate 33 3, replicate 65 4]"] by simp

section \<open>Ownership\<close>

lemma scan_templates_type: "scan_templates s ts = (ok, t, sols) \<Longrightarrow> t = TX_NONSTANDARD \<or> t \<in> fst ` set ts"
  by (induction s ts rule: scan_templates.induct) (auto split: option.splits if_splits simp: Let_def)

lemma Solver_script_hash:
  assumes "Solver s = (ok, TX_SCRIPTHASH, sols)"
  shows "IsPayToScriptHash s \<and> sols = [take 20 (drop 2 s)]"
proof (cases "IsPayToScriptHash s")
  case False
  with assms have "scan_templates s mTemplates = (ok, TX_SCRIPTHASH, sols)" by (simp add: Solver_def)
  from scan_templates_type [OF this] show ?thesis by (simp add: mTemplates_def)
qed (use assms in \<open>simp add: Solver_def\<close>)

text \<open>The destination a redeem script leads to, if it is itself a script-hash script.\<close>

definition redeem_of :: "CScript \<Rightarrow> CScriptID option" where
  "redeem_of s = (if IsPayToScriptHash s then Some (uint160_of_bytes (take 20 (drop 2 s))) else None)"

lemma IsMine_leaf:
  assumes "case redeem_of s of None \<Rightarrow> True | Some h \<Rightarrow> ks_GetCScript ks h = None"
  shows "\<exists>r. IsMine E ks s = Some r"
proof -
  obtain ok t sols where S: "Solver s = (ok, t, sols)" by (metis prod_cases3)
  show ?thesis
  proof (cases "t = TX_SCRIPTHASH")
    case True
    then show ?thesis using assms S Solver_script_hash [of s ok sols]
      by (subst IsMine.simps) (auto simp: redeem_of_def)
  next
    case False
    then show ?thesis using S by (subst IsMine.simps) (cases t; simp add: Let_def)
  qed
qed

text \<open>C30. Whether an output is ours is always answered when the redeem scripts of the key store do not lead into each other
  for ever; and a script-hash output is spendable exactly when its known redeem script is.\<close>

theorem IsMine_returns:
  assumes "\<And>h s h'. ks_GetCScript ks h = Some s \<Longrightarrow> redeem_of s = Some h' \<Longrightarrow> (rank h' :: nat) < rank h"
  shows "\<exists>r. IsMine E ks spk = Some r
    \<and> (\<forall>h. redeem_of spk = Some h \<longrightarrow>
         (r = MINE_SPENDABLE \<longleftrightarrow> (\<exists>s. ks_GetCScript ks h = Some s \<and> IsMine E ks s = Some MINE_SPENDABLE)))"
proof -
  have uf: "IsMine E ks s = (case ks_GetCScript ks h of
        None \<Rightarrow> Some (watch_only ks s)
      | Some sub \<Rightarrow> Option.bind (IsMine E ks sub) (\<lambda>ret. Some (if ret = MINE_SPENDABLE then ret else watch_only ks s)))"
    if "redeem_of s = Some h" for s h
    using that by (subst IsMine.simps) (simp add: redeem_of_def Solver_def split: if_splits)
  have ret: "\<exists>r. IsMine E ks s = Some r" if "redeem_of s = Some h" for s h
    using that
  proof (induction "rank h" arbitrary: s h rule: less_induct)
    case less
    show ?case
    proof (cases "ks_GetCScript ks h")
      case None
      then show ?thesis using uf [OF less.prems] by simp
    next
      case (Some sub)
      have "\<exists>r. IsMine E ks sub = Some r"
        using less.hyps assms [OF Some] IsMine_leaf [where s = sub and ks = ks and E = E] by (cases "redeem_of sub") auto
      then show ?thesis using uf [OF less.prems] Some by auto
    qed
  qed
  obtain r where r: "IsMine E ks spk = Some r" using ret IsMine_leaf [where s = spk and ks = ks and E = E] by (cases "redeem_of spk") auto
  moreover have "r = MINE_SPENDABLE \<longleftrightarrow> (\<exists>s. ks_GetCScript ks h = Some s \<and> IsMine E ks s = Some MINE_SPENDABLE)"
    if "redeem_of spk = Some h" for h
    using r uf [OF that] by (auto simp: watch_only_def split: option.splits bind_splits if_splits)
  ultimately show ?thesis by blast
qed

text \<open>A store with one key and the script that pays to it, known by its hash 7.\<close>

definition one_script_store :: key_store where
  "one_script_store =
     \<lparr> ks_HaveKey = (\<lambda>k. k = 5), ks_GetKey = (\<lambda>k. None), ks_GetPubKey = (\<lambda>k. None), ks_HaveCScript = (\<lambda>h. h = 7),
       ks_GetCScript = (\<lambda>h. if h = 7 then Some (SetDestination (DestKey 5)) else None), ks_HaveWatchOnly = (\<lambda>s. False) \<rparr>"

theorem IsMine_returns_witness: "IsMine ext_example one_script_store (SetDestination (DestScript 7)) = Some MINE_SPENDABLE"
proof -
  have key: "redeem_of (SetDestination (DestKey h)) = None" for h
    by (simp add: redeem_of_def IsPayToScriptHash_def dest_key_script)
  have "redeem_of (SetDestination (DestScript 7)) = Some 7"
    by (simp add: redeem_of_def IsPayToScriptHash_def dest_script_script push_header_20 nth_append nth_Cons')
  moreover have "\<And>h s h'. ks_GetCScript one_script_store h = Some s \<Longrightarrow> redeem_of s = Some h' \<Longrightarrow> (0 :: nat) < 0"
    by (auto simp: one_script_store_def key split: if_splits)
  moreover have "IsMine ext_example one_script_store (SetDestination (DestKey 5)) = Some MINE_SPENDABLE"
    by (subst IsMine.simps) (simp add: Solver_dest_key one_script_store_def)
  ultimately show ?thesis
    using IsMine_returns [of one_script_store "\<lambda>h. 0" ext_example "SetDestination (DestScript 7)"]
    by (auto simp: one_script_store_def)
qed

end
