(* ===== verification/Keystore.thy ===== *)
theory Keystore
  imports Hobo_Prelude Ext_Crypto Bignum Serialize Script Tx_Data Key Sig_Check Interpreter Standard
begin

text \<open>
  Key stores (\<^verbatim>\<open>keystore.h\<close>, \<^verbatim>\<open>keystore.cpp\<close>) and the encryption of secrets (\<^verbatim>\<open>crypter.h\<close>,
  \<^verbatim>\<open>crypter.cpp\<close>).  The encrypted store extends the record of the basic store as its class extends the basic
  class.  An operation that can throw returns the exception or its boolean result, and the store it leaves.
  The cipher and the key derivation of OpenSSL are parameters.
\<close>

section \<open>Ordered maps with assignment\<close>

section \<open>Encrypting secrets\<close>

type_synonym CKeyingMaterial = "byte list"
type_synonym CSecret = "byte list"

definition WALLET_CRYPTO_KEY_SIZE :: nat where "WALLET_CRYPTO_KEY_SIZE = 32"
definition WALLET_CRYPTO_SALT_SIZE :: nat where "WALLET_CRYPTO_SALT_SIZE = 8"

text \<open>The cipher calls of OpenSSL: AES-256-CBC under a key and an initialisation vector, None where a call fails, and
  \<^verbatim>\<open>EVP_BytesToKey\<close> with SHA-512, which returns the size of the key, the key and the vector.\<close>

record evp =
  EVP_encrypt :: "byte list \<Rightarrow> byte list \<Rightarrow> byte list \<Rightarrow> byte list option"
  EVP_decrypt :: "byte list \<Rightarrow> byte list \<Rightarrow> byte list \<Rightarrow> byte list option"
  EVP_BytesToKey :: "byte list \<Rightarrow> byte list \<Rightarrow> u32 \<Rightarrow> nat \<times> byte list \<times> byte list"

record CCrypter =
  chKey :: "byte list"
  chIV :: "byte list"
  fKeySet :: bool

definition crypter_new :: CCrypter where
  "crypter_new = \<lparr> chKey = replicate WALLET_CRYPTO_KEY_SIZE 0, chIV = replicate WALLET_CRYPTO_KEY_SIZE 0, fKeySet = False \<rparr>"

definition SetKeyFromPassphrase :: "evp \<Rightarrow> byte list \<Rightarrow> byte list \<Rightarrow> u32 \<Rightarrow> u32 \<Rightarrow> CCrypter \<Rightarrow> bool \<times> CCrypter" where
  "SetKeyFromPassphrase V strKeyData chSalt nRounds nDerivationMethod c =
     (if nRounds < 1 \<or> length chSalt \<noteq> WALLET_CRYPTO_SALT_SIZE then (False, c)
      else
        let (i, c) = (if nDerivationMethod = 0
              then let (i, k, iv) = EVP_BytesToKey V chSalt strKeyData nRounds in (i, c\<lparr>chKey := k, chIV := iv @ drop (length iv) (chIV c)\<rparr>)
              else (0, c))
        in if i \<noteq> WALLET_CRYPTO_KEY_SIZE
           then (False, c\<lparr>chKey := replicate WALLET_CRYPTO_KEY_SIZE 0, chIV := replicate WALLET_CRYPTO_KEY_SIZE 0\<rparr>)
           else (True, c\<lparr>fKeySet := True\<rparr>))"

definition SetKey :: "CKeyingMaterial \<Rightarrow> byte list \<Rightarrow> CCrypter \<Rightarrow> bool \<times> CCrypter" where
  "SetKey chNewKey chNewIV c =
     (if length chNewKey \<noteq> WALLET_CRYPTO_KEY_SIZE \<or> length chNewIV \<noteq> WALLET_CRYPTO_KEY_SIZE then (False, c)
      else (True, c\<lparr>chKey := chNewKey, chIV := chNewIV, fKeySet := True\<rparr>))"

definition Encrypt :: "evp \<Rightarrow> CKeyingMaterial \<Rightarrow> CCrypter \<Rightarrow> byte list option" where
  "Encrypt V vchPlaintext c = (if \<not> fKeySet c then None else EVP_encrypt V (chKey c) (chIV c) vchPlaintext)"

definition Decrypt :: "evp \<Rightarrow> byte list \<Rightarrow> CCrypter \<Rightarrow> CKeyingMaterial option" where
  "Decrypt V vchCiphertext c = (if \<not> fKeySet c then None else EVP_decrypt V (chKey c) (chIV c) vchCiphertext)"

definition CleanKey :: "CCrypter \<Rightarrow> CCrypter" where
  "CleanKey c = \<lparr> chKey = replicate WALLET_CRYPTO_KEY_SIZE 0, chIV = replicate WALLET_CRYPTO_KEY_SIZE 0, fKeySet = False \<rparr>"

definition EncryptSecret :: "evp \<Rightarrow> CKeyingMaterial \<Rightarrow> CSecret \<Rightarrow> uint256 \<Rightarrow> byte list option" where
  "EncryptSecret V master vchPlaintext nIV =
     (let (ok, c) = SetKey master (ser_uint256 nIV) crypter_new in if \<not> ok then None else Encrypt V vchPlaintext c)"

definition DecryptSecret :: "evp \<Rightarrow> CKeyingMaterial \<Rightarrow> byte list \<Rightarrow> uint256 \<Rightarrow> CSecret option" where
  "DecryptSecret V master vchCiphertext nIV =
     (let (ok, c) = SetKey master (ser_uint256 nIV) crypter_new in if \<not> ok then None else Decrypt V vchCiphertext c)"

record CMasterKey =
  vchCryptedKey :: "byte list"
  vchSalt :: "byte list"
  nDerivationMethod :: u32
  nDeriveIterations :: u32
  vchOtherDerivationParameters :: "byte list"

definition masterkey_new :: CMasterKey where
  "masterkey_new = \<lparr> vchCryptedKey = [], vchSalt = [], nDerivationMethod = 0, nDeriveIterations = 25000,
     vchOtherDerivationParameters = [] \<rparr>"

section \<open>The basic store\<close>

record CBasicKeyStore =
  mapKeys :: "(CKeyID \<times> CSecret \<times> bool) list"
  mapScripts :: "(CScriptID \<times> CScript) list"
  setWatchOnly :: "CScript set"

definition pubkey_GetHash :: "ext \<Rightarrow> CPubKey \<Rightarrow> uint256" where
  "pubkey_GetHash E k = Hash E k"

definition script_GetID :: "ext \<Rightarrow> CScript \<Rightarrow> CScriptID" where
  "script_GetID E s = Hash160 E s"

definition basic_AddKey :: "ext \<Rightarrow> CKey \<Rightarrow> ('a CBasicKeyStore_scheme) \<Rightarrow> (key_error + bool) \<times> 'a CBasicKeyStore_scheme" where
  "basic_AddKey E key st =
     (case key_GetSecret key of
        Inl e \<Rightarrow> (Inl e, st)
      | Inr (secret, fCompressed) \<Rightarrow>
          (case key_GetPubKey E key of
             Inl e \<Rightarrow> (Inl e, st)
           | Inr pk \<Rightarrow> (Inr True, st\<lparr>mapKeys := map_set (pubkey_GetID E pk) (secret, fCompressed) (mapKeys st)\<rparr>)))"

definition basic_HaveKey :: "CKeyID \<Rightarrow> 'a CBasicKeyStore_scheme \<Rightarrow> bool" where
  "basic_HaveKey address st \<longleftrightarrow> map_of (mapKeys st) address \<noteq> None"

definition basic_GetKeys :: "'a CBasicKeyStore_scheme \<Rightarrow> CKeyID set" where
  "basic_GetKeys st = set (map fst (mapKeys st))"

text \<open>The key object passed in is overwritten; it is returned with the result.\<close>

definition basic_GetKey :: "ext \<Rightarrow> CKeyID \<Rightarrow> CKey \<Rightarrow> 'a CBasicKeyStore_scheme \<Rightarrow> key_error + bool \<times> CKey" where
  "basic_GetKey E address keyOut st =
     (case map_of (mapKeys st) address of
        Some (secret, fCompressed) \<Rightarrow>
          (case key_SetSecret E secret fCompressed key_Reset of Inl e \<Rightarrow> Inl e | Inr k \<Rightarrow> Inr (True, k))
      | None \<Rightarrow> Inr (False, keyOut))"

definition GetPubKey_by_key :: "ext \<Rightarrow> (CKey \<Rightarrow> key_error + bool \<times> CKey) \<Rightarrow> key_error + CPubKey option" where
  "GetPubKey_by_key E getKey =
     (case getKey key_Reset of
        Inl e \<Rightarrow> Inl e
      | Inr (False, key) \<Rightarrow> Inr None
      | Inr (True, key) \<Rightarrow> (case key_GetPubKey E key of Inl e \<Rightarrow> Inl e | Inr pk \<Rightarrow> Inr (Some pk)))"

definition GetSecret_by_key :: "(CKey \<Rightarrow> key_error + bool \<times> CKey) \<Rightarrow> key_error + (CSecret \<times> bool) option" where
  "GetSecret_by_key getKey =
     (case getKey key_Reset of
        Inl e \<Rightarrow> Inl e
      | Inr (False, key) \<Rightarrow> Inr None
      | Inr (True, key) \<Rightarrow> (case key_GetSecret key of Inl e \<Rightarrow> Inl e | Inr r \<Rightarrow> Inr (Some r)))"

definition AddCScript :: "ext \<Rightarrow> CScript \<Rightarrow> 'a CBasicKeyStore_scheme \<Rightarrow> bool \<times> 'a CBasicKeyStore_scheme" where
  "AddCScript E redeemScript st =
     (if length redeemScript > MAX_SCRIPT_ELEMENT_SIZE then (False, st)
      else (True, st\<lparr>mapScripts := map_set (script_GetID E redeemScript) redeemScript (mapScripts st)\<rparr>))"

definition HaveCScript :: "CScriptID \<Rightarrow> 'a CBasicKeyStore_scheme \<Rightarrow> bool" where
  "HaveCScript h st \<longleftrightarrow> map_of (mapScripts st) h \<noteq> None"

definition GetCScript :: "CScriptID \<Rightarrow> 'a CBasicKeyStore_scheme \<Rightarrow> CScript option" where
  "GetCScript h st = map_of (mapScripts st) h"

text \<open>Adding a watched script calls the virtual \<^verbatim>\<open>HaveKey\<close>, passed as an argument; an address that is no
  key address leaves the identifier at its initial zero.\<close>

definition AddWatchOnly :: "ext \<Rightarrow> (CKeyID \<Rightarrow> 'a CBasicKeyStore_scheme \<Rightarrow> bool) \<Rightarrow> CScript \<Rightarrow> 'a CBasicKeyStore_scheme \<Rightarrow>
    bool \<times> 'a CBasicKeyStore_scheme" where
  "AddWatchOnly E haveKey dest st =
     (case ExtractDestination E dest of
        Some address \<Rightarrow>
          (let keyID = (case address of DestKey k \<Rightarrow> k | _ \<Rightarrow> 0) in
           if haveKey keyID st then (False, st) else (True, st\<lparr>setWatchOnly := insert dest (setWatchOnly st)\<rparr>))
      | None \<Rightarrow> (True, st\<lparr>setWatchOnly := insert dest (setWatchOnly st)\<rparr>))"

definition HaveWatchOnly :: "CScript \<Rightarrow> 'a CBasicKeyStore_scheme \<Rightarrow> bool" where
  "HaveWatchOnly dest st \<longleftrightarrow> dest \<in> setWatchOnly st"

section \<open>The encrypted store\<close>

record CCryptoKeyStore = CBasicKeyStore +
  mapCryptedKeys :: "(CKeyID \<times> CPubKey \<times> byte list) list"
  vMasterKey :: CKeyingMaterial
  fUseCrypto :: bool

definition crypto_new :: CCryptoKeyStore where
  "crypto_new = \<lparr> mapKeys = [], mapScripts = [], setWatchOnly = {}, mapCryptedKeys = [], vMasterKey = [], fUseCrypto = False \<rparr>"

definition IsCrypted :: "CCryptoKeyStore \<Rightarrow> bool" where "IsCrypted st \<longleftrightarrow> fUseCrypto st"

definition IsLocked :: "CCryptoKeyStore \<Rightarrow> bool" where
  "IsLocked st \<longleftrightarrow> (if \<not> IsCrypted st then False else vMasterKey st = [])"

definition SetCrypted :: "CCryptoKeyStore \<Rightarrow> bool \<times> CCryptoKeyStore" where
  "SetCrypted st =
     (if fUseCrypto st then (True, st)
      else if mapKeys st \<noteq> [] then (False, st)
      else (True, st\<lparr>fUseCrypto := True\<rparr>))"

definition Lock :: "CCryptoKeyStore \<Rightarrow> bool \<times> CCryptoKeyStore" where
  "Lock st = (let (ok, st) = SetCrypted st in if \<not> ok then (False, st) else (True, st\<lparr>vMasterKey := []\<rparr>))"

text \<open>The loop over the encrypted keys is left in its first round, whatever the outcome: the master key is tried on
  the first key only.\<close>

definition try_master :: "ext \<Rightarrow> evp \<Rightarrow> CKeyingMaterial \<Rightarrow> (CKeyID \<times> CPubKey \<times> byte list) list \<Rightarrow> key_error + bool" where
  "try_master E V master m =
     (case m of
        [] \<Rightarrow> Inr True
      | (_, vchPubKey, vchCryptedSecret) # _ \<Rightarrow>
          (case DecryptSecret V master vchCryptedSecret (pubkey_GetHash E vchPubKey) of
             None \<Rightarrow> Inr False
           | Some vchSecret \<Rightarrow>
               if length vchSecret \<noteq> 32 then Inr False
               else
                 (case key_SetSecret E vchSecret False (snd (key_SetPubKey E vchPubKey key_Reset)) of
                    Inl e \<Rightarrow> Inl e
                  | Inr key \<Rightarrow>
                      (case key_GetPubKey E key of Inl e \<Rightarrow> Inl e | Inr pk \<Rightarrow> Inr (pk = vchPubKey)))))"

definition Unlock :: "ext \<Rightarrow> evp \<Rightarrow> CKeyingMaterial \<Rightarrow> CCryptoKeyStore \<Rightarrow> (key_error + bool) \<times> CCryptoKeyStore" where
  "Unlock E V vMasterKeyIn st =
     (let (ok, st) = SetCrypted st in
      if \<not> ok then (Inr False, st)
      else case try_master E V vMasterKeyIn (mapCryptedKeys st) of
        Inl e \<Rightarrow> (Inl e, st)
      | Inr False \<Rightarrow> (Inr False, st)
      | Inr True \<Rightarrow> (Inr True, st\<lparr>vMasterKey := vMasterKeyIn\<rparr>))"

definition AddCryptedKey :: "ext \<Rightarrow> CPubKey \<Rightarrow> byte list \<Rightarrow> CCryptoKeyStore \<Rightarrow> bool \<times> CCryptoKeyStore" where
  "AddCryptedKey E vchPubKey vchCryptedSecret st =
     (let (ok, st) = SetCrypted st in
      if \<not> ok then (False, st)
      else (True, st\<lparr>mapCryptedKeys := map_set (pubkey_GetID E vchPubKey) (vchPubKey, vchCryptedSecret) (mapCryptedKeys st)\<rparr>))"

definition AddKey :: "ext \<Rightarrow> evp \<Rightarrow> CKey \<Rightarrow> CCryptoKeyStore \<Rightarrow> (key_error + bool) \<times> CCryptoKeyStore" where
  "AddKey E V key st =
     (case key_GetPubKey E key of
        Inl e \<Rightarrow> (Inl e, st)
      | Inr vchPubKey \<Rightarrow>
          if HaveWatchOnly (SetDestination (DestKey (pubkey_GetID E vchPubKey))) st then (Inr False, st)
          else if \<not> IsCrypted st then basic_AddKey E key st
          else if IsLocked st then (Inr False, st)
          else case key_GetSecret key of
            Inl e \<Rightarrow> (Inl e, st)
          | Inr (secret, fCompressed) \<Rightarrow>
              (case EncryptSecret V (vMasterKey st) secret (pubkey_GetHash E vchPubKey) of
                 None \<Rightarrow> (Inr False, st)
               | Some vchCryptedSecret \<Rightarrow>
                   let (ok, st) = AddCryptedKey E vchPubKey vchCryptedSecret st in (Inr ok, st)))"

definition HaveKey :: "CKeyID \<Rightarrow> CCryptoKeyStore \<Rightarrow> bool" where
  "HaveKey address st \<longleftrightarrow>
     (if \<not> IsCrypted st then basic_HaveKey address st else map_of (mapCryptedKeys st) address \<noteq> None)"

definition GetKeys :: "CCryptoKeyStore \<Rightarrow> CKeyID set" where
  "GetKeys st = (if \<not> IsCrypted st then basic_GetKeys st else set (map fst (mapCryptedKeys st)))"

definition GetKey :: "ext \<Rightarrow> evp \<Rightarrow> CKeyID \<Rightarrow> CKey \<Rightarrow> CCryptoKeyStore \<Rightarrow> key_error + bool \<times> CKey" where
  "GetKey E V address keyOut st =
     (if \<not> IsCrypted st then basic_GetKey E address keyOut st
      else case map_of (mapCryptedKeys st) address of
        None \<Rightarrow> Inr (False, keyOut)
      | Some (vchPubKey, vchCryptedSecret) \<Rightarrow>
          (case DecryptSecret V (vMasterKey st) vchCryptedSecret (pubkey_GetHash E vchPubKey) of
             None \<Rightarrow> Inr (False, keyOut)
           | Some vchSecret \<Rightarrow>
               if length vchSecret \<noteq> 32 then Inr (False, keyOut)
               else case key_SetSecret E vchSecret False (snd (key_SetPubKey E vchPubKey keyOut)) of
                 Inl e \<Rightarrow> Inl e | Inr k \<Rightarrow> Inr (True, k)))"

definition GetPubKey :: "ext \<Rightarrow> evp \<Rightarrow> CKeyID \<Rightarrow> CCryptoKeyStore \<Rightarrow> key_error + CPubKey option" where
  "GetPubKey E V address st =
     (if \<not> IsCrypted st then GetPubKey_by_key E (\<lambda>keyOut. GetKey E V address keyOut st)
      else Inr (map_option fst (map_of (mapCryptedKeys st) address)))"

text \<open>Encrypting the plain keys: the flag is set before the loop, the plain keys are dropped only at the end.\<close>

fun encrypt_loop :: "ext \<Rightarrow> evp \<Rightarrow> CKeyingMaterial \<Rightarrow> (CKeyID \<times> CSecret \<times> bool) list \<Rightarrow> CCryptoKeyStore \<Rightarrow>
    (key_error + bool) \<times> CCryptoKeyStore" where
  "encrypt_loop E V master [] st = (Inr True, st)"
| "encrypt_loop E V master ((_, secret, fCompressed) # ks) st =
     (case key_SetSecret E secret fCompressed key_Reset of
        Inl e \<Rightarrow> (Inl e, st)
      | Inr key \<Rightarrow>
          (case key_GetPubKey E key of
             Inl e \<Rightarrow> (Inl e, st)
           | Inr vchPubKey \<Rightarrow>
               (case key_GetSecret key of
                  Inl e \<Rightarrow> (Inl e, st)
                | Inr (secret, _) \<Rightarrow>
                    (case EncryptSecret V master secret (pubkey_GetHash E vchPubKey) of
                       None \<Rightarrow> (Inr False, st)
                     | Some vchCryptedSecret \<Rightarrow>
                         (case AddCryptedKey E vchPubKey vchCryptedSecret st of
                            (False, st) \<Rightarrow> (Inr False, st)
                          | (True, st) \<Rightarrow> encrypt_loop E V master ks st)))))"

definition EncryptKeys :: "ext \<Rightarrow> evp \<Rightarrow> CKeyingMaterial \<Rightarrow> CCryptoKeyStore \<Rightarrow> (key_error + bool) \<times> CCryptoKeyStore" where
  "EncryptKeys E V vMasterKeyIn st =
     (if mapCryptedKeys st \<noteq> [] \<or> IsCrypted st then (Inr False, st)
      else
        (case encrypt_loop E V vMasterKeyIn (mapKeys st) (st\<lparr>fUseCrypto := True\<rparr>) of
           (Inl e, st) \<Rightarrow> (Inl e, st)
         | (Inr False, st) \<Rightarrow> (Inr False, st)
         | (Inr True, st) \<Rightarrow> (Inr True, st\<lparr>mapKeys := []\<rparr>)))"

text \<open>The store as its clients see it.  A client passes a fresh key object; an exception counts as a failed lookup.\<close>

definition store_view :: "ext \<Rightarrow> evp \<Rightarrow> CCryptoKeyStore \<Rightarrow> key_store" where
  "store_view E V st =
     \<lparr> ks_HaveKey = (\<lambda>a. HaveKey a st),
       ks_GetKey = (\<lambda>a. case GetKey E V a key_Reset st of Inr (True, k) \<Rightarrow> Some k | _ \<Rightarrow> None),
       ks_GetPubKey = (\<lambda>a. case GetPubKey E V a st of Inr r \<Rightarrow> r | Inl e \<Rightarrow> None),
       ks_HaveCScript = (\<lambda>h. HaveCScript h st), ks_GetCScript = (\<lambda>h. GetCScript h st),
       ks_HaveWatchOnly = (\<lambda>s. HaveWatchOnly s st) \<rparr>"

section \<open>Documented behaviour of the libraries\<close>

definition evp_documented :: "evp \<Rightarrow> bool" where
  "evp_documented V \<longleftrightarrow> (\<forall>k iv p c. EVP_encrypt V k iv p = Some c \<longrightarrow> EVP_decrypt V k iv c = Some p)"

text \<open>A regenerated public point is written in 33 bytes in compressed form (2) and 65 in uncompressed form (4), and reads
  back.\<close>

definition curve_documented :: "ext \<Rightarrow> bool" where
  "curve_documented E \<longleftrightarrow>
     (\<forall>d q f. EC_KEY_regenerate_key E d = Some q \<and> (f = 2 \<or> f = 4) \<longrightarrow>
        length (i2o_ECPublicKey E q f) = (if f = 2 then 33 else 65)
        \<and> o2i_ECPublicKey E (i2o_ECPublicKey E q f) = Some (q, f))"

text \<open>A key object as the code makes them: a private number of at most 32 bytes with its point, written in the form the
  flag says.\<close>

definition key_of :: "BIGNUM \<Rightarrow> EC_POINT \<Rightarrow> bool \<Rightarrow> CKey" where
  "key_of d q c =
     \<lparr> pkey = \<lparr> ec_priv = Some d, ec_pub = Some q, ec_form = (if c then 2 else 4) \<rparr>, fSet = True, fCompressedPubKey = c \<rparr>"

definition key_wf :: "ext \<Rightarrow> CKey \<Rightarrow> bool" where
  "key_wf E k \<longleftrightarrow> (\<exists>d q c. k = key_of d q c \<and> 0 \<le> d \<and> d < 256 ^ 32 \<and> EC_KEY_regenerate_key E d = Some q)"

definition key_pub :: "ext \<Rightarrow> CKey \<Rightarrow> CPubKey" where
  "key_pub E k = (case key_GetPubKey E k of Inr pk \<Rightarrow> pk | Inl e \<Rightarrow> [])"

definition key_sec :: "CKey \<Rightarrow> CSecret" where
  "key_sec k = (case key_GetSecret k of Inr (s, _) \<Rightarrow> s | Inl e \<Rightarrow> [])"

abbreviation key_addr :: "ext \<Rightarrow> CKey \<Rightarrow> CKeyID" where
  "key_addr E k \<equiv> pubkey_GetID E (key_pub E k)"

lemma SetSecret_32:
  assumes "length b = 32" "EC_KEY_regenerate_key E (int (be_nat b)) = Some q"
  shows "key_SetSecret E b c k = Inr (key_of (int (be_nat b)) q (c \<or> fCompressedPubKey k))"
  using assms by (simp add: key_SetSecret_def key_of_def key_SetCompressedPubKey_def EC_KEY_new_def Let_def)

lemma secret_bytes:
  assumes "0 \<le> d" "d < 256 ^ 32"
  shows "length (key_sec (key_of d q c)) = 32" "int (be_nat (key_sec (key_of d q c))) = d"
    "key_GetSecret (key_of d q c) = Inr (key_sec (key_of d q c), c)"
proof -
  have "nat d < 256 ^ 32" using assms by simp
  then have "length (mag_bytes (nat d)) \<le> 32" by (rule length_mag_bytes_le)
  then show "length (key_sec (key_of d q c)) = 32" "int (be_nat (key_sec (key_of d q c))) = d"
    "key_GetSecret (key_of d q c) = Inr (key_sec (key_of d q c), c)"
    using assms(1) by (simp_all add: key_sec_def key_GetSecret_def key_of_def Let_def be_nat_append be_nat_mag_bytes)
qed

lemma wf_secret:
  assumes "key_wf E k"
  shows "key_GetSecret k = Inr (key_sec k, fCompressedPubKey k)" "length (key_sec k) = 32"
    "key_SetSecret E (key_sec k) (fCompressedPubKey k) key_Reset = Inr k"
    "fCompressedPubKey k' = fCompressedPubKey k \<Longrightarrow> key_SetSecret E (key_sec k) False k' = Inr k"
proof -
  obtain d q c where k: "k = key_of d q c" "0 \<le> d" "d < 256 ^ 32" "EC_KEY_regenerate_key E d = Some q"
    using assms by (auto simp: key_wf_def)
  note s = secret_bytes [OF k(2,3), of q c]
  have f: "fCompressedPubKey k = c" by (simp add: k(1) key_of_def)
  show "key_GetSecret k = Inr (key_sec k, fCompressedPubKey k)" "length (key_sec k) = 32" using s f by (simp_all add: k(1))
  have e: "EC_KEY_regenerate_key E (int (be_nat (key_sec k))) = Some q" using s(2) k(4) by (simp add: k(1))
  show "key_SetSecret E (key_sec k) (fCompressedPubKey k) key_Reset = Inr k"
    using SetSecret_32 [OF _ e, of "fCompressedPubKey k" key_Reset] s f by (simp add: k(1) key_Reset_def)
  show "key_SetSecret E (key_sec k) False k' = Inr k" if "fCompressedPubKey k' = fCompressedPubKey k"
    using SetSecret_32 [OF _ e, of False k'] s f that by (simp add: k(1))
qed

lemma wf_pub:
  assumes "curve_documented E" "key_wf E k"
  shows "key_GetPubKey E k = Inr (key_pub E k)" "length (key_pub E k) = (if fCompressedPubKey k then 33 else 65)"
    "\<not> fCompressedPubKey k' \<Longrightarrow> fst (key_SetPubKey E (key_pub E k) k') \<and>
       fCompressedPubKey (snd (key_SetPubKey E (key_pub E k) k')) = fCompressedPubKey k"
proof -
  obtain d q c where k: "k = key_of d q c" "EC_KEY_regenerate_key E d = Some q"
    using assms(2) by (auto simp: key_wf_def)
  let ?f = "if c then 2 else 4 :: nat"
  have i: "length (i2o_ECPublicKey E q ?f) = (if c then 33 else 65)" "o2i_ECPublicKey E (i2o_ECPublicKey E q ?f) = Some (q, ?f)"
    using assms(1) k(2) by (auto simp: curve_documented_def)
  have ne: "i2o_ECPublicKey E q ?f \<noteq> []" using i(1) by (cases c) auto
  then have p: "key_pub E k = i2o_ECPublicKey E q ?f" "key_GetPubKey E k = Inr (i2o_ECPublicKey E q ?f)"
    by (simp_all add: k(1) key_pub_def key_GetPubKey_def key_of_def Let_def)
  show "key_GetPubKey E k = Inr (key_pub E k)" "length (key_pub E k) = (if fCompressedPubKey k then 33 else 65)"
    unfolding p using i(1) by (simp_all add: k(1) key_of_def)
  show "fst (key_SetPubKey E (key_pub E k) k') \<and> fCompressedPubKey (snd (key_SetPubKey E (key_pub E k) k')) = fCompressedPubKey k"
    if "\<not> fCompressedPubKey k'"
    unfolding p key_SetPubKey_def i(2) using i(1) that by (cases c) (simp_all add: k(1) key_of_def key_SetCompressedPubKey_def Let_def)
qed

section \<open>The contract of a key store\<close>

text \<open>What adding a key promises to a client of either store.\<close>

fun add_keys :: "(CKey \<Rightarrow> 's \<Rightarrow> (key_error + bool) \<times> 's) \<Rightarrow> CKey list \<Rightarrow> 's \<Rightarrow> 's option" where
  "add_keys add [] s = Some s"
| "add_keys add (k # ks) s = (case add k s of (Inr True, s') \<Rightarrow> add_keys add ks s' | _ \<Rightarrow> None)"

locale key_registry =
  fixes inv :: "'s \<Rightarrow> bool"
    and good :: "CKey \<Rightarrow> bool"
    and addr :: "CKey \<Rightarrow> CKeyID"
    and add :: "CKey \<Rightarrow> 's \<Rightarrow> (key_error + bool) \<times> 's"
    and have_key :: "CKeyID \<Rightarrow> 's \<Rightarrow> bool"
    and get_key :: "CKeyID \<Rightarrow> 's \<Rightarrow> key_error + bool \<times> CKey"
  assumes add_inv: "inv s \<Longrightarrow> good k \<Longrightarrow> add k s = (Inr True, s') \<Longrightarrow> inv s'"
    and have_add: "inv s \<Longrightarrow> good k \<Longrightarrow> add k s = (Inr True, s') \<Longrightarrow> have_key a s' \<longleftrightarrow> a = addr k \<or> have_key a s"
    and get_add: "inv s \<Longrightarrow> good k \<Longrightarrow> add k s = (Inr True, s') \<Longrightarrow> get_key (addr k) s' = Inr (True, k)"
    and get_other: "inv s \<Longrightarrow> good k \<Longrightarrow> add k s = (Inr True, s') \<Longrightarrow> a \<noteq> addr k \<Longrightarrow> get_key a s' = get_key a s"
begin

lemma add_keys_step:
  "add_keys add (k # ks) s = Some s' \<longleftrightarrow> (\<exists>t. add k s = (Inr True, t) \<and> add_keys add ks t = Some s')"
  by (auto split: prod.splits sum.splits bool.splits)

lemma get_kept:
  "inv s \<Longrightarrow> list_all good ks \<Longrightarrow> a \<notin> addr ` set ks \<Longrightarrow> add_keys add ks s = Some s' \<Longrightarrow>
     get_key a s' = get_key a s \<and> have_key a s' = have_key a s"
proof (induction ks arbitrary: s)
  case (Cons k ks)
  then obtain t where t: "add k s = (Inr True, t)" "add_keys add ks t = Some s'" using add_keys_step by blast
  then show ?case using Cons get_other [OF Cons.prems(1) _ t(1)] have_add [OF Cons.prems(1) _ t(1)] add_inv [OF Cons.prems(1) _ t(1)]
    by auto
qed simp

lemma all_retrievable:
  "inv s \<Longrightarrow> list_all good ks \<Longrightarrow> distinct (map addr ks) \<Longrightarrow> add_keys add ks s = Some s' \<Longrightarrow> k \<in> set ks \<Longrightarrow>
     have_key (addr k) s' \<and> get_key (addr k) s' = Inr (True, k)"
proof (induction ks arbitrary: s)
  case (Cons x ks)
  then obtain t where t: "add x s = (Inr True, t)" "add_keys add ks t = Some s'" using add_keys_step by blast
  note g = Cons.prems(1) _ t(1)
  have x: "good x" "list_all good ks" "inv t" using Cons.prems add_inv [OF g] by simp_all
  show ?case
  proof (cases "k = x")
    case True
    then have "addr k \<notin> addr ` set ks" using Cons.prems(3) by auto
    then show ?thesis using get_kept [OF x(3,2) _ t(2)] get_add [OF g] have_add [OF g] x(1) True by simp
  next
    case False
    then show ?thesis using Cons.IH [OF x(3,2) _ t(2)] Cons.prems by simp
  qed
qed simp

end

text \<open>Both stores keep the contract.  The encrypted one needs the cipher to decrypt what it encrypted and the library to
  read back the points it writes.\<close>

definition crypto_inv :: "CCryptoKeyStore \<Rightarrow> bool" where
  "crypto_inv st \<longleftrightarrow> (if fUseCrypto st then mapKeys st = [] else vMasterKey st = [] \<and> mapCryptedKeys st = [])"

interpretation basic: key_registry "\<lambda>_. curve_documented E" "key_wf E" "key_addr E" "basic_AddKey E" basic_HaveKey
    "\<lambda>a. basic_GetKey E a key_Reset" for E
  by unfold_locales
    (auto simp: basic_AddKey_def wf_secret wf_pub basic_HaveKey_def basic_GetKey_def)

lemma SetCrypted_True: "fUseCrypto st \<Longrightarrow> SetCrypted st = (True, st)"
  by (simp add: SetCrypted_def)

lemma crypt_roundtrip:
  assumes "evp_documented V" "EncryptSecret V m p iv = Some c"
  shows "DecryptSecret V m c iv = Some p"
  using assms
  by (auto simp: EncryptSecret_def DecryptSecret_def SetKey_def Encrypt_def Decrypt_def evp_documented_def split: if_splits)

lemma GetKey_crypted:
  assumes "curve_documented E" "evp_documented V" "key_wf E k" "EncryptSecret V (vMasterKey st) (key_sec k) (pubkey_GetHash E (key_pub E k)) = Some c"
    and "fUseCrypto st" "map_of (mapCryptedKeys st) a = Some (key_pub E k, c)"
  shows "GetKey E V a key_Reset st = Inr (True, k)"
  using assms wf_secret [OF assms(3)] wf_pub(1) [OF assms(1,3)] wf_pub(3) [OF assms(1,3), of key_Reset] crypt_roundtrip [OF assms(2,4)]
  by (auto simp: GetKey_def IsCrypted_def key_Reset_def)

lemma AddKey_True:
  assumes "AddKey E V k st = (Inr True, st')" "curve_documented E" "key_wf E k"
  shows "\<not> HaveWatchOnly (SetDestination (DestKey (key_addr E k))) st \<and>
    (if fUseCrypto st then \<exists>c. EncryptSecret V (vMasterKey st) (key_sec k) (pubkey_GetHash E (key_pub E k)) = Some c
         \<and> st' = st\<lparr>mapCryptedKeys := map_set (key_addr E k) (key_pub E k, c) (mapCryptedKeys st)\<rparr>
     else st' = st\<lparr>mapKeys := map_set (key_addr E k) (key_sec k, fCompressedPubKey k) (mapKeys st)\<rparr>)"
  using assms
  by (auto simp: AddKey_def wf_secret wf_pub IsCrypted_def basic_AddKey_def AddCryptedKey_def SetCrypted_True
      split: if_splits option.splits)

interpretation crypto: key_registry "\<lambda>st. curve_documented E \<and> evp_documented V \<and> crypto_inv st" "key_wf E" "key_addr E"
    "AddKey E V" HaveKey "\<lambda>a. GetKey E V a key_Reset" for E V
proof
  fix s k s' a
  assume "curve_documented E \<and> evp_documented V \<and> crypto_inv s" and k: "key_wf E k" and a: "AddKey E V k s = (Inr True, s')"
  then have d: "curve_documented E" "evp_documented V" "crypto_inv s" by auto
  note A = AddKey_True [OF a d(1) k]
  show "curve_documented E \<and> evp_documented V \<and> crypto_inv s'"
    using A d by (auto simp: crypto_inv_def split: if_splits)
  show "HaveKey a s' \<longleftrightarrow> a = key_addr E k \<or> HaveKey a s"
    using A by (auto simp: HaveKey_def IsCrypted_def basic_HaveKey_def split: if_splits)
  show "GetKey E V (key_addr E k) key_Reset s' = Inr (True, k)"
  proof (cases "fUseCrypto s")
    case True
    then obtain c where c: "EncryptSecret V (vMasterKey s) (key_sec k) (pubkey_GetHash E (key_pub E k)) = Some c"
      "s' = s\<lparr>mapCryptedKeys := map_set (key_addr E k) (key_pub E k, c) (mapCryptedKeys s)\<rparr>" using A by auto
    show ?thesis using GetKey_crypted [OF d(1,2) k, of s' c] c True by simp
  next
    case False
    then show ?thesis using A k d(1) by (auto simp: GetKey_def IsCrypted_def basic_GetKey_def wf_secret)
  qed
  show "GetKey E V a key_Reset s' = GetKey E V a key_Reset s" if "a \<noteq> key_addr E k"
    using A that by (cases "fUseCrypto s") (auto simp: GetKey_def IsCrypted_def basic_GetKey_def cong: option.case_cong)
qed

section \<open>Encrypting a wallet\<close>

text \<open>The plain entries of a store are those of well-formed keys, one per address.\<close>

definition entry_of :: "ext \<Rightarrow> CKey \<Rightarrow> CKeyID \<times> CSecret \<times> bool" where
  "entry_of E k = (key_addr E k, key_sec k, fCompressedPubKey k)"

definition plain_ok :: "ext \<Rightarrow> (CKeyID \<times> CSecret \<times> bool) list \<Rightarrow> bool" where
  "plain_ok E ks \<longleftrightarrow> distinct (map fst ks) \<and> (\<forall>e \<in> set ks. \<exists>k. key_wf E k \<and> e = entry_of E k)"

lemma encrypt_loop_True:
  assumes "curve_documented E"
  shows "fUseCrypto st \<Longrightarrow> plain_ok E ks \<Longrightarrow> encrypt_loop E V m ks st = (Inr True, st') \<Longrightarrow>
    \<exists>M. st' = st\<lparr>mapCryptedKeys := M\<rparr> \<and> (\<forall>a. a \<notin> fst ` set ks \<longrightarrow> map_of M a = map_of (mapCryptedKeys st) a)
      \<and> (\<forall>k. key_wf E k \<and> entry_of E k \<in> set ks \<longrightarrow>
           (\<exists>c. EncryptSecret V m (key_sec k) (pubkey_GetHash E (key_pub E k)) = Some c
              \<and> map_of M (key_addr E k) = Some (key_pub E k, c)))"
proof (induction ks arbitrary: st)
  case Nil
  then show ?case by (intro exI [of _ "mapCryptedKeys st"]) simp
next
  case (Cons e ks)
  obtain k where k: "key_wf E k" "e = entry_of E k" using Cons.prems(2) by (auto simp: plain_ok_def)
  note w = wf_secret(1-3) [OF k(1)] wf_pub(1) [OF assms k(1)]
  obtain c where c: "EncryptSecret V m (key_sec k) (pubkey_GetHash E (key_pub E k)) = Some c"
    using Cons.prems(3) w by (auto simp: k(2) entry_of_def split: option.splits)
  let ?st = "st\<lparr>mapCryptedKeys := map_set (key_addr E k) (key_pub E k, c) (mapCryptedKeys st)\<rparr>"
  have "encrypt_loop E V m ks ?st = (Inr True, st')"
    using Cons.prems(1,3) w c by (simp add: k(2) entry_of_def AddCryptedKey_def SetCrypted_True)
  moreover have "plain_ok E ks" using Cons.prems(2) by (simp add: plain_ok_def)
  ultimately obtain M where M: "st' = ?st\<lparr>mapCryptedKeys := M\<rparr>"
    "\<And>a. a \<notin> fst ` set ks \<Longrightarrow> map_of M a = map_of (mapCryptedKeys ?st) a"
    "\<And>k. key_wf E k \<Longrightarrow> entry_of E k \<in> set ks \<Longrightarrow>
       \<exists>c. EncryptSecret V m (key_sec k) (pubkey_GetHash E (key_pub E k)) = Some c \<and> map_of M (key_addr E k) = Some (key_pub E k, c)"
    using Cons.IH [of ?st] Cons.prems(1) by auto
  have "map_of M (key_addr E k) = Some (key_pub E k, c)"
    using M(2) [of "key_addr E k"] Cons.prems(2) by (simp add: plain_ok_def k(2) entry_of_def)
  moreover have "k' = k" if "key_wf E k'" "entry_of E k' = e" for k'
  proof -
    have "key_sec k' = key_sec k" "fCompressedPubKey k' = fCompressedPubKey k" using that(2) by (simp_all add: k(2) entry_of_def)
    then have "key_SetSecret E (key_sec k) (fCompressedPubKey k) key_Reset = Inr k'" using wf_secret(3) [OF that(1)] by simp
    then show ?thesis using w(3) by simp
  qed
  ultimately have "\<exists>c. EncryptSecret V m (key_sec k') (pubkey_GetHash E (key_pub E k')) = Some c \<and> map_of M (key_addr E k') = Some (key_pub E k', c)"
    if "key_wf E k'" "entry_of E k' \<in> set (e # ks)" for k'
    using that M(3) c by auto
  moreover have "map_of M a = map_of (mapCryptedKeys st) a" if "a \<notin> fst ` set (e # ks)" for a
    using that M(2) [of a] by (simp add: k(2) entry_of_def)
  moreover have "st' = st\<lparr>mapCryptedKeys := M\<rparr>" using M(1) by simp
  ultimately show ?case by blast
qed

lemma GetKey_plain:
  assumes "\<not> fUseCrypto st" "key_wf E k" "map_of (mapKeys st) (key_addr E k) = Some (key_sec k, fCompressedPubKey k)"
  shows "GetKey E V (key_addr E k) key_Reset st = Inr (True, k)"
  using assms wf_secret(3) [OF assms(2)] by (simp add: GetKey_def IsCrypted_def basic_GetKey_def)

text \<open>The master key that encrypted the keys unlocks the store.\<close>

lemma try_master_True:
  assumes "curve_documented E" "evp_documented V"
    and "\<And>a pk c. map_of M a = Some (pk, c) \<Longrightarrow> \<exists>k. key_wf E k \<and> pk = key_pub E k
      \<and> EncryptSecret V m (key_sec k) (pubkey_GetHash E (key_pub E k)) = Some c"
  shows "try_master E V m M = Inr True"
proof (cases M)
  case (Cons x M')
  obtain a pk c where x: "x = (a, pk, c)" by (cases x)
  obtain k where k: "key_wf E k" "pk = key_pub E k" "EncryptSecret V m (key_sec k) (pubkey_GetHash E (key_pub E k)) = Some c"
    using assms(3) [of a pk c] by (auto simp: Cons x)
  show ?thesis using crypt_roundtrip [OF assms(2) k(3)] wf_secret(2) [OF k(1)] wf_pub(1) [OF assms(1) k(1)]
      wf_pub(3) [OF assms(1) k(1), of key_Reset] wf_secret(4) [OF k(1), of "snd (key_SetPubKey E (key_pub E k) key_Reset)"]
    by (simp add: try_master_def Cons x k(2) key_Reset_def)
qed (simp add: try_master_def)

text \<open>C10. Encrypting the keys of a store loses none: the store ends up locked, without plain keys and with the same
  addresses; the master key unlocks it, and every lookup then gives the key it gave before.\<close>

theorem encryption_keeps_keys:
  assumes "curve_documented E" and "evp_documented V" and "crypto_inv st" and "plain_ok E (mapKeys st)"
    and "EncryptKeys E V m st = (Inr True, st')"
  shows "IsLocked st' \<and> mapKeys st' = [] \<and> (\<forall>a. HaveKey a st' = HaveKey a st)
    \<and> (\<exists>st''. Unlock E V m st' = (Inr True, st'') \<and> (\<forall>a. GetKey E V a key_Reset st'' = GetKey E V a key_Reset st))"
proof -
  have st: "\<not> fUseCrypto st" "mapCryptedKeys st = []" "vMasterKey st = []"
    using assms(3,5) by (auto simp: EncryptKeys_def IsCrypted_def crypto_inv_def split: if_splits)
  obtain s where s: "encrypt_loop E V m (mapKeys st) (st\<lparr>fUseCrypto := True\<rparr>) = (Inr True, s)" "st' = s\<lparr>mapKeys := []\<rparr>"
    using assms(5) st by (auto simp: EncryptKeys_def IsCrypted_def split: prod.splits sum.splits bool.splits)
  obtain M where M: "s = st\<lparr>fUseCrypto := True, mapCryptedKeys := M\<rparr>"
    "\<And>a. a \<notin> fst ` set (mapKeys st) \<Longrightarrow> map_of M a = None"
    "\<And>k. key_wf E k \<Longrightarrow> entry_of E k \<in> set (mapKeys st) \<Longrightarrow>
       \<exists>c. EncryptSecret V m (key_sec k) (pubkey_GetHash E (key_pub E k)) = Some c \<and> map_of M (key_addr E k) = Some (key_pub E k, c)"
    using encrypt_loop_True [OF assms(1) _ assms(4) s(1)] st(2) by auto
  have key: "\<exists>k. key_wf E k \<and> entry_of E k \<in> set (mapKeys st) \<and> a = key_addr E k" if "a \<in> fst ` set (mapKeys st)" for a
    using that assms(4) by (auto simp: plain_ok_def entry_of_def) (metis fst_conv)
  have look: "map_of (mapKeys st) (key_addr E k) = Some (key_sec k, fCompressedPubKey k)"
    if "entry_of E k \<in> set (mapKeys st)" for k
    using that assms(4) by (simp add: plain_ok_def entry_of_def)
  have "try_master E V m M = Inr True"
  proof (rule try_master_True [OF assms(1,2)])
    fix a pk c assume a: "map_of M a = Some (pk, c)"
    then obtain k where k: "key_wf E k" "entry_of E k \<in> set (mapKeys st)" "a = key_addr E k"
      using M(2) key by (metis option.distinct(1))
    then show "\<exists>k. key_wf E k \<and> pk = key_pub E k \<and> EncryptSecret V m (key_sec k) (pubkey_GetHash E (key_pub E k)) = Some c"
      using M(3) a by fastforce
  qed
  then have unlock: "Unlock E V m st' = (Inr True, st'\<lparr>vMasterKey := m\<rparr>)"
    by (simp add: Unlock_def s(2) M(1) SetCrypted_True)
  have same: "HaveKey a st' = HaveKey a st \<and> GetKey E V a key_Reset (st'\<lparr>vMasterKey := m\<rparr>) = GetKey E V a key_Reset st" for a
  proof (cases "a \<in> fst ` set (mapKeys st)")
    case True
    then obtain k where k: "key_wf E k" "entry_of E k \<in> set (mapKeys st)" "a = key_addr E k" using key by blast
    obtain c where c: "EncryptSecret V m (key_sec k) (pubkey_GetHash E (key_pub E k)) = Some c" "map_of M a = Some (key_pub E k, c)"
      using M(3) [OF k(1,2)] k(3) by blast
    have "GetKey E V a key_Reset (st'\<lparr>vMasterKey := m\<rparr>) = Inr (True, k)"
      by (rule GetKey_crypted [OF assms(1,2) k(1)]) (use c in \<open>simp_all add: s(2) M(1)\<close>)
    then show ?thesis using GetKey_plain [OF st(1) k(1) look [OF k(2)]] look [OF k(2)] c(2) st(1)
      by (simp add: HaveKey_def IsCrypted_def basic_HaveKey_def s(2) M(1) k(3))
  next
    case False
    then have "map_of (mapKeys st) a = None" by (simp add: map_of_eq_None_iff)
    then show ?thesis using M(2) [OF False] st(1)
      by (simp add: HaveKey_def GetKey_def IsCrypted_def basic_HaveKey_def basic_GetKey_def s(2) M(1))
  qed
  show ?thesis using unlock same st by (auto simp: IsLocked_def IsCrypted_def s(2) M(1))
qed

text \<open>A concrete instance: one curve point, and a cipher that appends a padding byte.\<close>

definition ext_curve :: ext where
  "ext_curve = ext_example\<lparr>
     EC_KEY_regenerate_key := (\<lambda>d. Some [1]),
     i2o_ECPublicKey := (\<lambda>q f. if f = 2 then replicate 33 2 else replicate 65 4),
     o2i_ECPublicKey := (\<lambda>b. if b = replicate 33 2 then Some ([1], 2) else if b = replicate 65 4 then Some ([1], 4) else None)\<rparr>"

definition evp_toy :: evp where
  "evp_toy = \<lparr> EVP_encrypt = (\<lambda>k iv p. Some (p @ [1])), EVP_decrypt = (\<lambda>k iv c. Some (butlast c)),
     EVP_BytesToKey = (\<lambda>salt d n. (32, replicate 32 1, replicate 16 0)) \<rparr>"

definition one_key :: CKey where "one_key = key_of 5 [1] True"

definition one_key_store :: CCryptoKeyStore where
  "one_key_store = crypto_new\<lparr>mapKeys := [entry_of ext_curve one_key]\<rparr>"

lemma curve_example: "curve_documented ext_curve" "evp_documented evp_toy" "key_wf ext_curve one_key"
proof -
  have "replicate 65 (4 :: byte) \<noteq> replicate 33 2" by (metis length_replicate numeral_eq_iff semiring_norm(89,90,85,86,87,88))
  then show "curve_documented ext_curve" by (simp add: curve_documented_def ext_curve_def)
qed (auto simp: evp_documented_def evp_toy_def key_wf_def one_key_def ext_curve_def)

lemma one_key_store_ok: "crypto_inv one_key_store" "plain_ok ext_curve (mapKeys one_key_store)"
  using curve_example(3) by (auto simp: crypto_inv_def one_key_store_def crypto_new_def plain_ok_def)

theorem encryption_keeps_keys_witness:
  "\<exists>st' st''. EncryptKeys ext_curve evp_toy (replicate 32 9) one_key_store = (Inr True, st') \<and> IsLocked st'
    \<and> Unlock ext_curve evp_toy (replicate 32 9) st' = (Inr True, st'')
    \<and> GetKey ext_curve evp_toy (key_addr ext_curve one_key) key_Reset st'' = Inr (True, one_key)"
proof -
  note w = wf_secret(1-3) [OF curve_example(3)] wf_pub(1) [OF curve_example(1,3)]
  obtain st' where st': "EncryptKeys ext_curve evp_toy (replicate 32 9) one_key_store = (Inr True, st')"
    using w by (simp add: EncryptKeys_def one_key_store_def crypto_new_def IsCrypted_def entry_of_def EncryptSecret_def
        SetKey_def Encrypt_def evp_toy_def AddCryptedKey_def SetCrypted_True WALLET_CRYPTO_KEY_SIZE_def ser_uint256_def)
  have "GetKey ext_curve evp_toy (key_addr ext_curve one_key) key_Reset one_key_store = Inr (True, one_key)"
    by (rule GetKey_plain [OF _ curve_example(3)]) (simp_all add: one_key_store_def crypto_new_def entry_of_def)
  with encryption_keeps_keys [OF curve_example(1,2) one_key_store_ok st'] st' show ?thesis by auto
qed

section \<open>The invariant of the encrypted store\<close>

text \<open>The states a store reaches through its operations, with whatever result.  Of encrypting only the successful runs
  are steps.\<close>

inductive store_reachable :: "ext \<Rightarrow> evp \<Rightarrow> CCryptoKeyStore \<Rightarrow> bool" for E V where
  new: "store_reachable E V crypto_new"
| add_key: "store_reachable E V st \<Longrightarrow> store_reachable E V (snd (AddKey E V k st))"
| add_crypted: "store_reachable E V st \<Longrightarrow> store_reachable E V (snd (AddCryptedKey E pk c st))"
| add_script: "store_reachable E V st \<Longrightarrow> store_reachable E V (snd (AddCScript E s st))"
| add_watch: "store_reachable E V st \<Longrightarrow> store_reachable E V (snd (AddWatchOnly E HaveKey s st))"
| set_crypted: "store_reachable E V st \<Longrightarrow> store_reachable E V (snd (SetCrypted st))"
| lock: "store_reachable E V st \<Longrightarrow> store_reachable E V (snd (Lock st))"
| unlock: "store_reachable E V st \<Longrightarrow> store_reachable E V (snd (Unlock E V m st))"
| encrypt: "store_reachable E V st \<Longrightarrow> EncryptKeys E V m st = (Inr True, st') \<Longrightarrow> store_reachable E V st'"

lemma SetCrypted_inv:
  assumes "crypto_inv st"
  shows "crypto_inv (snd (SetCrypted st)) \<and> (fst (SetCrypted st) \<longrightarrow> fUseCrypto (snd (SetCrypted st)))"
  using assms by (auto simp: SetCrypted_def crypto_inv_def)

lemma AddCryptedKey_inv: "crypto_inv st \<Longrightarrow> crypto_inv (snd (AddCryptedKey E pk c st))"
  using SetCrypted_inv [of st] by (auto simp: AddCryptedKey_def crypto_inv_def split_beta)

lemma AddKey_inv:
  assumes "crypto_inv st"
  shows "crypto_inv (snd (AddKey E V k st))"
proof -
  have "crypto_inv (snd (basic_AddKey E k st))" if "\<not> fUseCrypto st"
    using assms that by (auto simp: basic_AddKey_def crypto_inv_def split: sum.splits)
  then show ?thesis using assms AddCryptedKey_inv [OF assms]
    by (auto simp: AddKey_def IsCrypted_def split_beta split: sum.splits option.splits)
qed

lemma Lock_inv: "crypto_inv st \<Longrightarrow> crypto_inv (snd (Lock st))"
  using SetCrypted_inv [of st] by (auto simp: Lock_def crypto_inv_def split_beta)

lemma Unlock_inv: "crypto_inv st \<Longrightarrow> crypto_inv (snd (Unlock E V m st))"
  using SetCrypted_inv [of st] by (auto simp: Unlock_def crypto_inv_def split_beta split: sum.splits bool.splits)

lemma encrypt_loop_flag: "fUseCrypto st \<Longrightarrow> fUseCrypto (snd (encrypt_loop E V m ks st))"
proof (induction E V m ks st rule: encrypt_loop.induct)
  case (2 E V m a s c ks st)
  have "fUseCrypto (snd (AddCryptedKey E pk x st))" for pk x
    using 2(2) by (simp add: AddCryptedKey_def SetCrypted_True)
  then have "fUseCrypto st'" if "AddCryptedKey E pk x st = (b, st')" for pk x b st' using that by (metis snd_conv)
  then show ?case using 2 by (auto split: sum.splits option.splits prod.splits bool.splits)
qed simp

lemma EncryptKeys_inv: "EncryptKeys E V m st = (Inr True, st') \<Longrightarrow> crypto_inv st'"
  using encrypt_loop_flag [of "st\<lparr>fUseCrypto := True\<rparr>" E V m "mapKeys st"]
  by (auto simp: EncryptKeys_def crypto_inv_def split: prod.splits sum.splits bool.splits if_splits)



text \<open>An attempt to encrypt that fails after the flag is set leaves the store marked as encrypted with its plain keys in place:
  the invariant above is for the successful runs only.\<close>

theorem failed_encryption:
  assumes "curve_documented E" "plain_ok E (mapKeys st)" "mapKeys st \<noteq> []" "\<not> fUseCrypto st" "mapCryptedKeys st = []"
    and "length m \<noteq> WALLET_CRYPTO_KEY_SIZE"
  shows "EncryptKeys E V m st = (Inr False, st\<lparr>fUseCrypto := True\<rparr>) \<and> \<not> crypto_inv (st\<lparr>fUseCrypto := True\<rparr>)"
proof -
  obtain e ks where e: "mapKeys st = e # ks" using assms(3) by (cases "mapKeys st") auto
  then obtain k where k: "key_wf E k" "e = entry_of E k" using assms(2) by (auto simp: plain_ok_def)
  show ?thesis using assms(4-6) wf_secret(1-3) [OF k(1)] wf_pub(1) [OF assms(1) k(1)]
    by (simp add: EncryptKeys_def IsCrypted_def e k(2) entry_of_def EncryptSecret_def SetKey_def crypto_inv_def)
qed

section \<open>Keys that were added\<close>

text \<open>After well-formed keys with different addresses were added one by one, plain or encrypted, each is found again as it
  was, and the output script of its address is recognised as spendable.\<close>

theorem added_keys_spendable:
  assumes "curve_documented E" and "evp_documented V" and "crypto_inv st" and "list_all (key_wf E) ks"
    and "distinct (map (key_addr E) ks)" and "add_keys (AddKey E V) ks st = Some st'" and "k \<in> set ks"
  shows "GetKey E V (key_addr E k) key_Reset st' = Inr (True, k)
    \<and> IsMine E (store_view E V st') (SetDestination (DestKey (key_addr E k))) = Some MINE_SPENDABLE"
proof -
  have "HaveKey (key_addr E k) st' \<and> GetKey E V (key_addr E k) key_Reset st' = Inr (True, k)"
    by (rule crypto.all_retrievable [OF _ assms(4-7)]) (use assms(1-3) in simp)
  then show ?thesis by (subst IsMine.simps) (simp add: Solver_dest_key store_view_def)
qed

theorem added_keys_spendable_witness:
  "\<exists>st'. add_keys (AddKey ext_curve evp_toy) [one_key] crypto_new = Some st'
    \<and> IsMine ext_curve (store_view ext_curve evp_toy st') (SetDestination (DestKey (key_addr ext_curve one_key))) = Some MINE_SPENDABLE"
proof -
  note w = wf_secret(1-3) [OF curve_example(3)] wf_pub(1) [OF curve_example(1,3)]
  obtain st' where st': "add_keys (AddKey ext_curve evp_toy) [one_key] crypto_new = Some st'"
    using w by (simp add: AddKey_def HaveWatchOnly_def IsCrypted_def basic_AddKey_def crypto_new_def)
  have "crypto_inv crypto_new" by (simp add: crypto_inv_def crypto_new_def)
  from added_keys_spendable [OF curve_example(1,2) this _ _ st', of one_key] curve_example(3) st' show ?thesis by simp
qed

end
