(* ===== verification/Scrypt.thy ===== *)
theory Scrypt
  imports Hobo_Prelude Ext_Crypto Serialize Tx_Data
begin

text \<open>
  The block hash: HMAC and PBKDF2 over SHA-256 (\<^verbatim>\<open>pbkdf2.cpp\<close>) and the generic scrypt core
  (\<^verbatim>\<open>scrypt.cpp\<close>).  A digest context is the list of bytes fed to it.  Arrays of \<^verbatim>\<open>unsigned int\<close> are
  lists of 32-bit words; a cast of such an array to bytes is little endian.  The unrolled Salsa20/8 rounds are the list
  of their assignments.
\<close>

unbundle bit_operations_syntax

section \<open>HMAC and PBKDF2\<close>

record HMAC_SHA256_CTX =
  ictx :: "byte list"
  octx :: "byte list"

text \<open>The loop \<^verbatim>\<open>pad[i] ^= K[i]\<close> over a pad of 64 equal bytes.\<close>

definition hmac_pad :: "byte \<Rightarrow> byte list \<Rightarrow> byte list" where
  "hmac_pad b K = fold (\<lambda>i pad. pad[i := pad ! i XOR K ! i]) [0..<length K] (replicate 64 b)"

definition HMAC_SHA256_Init :: "ext \<Rightarrow> byte list \<Rightarrow> HMAC_SHA256_CTX" where
  "HMAC_SHA256_Init E K =
     (let K = (if length K > 64 then SHA256 E K else K)
      in \<lparr> ictx = hmac_pad 0x36 K, octx = hmac_pad 0x5c K \<rparr>)"

definition HMAC_SHA256_Update :: "byte list \<Rightarrow> HMAC_SHA256_CTX \<Rightarrow> HMAC_SHA256_CTX" where
  "HMAC_SHA256_Update b ctx = ctx\<lparr>ictx := ictx ctx @ b\<rparr>"

definition HMAC_SHA256_Final :: "ext \<Rightarrow> HMAC_SHA256_CTX \<Rightarrow> byte list" where
  "HMAC_SHA256_Final E ctx = SHA256 E (octx ctx @ SHA256 E (ictx ctx))"

definition be32enc :: "u32 \<Rightarrow> byte list" where
  "be32enc x = [ucast (drop_bit 24 x AND 0xff), ucast (drop_bit 16 x AND 0xff), ucast (drop_bit 8 x AND 0xff), ucast (x AND 0xff)]"

text \<open>The loop over \<^verbatim>\<open>j\<close>: \<^verbatim>\<open>U\<close> is hashed again and added to \<^verbatim>\<open>T\<close>.\<close>

fun pbkdf2_rounds :: "ext \<Rightarrow> byte list \<Rightarrow> nat \<Rightarrow> byte list \<Rightarrow> byte list \<Rightarrow> byte list" where
  "pbkdf2_rounds E passwd 0 U T = T"
| "pbkdf2_rounds E passwd (Suc n) U T =
     (let U = HMAC_SHA256_Final E (HMAC_SHA256_Update U (HMAC_SHA256_Init E passwd))
      in pbkdf2_rounds E passwd n U (map2 (XOR) T U))"

function pbkdf2_blocks :: "ext \<Rightarrow> byte list \<Rightarrow> HMAC_SHA256_CTX \<Rightarrow> nat \<Rightarrow> nat \<Rightarrow> nat \<Rightarrow> byte list \<Rightarrow> byte list" where
  "pbkdf2_blocks E passwd PShctx c dkLen i buf =
     (if i * 32 < dkLen then
        let U = HMAC_SHA256_Final E (HMAC_SHA256_Update (be32enc (of_nat (i + 1))) PShctx);
            T = pbkdf2_rounds E passwd (c - 1) U U;
            clen = (if dkLen - i * 32 > 32 then 32 else dkLen - i * 32)
        in pbkdf2_blocks E passwd PShctx c dkLen (i + 1) (buf @ take clen T)
      else buf)"
  by pat_completeness auto
termination by (relation "measure (\<lambda>(E, passwd, ctx, c, dkLen, i, buf). dkLen - i * 32)") auto

declare pbkdf2_blocks.simps [simp del]

definition PBKDF2_SHA256 :: "ext \<Rightarrow> byte list \<Rightarrow> byte list \<Rightarrow> nat \<Rightarrow> nat \<Rightarrow> byte list" where
  "PBKDF2_SHA256 E passwd salt c dkLen =
     pbkdf2_blocks E passwd (HMAC_SHA256_Update salt (HMAC_SHA256_Init E passwd)) c dkLen 0 []"

section \<open>The Salsa20/8 core\<close>

definition R :: "u32 \<Rightarrow> nat \<Rightarrow> u32" where
  "R a b = (push_bit b a OR drop_bit (32 - b) a)"

text \<open>One assignment \<^verbatim>\<open>x[d] ^= R(x[a] + x[b], r)\<close>.\<close>

fun salsa_step :: "nat \<times> nat \<times> nat \<times> nat \<Rightarrow> u32 list \<Rightarrow> u32 list" where
  "salsa_step (d, a, b, r) x = x[d := x ! d XOR R (x ! a + x ! b) r]"

definition column_steps :: "(nat \<times> nat \<times> nat \<times> nat) list" where
  "column_steps =
     [(4, 0, 12, 7), (9, 5, 1, 7), (14, 10, 6, 7), (3, 15, 11, 7),
      (8, 4, 0, 9), (13, 9, 5, 9), (2, 14, 10, 9), (7, 3, 15, 9),
      (12, 8, 4, 13), (1, 13, 9, 13), (6, 2, 14, 13), (11, 7, 3, 13),
      (0, 12, 8, 18), (5, 1, 13, 18), (10, 6, 2, 18), (15, 11, 7, 18)]"

definition row_steps :: "(nat \<times> nat \<times> nat \<times> nat) list" where
  "row_steps =
     [(1, 0, 3, 7), (6, 5, 4, 7), (11, 10, 9, 7), (12, 15, 14, 7),
      (2, 1, 0, 9), (7, 6, 5, 9), (8, 11, 10, 9), (13, 12, 15, 9),
      (3, 2, 1, 13), (4, 7, 6, 13), (9, 8, 11, 13), (14, 13, 12, 13),
      (0, 3, 2, 18), (5, 4, 7, 18), (10, 9, 8, 18), (15, 14, 13, 18)]"

definition xor_salsa8 :: "u32 list \<Rightarrow> u32 list \<Rightarrow> u32 list" where
  "xor_salsa8 B Bx =
     (let B = map2 (XOR) B Bx;
          x = fold (\<lambda>_ x. fold salsa_step (column_steps @ row_steps) x) [0..<4] B
      in map2 (+) B x)"

section \<open>The memory-hard core\<close>

definition mix_halves :: "u32 list \<Rightarrow> u32 list" where
  "mix_halves X =
     (let lo = xor_salsa8 (take 16 X) (drop 16 X); hi = xor_salsa8 (drop 16 X) lo in lo @ hi)"

text \<open>\<^verbatim>\<open>memcpy(&V[i * 32], X, 128)\<close>.\<close>

definition store_block :: "nat \<Rightarrow> u32 list \<Rightarrow> u32 list \<Rightarrow> u32 list" where
  "store_block i X V = take (i * 32) V @ X @ drop (i * 32 + 32) V"

definition fill_step :: "nat \<Rightarrow> u32 list \<times> u32 list \<Rightarrow> u32 list \<times> u32 list" where
  "fill_step i XV = (case XV of (X, V) \<Rightarrow> (mix_halves X, store_block i X V))"

definition mix_step :: "u32 list \<Rightarrow> u32 list \<Rightarrow> u32 list" where
  "mix_step V X =
     (let j = 32 * unat (X ! 16 AND 1023);
          X = fold (\<lambda>k X. X[k := X ! k XOR V ! (j + k)]) [0..<32] X
      in mix_halves X)"

definition scrypt_core :: "u32 list \<Rightarrow> u32 list \<Rightarrow> u32 list" where
  "scrypt_core X V =
     (let (X, V) = fold fill_step [0..<1024] (X, V) in fold (\<lambda>_ X. mix_step V X) [0..<1024] X)"

text \<open>An array of words over its bytes.\<close>

fun words_of_bytes :: "byte list \<Rightarrow> u32 list" where
  "words_of_bytes (a # b # c # d # bs) = of_nat (le_nat [a, b, c, d]) # words_of_bytes bs"
| "words_of_bytes _ = []"

definition bytes_of_words :: "u32 list \<Rightarrow> byte list" where
  "bytes_of_words ws = concat (map ser_u32 ws)"

definition scrypt :: "ext \<Rightarrow> byte list \<Rightarrow> byte list \<Rightarrow> u32 list \<Rightarrow> uint256" where
  "scrypt E dat salt V =
     (let X = words_of_bytes (PBKDF2_SHA256 E dat salt 1 128);
          X = scrypt_core X V
      in uint256_of_bytes (PBKDF2_SHA256 E dat (bytes_of_words X) 1 32))"

definition scrypt_nosalt :: "ext \<Rightarrow> byte list \<Rightarrow> u32 list \<Rightarrow> uint256" where
  "scrypt_nosalt E input V =
     (let X = words_of_bytes (PBKDF2_SHA256 E input input 1 128);
          X = scrypt_core X V
      in uint256_of_bytes (PBKDF2_SHA256 E input (bytes_of_words X) 1 32))"

text \<open>The scratchpad on the stack holds whatever was there; it is an argument.\<close>

definition scrypt_hash :: "ext \<Rightarrow> u32 list \<Rightarrow> byte list \<Rightarrow> uint256" where
  "scrypt_hash E scratchpad input = scrypt_nosalt E input scratchpad"

definition scrypt_salted_hash :: "ext \<Rightarrow> u32 list \<Rightarrow> byte list \<Rightarrow> byte list \<Rightarrow> uint256" where
  "scrypt_salted_hash E scratchpad input salt = scrypt E input salt scratchpad"

definition scrypt_salted_multiround_hash :: "ext \<Rightarrow> u32 list \<Rightarrow> byte list \<Rightarrow> byte list \<Rightarrow> nat \<Rightarrow> uint256" where
  "scrypt_salted_multiround_hash E scratchpad input salt nRounds =
     fold (\<lambda>_ h. scrypt_salted_hash E scratchpad input (ser_uint256 h)) [1..<nRounds] (scrypt_salted_hash E scratchpad input salt)"

definition scrypt_blockhash :: "ext \<Rightarrow> u32 list \<Rightarrow> byte list \<Rightarrow> uint256" where
  "scrypt_blockhash E scratchpad input = scrypt_nosalt E (take 80 input) scratchpad"

section \<open>Reference definitions\<close>

text \<open>HMAC and PBKDF2 as their specifications have them.\<close>

definition hmac_key :: "ext \<Rightarrow> byte list \<Rightarrow> byte list" where
  "hmac_key E K = (let K = (if length K > 64 then SHA256 E K else K) in K @ replicate (64 - length K) 0)"

definition hmac_spec :: "ext \<Rightarrow> byte list \<Rightarrow> byte list \<Rightarrow> byte list" where
  "hmac_spec E K m = SHA256 E (map ((XOR) 0x5c) (hmac_key E K) @ SHA256 E (map ((XOR) 0x36) (hmac_key E K) @ m))"

fun pbkdf2_U :: "ext \<Rightarrow> byte list \<Rightarrow> byte list \<Rightarrow> nat \<Rightarrow> nat \<Rightarrow> byte list" where
  "pbkdf2_U E P S i 0 = hmac_spec E P (S @ be4 i)"
| "pbkdf2_U E P S i (Suc k) = hmac_spec E P (pbkdf2_U E P S i k)"

fun pbkdf2_F :: "ext \<Rightarrow> byte list \<Rightarrow> byte list \<Rightarrow> nat \<Rightarrow> nat \<Rightarrow> byte list" where
  "pbkdf2_F E P S i 0 = pbkdf2_U E P S i 0"
| "pbkdf2_F E P S i (Suc k) = map2 (XOR) (pbkdf2_F E P S i k) (pbkdf2_U E P S i (Suc k))"

definition pbkdf2_spec :: "ext \<Rightarrow> byte list \<Rightarrow> byte list \<Rightarrow> nat \<Rightarrow> nat \<Rightarrow> byte list" where
  "pbkdf2_spec E P S c dkLen = take dkLen (concat (map (\<lambda>i. pbkdf2_F E P S (i + 1) (c - 1)) [0..<(dkLen + 31) div 32]))"

text \<open>A Salsa20 double round by quarter rounds on the columns and the rows.\<close>

definition quarter :: "nat \<Rightarrow> nat \<Rightarrow> nat \<Rightarrow> nat \<Rightarrow> u32 list \<Rightarrow> u32 list" where
  "quarter a b c d x = fold salsa_step [(b, a, d, 7), (c, b, a, 9), (d, c, b, 13), (a, d, c, 18)] x"

definition column_round :: "u32 list \<Rightarrow> u32 list" where
  "column_round x = quarter 15 3 7 11 (quarter 10 14 2 6 (quarter 5 9 13 1 (quarter 0 4 8 12 x)))"

definition row_round :: "u32 list \<Rightarrow> u32 list" where
  "row_round x = quarter 15 12 13 14 (quarter 10 11 8 9 (quarter 5 6 7 4 (quarter 0 1 2 3 x)))"

definition salsa20_8 :: "u32 list \<Rightarrow> u32 list" where
  "salsa20_8 B = map2 (+) B (((row_round \<circ> column_round) ^^ 4) B)"

text \<open>Block mixing with two blocks, and the sequential memory-hard mixing with 1024 stored blocks.\<close>

definition block_mix :: "u32 list \<Rightarrow> u32 list" where
  "block_mix X =
     (let b0 = salsa20_8 (map2 (XOR) (take 16 X) (drop 16 X)); b1 = salsa20_8 (map2 (XOR) (drop 16 X) b0) in b0 @ b1)"

definition ro_mix :: "u32 list \<Rightarrow> u32 list" where
  "ro_mix X =
     (let step = (\<lambda>Y. block_mix (map2 (XOR) Y ((block_mix ^^ unat (Y ! 16 AND 1023)) X)))
      in (step ^^ 1024) ((block_mix ^^ 1024) X))"

section \<open>The key derivation is PBKDF2\<close>

lemma fold_update:
  "n \<le> length xs \<Longrightarrow> fold (\<lambda>i xs. xs[i := g i (xs ! i)]) [0..<n] xs = map (\<lambda>i. g i (xs ! i)) [0..<n] @ drop n xs"
proof (induction n)
  case (Suc n)
  then have "drop n xs = xs ! n # drop (Suc n) xs" by (simp add: Cons_nth_drop_Suc)
  with Suc show ?case by (simp add: nth_append list_update_append)
qed simp

lemma hmac_pad_spec:
  assumes "length K \<le> 64"
  shows "hmac_pad b K = map ((XOR) b) (K @ replicate (64 - length K) 0)"
proof -
  have "hmac_pad b K = map (\<lambda>i. b XOR K ! i) [0..<length K] @ replicate (64 - length K) b"
    unfolding hmac_pad_def using assms
    by (subst fold_update [where g = "\<lambda>i v. v XOR K ! i"]) (auto intro!: map_cong)
  moreover have "map (\<lambda>i. b XOR K ! i) [0..<length K] = map ((XOR) b) K"
    by (rule nth_equalityI) simp_all
  ultimately show ?thesis by simp
qed

lemma hmac_correct:
  assumes "hash_sizes E"
  shows "HMAC_SHA256_Final E (HMAC_SHA256_Update m (HMAC_SHA256_Init E K)) = hmac_spec E K m"
proof -
  let ?K = "if length K > 64 then SHA256 E K else K"
  have "length ?K \<le> 64" using assms by (auto simp: hash_sizes_def)
  then show ?thesis
    by (simp add: HMAC_SHA256_Final_def HMAC_SHA256_Update_def HMAC_SHA256_Init_def hmac_spec_def hmac_key_def Let_def hmac_pad_spec)
qed

lemma hmac_update_append:
  "HMAC_SHA256_Update b (HMAC_SHA256_Update a ctx) = HMAC_SHA256_Update (a @ b) ctx"
  by (simp add: HMAC_SHA256_Update_def)

lemma pbkdf2_rounds_F:
  assumes "hash_sizes E"
  shows "pbkdf2_rounds E P n (pbkdf2_U E P S i k) (pbkdf2_F E P S i k) = pbkdf2_F E P S i (k + n)"
proof (induction n arbitrary: k)
  case (Suc n)
  show ?case using Suc [of "Suc k"] by (simp add: hmac_correct [OF assms] Let_def)
qed simp

lemma ucast_drop_of_nat:
  assumes "n < 2 ^ 32"
  shows "(ucast (drop_bit k (of_nat n :: u32)) :: byte) = of_nat (n div 2 ^ k)"
proof -
  have "unat (of_nat n :: u32) = n" using assms by (simp add: unat_of_nat)
  then have "unat (drop_bit k (of_nat n :: u32)) = n div 2 ^ k"
    unfolding unat_drop_bit_eq by (simp add: drop_bit_eq_div)
  moreover have "(ucast w :: byte) = of_nat (unat w)" for w :: u32
    by (rule bit_word_eqI) (simp add: bit_simps)
  ultimately show ?thesis by metis
qed

lemma be32enc_be4:
  assumes "n < 2 ^ 32"
  shows "be32enc (of_nat n) = be4 n"
  using ucast_drop_of_nat [OF assms, of 0] ucast_drop_of_nat [OF assms, of 8] ucast_drop_of_nat [OF assms, of 16]
    ucast_drop_of_nat [OF assms, of 24]
  by (simp add: be32enc_def be4_def le_bytes_4)

lemma pbkdf2_blocks_spec:
  assumes "hash_sizes E" "1 \<le> c" "dkLen \<le> 32 * (2 ^ 32 - 1)"
  shows "i \<le> (dkLen + 31) div 32 \<Longrightarrow>
    pbkdf2_blocks E P (HMAC_SHA256_Update S (HMAC_SHA256_Init E P)) c dkLen i buf =
      buf @ take (dkLen - i * 32) (concat (map (\<lambda>i. pbkdf2_F E P S (i + 1) (c - 1)) [i..<(dkLen + 31) div 32]))"
proof (induction "(dkLen + 31) div 32 - i" arbitrary: i buf)
  case 0
  then have "\<not> i * 32 < dkLen" by linarith
  then show ?case by (simp add: pbkdf2_blocks.simps)
next
  case (Suc m)
  let ?n = "(dkLen + 31) div 32" and ?F = "\<lambda>i. pbkdf2_F E P S (i + 1) (c - 1)"
  have i: "i < ?n" "i * 32 < dkLen" "i + 1 < 2 ^ 32" using Suc.hyps(2) assms(3) by linarith+
  have len: "length (?F k) = 32" for k
  proof -
    have "length (hmac_spec E P m) = 32" for m using assms(1) by (simp add: hash_sizes_def hmac_spec_def)
    then have "length (pbkdf2_F E P S j k) = 32" for j k by (induction k) simp_all
    then show ?thesis by simp
  qed
  have U: "HMAC_SHA256_Final E (HMAC_SHA256_Update (be32enc (of_nat (i + 1))) (HMAC_SHA256_Update S (HMAC_SHA256_Init E P)))
      = pbkdf2_U E P S (i + 1) 0"
    using i(3) by (simp only: hmac_update_append hmac_correct [OF assms(1)] be32enc_be4 pbkdf2_U.simps)
  have T: "pbkdf2_rounds E P (c - 1) (pbkdf2_U E P S (i + 1) 0) (pbkdf2_U E P S (i + 1) 0) = ?F i"
    using pbkdf2_rounds_F [OF assms(1), of P "c - 1" S "i + 1" 0] by simp
  have up: "[i..<?n] = i # [Suc i..<?n]" using i(1) by (rule upt_conv_Cons)
  let ?l = "if dkLen - i * 32 > 32 then 32 else dkLen - i * 32"
  have "pbkdf2_blocks E P (HMAC_SHA256_Update S (HMAC_SHA256_Init E P)) c dkLen i buf
      = pbkdf2_blocks E P (HMAC_SHA256_Update S (HMAC_SHA256_Init E P)) c dkLen (i + 1) (buf @ take ?l (?F i))"
    by (subst pbkdf2_blocks.simps) (simp only: i(2) if_True Let_def U T)
  also have "\<dots> = (buf @ take ?l (?F i)) @ take (dkLen - (i + 1) * 32) (concat (map ?F [i + 1..<?n]))"
    by (rule Suc.hyps(1)) (use Suc.hyps(2) in linarith)+
  also have "\<dots> = buf @ take (dkLen - i * 32) (concat (map ?F [i..<?n]))"
    using len [of i] by (simp add: up add.commute)
  finally show ?case .
qed

lemma pbkdf2_correct:
  assumes "hash_sizes E" "1 \<le> c" "dkLen \<le> 32 * (2 ^ 32 - 1)"
  shows "PBKDF2_SHA256 E P S c dkLen = pbkdf2_spec E P S c dkLen"
  using pbkdf2_blocks_spec [OF assms, of 0 P S "[]"] by (simp add: PBKDF2_SHA256_def pbkdf2_spec_def)

section \<open>The unrolled rounds are Salsa20/8\<close>

text \<open>Assignments to different words that do not read each other's targets commute.\<close>

lemma salsa_step_commute:
  assumes "d \<noteq> d'" "d \<noteq> a'" "d \<noteq> b'" "d' \<noteq> a" "d' \<noteq> b"
  shows "salsa_step (d, a, b, r) (salsa_step (d', a', b', r') x) = salsa_step (d', a', b', r') (salsa_step (d, a, b, r) x)"
  using assms by (simp add: list_update_swap)

lemma column_round_unrolled: "length x = 16 \<Longrightarrow> fold salsa_step column_steps x = column_round x"
  by (simp add: column_steps_def column_round_def quarter_def list_update_swap)

lemma row_round_unrolled: "length x = 16 \<Longrightarrow> fold salsa_step row_steps x = row_round x"
  by (simp add: row_steps_def row_round_def quarter_def list_update_swap)

lemma length_salsa_steps [simp]: "length (fold salsa_step steps x) = length x"
proof (induction steps arbitrary: x)
  case (Cons s steps)
  then show ?case by (cases s) simp
qed simp

lemma fold_const_funpow: "fold (\<lambda>_. f) [m..<n] x = (f ^^ (n - m)) x"
proof (induction n)
  case (Suc n)
  then show ?case by (cases "m \<le> n") (simp_all add: Suc_diff_le)
qed simp

lemma length_quarter [simp]: "length (quarter a b c d x) = length x"
  by (simp only: quarter_def length_salsa_steps)

lemma length_rounds [simp]: "length (column_round x) = length x" "length (row_round x) = length x"
  by (simp_all add: column_round_def row_round_def)

lemma double_rounds:
  "length x = 16 \<Longrightarrow> ((\<lambda>x. fold salsa_step (column_steps @ row_steps) x) ^^ n) x = ((row_round \<circ> column_round) ^^ n) x
     \<and> length (((row_round \<circ> column_round) ^^ n) x) = 16"
  by (induction n) (simp_all add: column_round_unrolled row_round_unrolled)

lemma xor_salsa8_correct:
  assumes "length B = 16" "length Bx = 16"
  shows "xor_salsa8 B Bx = salsa20_8 (map2 (XOR) B Bx)" "length (xor_salsa8 B Bx) = 16"
proof -
  have l: "length (map2 (XOR) B Bx) = 16" using assms by simp
  have "fold (\<lambda>_ x. fold salsa_step (column_steps @ row_steps) x) [0..<4] (map2 (XOR) B Bx)
      = ((row_round \<circ> column_round) ^^ 4) (map2 (XOR) B Bx)"
    unfolding fold_const_funpow diff_zero using double_rounds [OF l, of 4] by (rule conjunct1)
  then show "xor_salsa8 B Bx = salsa20_8 (map2 (XOR) B Bx)" "length (xor_salsa8 B Bx) = 16"
    using l double_rounds [OF l, of 4] by (simp_all add: xor_salsa8_def salsa20_8_def Let_def)
qed

section \<open>The memory-hard core is sequential memory-hard mixing\<close>

lemma mix_halves_correct:
  assumes "length X = 32"
  shows "mix_halves X = block_mix X" "length (mix_halves X) = 32"
proof -
  have h: "length (take 16 X) = 16" "length (drop 16 X) = 16" using assms by simp_all
  note lo = xor_salsa8_correct [OF h]
  note hi = xor_salsa8_correct [OF h(2) lo(2)]
  show "mix_halves X = block_mix X" "length (mix_halves X) = 32"
    using lo hi by (simp_all add: mix_halves_def block_mix_def Let_def)
qed

lemma block_mix_powers:
  assumes "length X = 32"
  shows "length ((block_mix ^^ n) X) = 32 \<and> (mix_halves ^^ n) X = (block_mix ^^ n) X"
  using mix_halves_correct by (induction n) (simp_all add: assms)

definition block_at :: "nat \<Rightarrow> u32 list \<Rightarrow> u32 list" where
  "block_at k V = take 32 (drop (k * 32) V)"

lemma store_block:
  assumes "length X = 32" "i * 32 + 32 \<le> length V"
  shows "length (store_block i X V) = length V"
    "block_at k (store_block i X V) = (if k = i then X else block_at k V)"
proof -
  show "length (store_block i X V) = length V" using assms by (simp add: store_block_def)
  consider "k < i" | "k = i" | "i < k" by linarith
  then show "block_at k (store_block i X V) = (if k = i then X else block_at k V)"
  proof cases
    case 1
    then have "k * 32 + 32 \<le> i * 32" by linarith
    then show ?thesis using assms 1 by (simp add: block_at_def store_block_def take_drop min_def)
  next
    case 3
    then have "i * 32 + 32 \<le> k * 32" by linarith
    then show ?thesis using assms 3 by (simp add: block_at_def store_block_def)
  qed (use assms in \<open>simp add: block_at_def store_block_def\<close>)
qed

lemma fill_loop:
  assumes "length X = 32" "length V = 32 * 1024" "n \<le> 1024"
  shows "\<exists>V'. fold fill_step [0..<n] (X, V) = ((block_mix ^^ n) X, V') \<and> length V' = 32 * 1024
    \<and> (\<forall>k < n. block_at k V' = (block_mix ^^ k) X)"
  using assms(3)
proof (induction n)
  case (Suc n)
  then obtain V' where V': "fold fill_step [0..<n] (X, V) = ((block_mix ^^ n) X, V')" "length V' = 32 * 1024"
    "\<forall>k < n. block_at k V' = (block_mix ^^ k) X" by auto
  have l: "length ((block_mix ^^ n) X) = 32" using block_mix_powers [OF assms(1)] by blast
  have s: "n * 32 + 32 \<le> length V'" using Suc.prems V'(2) by simp
  note st = store_block [OF l s]
  have "fold fill_step [0..<Suc n] (X, V) = ((block_mix ^^ Suc n) X, store_block n ((block_mix ^^ n) X) V')"
    using V'(1) mix_halves_correct(1) [OF l] by (simp add: fill_step_def)
  then show ?case using st V'(2,3) by (auto simp: less_Suc_eq)
qed (simp add: assms)

lemma fold_xor_array:
  assumes "j + length Y \<le> length V"
  shows "fold (\<lambda>k Y. Y[k := Y ! k XOR V ! (j + k)]) [0..<length Y] Y = map2 (XOR) Y (take (length Y) (drop j V))"
proof -
  have "fold (\<lambda>k Y. Y[k := Y ! k XOR V ! (j + k)]) [0..<length Y] Y = map (\<lambda>k. Y ! k XOR V ! (j + k)) [0..<length Y]"
    by (subst fold_update [where g = "\<lambda>k v. v XOR V ! (j + k)"]) simp_all
  also have "\<dots> = map2 (XOR) Y (take (length Y) (drop j V))"
    using assms by (intro nth_equalityI) simp_all
  finally show ?thesis .
qed

lemma and_1023_less: "unat (x AND 1023 :: u32) < 1024"
proof -
  have "x AND 1023 \<le> 1023" by (rule word_and_le1)
  then show ?thesis by (simp add: word_le_nat_alt)
qed

lemma mix_step_correct:
  assumes "length Y = 32" "length V = 32 * 1024" "\<And>k. k < 1024 \<Longrightarrow> block_at k V = (block_mix ^^ k) X"
  shows "mix_step V Y = block_mix (map2 (XOR) Y ((block_mix ^^ unat (Y ! 16 AND 1023)) X)) \<and> length (mix_step V Y) = 32"
proof -
  let ?j = "unat (Y ! 16 AND 1023)"
  have b: "block_at ?j V = (block_mix ^^ ?j) X" by (rule assms(3) [OF and_1023_less])
  have j: "32 * ?j + length Y \<le> length V" using and_1023_less [of "Y ! 16"] assms(1,2) by linarith
  have "mix_step V Y = mix_halves (map2 (XOR) Y (block_at ?j V))"
    using fold_xor_array [OF j] unfolding mix_step_def Let_def block_at_def assms(1) mult.commute [of ?j] by metis
  moreover have "length (map2 (XOR) Y (block_at ?j V)) = 32" using j assms(1) by (simp add: block_at_def)
  ultimately show ?thesis using mix_halves_correct unfolding b by metis
qed

lemma scrypt_core_ro_mix:
  assumes "length X = 32" "length V = 32 * 1024"
  shows "scrypt_core X V = ro_mix X"
proof -
  obtain V' where V': "fold fill_step [0..<1024] (X, V) = ((block_mix ^^ 1024) X, V')" "length V' = 32 * 1024"
    "\<forall>k < 1024. block_at k V' = (block_mix ^^ k) X" using fill_loop [OF assms order_refl] by blast
  define step where "step Y = block_mix (map2 (XOR) Y ((block_mix ^^ unat (Y ! 16 AND 1023)) X))" for Y
  have m: "mix_step V' Y = step Y \<and> length (step Y) = 32" if "length Y = 32" for Y
    using mix_step_correct [OF that V'(2), of X] V'(3) unfolding step_def by metis
  have "(mix_step V' ^^ n) Y = (step ^^ n) Y \<and> length ((step ^^ n) Y) = 32" if "length Y = 32" for n Y
    by (induction n) (use m that in simp_all)
  moreover have "length ((block_mix ^^ 1024) X) = 32" using block_mix_powers [OF assms(1)] by blast
  ultimately have "(mix_step V' ^^ 1024) ((block_mix ^^ 1024) X) = (step ^^ 1024) ((block_mix ^^ 1024) X)" by blast
  moreover have "step = (\<lambda>Y. block_mix (map2 (XOR) Y ((block_mix ^^ unat (Y ! 16 AND 1023)) X)))" by (rule ext) (rule step_def)
  ultimately show ?thesis
    unfolding scrypt_core_def V'(1) Let_def ro_mix_def fold_const_funpow diff_zero prod.case by simp
qed

lemma length_words_of_bytes: "length (words_of_bytes b) = length b div 4"
  by (induction b rule: words_of_bytes.induct) simp_all

text \<open>C33. The block hash is scrypt with N = 1024, r = 1, p = 1 over the 80 header bytes, whatever the scratchpad held: the
  key derivation is PBKDF2 over HMAC, the unrolled rounds are Salsa20/8 by quarter rounds, and the loops over the array
  are sequential memory-hard mixing.\<close>

theorem blockhash_is_scrypt:
  assumes "hash_sizes E" and "length V = 32 * 1024"
  shows "scrypt_blockhash E V hdr =
    (let P = take 80 hdr
     in uint256_of_bytes (pbkdf2_spec E P (bytes_of_words (ro_mix (words_of_bytes (pbkdf2_spec E P P 1 128)))) 1 32))"
proof -
  have p: "PBKDF2_SHA256 E P S 1 n = pbkdf2_spec E P S 1 n" if "n \<le> 128" for P S n
    by (rule pbkdf2_correct [OF assms(1)]) (use that in simp_all)
  have "length (pbkdf2_U E P S i 0) = 32" for P S i using assms(1) by (simp add: hash_sizes_def hmac_spec_def)
  then have "length (pbkdf2_spec E P S 1 128) = 128" for P S
    by (simp add: pbkdf2_spec_def length_concat comp_def sum_list_triv)
  then have "length (words_of_bytes (pbkdf2_spec E P S 1 128)) = 32" for P S by (simp add: length_words_of_bytes)
  then show ?thesis
    using p [of 32] p [of 128] by (simp add: scrypt_blockhash_def scrypt_nosalt_def scrypt_core_ro_mix [OF _ assms(2)] Let_def)
qed

theorem blockhash_is_scrypt_witness:
  "scrypt_blockhash ext_example (replicate (32 * 1024) 5) [] = scrypt_blockhash ext_example (replicate (32 * 1024) 0) []"
  using blockhash_is_scrypt [OF ext_example_documented(3), of "replicate (32 * 1024) 5" "[]"]
    blockhash_is_scrypt [OF ext_example_documented(3), of "replicate (32 * 1024) 0" "[]"] by (simp only: length_replicate)

end
