(* ===== verification/Block.thy ===== *)
theory Block
  imports Hobo_Prelude Ext_Crypto Uint_Limbs Serialize Tx_Data Scrypt
begin

text \<open>
  Blocks (class \<^verbatim>\<open>CBlock\<close> of \<^verbatim>\<open>main.h\<close>): the header and its scrypt hash with the memoised copy, the network and
  header-only encodings, the classification of a block by its coin stake, the Merkle tree kept in one array with the
  branches read off it, and the header changes of the mining calls (\<^verbatim>\<open>miner.cpp\<close>, \<^verbatim>\<open>rpcmining.cpp\<close>).  The array
  routines are compared with the tree built row by row.
\<close>

unbundle bit_operations_syntax

section \<open>The block\<close>

text \<open>The misbehaviour score \<^verbatim>\<open>nDoS\<close> is not a field: a check that fails returns the score it adds.\<close>

record CBlock =
  blk_nVersion :: int
  hashPrevBlock :: uint256
  hashMerkleRoot :: uint256
  blk_nTime :: u32
  nBits :: u32
  nNonce :: u32
  vtx :: "CTransaction list"
  vchBlockSig :: valtype
  vMerkleTree :: "uint256 list"
  hashCache :: uint256
  fHashCached :: bool

definition blk_SetNull :: "CBlock \<Rightarrow> CBlock" where
  "blk_SetNull b = b\<lparr> blk_nVersion := 4, hashPrevBlock := 0, hashMerkleRoot := 0, blk_nTime := 0, nBits := 0, nNonce := 0,
     vtx := [], vchBlockSig := [], vMerkleTree := [], fHashCached := False \<rparr>"

definition CBlock_new :: CBlock where
  "CBlock_new = blk_SetNull \<lparr> blk_nVersion = 0, hashPrevBlock = 0, hashMerkleRoot = 0, blk_nTime = 0, nBits = 0, nNonce = 0,
     vtx = [], vchBlockSig = [], vMerkleTree = [], hashCache = 0, fHashCached = False \<rparr>"

definition blk_IsNull :: "CBlock \<Rightarrow> bool" where
  "blk_IsNull b \<longleftrightarrow> nBits b = 0"

definition ser_header :: "CBlock \<Rightarrow> valtype" where
  "ser_header b = ser_i32 (blk_nVersion b) @ ser_uint256 (hashPrevBlock b) @ ser_uint256 (hashMerkleRoot b)
     @ ser_u32 (blk_nTime b) @ ser_u32 (nBits b) @ ser_u32 (nNonce b)"

text \<open>Element size of the x86-64 build, which fixes the growth step of the vector reader.\<close>

definition sizeof_CTransaction :: nat where "sizeof_CTransaction = 64"

definition ser_block :: "CBlock \<Rightarrow> valtype" where
  "ser_block b = ser_header b @ ser_vector ser_tx (vtx b) @ ser_bytes (vchBlockSig b)"

text \<open>Reading overwrites an existing object and drops its cached hash.\<close>

definition unser_header :: "CBlock \<Rightarrow> CBlock reader" where
  "unser_header b s = rbind (unser_i32 s) (\<lambda>v s. rbind (unser_uint256 s) (\<lambda>p s. rbind (unser_uint256 s) (\<lambda>m s.
     rbind (unser_u32 s) (\<lambda>t s. rbind (unser_u32 s) (\<lambda>bi s. rbind (unser_u32 s) (\<lambda>n s.
       Inr (b\<lparr> blk_nVersion := v, hashPrevBlock := p, hashMerkleRoot := m, blk_nTime := t, nBits := bi, nNonce := n \<rparr>, s)))))))"

definition unser_block :: "bool \<Rightarrow> CBlock \<Rightarrow> CBlock reader" where
  "unser_block header_only b s = rbind (unser_header b s) (\<lambda>b s.
     if header_only then Inr (b\<lparr> vtx := [], vchBlockSig := [], fHashCached := False \<rparr>, s)
     else rbind (unser_vector (5000000 div sizeof_CTransaction) unser_tx s) (\<lambda>txs s. rbind (unser_bytes s) (\<lambda>sg s.
       Inr (b\<lparr> vtx := txs, vchBlockSig := sg, fHashCached := False \<rparr>, s))))"

text \<open>The 80 header bytes start at \<^verbatim>\<open>nVersion\<close>.  The scratchpad is uninitialised stack memory; by
  \<open>scrypt_core_ro_mix\<close> its contents do not matter.\<close>

definition SCRATCHPAD :: "u32 list" where "SCRATCHPAD = replicate (32 * 1024) 0"

definition header_hash :: "ext \<Rightarrow> CBlock \<Rightarrow> uint256" where
  "header_hash E b = scrypt_blockhash E SCRATCHPAD (ser_header b)"

definition blk_GetHash :: "ext \<Rightarrow> CBlock \<Rightarrow> uint256 \<times> CBlock" where
  "blk_GetHash E b =
     (let b = (if fHashCached b then b else b\<lparr> hashCache := header_hash E b, fHashCached := True \<rparr>)
      in (hashCache b, b))"

definition blk_GetBlockTime :: "CBlock \<Rightarrow> int" where
  "blk_GetBlockTime b = uint (blk_nTime b)"

text \<open>\<^verbatim>\<open>nTime\<close> takes the low 32 bits of the later of its own value and the adjusted time.\<close>

definition UpdateTime :: "int \<Rightarrow> CBlock \<Rightarrow> CBlock" where
  "UpdateTime GetAdjustedTime b =
     b\<lparr> blk_nTime := of_int (max (blk_GetBlockTime b) GetAdjustedTime), fHashCached := False \<rparr>"

definition blk_IsProofOfStake :: "CBlock \<Rightarrow> bool" where
  "blk_IsProofOfStake b \<longleftrightarrow> length (vtx b) > 1 \<and> IsCoinStake (vtx b ! 1)"

definition blk_IsProofOfWork :: "CBlock \<Rightarrow> bool" where
  "blk_IsProofOfWork b \<longleftrightarrow> \<not> blk_IsProofOfStake b"

definition GetProofOfStake :: "CBlock \<Rightarrow> COutPoint \<times> u32" where
  "GetProofOfStake b =
     (if blk_IsProofOfStake b then (prevout (vin (vtx b ! 1) ! 0), tx_nTime (vtx b ! 1)) else (op_SetNull, 0))"

definition GetMaxTransactionTime :: "CBlock \<Rightarrow> int" where
  "GetMaxTransactionTime b = fold (\<lambda>tx t. max t (uint (tx_nTime tx))) (vtx b) 0"

text \<open>The entropy bit for the stake modifier: the last bit of the block hash, and before block 9689 the first bit of the
  hash of the block signature.\<close>

definition blk_GetStakeEntropyBit :: "ext \<Rightarrow> bool \<Rightarrow> u32 \<Rightarrow> CBlock \<Rightarrow> u32 \<times> CBlock" where
  "blk_GetStakeEntropyBit E fTestNet nHeight b =
     (if nHeight \<ge> 9689 \<or> fTestNet
      then (let (h, b) = blk_GetHash E b in (ucast ((ucast h :: u64) AND 1), b))
      else (ucast (ucast (drop_bit 159 (Hash160 E (vchBlockSig b))) :: u64), b))"

section \<open>The Merkle tree\<close>

definition merkle_node :: "ext \<Rightarrow> uint256 \<Rightarrow> uint256 \<Rightarrow> uint256" where
  "merkle_node E l r = Hash2 E (ser_uint256 l) (ser_uint256 r)"

function merkle_row :: "ext \<Rightarrow> nat \<Rightarrow> nat \<Rightarrow> nat \<Rightarrow> uint256 list \<Rightarrow> uint256 list" where
  "merkle_row E j nSize i t =
     (if i < nSize
      then let i2 = min (i + 1) (nSize - 1)
           in merkle_row E j nSize (i + 2) (t @ [merkle_node E (t ! (j + i)) (t ! (j + i2))])
      else t)"
  by pat_completeness auto
termination by (relation "measure (\<lambda>(E, j, nSize, i, t). nSize - i)") auto

function merkle_rows :: "ext \<Rightarrow> nat \<Rightarrow> nat \<Rightarrow> uint256 list \<Rightarrow> uint256 list" where
  "merkle_rows E j nSize t =
     (if nSize > 1 then merkle_rows E (j + nSize) ((nSize + 1) div 2) (merkle_row E j nSize 0 t) else t)"
  by pat_completeness auto
termination by (relation "measure (\<lambda>(E, j, nSize, t). nSize)") auto

declare merkle_row.simps [simp del] merkle_rows.simps [simp del]

definition BuildMerkleTree :: "ext \<Rightarrow> CBlock \<Rightarrow> uint256 \<times> CBlock" where
  "BuildMerkleTree E b =
     (let t = merkle_rows E 0 (length (vtx b)) (map (tx_GetHash E) (vtx b))
      in (if t = [] then 0 else last t, b\<lparr> vMerkleTree := t \<rparr>))"

function merkle_branch_loop :: "uint256 list \<Rightarrow> nat \<Rightarrow> nat \<Rightarrow> int \<Rightarrow> uint256 list" where
  "merkle_branch_loop t j nSize nIndex =
     (if nSize > 1
      then let i = min (nIndex XOR 1) (int nSize - 1)
           in t ! nat (int j + i) # merkle_branch_loop t (j + nSize) ((nSize + 1) div 2) (drop_bit 1 nIndex)
      else [])"
  by pat_completeness auto
termination by (relation "measure (\<lambda>(t, j, nSize, nIndex). nSize)") auto

declare merkle_branch_loop.simps [simp del]

definition GetMerkleBranch :: "ext \<Rightarrow> int \<Rightarrow> CBlock \<Rightarrow> uint256 list \<times> CBlock" where
  "GetMerkleBranch E nIndex b =
     (let b = (if vMerkleTree b = [] then snd (BuildMerkleTree E b) else b)
      in (merkle_branch_loop (vMerkleTree b) 0 (length (vtx b)) nIndex, b))"

fun merkle_climb :: "ext \<Rightarrow> uint256 \<Rightarrow> uint256 list \<Rightarrow> int \<Rightarrow> uint256" where
  "merkle_climb E hash [] nIndex = hash"
| "merkle_climb E hash (otherside # rest) nIndex =
     merkle_climb E (if nIndex AND 1 \<noteq> 0 then merkle_node E otherside hash else merkle_node E hash otherside)
       rest (drop_bit 1 nIndex)"

definition CheckMerkleBranch :: "ext \<Rightarrow> uint256 \<Rightarrow> uint256 list \<Rightarrow> int \<Rightarrow> uint256" where
  "CheckMerkleBranch E hash vMerkleBranch nIndex = (if nIndex = - 1 then 0 else merkle_climb E hash vMerkleBranch nIndex)"

section \<open>Mining calls that change the header\<close>

text \<open>A \<^verbatim>\<open>getwork\<close> submission writes the time and the nonce of the submitted data into the saved block, restores the
  saved coin base script and rebuilds the Merkle root (\<^verbatim>\<open>rpcmining.cpp\<close>).\<close>

definition getwork_submit :: "ext \<Rightarrow> u32 \<Rightarrow> u32 \<Rightarrow> CScript \<Rightarrow> CBlock \<Rightarrow> CBlock" where
  "getwork_submit E pdata_nTime pdata_nNonce sig b =
     (let b = b\<lparr> blk_nTime := pdata_nTime, nNonce := pdata_nNonce \<rparr>;
          tx0 = vtx b ! 0;
          b = b\<lparr> vtx := (vtx b)[0 := tx0\<lparr> vin := (vin tx0)[0 := (vin tx0 ! 0)\<lparr> scriptSig := sig \<rparr>] \<rparr>] \<rparr>;
          (root, b) = BuildMerkleTree E b
      in b\<lparr> hashMerkleRoot := root \<rparr>)"

section \<open>Row-by-row reference\<close>

fun next_row :: "ext \<Rightarrow> uint256 list \<Rightarrow> uint256 list" where
  "next_row E [] = []"
| "next_row E [a] = [merkle_node E a a]"
| "next_row E (a # b # xs) = merkle_node E a b # next_row E xs"

lemma length_next_row [simp]: "length (next_row E xs) = (length xs + 1) div 2"
  by (induction E xs rule: next_row.induct) auto

function merkle_root :: "ext \<Rightarrow> uint256 list \<Rightarrow> uint256" where
  "merkle_root E xs = (if length xs > 1 then merkle_root E (next_row E xs) else if xs = [] then 0 else hd xs)"
  by pat_completeness auto
termination by (relation "measure (\<lambda>(E, xs). length xs)") auto

declare merkle_root.simps [simp del]

text \<open>The sibling hashes on the path from position \<open>k\<close> of the first row to the root.\<close>

function siblings :: "ext \<Rightarrow> uint256 list \<Rightarrow> nat \<Rightarrow> uint256 list" where
  "siblings E xs k =
     (if length xs > 1
      then xs ! (if odd k then k - 1 else min (k + 1) (length xs - 1)) # siblings E (next_row E xs) (k div 2)
      else [])"
  by pat_completeness auto
termination by (relation "measure (\<lambda>(E, xs, k). length xs)") auto

declare siblings.simps [simp del]

text \<open>The 64 bytes hashed at step \<open>i\<close> of a branch check.\<close>

fun climb_message :: "ext \<Rightarrow> uint256 \<Rightarrow> uint256 list \<Rightarrow> int \<Rightarrow> nat \<Rightarrow> valtype" where
  "climb_message E hash [] nIndex i = []"
| "climb_message E hash (otherside # rest) nIndex i =
     (let (l, r) = (if nIndex AND 1 \<noteq> 0 then (otherside, hash) else (hash, otherside))
      in case i of 0 \<Rightarrow> ser_uint256 l @ ser_uint256 r
         | Suc i \<Rightarrow> climb_message E (merkle_node E l r) rest (drop_bit 1 nIndex) i)"

section \<open>The array routines build the tree\<close>

lemma merkle_row_next:
  "merkle_row E (length pre) (length row) i (pre @ row @ acc) = pre @ row @ acc @ next_row E (drop i row)"
proof (induction "length row - i" arbitrary: i acc rule: less_induct)
  case less
  show ?case
  proof (cases "i < length row")
    case True
    let ?n = "merkle_node E (row ! i) (row ! min (i + 1) (length row - 1))"
    have at: "(row @ acc) ! k = row ! k" if "k < length row" for k using that by (simp add: nth_append)
    have "min (i + 1) (length row - 1) < length row" using True by simp
    note at = at [OF True] at [OF this]
    have "merkle_row E (length pre) (length row) i (pre @ row @ acc) =
        merkle_row E (length pre) (length row) (i + 2) (pre @ row @ (acc @ [?n]))"
      using True at by (subst merkle_row.simps) (simp add: Let_def)
    also have "\<dots> = pre @ row @ (acc @ [?n]) @ next_row E (drop (i + 2) row)"
      using True by (intro less) simp
    also have "next_row E (drop i row) = ?n # next_row E (drop (i + 2) row)"
    proof (cases "Suc i < length row")
      case True
      then have "drop i row = row ! i # row ! Suc i # drop (i + 2) row" by (simp add: Cons_nth_drop_Suc)
      with True show ?thesis by simp
    next
      case False
      with True have "drop i row = [row ! i]" "drop (i + 2) row = []" "length row - 1 = i"
        by (simp_all add: Cons_nth_drop_Suc [symmetric])
      then show ?thesis by simp
    qed
    ultimately show ?thesis by simp
  qed (simp add: merkle_row.simps)
qed

function merkle_levels :: "ext \<Rightarrow> uint256 list \<Rightarrow> uint256 list list" where
  "merkle_levels E row = (if length row > 1 then row # merkle_levels E (next_row E row) else [row])"
  by pat_completeness auto
termination by (relation "measure (\<lambda>(E, xs). length xs)") auto

declare merkle_levels.simps [simp del]

lemma merkle_rows_levels:
  "merkle_rows E (length pre) (length row) (pre @ row) = pre @ concat (merkle_levels E row)"
proof (induction E row arbitrary: pre rule: merkle_levels.induct)
  case (1 E row)
  show ?case
  proof (cases "length row > 1")
    case True
    have "merkle_rows E (length pre) (length row) (pre @ row) =
        merkle_rows E (length (pre @ row)) (length (next_row E row)) ((pre @ row) @ next_row E row)"
      using True merkle_row_next [of E pre row 0 "[]"] by (subst merkle_rows.simps) simp
    with True 1 [of "pre @ row"] show ?thesis by (simp add: merkle_levels.simps [of E row])
  qed (simp add: merkle_rows.simps merkle_levels.simps)
qed

lemma last_levels: "row \<noteq> [] \<Longrightarrow> concat (merkle_levels E row) \<noteq> [] \<and> last (concat (merkle_levels E row)) = merkle_root E row"
proof (induction E row rule: merkle_levels.induct)
  case (1 E row)
  show ?case
  proof (cases "length row > 1")
    case True
    then have "next_row E row \<noteq> []" using length_next_row [of E row] by fastforce
    with True 1 show ?thesis by (simp add: merkle_levels.simps [of E row] merkle_root.simps [of E row])
  next
    case False
    with 1 obtain x where "row = [x]" by (cases row) auto
    then show ?thesis by (simp add: merkle_levels.simps merkle_root.simps)
  qed
qed

definition tx_hashes :: "ext \<Rightarrow> CBlock \<Rightarrow> uint256 list" where
  "tx_hashes E b = map (tx_GetHash E) (vtx b)"

lemma BuildMerkleTree_root: "fst (BuildMerkleTree E b) = merkle_root E (tx_hashes E b)"
    and BuildMerkleTree_tree: "snd (BuildMerkleTree E b) = b\<lparr> vMerkleTree := concat (merkle_levels E (tx_hashes E b)) \<rparr>"
proof -
  have t: "merkle_rows E 0 (length (vtx b)) (map (tx_GetHash E) (vtx b)) = concat (merkle_levels E (tx_hashes E b))"
    using merkle_rows_levels [of E "[]" "tx_hashes E b"] by (simp add: tx_hashes_def)
  show "snd (BuildMerkleTree E b) = b\<lparr> vMerkleTree := concat (merkle_levels E (tx_hashes E b)) \<rparr>"
    by (simp add: BuildMerkleTree_def t Let_def)
  show "fst (BuildMerkleTree E b) = merkle_root E (tx_hashes E b)"
  proof (cases "tx_hashes E b = []")
    case True
    then show ?thesis by (simp add: BuildMerkleTree_def t Let_def merkle_levels.simps merkle_root.simps)
  next
    case False
    then show ?thesis using last_levels [OF False, of E] by (simp add: BuildMerkleTree_def t Let_def del: concat_eq_Nil_conv)
  qed
qed

section \<open>Branches\<close>

lemma int_xor_one: "int k XOR 1 = int (if odd k then k - 1 else k + 1)"
  by (auto simp: xor_one_eq elim: oddE)

lemma int_and_one: "int k AND 1 \<noteq> 0 \<longleftrightarrow> odd k"
  by (auto simp: and_one_eq mod2_eq_if)

lemma drop_bit_one_int: "drop_bit (Suc 0) (int k) = int (k div 2)"
  by (simp add: drop_bit_eq_div zdiv_int)

lemma branch_loop_siblings:
  "k < length row \<Longrightarrow>
    merkle_branch_loop (pre @ concat (merkle_levels E row)) (length pre) (length row) (int k) = siblings E row k"
proof (induction E row k arbitrary: pre rule: siblings.induct)
  case (1 E row k)
  show ?case
  proof (cases "length row > 1")
    case True
    let ?i = "if odd k then k - 1 else min (k + 1) (length row - 1)"
    have i: "min (int k XOR 1) (int (length row) - 1) = int ?i" using True "1.prems" by (auto simp: int_xor_one)
    have "?i < length row" using True "1.prems" by auto
    then have "(pre @ row @ xs) ! nat (int (length pre) + int ?i) = row ! ?i" for xs
      by (simp add: nat_int_add nth_append)
    moreover have "merkle_branch_loop ((pre @ row) @ concat (merkle_levels E (next_row E row))) (length (pre @ row))
        (length (next_row E row)) (int (k div 2)) = siblings E (next_row E row) (k div 2)"
      using "1.prems" True by (intro "1.IH") auto
    ultimately show ?thesis
      using True by (subst merkle_branch_loop.simps)
        (simp add: siblings.simps [of E row] merkle_levels.simps [of E row] i Let_def drop_bit_one_int)
  qed (simp add: merkle_branch_loop.simps siblings.simps)
qed

lemma nth_next_row:
  "k < length row \<Longrightarrow> next_row E row ! (k div 2) =
    (if odd k then merkle_node E (row ! (k - 1)) (row ! k)
     else merkle_node E (row ! k) (row ! min (k + 1) (length row - 1)))"
proof (induction E row arbitrary: k rule: next_row.induct)
  case (3 E a b xs)
  show ?case
  proof (cases "k < 2")
    case True
    then have "k = 0 \<or> k = 1" by auto
    then show ?thesis by auto
  next
    case False
    then obtain m where k: "k = Suc (Suc m)" using less_iff_Suc_add by (metis add_2_eq_Suc not_less le_Suc_ex)
    with 3 show ?thesis by (cases "odd m") (auto simp: min_def nth_Cons')
  qed
qed auto

lemma climb_siblings: "k < length row \<Longrightarrow> merkle_climb E (row ! k) (siblings E row k) (int k) = merkle_root E row"
proof (induction E row k rule: siblings.induct)
  case (1 E row k)
  show ?case
  proof (cases "length row > 1")
    case True
    have "merkle_climb E (row ! k) (siblings E row k) (int k) =
        merkle_climb E (next_row E row ! (k div 2)) (siblings E (next_row E row) (k div 2)) (int (k div 2))"
      using True nth_next_row [OF "1.prems", of E]
      by (simp add: siblings.simps [of E row] int_and_one drop_bit_one_int del: min_def)
    also have "\<dots> = merkle_root E (next_row E row)" using True "1.prems" by (intro "1.IH") auto
    finally show ?thesis using True by (simp add: merkle_root.simps [of E row])
  next
    case False
    with "1.prems" have "k = 0" "length row = 1" by auto
    then show ?thesis by (auto simp: siblings.simps merkle_root.simps hd_conv_nth)
  qed
qed

lemma ser_uint256_pair_inject: "ser_uint256 a @ ser_uint256 b = ser_uint256 c @ ser_uint256 d \<longleftrightarrow> a = c \<and> b = d"
  using c256.prefix_free [where x = a and y = c and r = "ser_uint256 b" and r' = "ser_uint256 d"] c256.ser_inject [of b d] by auto

lemma merkle_node_Hash: "merkle_node E l r = Hash E (ser_uint256 l @ ser_uint256 r)"
  by (simp add: merkle_node_def Hash2_def Hash_def)

text \<open>Two branches of one length that lead to one root are equal, or two different messages they hash collide.\<close>

lemma climb_inject:
  "length br = length br' \<Longrightarrow> merkle_climb E h br n = merkle_climb E h' br' n \<Longrightarrow>
    h = h' \<and> br = br' \<or>
    (\<exists>i < length br. climb_message E h br n i \<noteq> climb_message E h' br' n i \<and>
       Hash E (climb_message E h br n i) = Hash E (climb_message E h' br' n i))"
proof (induction br br' arbitrary: h h' n rule: list_induct2)
  case (Cons x br x' br')
  define up where "up a h = (if n AND 1 \<noteq> 0 then merkle_node E a h else merkle_node E h a)" for a h
  define msg where "msg a h = (if n AND 1 \<noteq> 0 then ser_uint256 a @ ser_uint256 h else ser_uint256 h @ ser_uint256 a)" for a h
  have msg: "climb_message E h (a # r) n 0 = msg a h" "climb_message E h (a # r) n (Suc i) = climb_message E (up a h) r (drop_bit 1 n) i"
    for a h r i by (simp_all add: msg_def up_def)
  have up: "up a h = Hash E (msg a h)" for a h by (simp add: up_def msg_def merkle_node_Hash)
  have inj: "msg a h = msg a' h' \<Longrightarrow> a = a' \<and> h = h'" for a h a' h'
    by (auto simp: msg_def ser_uint256_pair_inject split: if_splits)
  consider "up x h = up x' h'" "br = br'" | i where "i < length br"
      "climb_message E (up x h) br (drop_bit 1 n) i \<noteq> climb_message E (up x' h') br' (drop_bit 1 n) i"
      "Hash E (climb_message E (up x h) br (drop_bit 1 n) i) = Hash E (climb_message E (up x' h') br' (drop_bit 1 n) i)"
    using Cons.IH [of "up x h" "drop_bit 1 n" "up x' h'"] Cons.prems by (auto simp: up_def)
  then show ?case
  proof cases
    case 1
    then show ?thesis using inj [of x h x' h'] msg(1) [of h x br] msg(1) [of h' x' br'] up
      by (metis length_Cons zero_less_Suc)
  next
    case (2 i)
    then show ?thesis using msg(2) by (metis length_Cons Suc_less_eq)
  qed
qed simp

lemma GetMerkleBranch_siblings:
  assumes "vMerkleTree b = []" "k < length (vtx b)"
  shows "fst (GetMerkleBranch E (int k) b) = siblings E (tx_hashes E b) k"
  using branch_loop_siblings [of k "tx_hashes E b" "[]" E] assms
  by (simp add: GetMerkleBranch_def BuildMerkleTree_tree tx_hashes_def)

text \<open>Repeating the last transactions of an odd row does not change the root.\<close>

lemma next_row_repeat: "odd (length xs) \<Longrightarrow> next_row E (xs @ [last xs]) = next_row E xs"
  by (induction E xs rule: next_row.induct) auto

lemma merkle_root_repeat:
  assumes "odd (length xs)" "1 < length xs"
  shows "merkle_root E (xs @ [last xs]) = merkle_root E xs"
proof -
  have "xs \<noteq> []" using assms by auto
  then show ?thesis using assms by (simp add: merkle_root.simps [of E xs] merkle_root.simps [of E "xs @ [last xs]"] next_row_repeat)
qed

section \<open>Blocks are codecs\<close>

text \<open>A block object as the constructor and a read leave it: nothing in the memory-only fields.\<close>

definition block_ok :: "CBlock \<Rightarrow> bool" where
  "block_ok b \<longleftrightarrow> int32_range (blk_nVersion b) \<and> length (vtx b) \<le> MAX_SIZE \<and> list_all tx_ok (vtx b)
     \<and> length (vchBlockSig b) \<le> MAX_SIZE \<and> vMerkleTree b = [] \<and> hashCache b = 0 \<and> \<not> fHashCached b"

interpretation txs: codec "ser_vector ser_tx" "unser_vector (5000000 div sizeof_CTransaction) unser_tx"
    "\<lambda>v. length v \<le> MAX_SIZE \<and> list_all tx_ok v"
  by (rule codec_vector [OF tx.codec_axioms]) (simp add: sizeof_CTransaction_def)

interpretation block: codec ser_block "unser_block False CBlock_new" block_ok
  by (rule record_codec)
    (auto simp: ser_block_def unser_block_def ser_header_def unser_header_def block_ok_def unser_sers unser_iffs
      txs.unser_ser txs.unser_iff rbind_Inr CBlock_new_def blk_SetNull_def)

lemma unser_header_only:
  "int32_range (blk_nVersion b) \<Longrightarrow> unser_block True b' (ser_header b @ r) =
    Inr (b'\<lparr> blk_nVersion := blk_nVersion b, hashPrevBlock := hashPrevBlock b, hashMerkleRoot := hashMerkleRoot b,
      blk_nTime := blk_nTime b, nBits := nBits b, nNonce := nNonce b, vtx := [], vchBlockSig := [], fHashCached := False \<rparr>, r)"
  by (simp add: unser_block_def unser_header_def ser_header_def unser_sers)

lemma length_ser_header: "length (ser_header b) = 80"
  by (simp add: ser_header_def)

section \<open>The memoised hash\<close>

datatype block_op = OpSetNull | OpRead bool valtype | OpGetHash | OpUpdateTime int | OpBuildMerkleTree | OpGetMerkleBranch int

fun run_op :: "ext \<Rightarrow> block_op \<Rightarrow> CBlock \<Rightarrow> CBlock" where
  "run_op E OpSetNull b = blk_SetNull b"
| "run_op E (OpRead ho s) b = (case unser_block ho b s of Inl e \<Rightarrow> b | Inr (b', r) \<Rightarrow> b')"
| "run_op E OpGetHash b = snd (blk_GetHash E b)"
| "run_op E (OpUpdateTime t) b = UpdateTime t b"
| "run_op E OpBuildMerkleTree b = snd (BuildMerkleTree E b)"
| "run_op E (OpGetMerkleBranch n) b = snd (GetMerkleBranch E n b)"

definition hash_fresh :: "ext \<Rightarrow> CBlock \<Rightarrow> bool" where
  "hash_fresh E b \<longleftrightarrow> (fHashCached b \<longrightarrow> hashCache b = header_hash E b)"

lemma header_hash_cong [simp]:
  "header_hash E (b\<lparr> vMerkleTree := t \<rparr>) = header_hash E b"
  "header_hash E (b\<lparr> hashCache := h \<rparr>) = header_hash E b"
  "header_hash E (b\<lparr> fHashCached := c \<rparr>) = header_hash E b"
  by (simp_all add: header_hash_def ser_header_def)

lemma GetHash_fresh: "hash_fresh E b \<Longrightarrow> fst (blk_GetHash E b) = header_hash E b"
  by (auto simp: blk_GetHash_def hash_fresh_def)

lemma run_op_fresh: "hash_fresh E b \<Longrightarrow> hash_fresh E (run_op E op b)"
proof (induction E op b rule: run_op.induct)
  case (2 E ho s b)
  then show ?case
    by (auto simp: hash_fresh_def unser_block_def rbind_Inr split: sum.split if_splits)
qed (auto simp: hash_fresh_def blk_SetNull_def blk_GetHash_def UpdateTime_def BuildMerkleTree_tree GetMerkleBranch_def Let_def)

section \<open>Properties\<close>

text \<open>C16. A Merkle branch authenticates a transaction: the branch read off the tree of a block leads from the transaction's
  hash to the block's root, and any other hash with any other branch of that length that leads to the same root at the
  same position shows a collision, two different 64-byte messages of the two computations with one hash.\<close>

theorem merkle_branch_authenticates:
  assumes "vMerkleTree b = []" and "k < length (vtx b)"
  shows "let hash = tx_GetHash E (vtx b ! k); branch = fst (GetMerkleBranch E (int k) b); root = fst (BuildMerkleTree E b)
    in CheckMerkleBranch E hash branch (int k) = root \<and>
      (\<forall>h br. length br = length branch \<and> CheckMerkleBranch E h br (int k) = root \<longrightarrow>
         h = hash \<and> br = branch \<or>
         (\<exists>i < length br. climb_message E h br (int k) i \<noteq> climb_message E hash branch (int k) i \<and>
            Hash E (climb_message E h br (int k) i) = Hash E (climb_message E hash branch (int k) i)))"
proof -
  have h: "tx_GetHash E (vtx b ! k) = tx_hashes E b ! k" using assms(2) by (simp add: tx_hashes_def)
  have k: "k < length (tx_hashes E b)" using assms(2) by (simp add: tx_hashes_def)
  have good: "merkle_climb E (tx_hashes E b ! k) (siblings E (tx_hashes E b) k) (int k) = merkle_root E (tx_hashes E b)"
    by (rule climb_siblings [OF k])
  with climb_inject [of _ "siblings E (tx_hashes E b) k" E _ "int k" "tx_hashes E b ! k"] show ?thesis
    unfolding Let_def CheckMerkleBranch_def GetMerkleBranch_siblings [OF assms] BuildMerkleTree_root h by simp
qed

definition tx_example :: "u32 \<Rightarrow> CTransaction" where
  "tx_example t = \<lparr> tx_nVersion = 1, tx_nTime = t, vin = [], vout = [], nLockTime = 0 \<rparr>"

definition block_example :: CBlock where
  "block_example = CBlock_new\<lparr> vtx := [tx_example 1, tx_example 2, tx_example 3] \<rparr>"

theorem merkle_branch_authenticates_witness:
  "CheckMerkleBranch ext_example (tx_GetHash ext_example (tx_example 3)) (fst (GetMerkleBranch ext_example 2 block_example)) 2
    = fst (BuildMerkleTree ext_example block_example)"
  using merkle_branch_authenticates [of block_example 2 ext_example]
  by (simp add: block_example_def CBlock_new_def blk_SetNull_def Let_def)

text \<open>The hash a block object returns is the scrypt hash of its current header after every sequence of the operations
  of the class, the memoised copy included.\<close>

theorem cached_hash_correct:
  "fst (blk_GetHash E (fold (run_op E) ops CBlock_new)) = header_hash E (fold (run_op E) ops CBlock_new)"
proof -
  have "hash_fresh E b \<Longrightarrow> hash_fresh E (fold (run_op E) ops b)" for b
    by (induction ops arbitrary: b) (simp_all add: run_op_fresh)
  moreover have "hash_fresh E CBlock_new" by (simp add: hash_fresh_def CBlock_new_def blk_SetNull_def)
  ultimately show ?thesis by (intro GetHash_fresh)
qed


end
