(* ===== verification/Block_Index.thy ===== *)
theory Block_Index
  imports Hobo_Prelude Ext_Crypto Serialize Tx_Data Block
begin

text \<open>
  The block index (classes \<^verbatim>\<open>CBlockIndex\<close>, \<^verbatim>\<open>CDiskBlockIndex\<close> and \<^verbatim>\<open>CBlockLocator\<close> of \<^verbatim>\<open>main.h\<close>).  Every index
  object is owned by \<^verbatim>\<open>mapBlockIndex\<close> under the hash of its block, so a pointer to one is that hash and a null
  pointer is \<open>None\<close>.  A routine that only follows \<^verbatim>\<open>pprev\<close> takes the list of the objects it can reach: its head is
  the object pointed to, its tail is what \<^verbatim>\<open>pprev\<close> points to, and the empty list is the null pointer.
\<close>

unbundle bit_operations_syntax

section \<open>Index objects\<close>

type_synonym bptr = "uint256 option"

record CBlockIndex =
  phashBlock :: uint256
  pprev :: bptr
  pnext :: bptr
  bi_nFile :: u32
  bi_nBlockPos :: u32
  nChainTrust :: uint256
  nHeight :: int
  nMint :: int
  nMoneySupply :: int
  nFlags :: u32
  nStakeModifier :: u64
  nStakeModifierChecksum :: u32
  prevoutStake :: COutPoint
  nStakeTime :: u32
  hashProofOfStake :: uint256
  bi_nVersion :: int
  bi_hashMerkleRoot :: uint256
  bi_nTime :: u32
  bi_nBits :: u32
  bi_nNonce :: u32

type_synonym block_map = "uint256 \<rightharpoonup> CBlockIndex"
type_synonym pchain = "CBlockIndex list"

abbreviation (input) BLOCK_PROOF_OF_STAKE :: u32 where "BLOCK_PROOF_OF_STAKE \<equiv> 1"
abbreviation (input) BLOCK_STAKE_ENTROPY :: u32 where "BLOCK_STAKE_ENTROPY \<equiv> 2"
abbreviation (input) BLOCK_STAKE_MODIFIER :: u32 where "BLOCK_STAKE_MODIFIER \<equiv> 4"

definition CBlockIndex_new :: CBlockIndex where
  "CBlockIndex_new = \<lparr> phashBlock = 0, pprev = None, pnext = None, bi_nFile = 0, bi_nBlockPos = 0, nChainTrust = 0, nHeight = 0,
     nMint = 0, nMoneySupply = 0, nFlags = 0, nStakeModifier = 0, nStakeModifierChecksum = 0, prevoutStake = op_SetNull,
     nStakeTime = 0, hashProofOfStake = 0, bi_nVersion = 0, bi_hashMerkleRoot = 0, bi_nTime = 0, bi_nBits = 0, bi_nNonce = 0 \<rparr>"

definition bi_SetProofOfStake :: "CBlockIndex \<Rightarrow> CBlockIndex" where
  "bi_SetProofOfStake i = i\<lparr> nFlags := nFlags i OR BLOCK_PROOF_OF_STAKE \<rparr>"

definition CBlockIndex_of :: "u32 \<Rightarrow> u32 \<Rightarrow> CBlock \<Rightarrow> CBlockIndex" where
  "CBlockIndex_of nFileIn nBlockPosIn block =
     (let i = CBlockIndex_new\<lparr> bi_nFile := nFileIn, bi_nBlockPos := nBlockPosIn \<rparr>;
          i = (if blk_IsProofOfStake block
               then (bi_SetProofOfStake i)\<lparr> prevoutStake := prevout (vin (vtx block ! 1) ! 0), nStakeTime := tx_nTime (vtx block ! 1) \<rparr>
               else i\<lparr> prevoutStake := op_SetNull, nStakeTime := 0 \<rparr>)
      in i\<lparr> bi_nVersion := blk_nVersion block, bi_hashMerkleRoot := hashMerkleRoot block, bi_nTime := blk_nTime block,
            bi_nBits := nBits block, bi_nNonce := nNonce block \<rparr>)"

definition bi_GetBlockHash :: "CBlockIndex \<Rightarrow> uint256" where
  "bi_GetBlockHash i = phashBlock i"

text \<open>The header of an indexed block; the previous hash stays zero when there is no predecessor.\<close>

definition GetBlockHeader :: "CBlockIndex \<Rightarrow> CBlock" where
  "GetBlockHeader i =
     CBlock_new\<lparr> blk_nVersion := bi_nVersion i, hashPrevBlock := (case pprev i of None \<Rightarrow> 0 | Some h \<Rightarrow> h),
       hashMerkleRoot := bi_hashMerkleRoot i, blk_nTime := bi_nTime i, nBits := bi_nBits i, nNonce := bi_nNonce i \<rparr>"

definition bi_GetBlockTime :: "CBlockIndex \<Rightarrow> int" where
  "bi_GetBlockTime i = uint (bi_nTime i)"

definition bi_IsInMainChain :: "bptr \<Rightarrow> CBlockIndex \<Rightarrow> bool" where
  "bi_IsInMainChain pindexBest i \<longleftrightarrow> pnext i \<noteq> None \<or> Some (phashBlock i) = pindexBest"

definition bi_IsProofOfStake :: "CBlockIndex \<Rightarrow> bool" where
  "bi_IsProofOfStake i \<longleftrightarrow> nFlags i AND BLOCK_PROOF_OF_STAKE \<noteq> 0"

definition bi_IsProofOfWork :: "CBlockIndex \<Rightarrow> bool" where
  "bi_IsProofOfWork i \<longleftrightarrow> \<not> (nFlags i AND BLOCK_PROOF_OF_STAKE \<noteq> 0)"

definition bi_GetStakeEntropyBit :: "CBlockIndex \<Rightarrow> u32" where
  "bi_GetStakeEntropyBit i = drop_bit 1 (nFlags i AND BLOCK_STAKE_ENTROPY)"

definition SetStakeEntropyBit :: "u32 \<Rightarrow> CBlockIndex \<Rightarrow> CBlockIndex option" where
  "SetStakeEntropyBit nEntropyBit i =
     (if nEntropyBit > 1 then None
      else Some (i\<lparr> nFlags := nFlags i OR (if nEntropyBit \<noteq> 0 then BLOCK_STAKE_ENTROPY else 0) \<rparr>))"

definition GeneratedStakeModifier :: "CBlockIndex \<Rightarrow> bool" where
  "GeneratedStakeModifier i \<longleftrightarrow> nFlags i AND BLOCK_STAKE_MODIFIER \<noteq> 0"

definition SetStakeModifier :: "u64 \<Rightarrow> bool \<Rightarrow> CBlockIndex \<Rightarrow> CBlockIndex" where
  "SetStakeModifier nModifier fGeneratedStakeModifier i =
     (let i = i\<lparr> nStakeModifier := nModifier \<rparr>
      in if fGeneratedStakeModifier then i\<lparr> nFlags := nFlags i OR BLOCK_STAKE_MODIFIER \<rparr> else i)"

section \<open>Walks along pprev\<close>

abbreviation nMedianTimeSpan :: nat where "nMedianTimeSpan \<equiv> 11"

definition GetMedianTimePast :: "pchain \<Rightarrow> int" where
  "GetMedianTimePast pindex =
     (let pmedian = sort (map bi_GetBlockTime (take nMedianTimeSpan pindex)) in pmedian ! (length pmedian div 2))"

definition GetPastTimeLimit :: "pchain \<Rightarrow> int" where
  "GetPastTimeLimit pindex = GetMedianTimePast pindex"

fun GetLastBlockIndex :: "bool \<Rightarrow> pchain \<Rightarrow> pchain" where
  "GetLastBlockIndex fProofOfStake (i # i' # rest) =
     (if bi_IsProofOfStake i \<noteq> fProofOfStake then GetLastBlockIndex fProofOfStake (i' # rest) else i # i' # rest)"
| "GetLastBlockIndex fProofOfStake pindex = pindex"

fun super_majority_loop :: "int \<Rightarrow> nat \<Rightarrow> nat \<Rightarrow> pchain \<Rightarrow> nat \<Rightarrow> nat" where
  "super_majority_loop minVersion nRequired (Suc n) (i # rest) nFound =
     (if nFound < nRequired
      then super_majority_loop minVersion nRequired n rest (if bi_nVersion i \<ge> minVersion then nFound + 1 else nFound)
      else nFound)"
| "super_majority_loop minVersion nRequired n pstart nFound = nFound"

definition IsSuperMajority :: "int \<Rightarrow> pchain \<Rightarrow> nat \<Rightarrow> nat \<Rightarrow> bool" where
  "IsSuperMajority minVersion pstart nRequired nToCheck \<longleftrightarrow> super_majority_loop minVersion nRequired nToCheck pstart 0 \<ge> nRequired"

text \<open>The objects reached from a pointer, at most \<open>n\<close> of them; heights fall by one, so \<open>nHeight + 1\<close> steps reach the
  first block.\<close>

fun walk :: "block_map \<Rightarrow> nat \<Rightarrow> bptr \<Rightarrow> pchain" where
  "walk M (Suc n) (Some h) = (case M h of None \<Rightarrow> [] | Some i \<Rightarrow> i # walk M n (pprev i))"
| "walk M n p = []"

definition chain :: "block_map \<Rightarrow> bptr \<Rightarrow> pchain" where
  "chain M p = (case p of None \<Rightarrow> [] | Some h \<Rightarrow> (case M h of None \<Rightarrow> [] | Some i \<Rightarrow> walk M (nat (nHeight i) + 1) p))"

section \<open>The block locator\<close>

text \<open>Steps back double after the first ten entries.  \<open>nStep\<close> is an \<^verbatim>\<open>int\<close> that wraps past $2^{31}$ to a value that
  makes no step; \<open>step_back\<close> takes its sign into account.\<close>

definition step_back :: "int \<Rightarrow> pchain \<Rightarrow> pchain" where
  "step_back nStep pindex = drop (nat nStep) pindex"

function locator_loop :: "int \<Rightarrow> pchain \<Rightarrow> uint256 list \<Rightarrow> uint256 list option" where
  "locator_loop nStep [] vHave = Some vHave"
| "locator_loop nStep (i # rest) vHave =
     (if nStep \<le> 0 then None
      else let vHave = vHave @ [bi_GetBlockHash i];
               pindex = step_back nStep (i # rest)
           in locator_loop (if length vHave > 10 then s32 (nStep * 2) else nStep) pindex vHave)"
  by pat_completeness auto
termination
  by (relation "measure (\<lambda>(s, p, v). length p)") (auto simp: step_back_def)

text \<open>\<open>None\<close> stands for the loop that no longer advances.\<close>

definition locator_Set :: "uint256 \<Rightarrow> pchain \<Rightarrow> uint256 list option" where
  "locator_Set genesis pindex = map_option (\<lambda>v. v @ [genesis]) (locator_loop 1 pindex [])"

fun distance_loop :: "block_map \<Rightarrow> bptr \<Rightarrow> uint256 list \<Rightarrow> int \<Rightarrow> int \<Rightarrow> int" where
  "distance_loop M best [] nDistance nStep = nDistance"
| "distance_loop M best (hash # rest) nDistance nStep =
     (if (case M hash of None \<Rightarrow> False | Some i \<Rightarrow> bi_IsInMainChain best i) then nDistance
      else let nDistance = s32 (nDistance + nStep)
           in distance_loop M best rest nDistance (if nDistance > 10 then s32 (nStep * 2) else nStep))"

definition GetDistanceBack :: "block_map \<Rightarrow> bptr \<Rightarrow> uint256 list \<Rightarrow> int" where
  "GetDistanceBack M best vHave = distance_loop M best vHave 0 1"

fun locator_GetBlockIndex :: "block_map \<Rightarrow> bptr \<Rightarrow> bptr \<Rightarrow> uint256 list \<Rightarrow> bptr" where
  "locator_GetBlockIndex M best genesis [] = genesis"
| "locator_GetBlockIndex M best genesis (hash # rest) =
     (if (case M hash of None \<Rightarrow> False | Some i \<Rightarrow> bi_IsInMainChain best i) then Some hash
      else locator_GetBlockIndex M best genesis rest)"

fun locator_GetBlockHash :: "block_map \<Rightarrow> bptr \<Rightarrow> uint256 \<Rightarrow> uint256 list \<Rightarrow> uint256" where
  "locator_GetBlockHash M best genesis [] = genesis"
| "locator_GetBlockHash M best genesis (hash # rest) =
     (if (case M hash of None \<Rightarrow> False | Some i \<Rightarrow> bi_IsInMainChain best i) then hash
      else locator_GetBlockHash M best genesis rest)"

definition locator_GetHeight :: "block_map \<Rightarrow> bptr \<Rightarrow> bptr \<Rightarrow> uint256 list \<Rightarrow> int" where
  "locator_GetHeight M best genesis vHave =
     (case locator_GetBlockIndex M best genesis vHave of None \<Rightarrow> 0
      | Some h \<Rightarrow> (case M h of None \<Rightarrow> 0 | Some i \<Rightarrow> nHeight i))"

section \<open>Index records on disk\<close>

record CDiskBlockIndex = CBlockIndex +
  blockHash :: uint256
  hashPrev :: uint256
  hashNext :: uint256

definition CDiskBlockIndex_of :: "CBlockIndex \<Rightarrow> CDiskBlockIndex" where
  "CDiskBlockIndex_of i = CBlockIndex.extend i
     \<lparr> blockHash = 0, hashPrev = (case pprev i of None \<Rightarrow> 0 | Some h \<Rightarrow> h), hashNext = (case pnext i of None \<Rightarrow> 0 | Some h \<Rightarrow> h) \<rparr>"

definition ser_diskindex :: "int \<Rightarrow> CDiskBlockIndex \<Rightarrow> valtype" where
  "ser_diskindex ver d = ser_i32 ver @ ser_uint256 (hashNext d) @ ser_u32 (bi_nFile d) @ ser_u32 (bi_nBlockPos d)
     @ ser_i32 (nHeight d) @ ser_i64 (nMint d) @ ser_i64 (nMoneySupply d) @ ser_u32 (nFlags d) @ ser_u64 (nStakeModifier d)
     @ (if nFlags d AND BLOCK_PROOF_OF_STAKE \<noteq> 0
        then ser_outpoint (prevoutStake d) @ ser_u32 (nStakeTime d) @ ser_uint256 (hashProofOfStake d) else [])
     @ ser_i32 (bi_nVersion d) @ ser_uint256 (hashPrev d) @ ser_uint256 (bi_hashMerkleRoot d) @ ser_u32 (bi_nTime d)
     @ ser_u32 (bi_nBits d) @ ser_u32 (bi_nNonce d) @ ser_uint256 (blockHash d)"

definition CDiskBlockIndex_new :: CDiskBlockIndex where
  "CDiskBlockIndex_new = CBlockIndex.extend CBlockIndex_new \<lparr> blockHash = 0, hashPrev = 0, hashNext = 0 \<rparr>"

definition unser_stake :: "CDiskBlockIndex \<Rightarrow> CDiskBlockIndex reader" where
  "unser_stake d s =
     (if nFlags d AND BLOCK_PROOF_OF_STAKE \<noteq> 0
      then rbind (unser_outpoint s) (\<lambda>p s. rbind (unser_u32 s) (\<lambda>t s. rbind (unser_uint256 s) (\<lambda>h s.
        Inr (d\<lparr> prevoutStake := p, nStakeTime := t, hashProofOfStake := h \<rparr>, s))))
      else Inr (d\<lparr> prevoutStake := op_SetNull, nStakeTime := 0, hashProofOfStake := 0 \<rparr>, s))"

definition unser_diskindex :: "(int \<times> CDiskBlockIndex) reader" where
  "unser_diskindex s = rbind (unser_i32 s) (\<lambda>ver s. rbind (unser_uint256 s) (\<lambda>nxt s. rbind (unser_u32 s) (\<lambda>f s.
     rbind (unser_u32 s) (\<lambda>bp s. rbind (unser_i32 s) (\<lambda>ht s. rbind (unser_i64 s) (\<lambda>mi s. rbind (unser_i64 s) (\<lambda>su s.
     rbind (unser_u32 s) (\<lambda>fl s. rbind (unser_u64 s) (\<lambda>sm s.
     rbind (unser_stake (CDiskBlockIndex_new\<lparr> hashNext := nxt, bi_nFile := f, bi_nBlockPos := bp, nHeight := ht, nMint := mi,
       nMoneySupply := su, nFlags := fl, nStakeModifier := sm \<rparr>) s) (\<lambda>d s.
     rbind (unser_i32 s) (\<lambda>v s. rbind (unser_uint256 s) (\<lambda>prv s. rbind (unser_uint256 s) (\<lambda>m s. rbind (unser_u32 s) (\<lambda>t s.
     rbind (unser_u32 s) (\<lambda>b s. rbind (unser_u32 s) (\<lambda>n s. rbind (unser_uint256 s) (\<lambda>h s.
       Inr ((ver, d\<lparr> bi_nVersion := v, hashPrev := prv, bi_hashMerkleRoot := m, bi_nTime := t, bi_nBits := b, bi_nNonce := n,
         blockHash := h \<rparr>), s))))))))))))))))))"

text \<open>The stored hash is trusted for records older than a day when the fast index is on; otherwise it is recomputed.\<close>

definition disk_GetBlockHash :: "ext \<Rightarrow> bool \<Rightarrow> int \<Rightarrow> CDiskBlockIndex \<Rightarrow> uint256 \<times> CDiskBlockIndex" where
  "disk_GetBlockHash E fUseFastIndex GetAdjustedTime d =
     (if fUseFastIndex \<and> uint (bi_nTime d) < GetAdjustedTime - 24 * 60 * 60 \<and> blockHash d \<noteq> 0 then (blockHash d, d)
      else let block = CBlock_new\<lparr> blk_nVersion := bi_nVersion d, hashPrevBlock := hashPrev d, hashMerkleRoot := bi_hashMerkleRoot d,
                 blk_nTime := bi_nTime d, nBits := bi_nBits d, nNonce := bi_nNonce d \<rparr>;
               h = fst (blk_GetHash E block)
           in (h, d\<lparr> blockHash := h \<rparr>))"

section \<open>Chains\<close>

text \<open>A well-formed index: every object is under its hash, a block without predecessor has height zero, and any other has
  its predecessor in the index at one height less.\<close>

definition index_wf :: "block_map \<Rightarrow> bool" where
  "index_wf M \<longleftrightarrow> (\<forall>h i. M h = Some i \<longrightarrow> phashBlock i = h \<and> 0 \<le> nHeight i \<and> (pprev i = None \<longrightarrow> nHeight i = 0) \<and>
     (\<forall>p. pprev i = Some p \<longrightarrow> (\<exists>j. M p = Some j \<and> nHeight i = nHeight j + 1)))"

lemma index_wfD:
  assumes "index_wf M" "M h = Some i"
  shows "phashBlock i = h" "0 \<le> nHeight i" "pprev i = None \<Longrightarrow> nHeight i = 0"
    "pprev i = Some p \<Longrightarrow> \<exists>j. M p = Some j \<and> nHeight i = nHeight j + 1"
  using assms by (auto simp: index_wf_def)

lemma chain_None [simp]: "chain M None = []"
  by (simp add: chain_def)

lemma chain_Some:
  assumes "index_wf M" "M h = Some i"
  shows "chain M (Some h) = i # chain M (pprev i)"
proof (cases "pprev i")
  case None
  then show ?thesis using assms by (simp add: chain_def)
next
  case (Some p)
  with index_wfD(4) [OF assms] obtain j where j: "M p = Some j" "nHeight i = nHeight j + 1" by blast
  then have "nat (nHeight i) = nat (nHeight j) + 1" using index_wfD(2) [OF assms(1) j(1)] by simp
  with j assms Some show ?thesis by (simp add: chain_def)
qed

lemma length_chain: "index_wf M \<Longrightarrow> M h = Some i \<Longrightarrow> length (chain M (Some h)) = nat (nHeight i) + 1"
proof (induction "nat (nHeight i)" arbitrary: h i)
  case 0
  with index_wfD(2) [OF 0(2,3)] have "nHeight i = 0" by simp
  then have "pprev i = None" using index_wfD(4) [OF 0(2,3)] index_wfD(2) [OF 0(2)] by (cases "pprev i") fastforce+
  then show ?case using 0 by (simp add: chain_Some [OF 0(2,3)])
next
  case (Suc n)
  then obtain p where p: "pprev i = Some p" using index_wfD(3) [OF Suc(3,4)] by (cases "pprev i") auto
  with index_wfD(4) [OF Suc(3,4)] obtain j where j: "M p = Some j" "nHeight i = nHeight j + 1" by blast
  with Suc.hyps(2) index_wfD(2) [OF Suc(3) j(1)] have "n = nat (nHeight j)" by simp
  from Suc.hyps(1) [OF this Suc(3) j(1)] show ?case using j p index_wfD(2) [OF Suc(3) j(1)] by (simp add: chain_Some [OF Suc(3,4)])
qed

lemma chain_induct [consumes 1, case_names Nil Step]:
  assumes "index_wf M" "P (chain M None)" "\<And>h. M h = None \<Longrightarrow> P (chain M (Some h))"
    "\<And>h i. M h = Some i \<Longrightarrow> P (chain M (pprev i)) \<Longrightarrow> P (i # chain M (pprev i))"
  shows "P (chain M p)"
proof (cases p)
  case (Some h)
  show ?thesis
  proof (cases "M h")
    case (Some i)
    then have "P (chain M (Some h))"
    proof (induction "nat (nHeight i)" arbitrary: h i)
      case 0
      then have "pprev i = None" using index_wfD [OF assms(1) 0(2)] by (cases "pprev i") (auto, (metis index_wfD(2) [OF assms(1)] nat_0_iff zle_add1_eq_le not_less)?)
      then show ?case using assms(2,4) chain_Some [OF assms(1) 0(2)] 0(2) by metis
    next
      case (Suc n)
      show ?case
      proof (cases "pprev i")
        case None
        then show ?thesis using assms(2,4) chain_Some [OF assms(1) Suc(3)] Suc(3) by metis
      next
        case (Some q)
        then obtain j where j: "M q = Some j" "nHeight i = nHeight j + 1" using index_wfD(4) [OF assms(1) Suc(3) Some] by blast
        then have "n = nat (nHeight j)" using Suc(2) index_wfD(2) [OF assms(1) j(1)] by simp
        from Suc(1) [OF this j(1)] show ?thesis using assms(4) [OF Suc(3)] chain_Some [OF assms(1) Suc(3)] Some by simp
      qed
    qed
    then show ?thesis using \<open>p = Some h\<close> by simp
  qed (use assms(3) Some in simp)
qed (use assms(2) in simp)

lemma chain_mem:
  assumes "index_wf M" "i \<in> set (chain M p)"
  shows "M (phashBlock i) = Some i"
proof -
  have "\<forall>i \<in> set (chain M p). M (phashBlock i) = Some i"
    by (rule chain_induct [OF assms(1), where P = "\<lambda>c. \<forall>i \<in> set c. M (phashBlock i) = Some i"])
      (auto simp: chain_def [of M "Some _"] dest: index_wfD(1) [OF assms(1)])
  then show ?thesis using assms(2) by blast
qed

lemma chain_heights:
  assumes "index_wf M"
  shows "sorted_wrt (\<lambda>i j. nHeight j < nHeight i) (chain M p)"
proof (rule chain_induct [OF assms, where P = "sorted_wrt (\<lambda>i j. nHeight j < nHeight i)"])
  fix h i
  assume i: "M h = Some i" and s: "sorted_wrt (\<lambda>i j. nHeight j < nHeight i) (chain M (pprev i))"
  have "nHeight k < nHeight i" if k: "k \<in> set (chain M (pprev i))" for k
  proof (cases "pprev i")
    case (Some q)
    then obtain j where j: "M q = Some j" "nHeight i = nHeight j + 1" using index_wfD(4) [OF assms i] by blast
    then show ?thesis using s k Some chain_Some [OF assms j(1)] by auto
  qed (use k in simp)
  then show "sorted_wrt (\<lambda>i j. nHeight j < nHeight i) (i # chain M (pprev i))" using s by simp
qed (simp_all add: chain_def)

lemma sorted_neq_distinct: "sorted_wrt (\<lambda>i j. f i \<noteq> f j) xs \<Longrightarrow> distinct (map f xs)"
  by (induction xs) auto

lemma chain_distinct:
  assumes "index_wf M"
  shows "distinct (map bi_GetBlockHash (chain M p))"
proof -
  have "sorted_wrt (\<lambda>i j. bi_GetBlockHash i \<noteq> bi_GetBlockHash j) (chain M p)"
  proof (rule sorted_wrt_mono_rel [OF _ chain_heights [OF assms]])
    fix i j
    assume ij: "i \<in> set (chain M p)" "j \<in> set (chain M p)" "nHeight j < nHeight i"
    note i = chain_mem [OF assms ij(1)] and j = chain_mem [OF assms ij(2)]
    show "bi_GetBlockHash i \<noteq> bi_GetBlockHash j"
    proof
      assume "bi_GetBlockHash i = bi_GetBlockHash j"
      then have "M (phashBlock j) = Some i" using i unfolding bi_GetBlockHash_def by simp
      then have "i = j" unfolding j by simp
      then show False using ij(3) by simp
    qed
  qed
  then show ?thesis by (rule sorted_neq_distinct)
qed

text \<open>The main chain is linked forward: \<^verbatim>\<open>pnext\<close> of a block is its successor on the branch of the best block, and null
  for every other block.\<close>

definition main_ok :: "block_map \<Rightarrow> bptr \<Rightarrow> bool" where
  "main_ok M best \<longleftrightarrow> index_wf M \<and> (\<forall>b. best = Some b \<longrightarrow> M b \<noteq> None) \<and>
     (\<forall>h i. M h = Some i \<longrightarrow> (\<forall>n. pnext i = Some n \<longleftrightarrow> (\<exists>j \<in> set (chain M best). phashBlock j = n \<and> pprev j = Some h)))"

lemma main_okD:
  assumes "main_ok M best"
  shows "index_wf M" "best = Some b \<Longrightarrow> M b \<noteq> None"
    "M h = Some i \<Longrightarrow> pnext i = Some n \<longleftrightarrow> (\<exists>j \<in> set (chain M best). phashBlock j = n \<and> pprev j = Some h)"
  using assms by (auto simp: main_ok_def)

lemma chain_suffix:
  assumes "index_wf M"
  shows "i \<in> set (chain M p) \<Longrightarrow> \<exists>xs. chain M p = xs @ chain M (Some (phashBlock i))"
proof (rule chain_induct [OF assms, where P = "\<lambda>c. i \<in> set c \<longrightarrow> (\<exists>xs. c = xs @ chain M (Some (phashBlock i)))", THEN mp])
  fix h j
  assume j: "M h = Some j" and IH: "i \<in> set (chain M (pprev j)) \<longrightarrow> (\<exists>xs. chain M (pprev j) = xs @ chain M (Some (phashBlock i)))"
  show "i \<in> set (j # chain M (pprev j)) \<longrightarrow> (\<exists>xs. j # chain M (pprev j) = xs @ chain M (Some (phashBlock i)))"
  proof
    assume "i \<in> set (j # chain M (pprev j))"
    then consider "i = j" | "i \<in> set (chain M (pprev j))" by auto
    then show "\<exists>xs. j # chain M (pprev j) = xs @ chain M (Some (phashBlock i))"
    proof cases
      case 1
      have "chain M (Some (phashBlock j)) = j # chain M (pprev j)" using chain_Some [OF assms] j index_wfD(1) [OF assms j] by simp
      then show ?thesis using 1 by (intro exI [of _ "[]"]) simp
    next
      case 2
      then obtain xs where "chain M (pprev j) = xs @ chain M (Some (phashBlock i))" using IH by blast
      then show ?thesis by (intro exI [of _ "j # xs"]) simp
    qed
  qed
qed (auto simp: chain_def)

text \<open>Every block of a chain but its tip is the predecessor of another one.\<close>

lemma chain_successor:
  assumes "index_wf M" "i \<in> set (chain M p)" "p \<noteq> Some (phashBlock i)"
  shows "\<exists>j \<in> set (chain M p). pprev j = Some (phashBlock i)"
proof -
  have i: "M (phashBlock i) = Some i" by (rule chain_mem [OF assms(1,2)])
  obtain xs where xs: "chain M p = xs @ chain M (Some (phashBlock i))" using chain_suffix [OF assms(1,2)] by blast
  have ci: "chain M (Some (phashBlock i)) = i # chain M (pprev i)" by (rule chain_Some [OF assms(1) i])
  show ?thesis
  proof (cases xs rule: rev_cases)
    case Nil
    then obtain h where h: "p = Some h" "M h = Some i" using xs ci by (cases p) (auto simp: chain_def split: option.splits)
    then show ?thesis using index_wfD(1) [OF assms(1) h(2)] assms(3) by simp
  next
    case (snoc ys j)
    then have j: "j \<in> set (chain M p)" using xs by simp
    obtain zs where zs: "chain M p = zs @ j # chain M (pprev j)"
      using chain_suffix [OF assms(1) j] chain_Some [OF assms(1) chain_mem [OF assms(1) j]] by auto
    have d: "distinct (chain M p)" using chain_distinct [OF assms(1), of p] by (simp add: distinct_map)
    have "chain M p = ys @ j # i # chain M (pprev i)" using xs ci snoc by simp
    with zs d have "chain M (pprev j) = i # chain M (pprev i)"
      by (metis append_Cons_eq_iff distinct_append distinct.simps(2) disjoint_insert(1) list.simps(15) not_distinct_conv_prefix)
    then obtain h where "pprev j = Some h" "M h = Some i" by (cases "pprev j") (auto simp: chain_def split: option.splits)
    then show ?thesis using j index_wfD(1) [OF assms(1)] by blast
  qed
qed

lemma chain_pprev:
  assumes "index_wf M" "j \<in> set (chain M p)" "pprev j = Some h" "M h = Some i"
  shows "i \<in> set (chain M p)"
proof -
  obtain xs where "chain M p = xs @ chain M (Some (phashBlock j))" using chain_suffix [OF assms(1,2)] by blast
  then show ?thesis using chain_Some [OF assms(1) chain_mem [OF assms(1,2)]] chain_Some [OF assms(1,4)] assms(3) by simp
qed

lemma main_chain_iff:
  assumes "main_ok M best" "M h = Some i"
  shows "bi_IsInMainChain best i \<longleftrightarrow> i \<in> set (chain M best)"
proof
  note wf = main_okD(1) [OF assms(1)]
  have h: "phashBlock i = h" by (rule index_wfD(1) [OF wf assms(2)])
  assume "bi_IsInMainChain best i"
  then consider n where "pnext i = Some n" | "best = Some h" by (auto simp: bi_IsInMainChain_def h)
  then show "i \<in> set (chain M best)"
  proof cases
    case 1
    then obtain j where "j \<in> set (chain M best)" "pprev j = Some h" using main_okD(3) [OF assms] by blast
    then show ?thesis by (rule chain_pprev [OF wf _ _ assms(2)])
  qed (simp add: chain_Some [OF wf assms(2)])
next
  note wf = main_okD(1) [OF assms(1)]
  assume "i \<in> set (chain M best)"
  then show "bi_IsInMainChain best i"
    using chain_successor [OF wf, of i best] main_okD(3) [OF assms] index_wfD(1) [OF wf assms(2)]
    by (auto simp: bi_IsInMainChain_def)
qed

section \<open>Locators\<close>

text \<open>Positions on the chain of the entries of a locator and the steps between them.\<close>

definition loc_pos :: "nat \<Rightarrow> nat" where
  "loc_pos k = (if k \<le> 11 then k else 2 ^ (k - 10) + 9)"

definition loc_step :: "nat \<Rightarrow> nat" where
  "loc_step k = (if k \<le> 10 then 1 else 2 ^ (k - 10))"

lemma loc_pos_Suc: "loc_pos (Suc k) = loc_pos k + loc_step k"
proof (cases "k \<le> 11")
  case True
  then consider "k \<le> 10" | "k = 11" by linarith
  then show ?thesis by cases (auto simp: loc_pos_def loc_step_def)
next
  case False
  then have "Suc k - 10 = Suc (k - 10)" by simp
  with False show ?thesis by (simp add: loc_pos_def loc_step_def)
qed

lemma loc_step_Suc: "loc_step (Suc k) = (if k \<ge> 10 then 2 * loc_step k else loc_step k)"
proof (cases "k \<ge> 10")
  case True
  then obtain m where "k = m + 10" using le_Suc_ex by (metis add.commute)
  then show ?thesis by (simp add: loc_step_def)
qed (simp add: loc_step_def)

lemma loc_step_pos [simp]: "0 < loc_step k"
  by (simp add: loc_step_def)

lemma loc_pos_mono: "j \<le> k \<Longrightarrow> loc_pos j \<le> loc_pos k"
  by (rule lift_Suc_mono_le) (simp_all add: loc_pos_Suc)

lemma loc_pos_41: "loc_pos 41 = 2 ^ 31 + 9"
  by (simp add: loc_pos_def)

definition loc_entries :: "pchain \<Rightarrow> nat \<Rightarrow> uint256 list" where
  "loc_entries c k = map (\<lambda>j. bi_GetBlockHash (c ! loc_pos j)) [j \<leftarrow> [k..<42]. loc_pos j < length c]"

lemma locator_loop_entries:
  assumes "length c < 2 ^ 31"
  shows "length v = k \<Longrightarrow> k \<le> 41 \<Longrightarrow> locator_loop (int (loc_step k)) (drop (loc_pos k) c) v = Some (v @ loc_entries c k)"
proof (induction "41 - k" arbitrary: k v rule: less_induct)
  case less
  show ?case
  proof (cases "loc_pos k < length c")
    case False
    then have "\<forall>j \<in> {k..<42}. \<not> loc_pos j < length c" using loc_pos_mono by (meson atLeastLessThan_iff leD le_trans leI)
    then have "loc_entries c k = []" by (simp add: loc_entries_def filter_empty_conv)
    with False show ?thesis by simp
  next
    case True
    then have k: "k < 41" using less.prems assms loc_pos_mono [of 41 k] loc_pos_41 by (cases "k = 41") auto
    let ?v = "v @ [bi_GetBlockHash (c ! loc_pos k)]"
    have split: "drop (loc_pos k) c = c ! loc_pos k # drop (Suc (loc_pos k)) c" using True by (simp add: Cons_nth_drop_Suc)
    have nxt: "drop (loc_step k) (drop (loc_pos k) c) = drop (loc_pos (Suc k)) c" by (simp add: loc_pos_Suc add.commute)
    have ent: "v @ loc_entries c k = ?v @ loc_entries c (Suc k)"
      using True k by (simp add: loc_entries_def upt_rec [of k])
    have step: "(if length ?v > 10 then s32 (int (loc_step k) * 2) else int (loc_step k)) = int (loc_step (Suc k))" if "k < 40"
    proof -
      have "loc_step k < 2 ^ 30" using that power_strict_increasing [of "k - 10" 30 "2 :: nat"] by (auto simp: loc_step_def)
      then have "s32 (int (loc_step k) * 2) = int (loc_step k) * 2" by (intro s32_id) (simp add: int32_range_def)
      then show ?thesis using less.prems(1) by (simp add: loc_step_Suc)
    qed
    have "locator_loop (int (loc_step k)) (drop (loc_pos k) c) v =
        locator_loop (if length ?v > 10 then s32 (int (loc_step k) * 2) else int (loc_step k)) (drop (loc_pos (Suc k)) c) ?v"
      unfolding split using nxt split loc_step_pos [of k] by (simp add: step_back_def Let_def del: loc_step_pos)
    also have "\<dots> = Some (?v @ loc_entries c (Suc k))"
    proof (cases "k < 40")
      case True
      then show ?thesis using less.hyps [of "Suc k" ?v] less.prems(1) unfolding step [OF True] by simp
    next
      case False
      with k have "Suc k = 41" by simp
      then have "drop (loc_pos (Suc k)) c = []" "loc_entries c (Suc k) = []"
        using assms loc_pos_41 by (simp_all add: loc_entries_def)
      then show ?thesis by simp
    qed
    finally show ?thesis using ent by simp
  qed
qed

lemma locator_Set_entries:
  assumes "length c < 2 ^ 31"
  shows "locator_Set g c = Some (loc_entries c 0 @ [g])"
proof -
  have "loc_step 0 = 1" "loc_pos 0 = 0" by (simp_all add: loc_step_def loc_pos_def)
  with locator_loop_entries [OF assms, of "[]" 0] show ?thesis by (simp add: locator_Set_def)
qed

text \<open>The first entry at depth \<open>d\<close> or more is at depth at most \<open>2 * d\<close>.\<close>

lemma loc_pos_cover:
  assumes "d < 2 ^ 31"
  obtains k where "k < 42" "d \<le> loc_pos k" "loc_pos k \<le> 2 * d" "\<And>j. j < k \<Longrightarrow> loc_pos j < d"
proof -
  define k where "k = (LEAST k. d \<le> loc_pos k)"
  have ex: "d \<le> loc_pos 41" using assms loc_pos_41 by simp
  have k: "d \<le> loc_pos k" unfolding k_def using ex by (rule LeastI [of "\<lambda>k. d \<le> loc_pos k"])
  have less: "loc_pos j < d" if "j < k" for j using not_less_Least that unfolding k_def by (metis not_less)
  have "k \<le> 41" unfolding k_def using ex by (rule Least_le [of "\<lambda>k. d \<le> loc_pos k"])
  moreover have "loc_pos k \<le> 2 * d"
  proof (cases k)
    case 0
    then show ?thesis by (simp add: loc_pos_def)
  next
    case (Suc m)
    then have m: "loc_pos m < d" using less by simp
    show ?thesis
    proof (cases "m \<le> 10")
      case True
      then show ?thesis using m Suc by (simp add: loc_pos_def)
    next
      case False
      then have "loc_step m \<le> loc_pos m" by (cases "m = 11") (auto simp: loc_pos_def loc_step_def)
      then show ?thesis using m Suc by (simp add: loc_pos_Suc)
    qed
  qed
  ultimately show ?thesis using that [of k] k less by simp
qed

abbreviation in_main :: "block_map \<Rightarrow> bptr \<Rightarrow> uint256 \<Rightarrow> bool" where
  "in_main M best h \<equiv> (case M h of None \<Rightarrow> False | Some i \<Rightarrow> bi_IsInMainChain best i)"

lemma locator_GetBlockIndex_find:
  "locator_GetBlockIndex M best gen v = (case find (in_main M best) v of None \<Rightarrow> gen | Some h \<Rightarrow> Some h)"
  by (induction v) auto

lemma find_append: "find P (xs @ ys) = (case find P xs of None \<Rightarrow> find P ys | Some x \<Rightarrow> Some x)"
  by (induction xs) auto

section \<open>Index records\<close>

lemma diskindex_roundtrip:
  assumes "int32_range ver" "int32_range (nHeight d)" "int32_range (bi_nVersion d)" "int64_range (nMint d)" "int64_range (nMoneySupply d)"
  shows "unser_diskindex (ser_diskindex ver d @ r) = Inr ((ver, CDiskBlockIndex_new\<lparr> hashNext := hashNext d, bi_nFile := bi_nFile d,
    bi_nBlockPos := bi_nBlockPos d, nHeight := nHeight d, nMint := nMint d, nMoneySupply := nMoneySupply d, nFlags := nFlags d,
    nStakeModifier := nStakeModifier d,
    prevoutStake := (if bi_IsProofOfStake (CBlockIndex.truncate d) then prevoutStake d else op_SetNull),
    nStakeTime := (if bi_IsProofOfStake (CBlockIndex.truncate d) then nStakeTime d else 0),
    hashProofOfStake := (if bi_IsProofOfStake (CBlockIndex.truncate d) then hashProofOfStake d else 0),
    bi_nVersion := bi_nVersion d, hashPrev := hashPrev d, bi_hashMerkleRoot := bi_hashMerkleRoot d, bi_nTime := bi_nTime d,
    bi_nBits := bi_nBits d, bi_nNonce := bi_nNonce d, blockHash := blockHash d \<rparr>), r)"
  using assms
  by (simp add: ser_diskindex_def unser_diskindex_def unser_stake_def unser_sers u64.unser_ser outpoint.unser_ser
      bi_IsProofOfStake_def CBlockIndex.truncate_def)

lemma bit_flags: "bit (2 :: int) n \<longleftrightarrow> n = 1" "bit (4 :: int) n \<longleftrightarrow> n = 2"
  using bit_exp_iff [of 1 n, where 'a = int] bit_exp_iff [of 2 n, where 'a = int] by auto

lemma flag_bits:
  "bi_IsProofOfStake i \<longleftrightarrow> bit (nFlags i) 0" "GeneratedStakeModifier i \<longleftrightarrow> bit (nFlags i) 2"
  "bi_GetStakeEntropyBit i = of_bool (bit (nFlags i) 1)"
proof -
  show "bi_IsProofOfStake i \<longleftrightarrow> bit (nFlags i) 0" "GeneratedStakeModifier i \<longleftrightarrow> bit (nFlags i) 2"
    by (simp_all add: bi_IsProofOfStake_def GeneratedStakeModifier_def bit_iff_and_push_bit_not_eq_0)
  have "nFlags i AND 2 = of_bool (bit (nFlags i) 1) * 2"
    by (rule bit_word_eqI) (auto simp: bit_and_iff bit_flags)
  then show "bi_GetStakeEntropyBit i = of_bool (bit (nFlags i) 1)"
    unfolding bi_GetStakeEntropyBit_def by (simp add: drop_bit_eq_div)
qed

text \<open>The three flags are independent.\<close>

lemma flag_updates:
  "bi_IsProofOfStake (bi_SetProofOfStake i)"
  "GeneratedStakeModifier (bi_SetProofOfStake i) = GeneratedStakeModifier i"
  "bi_GetStakeEntropyBit (bi_SetProofOfStake i) = bi_GetStakeEntropyBit i"
  "bi_IsProofOfStake (SetStakeModifier m g i) = bi_IsProofOfStake i"
  "GeneratedStakeModifier (SetStakeModifier m g i) = (g \<or> GeneratedStakeModifier i)"
  "bi_GetStakeEntropyBit (SetStakeModifier m g i) = bi_GetStakeEntropyBit i"
  by (auto simp: flag_bits bi_SetProofOfStake_def SetStakeModifier_def bit_or_iff bit_flags bit_1_iff Let_def)

section \<open>Properties\<close>

text \<open>C18. A locator finds the fork: for a chain of fewer than $2^{31}$ blocks the locator is computed, has at most 43
  entries, and a node whose main chain shares the blocks at depth \<open>d\<close> and below locates a shared block at most twice
  as deep, or the genesis block when the chain is shorter than that.\<close>

theorem locator_finds_fork:
  assumes "length c < 2 ^ 31" and "d < length c" and "\<forall>j < length c. in_main M best (bi_GetBlockHash (c ! j)) \<longleftrightarrow> d \<le> j"
  shows "\<exists>v e. locator_Set g c = Some v \<and> length v \<le> 43 \<and> d \<le> e \<and> e \<le> 2 * d \<and>
    locator_GetBlockIndex M best gen v =
      (if e < length c then Some (bi_GetBlockHash (c ! e)) else if in_main M best g then Some g else gen)"
proof -
  have "d < 2 ^ 31" using assms(1,2) by simp
  from loc_pos_cover [OF this] obtain k where
    k: "k < 42" "d \<le> loc_pos k" "loc_pos k \<le> 2 * d" "\<And>j. j < k \<Longrightarrow> loc_pos j < d" by metis
  let ?h = "\<lambda>j. bi_GetBlockHash (c ! loc_pos j)"
  have "length (loc_entries c 0) \<le> 42" unfolding loc_entries_def length_map by (rule order_trans [OF length_filter_le]) simp
  have split: "[0..<42] = [0..<k] @ [k..<42]" using upt_add_eq_append [of 0 k "42 - k"] k(1) by (simp only: le0 add_0 le_add_diff_inverse less_imp_le)
  have early: "find (in_main M best) (map ?h [j \<leftarrow> [0..<k]. loc_pos j < length c]) = None"
    using assms(3) by (auto simp: find_None_iff) (meson k(4) leD)
  have "find (in_main M best) (loc_entries c 0) = (if loc_pos k < length c then Some (?h k) else None)"
  proof (cases "loc_pos k < length c")
    case True
    then have "in_main M best (?h k)" using assms(3) k(2) by auto
    then show ?thesis using True k(1) early unfolding loc_entries_def split by (simp add: find_append upt_rec [of k])
  next
    case False
    then have "\<forall>j \<in> {k..<42}. \<not> loc_pos j < length c" using loc_pos_mono by (meson atLeastLessThan_iff leD le_trans leI)
    then have "[j \<leftarrow> [k..<42]. loc_pos j < length c] = []" by (simp add: filter_empty_conv)
    with False early show ?thesis unfolding loc_entries_def split by (simp add: find_append)
  qed
  then have "locator_GetBlockIndex M best gen (loc_entries c 0 @ [g]) =
      (if loc_pos k < length c then Some (?h k) else if in_main M best g then Some g else gen)"
    by (simp add: locator_GetBlockIndex_find find_append)
  moreover have "length (loc_entries c 0 @ [g]) \<le> 43" using \<open>length (loc_entries c 0) \<le> 42\<close> by simp
  ultimately show ?thesis using locator_Set_entries [OF assms(1)] k(2,3) by blast
qed

definition index_example :: "uint256 \<Rightarrow> bptr \<Rightarrow> CBlockIndex" where
  "index_example h p = CBlockIndex_new\<lparr> phashBlock := h, pprev := p \<rparr>"

theorem locator_finds_fork_witness:
  "\<exists>v. locator_Set 7 [index_example 8 (Some 7), index_example 7 None] = Some v \<and> length v \<le> 43 \<and>
    locator_GetBlockIndex [7 \<mapsto> index_example 7 None] (Some 7) None v = Some 7"
proof -
  let ?c = "[index_example 8 (Some 7), index_example 7 None]" and ?M = "[7 \<mapsto> index_example 7 None]"
  have m: "\<forall>j < length ?c. in_main ?M (Some 7) (bi_GetBlockHash (?c ! j)) \<longleftrightarrow> 1 \<le> j"
    by (auto simp: less_Suc_eq index_example_def bi_GetBlockHash_def bi_IsInMainChain_def CBlockIndex_new_def)
  have "length ?c < 2 ^ 31" "1 < length ?c" by simp_all
  from locator_finds_fork [OF this m] obtain v e where v: "locator_Set 7 ?c = Some v" "length v \<le> 43" "1 \<le> e" "e \<le> 2 * 1"
    "locator_GetBlockIndex ?M (Some 7) None v =
      (if e < length ?c then Some (bi_GetBlockHash (?c ! e)) else if in_main ?M (Some 7) 7 then Some 7 else None)" by metis
  have "e = 1 \<or> \<not> e < length ?c" using v(3) by auto
  then have "locator_GetBlockIndex ?M (Some 7) None v = Some 7"
    using v(5) by (auto simp: index_example_def bi_GetBlockHash_def bi_IsInMainChain_def CBlockIndex_new_def)
  then show ?thesis using v(1,2) by auto
qed

end
