(* ===== verification/Txdb.thy ===== *)
theory Txdb
  imports Hobo_Prelude Serialize Tx_Data Block_Index
begin

text \<open>
  The transaction database (\<^verbatim>\<open>txdb-leveldb.h\<close>, \<^verbatim>\<open>txdb-leveldb.cpp\<close>).  LevelDB itself is an ordered map from byte strings to
  byte strings whose calls succeed; a handle adds the batch of pending changes, listed in the order they were made.  Keys
  and values are the serialised bytes.  A failed assertion ends the process in the code and is the result \<open>False\<close> here; a
  handle opened for writing never meets it.
\<close>

section \<open>The handle\<close>

datatype batch_op = BatchPut valtype valtype | BatchDelete valtype

record CTxDB =
  pdb :: "valtype \<rightharpoonup> valtype"
  activeBatch :: "batch_op list option"
  fReadOnly :: bool

text \<open>The scanner walks through the whole batch and keeps what the last entry for the key said: whether there was one,
  whether it was a deletion, and the last value put.\<close>

fun scan_op :: "valtype \<Rightarrow> batch_op \<Rightarrow> bool \<times> bool \<times> valtype \<Rightarrow> bool \<times> bool \<times> valtype" where
  "scan_op needle (BatchPut key v) (foundEntry, deleted, foundValue) =
     (if key = needle then (True, False, v) else (foundEntry, deleted, foundValue))"
| "scan_op needle (BatchDelete key) (foundEntry, deleted, foundValue) =
     (if key = needle then (True, True, foundValue) else (foundEntry, deleted, foundValue))"

definition ScanBatch :: "valtype \<Rightarrow> batch_op list \<Rightarrow> bool \<times> bool \<times> valtype" where
  "ScanBatch key batch = fold (scan_op key) batch (False, False, [])"

definition db_Get :: "valtype \<Rightarrow> CTxDB \<Rightarrow> valtype option" where
  "db_Get key db =
     (case activeBatch db of
        Some batch \<Rightarrow>
          (let (found, deleted, v) = ScanBatch key batch
           in if deleted then None else if found then Some v else pdb db key)
      | None \<Rightarrow> pdb db key)"

definition db_Read :: "'a reader \<Rightarrow> valtype \<Rightarrow> CTxDB \<Rightarrow> 'a option" where
  "db_Read unser key db =
     (case db_Get key db of None \<Rightarrow> None | Some s \<Rightarrow> (case unser s of Inl e \<Rightarrow> None | Inr (x, r) \<Rightarrow> Some x))"

definition db_Write :: "valtype \<Rightarrow> valtype \<Rightarrow> CTxDB \<Rightarrow> bool \<times> CTxDB" where
  "db_Write key v db =
     (if fReadOnly db then (False, db)
      else case activeBatch db of
        Some batch \<Rightarrow> (True, db\<lparr> activeBatch := Some (batch @ [BatchPut key v]) \<rparr>)
      | None \<Rightarrow> (True, db\<lparr> pdb := (pdb db)(key \<mapsto> v) \<rparr>))"

definition db_Erase :: "valtype \<Rightarrow> CTxDB \<Rightarrow> bool \<times> CTxDB" where
  "db_Erase key db =
     (if fReadOnly db then (False, db)
      else case activeBatch db of
        Some batch \<Rightarrow> (True, db\<lparr> activeBatch := Some (batch @ [BatchDelete key]) \<rparr>)
      | None \<Rightarrow> (True, db\<lparr> pdb := (pdb db)(key := None) \<rparr>))"

definition db_Exists :: "valtype \<Rightarrow> CTxDB \<Rightarrow> bool" where
  "db_Exists key db =
     (if (case activeBatch db of
            Some batch \<Rightarrow> (let (found, deleted, v) = ScanBatch key batch in found \<and> \<not> deleted)
          | None \<Rightarrow> False)
      then True else pdb db key \<noteq> None)"

definition TxnBegin :: "CTxDB \<Rightarrow> bool \<times> CTxDB" where
  "TxnBegin db = (if activeBatch db \<noteq> None then (False, db) else (True, db\<lparr> activeBatch := Some [] \<rparr>))"

text \<open>LevelDB applies a batch in order and as a whole.\<close>

fun apply_op :: "batch_op \<Rightarrow> (valtype \<rightharpoonup> valtype) \<Rightarrow> (valtype \<rightharpoonup> valtype)" where
  "apply_op (BatchPut key v) m = m(key \<mapsto> v)"
| "apply_op (BatchDelete key) m = m(key := None)"

definition TxnCommit :: "CTxDB \<Rightarrow> bool \<times> CTxDB" where
  "TxnCommit db =
     (case activeBatch db of None \<Rightarrow> (False, db)
      | Some batch \<Rightarrow> (True, db\<lparr> pdb := fold apply_op batch (pdb db), activeBatch := None \<rparr>))"

definition TxnAbort :: "CTxDB \<Rightarrow> bool \<times> CTxDB" where
  "TxnAbort db = (True, db\<lparr> activeBatch := None \<rparr>)"

section \<open>Records\<close>

definition str_bytes :: "string \<Rightarrow> valtype" where
  "str_bytes s = map of_char s"

definition CLIENT_VERSION :: int where "CLIENT_VERSION = 2030600"

definition hash_key :: "string \<Rightarrow> uint256 \<Rightarrow> valtype" where
  "hash_key tag hash = ser_pair ser_string ser_uint256 (str_bytes tag, hash)"

definition ReadTxIndex :: "uint256 \<Rightarrow> CTxDB \<Rightarrow> CTxIndex option" where
  "ReadTxIndex hash db = map_option snd (db_Read unser_txindex (hash_key ''tx'' hash) db)"

definition UpdateTxIndex :: "uint256 \<Rightarrow> CTxIndex \<Rightarrow> CTxDB \<Rightarrow> bool \<times> CTxDB" where
  "UpdateTxIndex hash txindex db = db_Write (hash_key ''tx'' hash) (ser_txindex CLIENT_VERSION txindex) db"

definition AddTxIndex :: "ext \<Rightarrow> CTransaction \<Rightarrow> CDiskTxPos \<Rightarrow> CTxDB \<Rightarrow> bool \<times> CTxDB" where
  "AddTxIndex E tx pos db =
     db_Write (hash_key ''tx'' (tx_GetHash E tx)) (ser_txindex CLIENT_VERSION (txindex_new pos (length (vout tx)))) db"

definition EraseTxIndex :: "ext \<Rightarrow> CTransaction \<Rightarrow> CTxDB \<Rightarrow> bool \<times> CTxDB" where
  "EraseTxIndex E tx db = db_Erase (hash_key ''tx'' (tx_GetHash E tx)) db"

definition ContainsTx :: "uint256 \<Rightarrow> CTxDB \<Rightarrow> bool" where
  "ContainsTx hash db = db_Exists (hash_key ''tx'' hash) db"

text \<open>The key of a block index record is the record's own hash, computed when the stored copy is not used.\<close>

definition WriteBlockIndex :: "ext \<Rightarrow> bool \<Rightarrow> int \<Rightarrow> CDiskBlockIndex \<Rightarrow> CTxDB \<Rightarrow> bool \<times> CTxDB" where
  "WriteBlockIndex E fUseFastIndex GetAdjustedTime d db =
     (let (h, d) = disk_GetBlockHash E fUseFastIndex GetAdjustedTime d
      in db_Write (hash_key ''blockindex'' h) (ser_diskindex CLIENT_VERSION d) db)"

definition plain_key :: "string \<Rightarrow> valtype" where
  "plain_key tag = ser_string (str_bytes tag)"

definition ReadVersion :: "CTxDB \<Rightarrow> int option" where
  "ReadVersion db = db_Read unser_i32 (plain_key ''version'') db"

definition WriteVersion :: "int \<Rightarrow> CTxDB \<Rightarrow> bool \<times> CTxDB" where
  "WriteVersion nVersion db = db_Write (plain_key ''version'') (ser_i32 nVersion) db"

definition ReadHashBestChain :: "CTxDB \<Rightarrow> uint256 option" where
  "ReadHashBestChain db = db_Read unser_uint256 (plain_key ''hashBestChain'') db"

definition WriteHashBestChain :: "uint256 \<Rightarrow> CTxDB \<Rightarrow> bool \<times> CTxDB" where
  "WriteHashBestChain h db = db_Write (plain_key ''hashBestChain'') (ser_uint256 h) db"

definition ReadSyncCheckpoint :: "CTxDB \<Rightarrow> uint256 option" where
  "ReadSyncCheckpoint db = db_Read unser_uint256 (plain_key ''hashSyncCheckpoint'') db"

definition WriteSyncCheckpoint :: "uint256 \<Rightarrow> CTxDB \<Rightarrow> bool \<times> CTxDB" where
  "WriteSyncCheckpoint h db = db_Write (plain_key ''hashSyncCheckpoint'') (ser_uint256 h) db"

definition ReadCheckpointPubKey :: "CTxDB \<Rightarrow> valtype option" where
  "ReadCheckpointPubKey db = db_Read unser_string (plain_key ''strCheckpointPubKey'') db"

definition WriteCheckpointPubKey :: "valtype \<Rightarrow> CTxDB \<Rightarrow> bool \<times> CTxDB" where
  "WriteCheckpointPubKey k db = db_Write (plain_key ''strCheckpointPubKey'') (ser_string k) db"

section \<open>Key-value stores\<close>

text \<open>What the chain code relies on: a store shows a map, a lookup reads it, and an update or a removal changes it at one
  key.\<close>

text \<open>Writing entries one after the other, up to the first failure.\<close>

fun write_all :: "('k \<Rightarrow> 'v \<Rightarrow> 's \<Rightarrow> bool \<times> 's) \<Rightarrow> ('k \<times> 'v) list \<Rightarrow> 's \<Rightarrow> bool \<times> 's" where
  "write_all put [] s = (True, s)"
| "write_all put ((k, v) # kvs) s = (case put k v s of (ok, s) \<Rightarrow> if ok then write_all put kvs s else (False, s))"

locale kv_store =
  fixes view :: "'s \<Rightarrow> 'k \<Rightarrow> 'v option" and get :: "'k \<Rightarrow> 's \<Rightarrow> 'v option"
    and put :: "'k \<Rightarrow> 'v \<Rightarrow> 's \<Rightarrow> bool \<times> 's" and del :: "'k \<Rightarrow> 's \<Rightarrow> bool \<times> 's"
    and ready :: "'s \<Rightarrow> bool" and good :: "'v \<Rightarrow> bool"
  assumes get_view: "get k s = view s k"
    and put_view: "ready s \<Longrightarrow> good v \<Longrightarrow> fst (put k v s) \<and> view (snd (put k v s)) = (view s)(k \<mapsto> v) \<and> ready (snd (put k v s))"
    and del_view: "ready s \<Longrightarrow> fst (del k s) \<and> view (snd (del k s)) = (view s)(k := None) \<and> ready (snd (del k s))"
begin

lemma get_put: "ready s \<Longrightarrow> good v \<Longrightarrow> get k' (snd (put k v s)) = (if k' = k then Some v else get k' s)"
  using put_view by (simp add: get_view)

lemma get_del: "ready s \<Longrightarrow> get k' (snd (del k s)) = (if k' = k then None else get k' s)"
  using del_view by (simp add: get_view)

text \<open>Writing a list of entries with distinct keys overlays them.\<close>

lemma write_all_view:
  "ready s \<Longrightarrow> list_all (good \<circ> snd) kvs \<Longrightarrow> distinct (map fst kvs) \<Longrightarrow>
    fst (write_all put kvs s) \<and> view (snd (write_all put kvs s)) = view s ++ map_of kvs \<and> ready (snd (write_all put kvs s))"
proof (induction kvs arbitrary: s)
  case (Cons kv kvs)
  obtain k v where kv: "kv = (k, v)" by force
  obtain ok s' where p: "put k v s = (ok, s')" by force
  have s': "ok" "view s' = (view s)(k \<mapsto> v)" "ready s'" using put_view [of s v k] Cons.prems kv p by auto
  have "map_of kvs k = None" using Cons.prems(3) kv by (simp add: map_of_eq_None_iff)
  then have "(view s)(k \<mapsto> v) ++ map_of kvs = view s ++ map_of kv' " if "kv' = (k, v) # kvs" for kv'
    using that by (auto simp: map_add_def fun_eq_iff split: option.split)
  with Cons.IH [OF s'(3)] Cons.prems show ?case by (simp add: kv p s'(1,2) del: fun_upd_apply)
qed simp

end

section \<open>The handle is a store of byte strings\<close>

definition db_view :: "CTxDB \<Rightarrow> valtype \<rightharpoonup> valtype" where
  "db_view db = (case activeBatch db of None \<Rightarrow> pdb db | Some batch \<Rightarrow> fold apply_op batch (pdb db))"

lemma scan_apply:
  "\<exists>found deleted v. fold (scan_op key) batch (False, False, []) = (found, deleted, v) \<and> (deleted \<longrightarrow> found) \<and>
    fold apply_op batch m key = (if deleted then None else if found then Some v else m key)"
proof (induction batch rule: rev_induct)
  case (snoc op batch)
  then obtain found deleted v where "fold (scan_op key) batch (False, False, []) = (found, deleted, v)" "deleted \<longrightarrow> found"
    "fold apply_op batch m key = (if deleted then None else if found then Some v else m key)" by blast
  then show ?case by (cases op) auto
qed auto

lemma db_Get_view: "db_Get key db = db_view db key"
proof (cases "activeBatch db")
  case (Some batch)
  from scan_apply [of key batch "pdb db"] show ?thesis
    by (auto simp: db_Get_def db_view_def ScanBatch_def Some)
qed (simp add: db_Get_def db_view_def)

definition db_ready :: "CTxDB \<Rightarrow> bool" where
  "db_ready db \<longleftrightarrow> \<not> fReadOnly db"

interpretation raw: kv_store db_view db_Get db_Write db_Erase db_ready "\<lambda>v. True"
  by unfold_locales (auto simp: db_Get_view db_Write_def db_Erase_def db_view_def db_ready_def split: option.splits)

section \<open>Typed records\<close>

text \<open>Keys start with the length of their tag, and the tags in use have different lengths.\<close>

lemma hd_keys:
  "hd (hash_key ''tx'' h) = 2" "hd (hash_key ''blockindex'' h) = 10" "hd (plain_key ''version'') = 7"
  "hd (plain_key ''hashBestChain'') = 13" "hd (plain_key ''hashSyncCheckpoint'') = 18" "hd (plain_key ''strCheckpointPubKey'') = 19"
  by (simp_all add: hash_key_def plain_key_def ser_pair_def ser_string_def str_bytes_def WriteCompactSize_def ser_u8_def word_less_nat_alt)

lemma key_neq: "hd k \<noteq> hd k' \<Longrightarrow> k \<noteq> k'"
  by auto

lemma hash_key_inject [simp]: "hash_key tag h = hash_key tag h' \<longleftrightarrow> h = h'"
  by (auto simp: hash_key_def ser_pair_def c256.ser_inject)

lemma db_Read_write:
  assumes "db_ready db" "unser v = Inr (x, [])"
  shows "db_Read unser k' (snd (db_Write k v db)) = (if k' = k then Some x else db_Read unser k' db)"
  using assms by (simp add: db_Read_def raw.get_put)

lemma db_Read_erase:
  assumes "db_ready db"
  shows "db_Read unser k' (snd (db_Erase k db)) = (if k' = k then None else db_Read unser k' db)"
  using assms by (simp add: db_Read_def raw.get_del)

definition tx_view :: "CTxDB \<Rightarrow> uint256 \<rightharpoonup> CTxIndex" where
  "tx_view db h = ReadTxIndex h db"

definition txindex_ok :: "CTxIndex \<Rightarrow> bool" where
  "txindex_ok x \<longleftrightarrow> length (vSpent x) \<le> MAX_SIZE"

lemma unser_txindex_disk: "txindex_ok x \<Longrightarrow> unser_txindex (ser_txindex CLIENT_VERSION x) = Inr ((CLIENT_VERSION, x), [])"
  using txindex_roundtrip [of CLIENT_VERSION x "[]"] by (simp add: txindex_ok_def CLIENT_VERSION_def int32_range_def)

text \<open>The transaction index, with removal by hash.\<close>

definition erase_tx :: "uint256 \<Rightarrow> CTxDB \<Rightarrow> bool \<times> CTxDB" where
  "erase_tx hash db = db_Erase (hash_key ''tx'' hash) db"

lemma EraseTxIndex_erase_tx: "EraseTxIndex E tx = erase_tx (tx_GetHash E tx)"
  by (simp add: fun_eq_iff EraseTxIndex_def erase_tx_def)

lemma AddTxIndex_update: "AddTxIndex E tx pos = UpdateTxIndex (tx_GetHash E tx) (txindex_new pos (length (vout tx)))"
  by (simp add: fun_eq_iff AddTxIndex_def UpdateTxIndex_def)

interpretation txix: kv_store tx_view ReadTxIndex UpdateTxIndex erase_tx db_ready txindex_ok
proof
  fix s :: CTxDB and v :: CTxIndex and k :: uint256
  show "ReadTxIndex k s = tx_view s k" by (simp add: tx_view_def)
  assume s: "db_ready s"
  show "fst (erase_tx k s) \<and> tx_view (snd (erase_tx k s)) = (tx_view s)(k := None) \<and> db_ready (snd (erase_tx k s))"
    using s raw.del_view [OF s, of "hash_key ''tx'' k"]
    by (auto simp: fun_eq_iff tx_view_def ReadTxIndex_def erase_tx_def db_Read_erase)
  assume v: "txindex_ok v"
  show "fst (UpdateTxIndex k v s) \<and> tx_view (snd (UpdateTxIndex k v s)) = (tx_view s)(k \<mapsto> v) \<and> db_ready (snd (UpdateTxIndex k v s))"
    using raw.put_view [OF s, where k = "hash_key ''tx'' k" and v = "ser_txindex CLIENT_VERSION v"]
    by (auto simp: fun_eq_iff tx_view_def ReadTxIndex_def UpdateTxIndex_def db_Read_write [where unser = unser_txindex, OF s unser_txindex_disk [OF v]])
qed

text \<open>Writing other records leaves the transaction index alone.\<close>

lemma tx_view_other:
  assumes "db_ready db" "hd key \<noteq> 2"
  shows "tx_view (snd (db_Write key v db)) = tx_view db" "db_ready (snd (db_Write key v db))" "fst (db_Write key v db)"
proof -
  have "hash_key ''tx'' h \<noteq> key" for h using assms(2) hd_keys(1) by metis
  then show "tx_view (snd (db_Write key v db)) = tx_view db"
    by (simp add: fun_eq_iff tx_view_def ReadTxIndex_def db_Read_def raw.get_put [OF assms(1)])
  show "db_ready (snd (db_Write key v db))" "fst (db_Write key v db)" using raw.put_view [OF assms(1)] by auto
qed

lemma write_others:
  assumes "db_ready db"
  shows "tx_view (snd (WriteBlockIndex E f t d db)) = tx_view db" "db_ready (snd (WriteBlockIndex E f t d db))"
    "fst (WriteBlockIndex E f t d db)"
    "tx_view (snd (WriteHashBestChain h db)) = tx_view db" "db_ready (snd (WriteHashBestChain h db))" "fst (WriteHashBestChain h db)"
  using assms tx_view_other [OF assms] hd_keys
  by (auto simp: WriteBlockIndex_def WriteHashBestChain_def Let_def split: prod.split)

section \<open>Properties\<close>

fun run_db :: "batch_op \<Rightarrow> CTxDB \<Rightarrow> CTxDB" where
  "run_db (BatchPut key v) db = snd (db_Write key v db)"
| "run_db (BatchDelete key) db = snd (db_Erase key db)"

lemma run_db_batch:
  "activeBatch db = Some b \<Longrightarrow> \<not> fReadOnly db \<Longrightarrow> fold run_db ops db = db\<lparr> activeBatch := Some (b @ ops) \<rparr>"
proof (induction ops arbitrary: db b)
  case (Cons op ops)
  have "run_db op db = db\<lparr> activeBatch := Some (b @ [op]) \<rparr>" using Cons.prems by (cases op) (simp_all add: db_Write_def db_Erase_def)
  then show ?case using Cons.prems Cons.IH [of "run_db op db" "b @ [op]"] by simp
qed simp

text \<open>C19. Database transactions: after \<^verbatim>\<open>TxnBegin\<close> and any writes and erasures a read returns what those changes leave at
  the key, nothing has reached the database yet, a commit stores exactly that, and an abort leaves the database as it
  was.\<close>

theorem txdb_transaction:
  assumes "activeBatch db = None" and "\<not> fReadOnly db"
  shows "let db' = fold run_db ops (snd (TxnBegin db)); final = fold apply_op ops (pdb db)
    in (\<forall>key. db_Get key db' = final key) \<and> pdb db' = pdb db \<and>
      TxnCommit db' = (True, db\<lparr> pdb := final, activeBatch := None \<rparr>) \<and> TxnAbort db' = (True, db)"
proof -
  have "fold run_db ops (snd (TxnBegin db)) = db\<lparr> activeBatch := Some ops \<rparr>"
    using run_db_batch [of "snd (TxnBegin db)" "[]" ops] assms by (simp add: TxnBegin_def)
  then show ?thesis using assms
    by (simp add: Let_def db_Get_view db_view_def TxnCommit_def TxnAbort_def)
qed

theorem txdb_transaction_witness:
  "db_Get [1] (fold run_db [BatchPut [1] [9], BatchDelete [2], BatchPut [1] [8]]
     (snd (TxnBegin \<lparr> pdb = [[2] \<mapsto> [7]], activeBatch = None, fReadOnly = False \<rparr>))) = Some [8]"
  using txdb_transaction [of "\<lparr> pdb = [[2] \<mapsto> [7]], activeBatch = None, fReadOnly = False \<rparr>"
      "[BatchPut [1] [9], BatchDelete [2], BatchPut [1] [8]]"]
  by (simp add: Let_def)

text \<open>C35. Inside a transaction \<^verbatim>\<open>Exists\<close> disagrees with \<^verbatim>\<open>Read\<close>: a transaction erased in the batch is no longer
  read, but \<^verbatim>\<open>ContainsTx\<close> still reports it while the database holds it.\<close>

theorem erased_tx_exists:
  assumes "activeBatch db = Some batch" and "\<not> fReadOnly db" and "pdb db (hash_key ''tx'' (tx_GetHash E tx)) = Some v"
  shows "ReadTxIndex (tx_GetHash E tx) (snd (EraseTxIndex E tx db)) = None \<and> ContainsTx (tx_GetHash E tx) (snd (EraseTxIndex E tx db))"
proof -
  have "db_ready db" using assms(2) by (simp add: db_ready_def)
  then have "ReadTxIndex (tx_GetHash E tx) (snd (EraseTxIndex E tx db)) = None"
    unfolding EraseTxIndex_erase_tx by (simp add: txix.get_del)
  moreover have "ContainsTx (tx_GetHash E tx) (snd (EraseTxIndex E tx db))"
    using assms by (simp add: ContainsTx_def db_Exists_def EraseTxIndex_def db_Erase_def)
  ultimately show ?thesis by blast
qed

theorem erased_tx_exists_witness:
  "let tx = tx_example 1; h = tx_GetHash ext_example tx;
       db = \<lparr> pdb = [hash_key ''tx'' h \<mapsto> [1]], activeBatch = Some [], fReadOnly = False \<rparr>
   in ReadTxIndex h (snd (EraseTxIndex ext_example tx db)) = None \<and> ContainsTx h (snd (EraseTxIndex ext_example tx db))"
  using erased_tx_exists [of "\<lparr> pdb = [hash_key ''tx'' (tx_GetHash ext_example (tx_example 1)) \<mapsto> [1]],
      activeBatch = Some [], fReadOnly = False \<rparr>" "[]" ext_example "tx_example 1" "[1]"]
  by (simp add: Let_def)

end
