(* ===== verification/Tx_Rules.thy ===== *)
theory Tx_Rules
  imports Hobo_Prelude Ext_Crypto Serialize Script Tx_Data Sig_Check Interpreter Standard
begin

text \<open>
  Rules for single transactions (\<^verbatim>\<open>main.h\<close> and \<^verbatim>\<open>main.cpp\<close>): amounts and their range, time drift, the context-free
  checks, finality, the relay policy on outputs and inputs, signature-operation counts and minimum fees.  A check that fails
  returns the misbehaviour score it adds (\<^verbatim>\<open>return DoS(n, error(..))\<close> adds \<open>n\<close>, \<^verbatim>\<open>return error(..)\<close> and \<^verbatim>\<open>return false\<close> add
  nothing); an exception is a failure of its own.
\<close>

unbundle bit_operations_syntax

section \<open>Amounts and times\<close>

datatype failure = DoS nat | Exception

abbreviation (input) Reject :: failure where "Reject \<equiv> DoS 0"

definition COIN :: int where "COIN = 1000000"
definition CENT :: int where "CENT = 10000"
definition MAX_MONEY :: int where "MAX_MONEY = 120000000 * COIN"

text \<open>\<^verbatim>\<open>0.1 * CENT\<close> truncated to an integer.\<close>

definition MIN_TX_FEE :: int where "MIN_TX_FEE = CENT div 10"
definition MIN_RELAY_TX_FEE :: int where "MIN_RELAY_TX_FEE = CENT div 10"
definition MIN_TXOUT_AMOUNT :: int where "MIN_TXOUT_AMOUNT = MIN_TX_FEE"

definition MAX_BLOCK_SIZE :: nat where "MAX_BLOCK_SIZE = 1000000"
definition MAX_BLOCK_SIZE_GEN :: nat where "MAX_BLOCK_SIZE_GEN = MAX_BLOCK_SIZE div 2"
definition MAX_STANDARD_TX_SIZE :: nat where "MAX_STANDARD_TX_SIZE = MAX_BLOCK_SIZE_GEN div 5"
definition MAX_BLOCK_SIGOPS :: nat where "MAX_BLOCK_SIGOPS = MAX_BLOCK_SIZE div 50"
definition LOCKTIME_THRESHOLD :: int where "LOCKTIME_THRESHOLD = 500000000"
definition VERSION1_5_SWITCH_TIME :: int where "VERSION1_5_SWITCH_TIME = 1421489410"

lemmas money_consts = COIN_def CENT_def MAX_MONEY_def MIN_TX_FEE_def MIN_RELAY_TX_FEE_def MIN_TXOUT_AMOUNT_def
lemmas size_consts = MAX_BLOCK_SIZE_def MAX_BLOCK_SIZE_GEN_def MAX_STANDARD_TX_SIZE_def MAX_BLOCK_SIGOPS_def

definition MoneyRange :: "int \<Rightarrow> bool" where
  "MoneyRange v \<longleftrightarrow> v \<ge> 0 \<and> v \<le> MAX_MONEY"

definition PastDrift :: "int \<Rightarrow> int" where
  "PastDrift nTime = (if nTime > VERSION1_5_SWITCH_TIME then nTime - 5 * 60 else nTime - 2 * 60 * 60)"

definition FutureDrift :: "int \<Rightarrow> int" where
  "FutureDrift nTime = (if nTime > VERSION1_5_SWITCH_TIME then nTime + 5 * 60 else nTime + 2 * 60 * 60)"

fun value_out_loop :: "int \<Rightarrow> CTxOut list \<Rightarrow> failure + int" where
  "value_out_loop nValueOut [] = Inr nValueOut"
| "value_out_loop nValueOut (txout # rest) =
     (let nValueOut = s64 (nValueOut + nValue txout)
      in if \<not> MoneyRange (nValue txout) \<or> \<not> MoneyRange nValueOut then Inl Exception else value_out_loop nValueOut rest)"

definition GetValueOut :: "CTransaction \<Rightarrow> failure + int" where
  "GetValueOut tx = value_out_loop 0 (vout tx)"

section \<open>Context-free checks\<close>

fun check_outputs :: "bool \<Rightarrow> int \<Rightarrow> CTxOut list \<Rightarrow> failure + int" where
  "check_outputs special nValueOut [] = Inr nValueOut"
| "check_outputs special nValueOut (txout # rest) =
     (if txout_IsEmpty txout \<and> \<not> special then Inl (DoS 100)
      else if \<not> txout_IsEmpty txout \<and> nValue txout < MIN_TXOUT_AMOUNT then Inl (DoS 100)
      else if nValue txout < 0 then Inl (DoS 100)
      else if nValue txout > MAX_MONEY then Inl (DoS 100)
      else let nValueOut = s64 (nValueOut + nValue txout)
           in if \<not> MoneyRange nValueOut then Inl (DoS 100) else check_outputs special nValueOut rest)"

fun duplicate_inputs :: "COutPoint list \<Rightarrow> CTxIn list \<Rightarrow> bool" where
  "duplicate_inputs vInOutPoints [] = False"
| "duplicate_inputs vInOutPoints (txin # rest) =
     (if prevout txin \<in> set vInOutPoints then True else duplicate_inputs (prevout txin # vInOutPoints) rest)"

definition CheckTransaction :: "int \<Rightarrow> CTransaction \<Rightarrow> failure + unit" where
  "CheckTransaction GetAdjustedTime tx =
     (if vin tx = [] then Inl (DoS 10)
      else if vout tx = [] then Inl (DoS 10)
      else if uint (tx_nTime tx) > 1450569600 \<and> uint (tx_nTime tx) > FutureDrift GetAdjustedTime then Inl (DoS 10)
      else if length (ser_tx tx) > MAX_BLOCK_SIZE then Inl (DoS 100)
      else case check_outputs (IsCoinBase tx \<or> IsCoinStake tx) 0 (vout tx) of Inl e \<Rightarrow> Inl e | Inr nValueOut \<Rightarrow>
        if duplicate_inputs [] (vin tx) then Inl Reject
        else if IsCoinBase tx then
          (if length (scriptSig (vin tx ! 0)) < 2 \<or> length (scriptSig (vin tx ! 0)) > 100 then Inl (DoS 100) else Inr ())
        else if list_ex (\<lambda>txin. op_IsNull (prevout txin)) (vin tx) then Inl (DoS 10)
        else Inr ())"

section \<open>Policy\<close>

definition IsFinalTx :: "int \<Rightarrow> int \<Rightarrow> CTransaction \<Rightarrow> int \<Rightarrow> int \<Rightarrow> bool" where
  "IsFinalTx nBestHeight GetAdjustedTime tx nBlockHeight nBlockTime =
     (if nLockTime tx = 0 then True
      else let nBlockHeight = (if nBlockHeight = 0 then nBestHeight else nBlockHeight);
               nBlockTime = (if nBlockTime = 0 then GetAdjustedTime else nBlockTime);
               l = uint (nLockTime tx)
           in if l < (if l < LOCKTIME_THRESHOLD then nBlockHeight else nBlockTime) then True
              else list_all txin_IsFinal (vin tx))"

fun standard_outputs :: "nat \<Rightarrow> CTxOut list \<Rightarrow> nat option" where
  "standard_outputs nDataOut [] = Some nDataOut"
| "standard_outputs nDataOut (txout # rest) =
     (let (ok, whichType) = IsStandard (scriptPubKey txout)
      in if \<not> ok then None
         else let nDataOut = (if whichType = TX_NULL_DATA then nDataOut + 1 else nDataOut)
              in if nValue txout = 0 then None
                 else if \<not> HasCanonicalPushes (scriptPubKey txout) then None
                 else standard_outputs nDataOut rest)"

definition standard_input :: "CTxIn \<Rightarrow> bool" where
  "standard_input txin \<longleftrightarrow> \<not> length (scriptSig txin) > 500 \<and> IsPushOnly (scriptSig txin) \<and> HasCanonicalPushes (scriptSig txin)"

definition IsStandardTx :: "int \<Rightarrow> int \<Rightarrow> CTransaction \<Rightarrow> bool" where
  "IsStandardTx nBestHeight GetAdjustedTime tx =
     (if tx_nVersion tx > 1 then False
      else if \<not> IsFinalTx nBestHeight GetAdjustedTime tx (nBestHeight + 1) 0 then False
      else if uint (tx_nTime tx) > FutureDrift GetAdjustedTime then False
      else if length (ser_tx tx) \<ge> MAX_STANDARD_TX_SIZE then False
      else if \<not> list_all standard_input (vin tx) then False
      else case standard_outputs 0 (vout tx) of None \<Rightarrow> False | Some nDataOut \<Rightarrow> \<not> nDataOut > 1)"

type_synonym MapPrevTx = "uint256 \<rightharpoonup> CTxIndex \<times> CTransaction"

definition GetOutputFor :: "CTxIn \<Rightarrow> MapPrevTx \<Rightarrow> failure + CTxOut" where
  "GetOutputFor input inputs =
     (case inputs (op_hash (prevout input)) of None \<Rightarrow> Inl Exception
      | Some (txindex, txPrev) \<Rightarrow>
          if unat (op_n (prevout input)) \<ge> length (vout txPrev) then Inl Exception
          else Inr (vout txPrev ! unat (op_n (prevout input))))"

fun value_in_loop :: "MapPrevTx \<Rightarrow> int \<Rightarrow> CTxIn list \<Rightarrow> failure + int" where
  "value_in_loop inputs nResult [] = Inr nResult"
| "value_in_loop inputs nResult (txin # rest) =
     (case GetOutputFor txin inputs of Inl e \<Rightarrow> Inl e
      | Inr out \<Rightarrow> value_in_loop inputs (s64 (nResult + nValue out)) rest)"

definition GetValueIn :: "MapPrevTx \<Rightarrow> CTransaction \<Rightarrow> failure + int" where
  "GetValueIn inputs tx = (if IsCoinBase tx then Inr 0 else value_in_loop inputs 0 (vin tx))"

definition GetLegacySigOpCount :: "CTransaction \<Rightarrow> u32" where
  "GetLegacySigOpCount tx =
     (let n = fold (\<lambda>txin n. n + of_nat (GetSigOpCount False (scriptSig txin))) (vin tx) 0
      in fold (\<lambda>txout n. n + of_nat (GetSigOpCount False (scriptPubKey txout))) (vout tx) n)"

fun p2sh_sigops_loop :: "MapPrevTx \<Rightarrow> u32 \<Rightarrow> CTxIn list \<Rightarrow> failure + u32" where
  "p2sh_sigops_loop inputs nSigOps [] = Inr nSigOps"
| "p2sh_sigops_loop inputs nSigOps (txin # rest) =
     (case GetOutputFor txin inputs of Inl e \<Rightarrow> Inl e
      | Inr out \<Rightarrow>
          p2sh_sigops_loop inputs
            (if IsPayToScriptHash (scriptPubKey out)
             then nSigOps + of_nat (GetSigOpCount_sig (scriptPubKey out) (scriptSig txin)) else nSigOps) rest)"

definition GetP2SHSigOpCount :: "MapPrevTx \<Rightarrow> CTransaction \<Rightarrow> failure + u32" where
  "GetP2SHSigOpCount inputs tx = (if IsCoinBase tx then Inr 0 else p2sh_sigops_loop inputs 0 (vin tx))"

text \<open>One input against its previous output: the number of arguments its template takes, and for a script hash those of
  the redeem script.\<close>

definition input_standard :: "ext \<Rightarrow> CTransaction \<Rightarrow> nat \<Rightarrow> CTxOut \<Rightarrow> CSignatureCache \<Rightarrow> bool \<times> CSignatureCache" where
  "input_standard E tx i prev c =
     (case Solver (scriptPubKey prev) of (False, _) \<Rightarrow> (False, c)
      | (True, whichType, vSolutions) \<Rightarrow>
          let nArgsExpected = ScriptSigArgsExpected whichType vSolutions
          in if nArgsExpected < 0 then (False, c)
             else case EvalScript E \<lparr> ctx_txTo = tx, ctx_nIn = i, ctx_flags = 0, ctx_nHashType = 0 \<rparr> [] (scriptSig (vin tx ! i)) c of
               (False, _, c) \<Rightarrow> (False, c)
             | (True, stack, c) \<Rightarrow>
                 if whichType = TX_SCRIPTHASH then
                   (if stack = [] then (False, c)
                    else case Solver (hd stack) of (False, _) \<Rightarrow> (False, c)
                      | (True, whichType2, vSolutions2) \<Rightarrow>
                          if whichType2 = TX_SCRIPTHASH then (False, c)
                          else let tmpExpected = ScriptSigArgsExpected whichType2 vSolutions2
                               in if tmpExpected < 0 then (False, c)
                                  else (int (length stack) = nArgsExpected + tmpExpected, c))
                 else (int (length stack) = nArgsExpected, c))"

fun inputs_standard :: "ext \<Rightarrow> CTransaction \<Rightarrow> MapPrevTx \<Rightarrow> nat list \<Rightarrow> CSignatureCache \<Rightarrow> failure + (bool \<times> CSignatureCache)" where
  "inputs_standard E tx inputs [] c = Inr (True, c)"
| "inputs_standard E tx inputs (i # is) c =
     (case GetOutputFor (vin tx ! i) inputs of Inl e \<Rightarrow> Inl e
      | Inr prev \<Rightarrow> (case input_standard E tx i prev c of (False, c) \<Rightarrow> Inr (False, c) | (True, c) \<Rightarrow> inputs_standard E tx inputs is c))"

definition AreInputsStandard :: "ext \<Rightarrow> MapPrevTx \<Rightarrow> CTransaction \<Rightarrow> CSignatureCache \<Rightarrow> failure + (bool \<times> CSignatureCache)" where
  "AreInputsStandard E inputs tx c =
     (if IsCoinBase tx then Inr (True, c) else inputs_standard E tx inputs [0..<length (vin tx)] c)"

datatype GetMinFee_mode = GMF_BLOCK | GMF_RELAY | GMF_SEND

definition GetMinFee :: "u32 \<Rightarrow> bool \<Rightarrow> GetMinFee_mode \<Rightarrow> u32 \<Rightarrow> CTransaction \<Rightarrow> int" where
  "GetMinFee nBlockSize fAllowFree mode nBytes tx =
     (let nBaseFee = (if mode = GMF_RELAY then MIN_RELAY_TX_FEE else MIN_TX_FEE);
          nNewBlockSize = nBlockSize + nBytes;
          nMinFee = (1 + uint nBytes div 1000) * nBaseFee;
          nMinFee = (if nMinFee < nBaseFee \<and> list_ex (\<lambda>txout. nValue txout < CENT) (vout tx) then nBaseFee else nMinFee)
      in if nBlockSize \<noteq> 1 \<and> unat nNewBlockSize \<ge> MAX_BLOCK_SIZE_GEN div 2 \<and> unat nNewBlockSize \<ge> MAX_BLOCK_SIZE_GEN then MAX_MONEY
         else let nMinFee = (if nBlockSize \<noteq> 1 \<and> unat nNewBlockSize \<ge> MAX_BLOCK_SIZE_GEN div 2
                             then nMinFee * int (MAX_BLOCK_SIZE_GEN div (MAX_BLOCK_SIZE_GEN - unat nNewBlockSize)) else nMinFee)
              in if \<not> MoneyRange nMinFee then MAX_MONEY else nMinFee)"

definition GetMinFee_default :: "CTransaction \<Rightarrow> int" where
  "GetMinFee_default tx = GetMinFee 1 False GMF_BLOCK 0 tx"

section \<open>What the checks establish\<close>

lemma money_range_sum: "MoneyRange a \<Longrightarrow> MoneyRange b \<Longrightarrow> s64 (a + b) = a + b"
  by (rule s64_id) (simp add: MoneyRange_def money_consts int64_range_def)

lemma check_outputs_value_out:
  "MoneyRange acc \<Longrightarrow> check_outputs special acc outs = Inr v \<Longrightarrow>
    value_out_loop acc outs = Inr v \<and> v = acc + sum_list (map nValue outs) \<and> MoneyRange v \<and>
    (\<forall>out \<in> set outs. MoneyRange (nValue out) \<and> (txout_IsEmpty out \<longrightarrow> special) \<and> (\<not> txout_IsEmpty out \<longrightarrow> nValue out \<ge> MIN_TXOUT_AMOUNT))"
proof (induction outs arbitrary: acc)
  case (Cons out outs)
  then have r: "MoneyRange (nValue out)" "txout_IsEmpty out \<longrightarrow> special" "\<not> txout_IsEmpty out \<longrightarrow> nValue out \<ge> MIN_TXOUT_AMOUNT"
    by (auto simp: MoneyRange_def Let_def split: if_splits)
  have s: "s64 (acc + nValue out) = acc + nValue out" by (rule money_range_sum [OF Cons.prems(1) r(1)])
  with Cons.prems have "MoneyRange (acc + nValue out)" "check_outputs special (acc + nValue out) outs = Inr v"
    by (auto simp: Let_def split: if_splits)
  from Cons.IH [OF this] show ?case using r s \<open>MoneyRange (acc + nValue out)\<close> by auto
qed simp

lemma duplicate_inputs_distinct:
  "\<not> duplicate_inputs seen ins \<longleftrightarrow> distinct (map prevout ins) \<and> set (map prevout ins) \<inter> set seen = {}"
  by (induction ins arbitrary: seen) auto

lemma fee_scale: "MAX_BLOCK_SIZE_GEN > n \<Longrightarrow> MAX_BLOCK_SIZE_GEN div (MAX_BLOCK_SIZE_GEN - n) \<ge> 1"
  by (metis Suc_leI diff_le_self div_greater_zero_iff zero_less_diff One_nat_def)

lemma GetMinFee_range: "MIN_TX_FEE \<le> GetMinFee b f m n tx \<and> GetMinFee b f m n tx \<le> MAX_MONEY"
proof -
  let ?base = "(1 + uint n div 1000) * MIN_TX_FEE"
  have fee: "MIN_TX_FEE = 1000" "MIN_RELAY_TX_FEE = 1000" by (simp_all add: money_consts)
  have b: "MIN_TX_FEE \<le> ?base" by (simp add: fee pos_imp_zdiv_nonneg_iff)
  have s: "MIN_TX_FEE \<le> ?base * int k" if "k \<ge> 1" for k
  proof -
    have "?base * 1 \<le> ?base * int k" using that b by (intro mult_left_mono) (simp_all add: fee pos_imp_zdiv_nonneg_iff)
    then show ?thesis using b by linarith
  qed
  have m: "MIN_TX_FEE \<le> MAX_MONEY" by (simp add: money_consts)
  show ?thesis
    using b s [OF fee_scale] m by (auto simp: GetMinFee_def Let_def MoneyRange_def fee)
qed

lemma GetMinFee_default_value: "GetMinFee_default tx = MIN_TX_FEE"
  by (simp add: GetMinFee_default_def GetMinFee_def Let_def MoneyRange_def money_consts)

section \<open>Properties\<close>

text \<open>C36. A transaction that passes the context-free checks has outputs that are each in the money range and at least the
  minimum unless empty, empty only in a coin base or coin stake, and whose sum neither overflows nor leaves the range, so
  that \<^verbatim>\<open>GetValueOut\<close> returns it without an exception; it spends no output twice, spends no null output unless it is a coin
  base, and fits into a block.\<close>

theorem checked_transaction:
  assumes "CheckTransaction now tx = Inr ()"
  shows "GetValueOut tx = Inr (sum_list (map nValue (vout tx))) \<and> MoneyRange (sum_list (map nValue (vout tx))) \<and>
    (\<forall>out \<in> set (vout tx). MoneyRange (nValue out) \<and> (txout_IsEmpty out \<longrightarrow> IsCoinBase tx \<or> IsCoinStake tx) \<and>
       (\<not> txout_IsEmpty out \<longrightarrow> nValue out \<ge> MIN_TXOUT_AMOUNT)) \<and>
    distinct (map prevout (vin tx)) \<and> (\<not> IsCoinBase tx \<longrightarrow> (\<forall>txin \<in> set (vin tx). \<not> op_IsNull (prevout txin))) \<and>
    vin tx \<noteq> [] \<and> vout tx \<noteq> [] \<and> length (ser_tx tx) \<le> MAX_BLOCK_SIZE"
proof -
  from assms obtain v where v: "check_outputs (IsCoinBase tx \<or> IsCoinStake tx) 0 (vout tx) = Inr v"
    by (auto simp: CheckTransaction_def split: if_splits sum.splits)
  have "MoneyRange 0" by (simp add: MoneyRange_def money_consts)
  from check_outputs_value_out [OF this v] show ?thesis
    using assms duplicate_inputs_distinct [of "[]" "vin tx"] v
    by (auto simp: CheckTransaction_def GetValueOut_def list_ex_iff split: if_splits sum.splits)
qed

definition pay_example :: CTransaction where
  "pay_example = \<lparr> tx_nVersion = 1, tx_nTime = 0, vin = [\<lparr> prevout = \<lparr> op_hash = 1, op_n = 0 \<rparr>, scriptSig = [], nSequence = - 1 \<rparr>],
     vout = [\<lparr> nValue = 5000, scriptPubKey = [0x51] \<rparr>], nLockTime = 0 \<rparr>"

theorem checked_transaction_witness: "GetValueOut pay_example = Inr 5000"
proof -
  have "length (ser_tx pay_example) \<le> MAX_BLOCK_SIZE"
    by (simp add: pay_example_def ser_tx_def ser_vector_def ser_txin_def ser_txout_def ser_outpoint_def ser_bytes_def
        WriteCompactSize_def size_consts)
  then have "CheckTransaction 0 pay_example = Inr ()"
    unfolding CheckTransaction_def
    by (simp add: pay_example_def IsCoinBase_def IsCoinStake_def op_IsNull_def txout_IsEmpty_def money_consts MoneyRange_def s64_def Let_def)
  from checked_transaction [OF this] show ?thesis by (simp add: pay_example_def)
qed

text \<open>Minimum fees lie between \<^verbatim>\<open>MIN_TX_FEE\<close> and \<^verbatim>\<open>MAX_MONEY\<close> for every block size, mode and transaction, and the
  default call charges exactly \<^verbatim>\<open>MIN_TX_FEE\<close>.  The clause on small outputs never applies, and a transaction that pays the
  relay fee never reaches the rate limiter for free transactions.\<close>

theorem min_fee_bounds:
  "MIN_TX_FEE \<le> GetMinFee nBlockSize fAllowFree mode nBytes tx \<and> GetMinFee nBlockSize fAllowFree mode nBytes tx \<le> MAX_MONEY \<and>
   GetMinFee_default tx = MIN_TX_FEE \<and> (nFees \<ge> GetMinFee 1000 False GMF_RELAY nBytes tx \<longrightarrow> \<not> nFees < MIN_RELAY_TX_FEE)"
  using GetMinFee_range [of nBlockSize fAllowFree mode nBytes tx] GetMinFee_range [of 1000 False GMF_RELAY nBytes tx]
    GetMinFee_default_value [of tx]
  by (auto simp: money_consts)

theorem min_fee_bounds_witness:
  "GetMinFee 1000 False GMF_RELAY 0 pay_example \<le> 1000 \<and> GetMinFee_default pay_example = 1000 \<and> \<not> 1000 < MIN_RELAY_TX_FEE"
proof -
  have "GetMinFee 1000 False GMF_RELAY 0 pay_example \<le> 1000"
    by (simp add: GetMinFee_def Let_def MoneyRange_def money_consts size_consts)
  with min_fee_bounds [of 1000 False GMF_RELAY 0 pay_example 1000] show ?thesis by (simp add: money_consts)
qed

end
