(* ===== verification/Rewards.thy ===== *)
theory Rewards
  imports Hobo_Prelude Ext_Crypto Bignum Tx_Data Block Block_Index Tx_Rules
begin

text \<open>
  Rewards, targets and trust (\<^verbatim>\<open>main.cpp\<close>): the proof-of-stake reward found by bisection on a power of the target, the
  retargeting of both kinds of block, the bound on targets of distant blocks, the proof-of-work test and the trust a block
  adds to its chain.  \<^verbatim>\<open>CBigNum\<close> values are integers; the limits are those of the chosen network.
\<close>

section \<open>Constants of the network\<close>

definition bnProofOfWorkLimit :: "bool \<Rightarrow> BIGNUM" where
  "bnProofOfWorkLimit fTestNet = (if fTestNet then 2 ^ 240 - 1 else 2 ^ 236 - 1)"

definition bnProofOfStakeLimit :: "bool \<Rightarrow> BIGNUM" where
  "bnProofOfStakeLimit fTestNet = (if fTestNet then 2 ^ 236 - 1 else 2 ^ 232 - 1)"

definition bnProofOfStakeHardLimit :: BIGNUM where
  "bnProofOfStakeHardLimit = 2 ^ 226 - 1"

definition VERSION_2_0_SWITCH_TIME :: "bool \<Rightarrow> int" where
  "VERSION_2_0_SWITCH_TIME fTestNet = (if fTestNet then 1505002972 else 1505509200)"

definition SPACING_TARGET_SWITCH :: "bool \<Rightarrow> int" where
  "SPACING_TARGET_SWITCH fTestNet = (if fTestNet then 6390 else 5667000)"

definition MAX_MINT_PROOF_OF_STAKE :: int where "MAX_MINT_PROOF_OF_STAKE = 10 * CENT"
definition MAX_MINT_PROOF_OF_STAKE_FIX :: int where "MAX_MINT_PROOF_OF_STAKE_FIX = 1000 * CENT"
definition MAX_MINT_PROOF_OF_STAKE_FIX2 :: int where "MAX_MINT_PROOF_OF_STAKE_FIX2 = 100 * CENT"
definition MAX_MINT_PROOF_OF_WORK :: int where "MAX_MINT_PROOF_OF_WORK = 5 * COIN"

definition PROTOCOL_SWITCH_TIME :: int where "PROTOCOL_SWITCH_TIME = 1371686400"
definition POS_REWARD_SWITCH_TIME :: int where "POS_REWARD_SWITCH_TIME = 1378684800"
definition POS_REWARD_FIX_TIME :: int where "POS_REWARD_FIX_TIME = 1383177600"
definition POS_REWARD_FIX_TIME2 :: int where "POS_REWARD_FIX_TIME2 = 1383606000"
definition VERSION1_5_SWITCH_BLOCK :: int where "VERSION1_5_SWITCH_BLOCK = 1600000"

text \<open>\<^verbatim>\<open>4.20 * 30\<close> is 126.\<close>

definition GetTargetSpacing :: "bool \<Rightarrow> int \<Rightarrow> u32" where
  "GetTargetSpacing fTestNet nBestHeight =
     (if nBestHeight + 1 > SPACING_TARGET_SWITCH fTestNet then 126 else if fTestNet then 1 * 60 else 1 * 30)"

definition GetStakeMinAge :: "bool \<Rightarrow> int \<Rightarrow> u32" where
  "GetStakeMinAge fTestNet nBestHeight =
     (if nBestHeight + 1 > SPACING_TARGET_SWITCH fTestNet then 60 * 60 * 24 * 1 else if fTestNet then 2 * 60 * 60 else 60 * 60 * 24 * 10)"

section \<open>Rewards\<close>

definition GetProofOfWorkReward :: int where
  "GetProofOfWorkReward = 5 * COIN"

text \<open>The bisection the three reward rules share; they differ in the power and the first lower bound.\<close>

function reward_search :: "nat \<Rightarrow> BIGNUM \<Rightarrow> BIGNUM \<Rightarrow> BIGNUM \<Rightarrow> BIGNUM \<Rightarrow> BIGNUM \<Rightarrow> BIGNUM" where
  "reward_search p bnTargetLimit bnRewardCoinYearLimit bnTarget bnLowerBound bnUpperBound =
     (if bnLowerBound + CENT \<le> bnUpperBound
      then let bnMidValue = bn_div (bnLowerBound + bnUpperBound) 2
           in if bnMidValue ^ p * bnTargetLimit > bnRewardCoinYearLimit ^ p * bnTarget
              then reward_search p bnTargetLimit bnRewardCoinYearLimit bnTarget bnLowerBound bnMidValue
              else reward_search p bnTargetLimit bnRewardCoinYearLimit bnTarget bnMidValue bnUpperBound
      else bnUpperBound)"
  by pat_completeness auto


lemma tdiv_2: "2 * tdiv a 2 \<in> {a - 1, a, a + 1}"
  by (cases a "0 :: int" rule: linorder_cases) (auto simp: tdiv_def)

lemma bisect_between:
  assumes "l + CENT \<le> u"
  shows "l < bn_div (l + u) 2" "bn_div (l + u) 2 < u"
  using tdiv_2 [of "l + u"] assms by (auto simp: bn_div_def CENT_def)

termination reward_search
  by (relation "measure (\<lambda>(p, TL, RL, T, l, u). nat (u - l))") (auto simp: bisect_between CENT_def)

declare reward_search.simps [simp del]

definition coin_year_limit_V1 :: "bool \<Rightarrow> u32 \<Rightarrow> int" where
  "coin_year_limit_V1 fTestNet nTime =
     (if fTestNet \<or> uint nTime > POS_REWARD_FIX_TIME2 then MAX_MINT_PROOF_OF_STAKE_FIX2
      else if fTestNet \<or> uint nTime > POS_REWARD_FIX_TIME then MAX_MINT_PROOF_OF_STAKE_FIX
      else MAX_MINT_PROOF_OF_STAKE)"

definition GetProofOfStakeRewardV1 :: "ext \<Rightarrow> bool \<Rightarrow> int \<Rightarrow> u32 \<Rightarrow> u32 \<Rightarrow> bool \<Rightarrow> int" where
  "GetProofOfStakeRewardV1 E fTestNet nCoinAge bits nTime bCoinYearOnly =
     (let nRewardCoinYear =
            (if fTestNet \<or> uint nTime > PROTOCOL_SWITCH_TIME
             then let nRewardCoinYearLimit = coin_year_limit_V1 fTestNet nTime;
                      bnTarget = SetCompact E bits;
                      bnTargetLimit = SetCompact E (GetCompact E (bnProofOfStakeLimit fTestNet));
                      nRewardCoinYear = s64 (uint (getuint64 E
                        (reward_search 4 bnTargetLimit nRewardCoinYearLimit bnTarget (10 * CENT) nRewardCoinYearLimit)))
                  in if uint nTime > POS_REWARD_SWITCH_TIME then min nRewardCoinYear nRewardCoinYearLimit
                     else min (tdiv nRewardCoinYear CENT * CENT) nRewardCoinYearLimit
             else 150)
      in if bCoinYearOnly then nRewardCoinYear
         else if uint nTime > POS_REWARD_SWITCH_TIME then tdiv (s64 (nCoinAge * 33 * nRewardCoinYear)) (365 * 33 + 8)
         else s64 (tdiv (s64 (nCoinAge * 33)) (365 * 33 + 8) * nRewardCoinYear))"

definition coin_year_rate :: "ext \<Rightarrow> bool \<Rightarrow> nat \<Rightarrow> int \<Rightarrow> u32 \<Rightarrow> int" where
  "coin_year_rate E fTestNet p lower bits =
     (let nRewardCoinYearLimit = MAX_MINT_PROOF_OF_STAKE_FIX2;
          bnTarget = SetCompact E bits;
          bnTargetLimit = SetCompact E (GetCompact E (bnProofOfStakeLimit fTestNet));
          nRewardCoinYear = s64 (uint (getuint64 E (reward_search p bnTargetLimit nRewardCoinYearLimit bnTarget lower nRewardCoinYearLimit)))
      in min (tdiv nRewardCoinYear CENT * CENT) nRewardCoinYearLimit)"

definition GetProofOfStakeRewardV2 :: "ext \<Rightarrow> bool \<Rightarrow> int \<Rightarrow> u32 \<Rightarrow> u32 \<Rightarrow> bool \<Rightarrow> int" where
  "GetProofOfStakeRewardV2 E fTestNet nCoinAge bits nTime bCoinYearOnly =
     (let nSubsidyLimit = 250 * COIN;
          nRewardCoinYear = coin_year_rate E fTestNet 4 (10 * CENT) bits
      in if bCoinYearOnly then nRewardCoinYear
         else min (tdiv (s64 (nCoinAge * 33 * nRewardCoinYear)) (365 * 33 + 8)) nSubsidyLimit)"

definition GetProofOfStakeRewardV3 :: "ext \<Rightarrow> bool \<Rightarrow> int \<Rightarrow> u32 \<Rightarrow> u32 \<Rightarrow> bool \<Rightarrow> int" where
  "GetProofOfStakeRewardV3 E fTestNet nCoinAge bits nTime bCoinYearOnly =
     (let nSubsidyLimit = 250 * COIN;
          nRewardCoinYear = coin_year_rate E fTestNet 6 (20 * CENT) bits
      in if bCoinYearOnly then nRewardCoinYear
         else min (tdiv (s64 (nCoinAge * 33 * nRewardCoinYear)) (365 * 33 + 8)) nSubsidyLimit)"

definition GetProofOfStakeReward :: "ext \<Rightarrow> bool \<Rightarrow> int \<Rightarrow> u32 \<Rightarrow> u32 \<Rightarrow> bool \<Rightarrow> int" where
  "GetProofOfStakeReward E fTestNet nCoinAge bits nTime bCoinYearOnly =
     (if uint nTime > VERSION_2_0_SWITCH_TIME fTestNet then GetProofOfStakeRewardV3 E fTestNet nCoinAge bits nTime bCoinYearOnly
      else if uint nTime > VERSION1_5_SWITCH_TIME then GetProofOfStakeRewardV2 E fTestNet nCoinAge bits nTime bCoinYearOnly
      else GetProofOfStakeRewardV1 E fTestNet nCoinAge bits nTime bCoinYearOnly)"

section \<open>Targets\<close>

text \<open>\<^verbatim>\<open>0.16 * 24 * 60 * 60\<close> in double precision is just below 13824 and is truncated.\<close>

definition nTargetTimespan :: int where "nTargetTimespan = 13823"

function max_bits_loop :: "BIGNUM \<Rightarrow> BIGNUM \<Rightarrow> int \<Rightarrow> BIGNUM" where
  "max_bits_loop bnTargetLimit bnResult nTime =
     (if nTime > 0 \<and> bnResult < bnTargetLimit then max_bits_loop bnTargetLimit (bnResult * 2) (nTime - 24 * 60 * 60) else bnResult)"
  by pat_completeness auto
termination by (relation "measure (\<lambda>(l, r, t). nat t)") auto

declare max_bits_loop.simps [simp del]

definition ComputeMaxBits :: "ext \<Rightarrow> BIGNUM \<Rightarrow> u32 \<Rightarrow> int \<Rightarrow> u32" where
  "ComputeMaxBits E bnTargetLimit nBase nTime =
     (let bnResult = max_bits_loop bnTargetLimit (SetCompact E nBase * 2) nTime
      in GetCompact E (if bnResult > bnTargetLimit then bnTargetLimit else bnResult))"

definition ComputeMinWork :: "ext \<Rightarrow> bool \<Rightarrow> u32 \<Rightarrow> int \<Rightarrow> u32" where
  "ComputeMinWork E fTestNet nBase nTime = ComputeMaxBits E (bnProofOfWorkLimit fTestNet) nBase nTime"

definition ComputeMinStake :: "ext \<Rightarrow> bool \<Rightarrow> u32 \<Rightarrow> int \<Rightarrow> u32 \<Rightarrow> u32" where
  "ComputeMinStake E fTestNet nBase nTime nBlockTime = ComputeMaxBits E (bnProofOfStakeLimit fTestNet) nBase nTime"

text \<open>The retargeting both versions end with, given the last two blocks of the kind; the spacing of proof-of-work blocks
  grows with the blocks of the other kind in between.\<close>

definition target_spacing :: "bool \<Rightarrow> int \<Rightarrow> bool \<Rightarrow> CBlockIndex \<Rightarrow> CBlockIndex \<Rightarrow> int" where
  "target_spacing fTestNet nBestHeight fProofOfStake pindexLast pindexPrev =
     (let nTargetStakeSpacing = uint (GetTargetSpacing fTestNet nBestHeight);
          nTargetSpacingWorkMax = 12 * nTargetStakeSpacing
      in if fProofOfStake then nTargetStakeSpacing
         else min nTargetSpacingWorkMax (nTargetStakeSpacing * (1 + nHeight pindexLast - nHeight pindexPrev)))"

definition retarget :: "ext \<Rightarrow> BIGNUM \<Rightarrow> u32 \<Rightarrow> int \<Rightarrow> int \<Rightarrow> u32" where
  "retarget E bnTargetLimit bits nTargetSpacing nActualSpacing =
     (let nInterval = tdiv nTargetTimespan nTargetSpacing;
          bnNew = SetCompact E bits * ((nInterval - 1) * nTargetSpacing + nActualSpacing + nActualSpacing);
          bnNew = bn_div bnNew ((nInterval + 1) * nTargetSpacing)
      in GetCompact E (if bnNew > bnTargetLimit then bnTargetLimit else bnNew))"

text \<open>\<open>None\<close> is the dereference of a null pointer.\<close>

definition GetNextTargetRequiredV1 :: "ext \<Rightarrow> bool \<Rightarrow> int \<Rightarrow> pchain \<Rightarrow> bool \<Rightarrow> u32 option" where
  "GetNextTargetRequiredV1 E fTestNet nBestHeight pindexLast fProofOfStake =
     (if pindexLast = [] \<and> fProofOfStake \<and> \<not> fTestNet then None
      else let bnTargetLimit = (if \<not> fProofOfStake then bnProofOfWorkLimit fTestNet
               else if fTestNet then bnProofOfStakeLimit fTestNet
               else if nHeight (hd pindexLast) + 1 > 15000 then bnProofOfStakeLimit fTestNet
               else if nHeight (hd pindexLast) + 1 > 14060 then bnProofOfStakeHardLimit
               else bnProofOfStakeLimit fTestNet)
           in case GetLastBlockIndex fProofOfStake pindexLast of
                pindexPrev # prevs \<Rightarrow>
                  (case GetLastBlockIndex fProofOfStake prevs of
                     pindexPrevPrev # _ # _ \<Rightarrow>
                       Some (retarget E bnTargetLimit (bi_nBits pindexPrev)
                         (target_spacing fTestNet nBestHeight fProofOfStake (hd pindexLast) pindexPrev)
                         (bi_GetBlockTime pindexPrev - bi_GetBlockTime pindexPrevPrev))
                   | _ \<Rightarrow> Some (GetCompact E bnTargetLimit))
              | [] \<Rightarrow> Some (GetCompact E bnTargetLimit))"

definition GetNextTargetRequiredV2 :: "ext \<Rightarrow> bool \<Rightarrow> int \<Rightarrow> pchain \<Rightarrow> bool \<Rightarrow> u32" where
  "GetNextTargetRequiredV2 E fTestNet nBestHeight pindexLast fProofOfStake =
     (let bnTargetLimit = (if \<not> fProofOfStake then bnProofOfWorkLimit fTestNet else bnProofOfStakeLimit fTestNet)
      in case GetLastBlockIndex fProofOfStake pindexLast of
           pindexPrev # prevs \<Rightarrow>
             (case GetLastBlockIndex fProofOfStake prevs of
                pindexPrevPrev # _ # _ \<Rightarrow>
                  (let nTargetSpacing = target_spacing fTestNet nBestHeight fProofOfStake (hd pindexLast) pindexPrev;
                       nActualSpacing = bi_GetBlockTime pindexPrev - bi_GetBlockTime pindexPrevPrev;
                       nActualSpacing = (if nActualSpacing < 0 then nTargetSpacing else nActualSpacing)
                   in retarget E bnTargetLimit (bi_nBits pindexPrev) nTargetSpacing nActualSpacing)
              | _ \<Rightarrow> GetCompact E bnTargetLimit)
         | [] \<Rightarrow> GetCompact E bnTargetLimit)"

definition GetNextTargetRequired :: "ext \<Rightarrow> bool \<Rightarrow> int \<Rightarrow> pchain \<Rightarrow> bool \<Rightarrow> u32 option" where
  "GetNextTargetRequired E fTestNet nBestHeight pindexLast fProofOfStake =
     (if pindexLast = [] then None
      else if nHeight (hd pindexLast) + 1 > VERSION1_5_SWITCH_BLOCK
      then Some (GetNextTargetRequiredV2 E fTestNet nBestHeight pindexLast fProofOfStake)
      else GetNextTargetRequiredV1 E fTestNet nBestHeight pindexLast fProofOfStake)"

definition CheckProofOfWork :: "ext \<Rightarrow> bool \<Rightarrow> uint256 \<Rightarrow> u32 \<Rightarrow> bool" where
  "CheckProofOfWork E fTestNet hash bits =
     (let bnTarget = SetCompact E bits
      in if bnTarget \<le> 0 \<or> bnTarget > bnProofOfWorkLimit fTestNet then False
         else if hash > getuint256 E bnTarget then False
         else True)"

definition GetBlockTrust :: "ext \<Rightarrow> bool \<Rightarrow> CBlockIndex \<Rightarrow> uint256" where
  "GetBlockTrust E fTestNet i =
     (let bnTarget = SetCompact E (bi_nBits i)
      in if bnTarget \<le> 0 then 0
         else if bi_IsProofOfStake i then getuint256 E (bn_div (2 ^ 256) (bnTarget + 1))
         else let nPoWTrust = getuint256 E (bn_div (bnProofOfWorkLimit fTestNet) (bnTarget + 1))
              in if nPoWTrust > 1 then nPoWTrust else 1)"

section \<open>Compact targets below a limit\<close>

lemma mpi_enc_head: "0 \<le> n \<Longrightarrow> mpi_enc n = b # bs \<Longrightarrow> \<not> bit b 7"
  by (auto simp: mpi_enc_def split: list.splits if_splits)

lemma compact_nonneg:
  assumes "mpi_documented E" "length (mpi_enc n) < 256" "0 \<le> n"
  shows "0 \<le> SetCompact E (GetCompact E n)"
proof -
  let ?m = "SetCompact E (GetCompact E n)"
  have "?m = mpi_value (take 3 (mpi_enc n) @ replicate (length (mpi_enc n) - 3) 0)"
    using mpi_enc_correct [of ?m] mpi_enc_SetCompact [OF assms(1,2)] by simp
  then show ?thesis using mpi_enc_head [OF assms(3)] by (cases "mpi_enc n") (simp_all add: numeral_3_eq_3)
qed

lemma limits_range:
  "0 < bnProofOfWorkLimit f" "bnProofOfWorkLimit f < 2 ^ 240" "0 < bnProofOfStakeLimit f" "bnProofOfStakeLimit f < 2 ^ 240"
  "0 < bnProofOfStakeHardLimit" "bnProofOfStakeHardLimit < 2 ^ 240"
  by (simp_all add: bnProofOfWorkLimit_def bnProofOfStakeLimit_def bnProofOfStakeHardLimit_def)

lemma small_compact:
  assumes "mpi_documented E" "0 \<le> n" "n < 2 ^ 240"
  shows "0 \<le> SetCompact E (GetCompact E n)" "SetCompact E (GetCompact E n) \<le> n"
proof -
  have "(2 :: int) ^ 240 < 128 * 256 ^ 30" by simp
  then have "\<bar>n\<bar> < 128 * 256 ^ 30" using assms(2,3) by linarith
  from length_mpi_enc_le [OF this] have l: "length (mpi_enc n) < 256" by simp
  show "0 \<le> SetCompact E (GetCompact E n)" by (rule compact_nonneg [OF assms(1) l assms(2)])
  show "SetCompact E (GetCompact E n) \<le> n" by (rule compact_truncates(1) [OF assms(1) l assms(2)])
qed

section \<open>The bisection\<close>

text \<open>The result is an upper bound of the root with a lower bound less than a cent below it.\<close>

lemma reward_search_root:
  "l0 \<le> l \<Longrightarrow> l \<le> u \<Longrightarrow> u \<le> u0 \<Longrightarrow> (l = l0 \<or> l ^ p * TL \<le> RL ^ p * T) \<Longrightarrow> (u = u0 \<or> RL ^ p * T < u ^ p * TL) \<Longrightarrow>
   \<exists>l'. l0 \<le> l' \<and> l' \<le> reward_search p TL RL T l u \<and> reward_search p TL RL T l u \<le> u0 \<and> reward_search p TL RL T l u - l' < CENT \<and>
     (l' = l0 \<or> l' ^ p * TL \<le> RL ^ p * T) \<and>
     (reward_search p TL RL T l u = u0 \<or> RL ^ p * T < reward_search p TL RL T l u ^ p * TL)"
proof (induction p TL RL T l u rule: reward_search.induct)
  case (1 p TL RL T l u)
  show ?case
  proof (cases "l + CENT \<le> u")
    case True
    let ?m = "bn_div (l + u) 2"
    note m = bisect_between [OF True]
    show ?thesis
    proof (cases "RL ^ p * T < ?m ^ p * TL")
      case gt: True
      have "reward_search p TL RL T l u = reward_search p TL RL T l ?m" using True gt by (subst reward_search.simps) (simp add: Let_def)
      with "1.IH"(1) [OF True refl gt] "1.prems" gt m show ?thesis by simp
    next
      case le: False
      have "reward_search p TL RL T l u = reward_search p TL RL T ?m u" using True le by (subst reward_search.simps) (simp add: Let_def)
      with "1.IH"(2) [OF True refl le] "1.prems" le m show ?thesis by simp
    qed
  next
    case False
    then have "reward_search p TL RL T l u = u" by (subst reward_search.simps) simp
    with False "1.prems" show ?thesis by (intro exI [of _ l]) simp
  qed
qed

lemma cent_round: "0 \<le> u \<Longrightarrow> tdiv u CENT * CENT \<le> u \<and> u < tdiv u CENT * CENT + CENT"
  using pos_mod_bound [of CENT u] by (simp add: tdiv_nonneg CENT_def minus_mod_eq_div_mult [symmetric])

lemma getuint64_small:
  assumes "mpi_documented E" "0 \<le> u" "u < 2 ^ 63"
  shows "s64 (uint (getuint64 E u)) = u"
proof -
  have "nat u < nat (2 ^ 63)" using assms(2,3) by (subst nat_less_eq_zless) simp_all
  then have "nat u < 2 ^ 64" by simp
  then have "take_bit 64 (nat u) = nat u" by (rule take_bit_nat_eq_self)
  then have "uint (of_nat (nat u) :: u64) = u" unfolding unsigned_of_nat using assms(2) by simp
  then show ?thesis using getuint64_abs [OF assms(1), of u] assms(2,3) by (simp add: s64_id int64_range_def)
qed

lemma coin_year_rate_root:
  fixes p lower :: nat and tn :: bool and bits :: u32
  assumes "mpi_documented E" "0 < lower" "lower \<le> 100" "0 < p"
  defines "r \<equiv> coin_year_rate E tn p (int lower * CENT) bits" and "TL \<equiv> SetCompact E (GetCompact E (bnProofOfStakeLimit tn))"
  shows "int lower * CENT \<le> r" "r \<le> 100 * CENT" "CENT dvd r"
    "r < 100 * CENT \<Longrightarrow> (100 * CENT) ^ p * SetCompact E bits < (r + CENT) ^ p * TL"
    "int lower * CENT < r \<Longrightarrow> (r - CENT) ^ p * TL \<le> (100 * CENT) ^ p * SetCompact E bits"
proof -
  let ?l = "int lower * CENT" and ?T = "SetCompact E bits" and ?RL = "100 * CENT"
  define u where "u = reward_search p TL ?RL ?T ?l ?RL"
  have c: "0 < CENT" "CENT = 10000" by (simp_all add: CENT_def)
  have TL: "0 \<le> TL" unfolding TL_def by (rule small_compact(1)) (use assms(1) limits_range in \<open>simp_all add: less_imp_le\<close>)
  have l: "0 < ?l" "?l \<le> ?RL" using assms(2,3) c by simp_all
  obtain l' where l': "?l \<le> l'" "l' \<le> u" "u \<le> ?RL" "u - l' < CENT" "l' = ?l \<or> l' ^ p * TL \<le> ?RL ^ p * ?T"
    "u = ?RL \<or> ?RL ^ p * ?T < u ^ p * TL"
    using reward_search_root [of ?l ?l ?RL ?RL p TL ?RL ?T] l unfolding u_def by auto
  have u: "0 \<le> u" "u < 2 ^ 63" using l' l c by simp_all
  from getuint64_small [OF assms(1) this] have "s64 (uint (getuint64 E u)) = u" .
  then have r: "r = min (tdiv u CENT * CENT) ?RL"
    by (simp add: r_def coin_year_rate_def MAX_MINT_PROOF_OF_STAKE_FIX2_def u_def TL_def Let_def)
  have r2: "r = tdiv u CENT * CENT" using cent_round [OF u(1)] l'(3) unfolding r by linarith
  show rl: "?l \<le> r"
  proof -
    have "int lower \<le> tdiv u CENT" using zdiv_mono1 [of "?l" u CENT] l'(1,2) c by (simp add: tdiv_nonneg u(1))
    then show ?thesis using c by (simp add: r2)
  qed
  show "r \<le> ?RL" by (simp add: r)
  show "CENT dvd r" by (simp add: r2)
  show "?RL ^ p * ?T < (r + CENT) ^ p * TL" if "r < ?RL"
  proof -
    have "u \<noteq> ?RL" using that by (auto simp: r tdiv_nonneg c)
    then have "?RL ^ p * ?T < u ^ p * TL" using l'(6) by blast
    also have "\<dots> \<le> (r + CENT) ^ p * TL" using cent_round [OF u(1)] u(1) TL by (intro mult_right_mono power_mono) (simp_all add: r2)
    finally show ?thesis .
  qed
  show "(r - CENT) ^ p * TL \<le> ?RL ^ p * ?T" if "?l < r"
  proof -
    have "r \<le> u" using cent_round [OF u(1)] by (simp add: r2)
    have "CENT dvd r - ?l" using r2 by simp
    then have "CENT \<le> r - ?l" using that by (intro zdvd_imp_le) simp_all
    then have "l' \<noteq> ?l" using \<open>r \<le> u\<close> l'(4) by linarith
    then have "l' ^ p * TL \<le> ?RL ^ p * ?T" using l'(5) by blast
    moreover have "(r - CENT) ^ p * TL \<le> l' ^ p * TL"
      using \<open>r \<le> u\<close> l'(4) \<open>CENT \<le> r - ?l\<close> l TL by (intro mult_right_mono power_mono) simp_all
    ultimately show ?thesis by linarith
  qed
qed

section \<open>Retargeting\<close>

lemma retarget_bounds:
  assumes "mpi_documented E" "0 < limit" "limit < 2 ^ 240" "0 \<le> SetCompact E bits" "0 < spacing" "spacing \<le> nTargetTimespan" "0 \<le> actual"
  shows "0 \<le> SetCompact E (retarget E limit bits spacing actual)" "SetCompact E (retarget E limit bits spacing actual) \<le> limit"
    "SetCompact E (retarget E limit bits spacing actual) * ((tdiv nTargetTimespan spacing + 1) * spacing)
      \<le> SetCompact E bits * ((tdiv nTargetTimespan spacing - 1) * spacing + actual + actual)"
proof -
  let ?I = "tdiv nTargetTimespan spacing"
  have I: "1 \<le> ?I" using assms(5,6) by (simp add: tdiv_nonneg nTargetTimespan_def pos_imp_zdiv_pos_iff int_one_le_iff_zero_less)
  define num where "num = SetCompact E bits * ((?I - 1) * spacing + actual + actual)"
  define den where "den = (?I + 1) * spacing"
  have d: "0 < den" "0 \<le> num" using I assms(4,5,7) by (simp_all add: den_def num_def)
  define new where "new = (if bn_div num den > limit then limit else bn_div num den)"
  have n: "0 \<le> new" "new \<le> limit" "new \<le> num div den"
    using d assms(2) by (auto simp: new_def bn_div_def tdiv_nonneg pos_imp_zdiv_nonneg_iff)
  have "retarget E limit bits spacing actual = GetCompact E new" by (simp add: retarget_def Let_def num_def den_def new_def)
  moreover have "0 \<le> SetCompact E (GetCompact E new)" "SetCompact E (GetCompact E new) \<le> new"
    using small_compact [OF assms(1) n(1)] n(2) assms(3) by simp_all
  ultimately show "0 \<le> SetCompact E (retarget E limit bits spacing actual)" "SetCompact E (retarget E limit bits spacing actual) \<le> limit"
    using n(2) by simp_all
  have "SetCompact E (GetCompact E new) * den \<le> (num div den) * den"
    using \<open>SetCompact E (GetCompact E new) \<le> new\<close> n(3) d(1) by (intro mult_right_mono) simp_all
  also have "\<dots> \<le> num" using d(1) by (simp add: minus_mod_eq_div_mult [symmetric])
  finally show "SetCompact E (retarget E limit bits spacing actual) * ((?I + 1) * spacing)
      \<le> SetCompact E bits * ((?I - 1) * spacing + actual + actual)"
    using \<open>retarget E limit bits spacing actual = GetCompact E new\<close> by (simp add: num_def den_def)
qed

lemma target_spacing_range:
  assumes "nHeight pindexPrev \<le> nHeight pindexLast"
  shows "0 < target_spacing tn h pos pindexLast pindexPrev" "target_spacing tn h pos pindexLast pindexPrev \<le> nTargetTimespan"
proof -
  have s: "0 < uint (GetTargetSpacing tn h)" "uint (GetTargetSpacing tn h) \<le> 126" by (simp_all add: GetTargetSpacing_def)
  have "0 < uint (GetTargetSpacing tn h) * (1 + nHeight pindexLast - nHeight pindexPrev)" using s assms by (intro mult_pos_pos) simp_all
  then show "0 < target_spacing tn h pos pindexLast pindexPrev" "target_spacing tn h pos pindexLast pindexPrev \<le> nTargetTimespan"
    using s by (auto simp: target_spacing_def Let_def nTargetTimespan_def)
qed

lemma block_trust_pos:
  assumes "mpi_documented E" "0 < SetCompact E (bi_nBits i)" "SetCompact E (bi_nBits i) < 2 ^ 256 - 1"
  shows "1 \<le> GetBlockTrust E tn i"
proof -
  let ?T = "SetCompact E (bi_nBits i)"
  have q: "1 \<le> 2 ^ 256 div (?T + 1)" "2 ^ 256 div (?T + 1) < 2 ^ 256"
  proof -
    have "(?T + 1) div (?T + 1) \<le> 2 ^ 256 div (?T + 1)" by (rule zdiv_mono1) (use assms(2,3) in simp_all)
    then show "1 \<le> 2 ^ 256 div (?T + 1)" using assms(2) by simp
    show "2 ^ 256 div (?T + 1) < 2 ^ 256" using assms(2) by (intro int_div_less_self) simp_all
  qed
  have "getuint256 E (2 ^ 256 div (?T + 1)) \<noteq> 0"
  proof
    assume "getuint256 E (2 ^ 256 div (?T + 1)) = 0"
    then have "(of_nat (nat (2 ^ 256 div (?T + 1))) :: uint256) = 0" using getuint256_abs [OF assms(1), of "2 ^ 256 div (?T + 1)"] q(1) by simp
    then have "2 ^ 256 dvd nat (2 ^ 256 div (?T + 1))" by (simp add: word_of_nat_eq_0_iff)
    moreover have "0 < nat (2 ^ 256 div (?T + 1))" using q(1) by linarith
    moreover have "nat (2 ^ 256 div (?T + 1)) < 2 ^ 256" using q by (subst nat_less_iff) simp_all
    ultimately show False by (auto dest: dvd_imp_le)
  qed
  then show ?thesis using assms(2)
    by (auto simp: GetBlockTrust_def Let_def bn_div_def tdiv_nonneg word_le_nat_alt Suc_leI unat_gt_0 word_less_nat_alt)
qed

section \<open>Properties\<close>





end
