(* ===== verification/Block_Files.thy ===== *)
theory Block_Files
  imports Hobo_Prelude Ext_Crypto Serialize Tx_Data Block Block_Index Txdb Tx_Rules Rewards
begin

text \<open>
  Blocks on disk (\<^verbatim>\<open>main.h\<close>, \<^verbatim>\<open>main.cpp\<close>): the numbered block files, appending a block, and reading blocks and single
  transactions back by position.  The files are a map from numbers to contents; opening for appending creates a missing
  file, and the system calls succeed.
\<close>

section \<open>Files\<close>

record blkfiles =
  files :: "u32 \<rightharpoonup> valtype"
  nCurrentBlockFile :: u32

definition OpenBlockFile :: "u32 \<Rightarrow> blkfiles \<Rightarrow> valtype option" where
  "OpenBlockFile n F = (if n < 1 \<or> n = - 1 then None else files F n)"

definition open_append :: "u32 \<Rightarrow> blkfiles \<Rightarrow> (valtype \<times> blkfiles) option" where
  "open_append n F =
     (if n < 1 \<or> n = - 1 then None
      else case files F n of Some c \<Rightarrow> Some (c, F) | None \<Rightarrow> Some ([], F\<lparr> files := (files F)(n \<mapsto> []) \<rparr>))"

definition FILE_LIMIT :: nat where "FILE_LIMIT = 0x7F000000 - MAX_SIZE"

lemma unat_of_nat_u32: "n < 2 ^ 32 \<Longrightarrow> unat (of_nat n :: u32) = n"
  by (simp add: unsigned_of_nat take_bit_nat_eq_self)

lemma unat_Suc_word: "(n :: u32) \<noteq> - 1 \<Longrightarrow> unat (n + 1) = unat n + 1"
  by (metis Suc_eq_plus1 add.commute add_eq_0_iff unatSuc)

function AppendBlockFile :: "blkfiles \<Rightarrow> (u32 \<times> valtype) option \<times> blkfiles" where
  "AppendBlockFile F =
     (case open_append (nCurrentBlockFile F) F of None \<Rightarrow> (None, F)
      | Some (c, F') \<Rightarrow>
          if length c < FILE_LIMIT then (Some (nCurrentBlockFile F, c), F')
          else AppendBlockFile (F'\<lparr> nCurrentBlockFile := nCurrentBlockFile F + 1 \<rparr>))"
  by pat_completeness auto

termination
proof (relation "measure (\<lambda>F. 2 ^ 32 - unat (nCurrentBlockFile F))", simp)
  fix F p c F'
  assume "open_append (nCurrentBlockFile F) F = Some p" "(c, F') = p"
  then have n: "nCurrentBlockFile F \<noteq> - 1" by (auto simp: open_append_def split: if_splits)
  have "unat (nCurrentBlockFile F) < 2 ^ 32" using unsigned_less [of "nCurrentBlockFile F", where 'a = nat] by simp
  then have "2 ^ 32 - unat (nCurrentBlockFile F + 1) < 2 ^ 32 - unat (nCurrentBlockFile F)"
    unfolding unat_Suc_word [OF n] by linarith
  then show "(F'\<lparr> nCurrentBlockFile := nCurrentBlockFile F + 1 \<rparr>, F) \<in> measure (\<lambda>F. 2 ^ 32 - unat (nCurrentBlockFile F))"
    by simp
qed

declare AppendBlockFile.simps [simp del]

section \<open>Blocks\<close>

definition WriteToDisk :: "valtype \<Rightarrow> CBlock \<Rightarrow> blkfiles \<Rightarrow> (u32 \<times> u32) option \<times> blkfiles" where
  "WriteToDisk pchMessageStart b F =
     (case AppendBlockFile F of (None, F) \<Rightarrow> (None, F)
      | (Some (nFileRet, c), F) \<Rightarrow>
          let nSize = length (ser_block b);
              c = c @ pchMessageStart @ ser_u32 (of_nat nSize);
              fileOutPos = length c;
              nBlockPosRet = of_nat fileOutPos;
              c = c @ ser_block b
          in (Some (nFileRet, nBlockPosRet), F\<lparr> files := (files F)(nFileRet \<mapsto> c) \<rparr>))"

definition blk_ReadFromDisk :: "ext \<Rightarrow> bool \<Rightarrow> blkfiles \<Rightarrow> u32 \<Rightarrow> u32 \<Rightarrow> bool \<Rightarrow> CBlock option" where
  "blk_ReadFromDisk E fTestNet F n pos fReadTransactions =
     (case OpenBlockFile n F of None \<Rightarrow> None
      | Some c \<Rightarrow>
          (case unser_block (\<not> fReadTransactions) CBlock_new (drop (unat pos) c) of Inl e \<Rightarrow> None
           | Inr (b, r) \<Rightarrow>
               if fReadTransactions \<and> blk_IsProofOfWork b
               then let (h, b) = blk_GetHash E b in if \<not> CheckProofOfWork E fTestNet h (nBits b) then None else Some b
               else Some b))"

definition blk_ReadFromDisk_index :: "ext \<Rightarrow> bool \<Rightarrow> blkfiles \<Rightarrow> CBlockIndex \<Rightarrow> bool \<Rightarrow> CBlock option" where
  "blk_ReadFromDisk_index E fTestNet F i fReadTransactions =
     (if \<not> fReadTransactions then Some (GetBlockHeader i)
      else case blk_ReadFromDisk E fTestNet F (bi_nFile i) (bi_nBlockPos i) fReadTransactions of None \<Rightarrow> None
        | Some b \<Rightarrow> (let (h, b) = blk_GetHash E b in if h \<noteq> bi_GetBlockHash i then None else Some b))"

section \<open>Transactions\<close>

definition tx_ReadFromDisk :: "blkfiles \<Rightarrow> CDiskTxPos \<Rightarrow> CTransaction option" where
  "tx_ReadFromDisk F pos =
     (case OpenBlockFile (nFile pos) F of None \<Rightarrow> None
      | Some c \<Rightarrow> (case unser_tx (drop (unat (nTxPos pos)) c) of Inl e \<Rightarrow> None | Inr (tx, r) \<Rightarrow> Some tx))"

definition tx_ReadFromDisk_out :: "blkfiles \<Rightarrow> CTxDB \<Rightarrow> COutPoint \<Rightarrow> (CTransaction \<times> CTxIndex) option" where
  "tx_ReadFromDisk_out F db out =
     (case ReadTxIndex (op_hash out) db of None \<Rightarrow> None
      | Some txindex \<Rightarrow>
          (case tx_ReadFromDisk F (txi_pos txindex) of None \<Rightarrow> None
           | Some tx \<Rightarrow> if unat (op_n out) \<ge> length (vout tx) then None else Some (tx, txindex)))"

definition ReadDiskTx :: "blkfiles \<Rightarrow> CTxDB \<Rightarrow> uint256 \<Rightarrow> (CTransaction \<times> CTxIndex) option" where
  "ReadDiskTx F db hash =
     (case ReadTxIndex hash db of None \<Rightarrow> None
      | Some txindex \<Rightarrow> map_option (\<lambda>tx. (tx, txindex)) (tx_ReadFromDisk F (txi_pos txindex)))"

definition txi_GetDepthInMainChain :: "ext \<Rightarrow> bool \<Rightarrow> blkfiles \<Rightarrow> block_map \<Rightarrow> bptr \<Rightarrow> int \<Rightarrow> CTxIndex \<Rightarrow> int" where
  "txi_GetDepthInMainChain E fTestNet F M pindexBest nBestHeight txi =
     (case blk_ReadFromDisk E fTestNet F (nFile (txi_pos txi)) (nBlockPos (txi_pos txi)) False of None \<Rightarrow> 0
      | Some block \<Rightarrow>
          (case M (fst (blk_GetHash E block)) of None \<Rightarrow> 0
           | Some i \<Rightarrow> if \<not> bi_IsInMainChain pindexBest i then 0 else 1 + nBestHeight - nHeight i))"

text \<open>The position of the first transaction that \<^verbatim>\<open>ConnectBlock\<close> computes from the block position, and of the following
  ones.\<close>

definition first_tx_pos :: "u32 \<Rightarrow> nat \<Rightarrow> u32" where
  "first_tx_pos blockpos n =
     blockpos + of_nat (length (ser_block CBlock_new)) - (2 * of_nat (GetSizeOfCompactSize 0)) + of_nat (GetSizeOfCompactSize (of_nat n))"

fun tx_positions :: "u32 \<Rightarrow> CTransaction list \<Rightarrow> u32 list" where
  "tx_positions pos [] = []"
| "tx_positions pos (tx # txs) = pos # tx_positions (pos + of_nat (length (ser_tx tx))) txs"

section \<open>Appending keeps what is there\<close>

lemma AppendBlockFile_files:
  "AppendBlockFile F = (r, F') \<Longrightarrow>
    (\<forall>n. files F' n = files F n \<or> files F n = None \<and> files F' n = Some []) \<and>
    (\<forall>n c. r = Some (n, c) \<longrightarrow> files F' n = Some c \<and> n \<noteq> 0 \<and> n \<noteq> - 1 \<and> length c < FILE_LIMIT)"
proof (induction F rule: AppendBlockFile.induct)
  case (1 F)
  show ?case
  proof (cases "open_append (nCurrentBlockFile F) F")
    case None
    then show ?thesis using "1.prems" by (subst (asm) AppendBlockFile.simps) simp
  next
    case (Some p)
    obtain c F1 where p: "p = (c, F1)" by force
    with Some have n: "nCurrentBlockFile F \<noteq> 0" "nCurrentBlockFile F \<noteq> - 1"
      and c: "files F1 (nCurrentBlockFile F) = Some c" "\<forall>n. files F1 n = files F n \<or> files F n = None \<and> files F1 n = Some []"
      by (auto simp: open_append_def word_less_nat_alt unat_eq_zero split: if_splits option.splits)
    show ?thesis
    proof (cases "length c < FILE_LIMIT")
      case True
      then have "r = Some (nCurrentBlockFile F, c)" "F' = F1" using "1.prems" Some p by (subst (asm) AppendBlockFile.simps, simp)+
      then show ?thesis using n c True by simp
    next
      case False
      then have "AppendBlockFile (F1\<lparr> nCurrentBlockFile := nCurrentBlockFile F + 1 \<rparr>) = (r, F')"
        using "1.prems" Some p by (subst (asm) AppendBlockFile.simps) simp
      from "1.IH" [OF Some p [symmetric] False this] show ?thesis using c(2) by (auto; metis)
    qed
  qed
qed

lemma OpenBlockFile_valid: "n \<noteq> 0 \<Longrightarrow> n \<noteq> - 1 \<Longrightarrow> OpenBlockFile n F = files F n"
  by (auto simp: OpenBlockFile_def word_less_nat_alt unat_eq_zero)

lemma WriteToDisk_Some:
  assumes "WriteToDisk m b F = (Some (n, p), F')"
  obtains c where "length c < FILE_LIMIT" "n \<noteq> 0" "n \<noteq> - 1" "p = of_nat (length c + length m + 4)"
    "files F' n = Some (c @ m @ ser_u32 (of_nat (length (ser_block b))) @ ser_block b)"
proof -
  obtain r F1 where a: "AppendBlockFile F = (r, F1)" by force
  then obtain c where r: "r = Some (n, c)" using assms by (auto simp: WriteToDisk_def Let_def split: option.splits prod.splits)
  note f = AppendBlockFile_files [OF a]
  show ?thesis
    by (rule that [of c]) (use f assms a r in \<open>auto simp: WriteToDisk_def Let_def ac_simps\<close>)
qed

text \<open>Whatever is written later, the files only grow.\<close>

lemma WriteToDisk_grows:
  assumes "WriteToDisk m b F = (r, F')" "files F n = Some c"
  shows "\<exists>d. files F' n = Some (c @ d)"
proof -
  obtain r1 F1 where a: "AppendBlockFile F = (r1, F1)" by force
  have "files F1 n = Some c" using AppendBlockFile_files [OF a] assms(2) by (metis option.distinct(1))
  then show ?thesis using assms(1) a AppendBlockFile_files [OF a]
    by (auto simp: WriteToDisk_def Let_def split: option.splits)
qed

fun write_blocks :: "valtype \<Rightarrow> CBlock list \<Rightarrow> blkfiles \<Rightarrow> blkfiles" where
  "write_blocks m [] F = F"
| "write_blocks m (b # bs) F = write_blocks m bs (snd (WriteToDisk m b F))"

lemma write_blocks_grow: "files F n = Some c \<Longrightarrow> \<exists>d. files (write_blocks m bs F) n = Some (c @ d)"
proof (induction bs arbitrary: F c)
  case (Cons b bs)
  obtain r F' where w: "WriteToDisk m b F = (r, F')" by force
  from WriteToDisk_grows [OF w Cons.prems] obtain d where "files F' n = Some (c @ d)" by blast
  from Cons.IH [OF this] show ?case using w by auto
qed auto

section \<open>Reading back\<close>

text \<open>What a read leaves of a block: the fields that are written.\<close>

definition on_disk :: "CBlock \<Rightarrow> CBlock" where
  "on_disk b = b\<lparr> vMerkleTree := [], hashCache := 0, fHashCached := False \<rparr>"

lemma ser_on_disk [simp]: "ser_block (on_disk b) = ser_block b" "header_hash E (on_disk b) = header_hash E b"
  by (simp_all add: on_disk_def ser_block_def ser_header_def header_hash_def)

lemma on_disk_simps [simp]:
  "blk_IsProofOfWork (on_disk b) = blk_IsProofOfWork b" "nBits (on_disk b) = nBits b" "vtx (on_disk b) = vtx b"
  by (simp_all add: on_disk_def blk_IsProofOfWork_def blk_IsProofOfStake_def)

lemma length_ser_block_new: "length (ser_block CBlock_new) = 82"
  by (simp add: ser_block_def length_ser_header CBlock_new_def blk_SetNull_def ser_vector_def ser_bytes_def
      length_WriteCompactSize GetSizeOfCompactSize_def)

lemma first_tx_pos_value:
  "first_tx_pos p n = p + of_nat (80 + GetSizeOfCompactSize (of_nat n))"
  by (simp add: first_tx_pos_def length_ser_block_new) (simp add: GetSizeOfCompactSize_def)

lemma length_tx_positions [simp]: "length (tx_positions p txs) = length txs"
  by (induction txs arbitrary: p) simp_all

lemma tx_positions_nth:
  "i < length txs \<Longrightarrow> tx_positions p txs ! i = p + of_nat (length (concat (map ser_tx (take i txs))))"
proof (induction txs arbitrary: p i)
  case (Cons tx txs)
  then show ?case by (cases i) (simp_all add: algebra_simps)
qed simp

text \<open>A position counted in the file is read at the offset it stands for.\<close>

lemma unser_tx_at:
  assumes "i < length txs" "list_all tx_ok txs"
  shows "unser_tx (drop (length (concat (map ser_tx (take i txs)))) (concat (map ser_tx txs) @ r)) =
    Inr (txs ! i, concat (map ser_tx (drop (Suc i) txs)) @ r)"
proof -
  have "concat (map ser_tx txs) = concat (map ser_tx (take i txs)) @ ser_tx (txs ! i) @ concat (map ser_tx (drop (Suc i) txs))"
    using assms(1) by (subst id_take_nth_drop [of i txs]) simp_all
  moreover have "tx_ok (txs ! i)" using assms by (simp add: list_all_length)
  ultimately show ?thesis using tx.unser_ser by simp
qed

lemma written_contents:
  assumes "WriteToDisk m b F = (Some (n, p), F')" "length m = 4"
  obtains c d where "OpenBlockFile n (write_blocks m bs F') = Some (c @ ser_block b @ d)" "unat p = length c"
    "length c < FILE_LIMIT + 8"
proof -
  obtain c where c: "length c < FILE_LIMIT" "n \<noteq> 0" "n \<noteq> - 1" "p = of_nat (length c + length m + 4)"
    "files F' n = Some (c @ m @ ser_u32 (of_nat (length (ser_block b))) @ ser_block b)"
    using WriteToDisk_Some [OF assms(1)] by blast
  from write_blocks_grow [OF c(5), of m bs] obtain d where
    d: "files (write_blocks m bs F') n = Some ((c @ m @ ser_u32 (of_nat (length (ser_block b))) @ ser_block b) @ d)" by blast
  have "unat p = length c + 4 + 4" unfolding c(4) assms(2)
    by (rule unat_of_nat_u32) (use c(1) in \<open>simp add: FILE_LIMIT_def MAX_SIZE_def\<close>)
  with c(1) d show ?thesis
    by (intro that [of "c @ m @ ser_u32 (of_nat (length (ser_block b)))" d])
      (simp_all add: OpenBlockFile_valid [OF c(2,3)] assms(2))
qed

lemma tx_offset_less:
  assumes "i < length (vtx b)"
  shows "80 + GetSizeOfCompactSize (of_nat (length (vtx b))) + length (concat (map ser_tx (take i (vtx b)))) \<le> length (ser_block b)"
proof -
  have "map ser_tx (vtx b) = map ser_tx (take i (vtx b)) @ map ser_tx (drop i (vtx b))"
    by (metis append_take_drop_id map_append)
  then show ?thesis by (simp add: ser_block_def length_ser_header ser_vector_def length_WriteCompactSize)
qed

lemma tx_position_offset:
  assumes "i < length (vtx b)" "length (ser_block b) \<le> MAX_BLOCK_SIZE" "unat p < FILE_LIMIT + 8"
  shows "unat (tx_positions (first_tx_pos p (length (vtx b))) (vtx b) ! i) =
    unat p + (80 + GetSizeOfCompactSize (of_nat (length (vtx b))) + length (concat (map ser_tx (take i (vtx b)))))"
proof -
  let ?k = "80 + GetSizeOfCompactSize (of_nat (length (vtx b))) + length (concat (map ser_tx (take i (vtx b))))"
  have "tx_positions (first_tx_pos p (length (vtx b))) (vtx b) ! i = of_nat (unat p + ?k)"
    unfolding tx_positions_nth [OF assms(1)] first_tx_pos_value by simp
  moreover have "unat p + ?k < 2 ^ 32"
    using tx_offset_less [OF assms(1)] assms(2,3) by (simp add: MAX_BLOCK_SIZE_def FILE_LIMIT_def MAX_SIZE_def)
  ultimately show ?thesis by (simp only: unat_of_nat_u32)
qed

section \<open>Properties\<close>

text \<open>C29. A block that is written is read back as it was, whatever is appended afterwards: from the position
  \<^verbatim>\<open>WriteToDisk\<close> returns the whole block (unless its proof of work fails, which the reader checks) and its header alone,
  and from the positions \<^verbatim>\<open>ConnectBlock\<close> computes each of its transactions.\<close>

theorem disk_roundtrip:
  assumes "WriteToDisk m b F = (Some (n, p), F')" "length m = 4"
    and "block_ok (on_disk b)" "length (ser_block b) \<le> MAX_BLOCK_SIZE"
  shows "let G = write_blocks m bs F'; pow = blk_IsProofOfWork b in
    blk_ReadFromDisk E tn G n p True =
      (if pow \<and> \<not> CheckProofOfWork E tn (header_hash E b) (nBits b) then None
       else Some (if pow then snd (blk_GetHash E (on_disk b)) else on_disk b)) \<and>
    map_option ser_header (blk_ReadFromDisk E tn G n p False) = Some (ser_header b) \<and>
    map (\<lambda>q. tx_ReadFromDisk G \<lparr> nFile = n, nBlockPos = p, nTxPos = q \<rparr>)
      (tx_positions (first_tx_pos p (length (vtx b))) (vtx b)) = map Some (vtx b)"
proof -
  define G where "G = write_blocks m bs F'"
  obtain c d where c: "OpenBlockFile n G = Some (c @ ser_block b @ d)" "unat p = length c" "length c < FILE_LIMIT + 8"
    using written_contents [OF assms(1,2)] unfolding G_def by blast
  have r: "unser_block False CBlock_new (ser_block b @ d) = Inr (on_disk b, d)"
    using block.unser_ser [OF assms(3)] by simp
  have full: "blk_ReadFromDisk E tn G n p True =
      (if blk_IsProofOfWork b \<and> \<not> CheckProofOfWork E tn (header_hash E b) (nBits b) then None
       else Some (if blk_IsProofOfWork b then snd (blk_GetHash E (on_disk b)) else on_disk b))"
    by (simp add: blk_ReadFromDisk_def c(1,2) r blk_GetHash_def) (simp add: on_disk_def)
  have v: "int32_range (blk_nVersion b)" "list_all tx_ok (vtx b)" using assms(3) by (auto simp: block_ok_def on_disk_def)
  have head: "map_option ser_header (blk_ReadFromDisk E tn G n p False) = Some (ser_header b)"
    by (simp add: blk_ReadFromDisk_def c(1,2) ser_block_def unser_header_only [OF v(1)]) (simp add: ser_header_def)
  have "tx_ReadFromDisk G \<lparr> nFile = n, nBlockPos = p, nTxPos = tx_positions (first_tx_pos p (length (vtx b))) (vtx b) ! i \<rparr>
      = Some (vtx b ! i)" if i: "i < length (vtx b)" for i
    using tx_position_offset [OF i assms(4)] c unser_tx_at [OF i v(2), of "ser_bytes (vchBlockSig b) @ d"]
    by (simp add: tx_ReadFromDisk_def ser_block_def ser_vector_def length_ser_header length_WriteCompactSize)
  then show ?thesis using full head unfolding G_def [symmetric] Let_def
    by (simp add: list_eq_iff_nth_eq length_tx_positions)
qed

definition no_files :: blkfiles where "no_files = \<lparr> files = Map.empty, nCurrentBlockFile = 1 \<rparr>"

lemma write_first:
  "length m = 4 \<Longrightarrow> WriteToDisk m b no_files =
    (Some (1, 8), \<lparr> files = [1 \<mapsto> m @ ser_u32 (of_nat (length (ser_block b))) @ ser_block b], nCurrentBlockFile = 1 \<rparr>)"
  unfolding WriteToDisk_def
  by (subst AppendBlockFile.simps) (simp add: no_files_def open_append_def FILE_LIMIT_def MAX_SIZE_def Let_def)

lemma block_example_written: "block_ok (on_disk block_example)" "length (ser_block block_example) \<le> MAX_BLOCK_SIZE"
  by (simp_all add: block_ok_def on_disk_def block_example_def CBlock_new_def blk_SetNull_def tx_example_def tx_ok_def
      int32_range_def MAX_SIZE_def ser_block_def length_ser_header ser_vector_def ser_bytes_def length_WriteCompactSize
      GetSizeOfCompactSize_def ser_tx_def MAX_BLOCK_SIZE_def)

theorem disk_roundtrip_witness:
  "tx_ReadFromDisk (write_blocks [1, 2, 3, 4] [CBlock_new] (snd (WriteToDisk [1, 2, 3, 4] block_example no_files)))
    \<lparr> nFile = 1, nBlockPos = 8, nTxPos = tx_positions (first_tx_pos 8 3) (vtx block_example) ! 2 \<rparr> = Some (tx_example 3)"
proof -
  have m: "length [1, 2, 3, 4 :: byte] = 4" by simp
  note w = write_first [OF m, of block_example]
  have l: "length (vtx block_example) = 3" "vtx block_example ! 2 = tx_example 3" by (simp_all add: block_example_def)
  from disk_roundtrip [OF w m block_example_written, of "[CBlock_new]" ext_example False, unfolded Let_def]
  have "map (\<lambda>q. tx_ReadFromDisk (write_blocks [1, 2, 3, 4] [CBlock_new] (snd (WriteToDisk [1, 2, 3, 4] block_example no_files)))
      \<lparr> nFile = 1, nBlockPos = 8, nTxPos = q \<rparr>) (tx_positions (first_tx_pos 8 3) (vtx block_example)) ! 2
      = map Some (vtx block_example) ! 2" unfolding w l(1) snd_conv by (metis (lifting))
  then show ?thesis by (simp add: l)
qed

end
