(* ===== verification/Mempool.thy ===== *)
theory Mempool
  imports Hobo_Prelude Ext_Crypto Serialize Tx_Data Block Txdb
begin

text \<open>
  Transactions and blocks held in memory: the pool of \<^verbatim>\<open>CTxMemPool\<close> (\<^verbatim>\<open>main.h\<close>, \<^verbatim>\<open>main.cpp\<close>) with its index of spent outputs, the
  orphan transactions that wait for a parent, and the orphan blocks that wait for a predecessor.  A pointer to a pool
  entry or an orphan block is the hash it is stored under.
\<close>

section \<open>The memory pool\<close>

type_synonym CInPoint = "uint256 \<times> u32"

record CTxMemPool =
  mapTx :: "(uint256 \<times> CTransaction) list"
  mapNextTx :: "COutPoint \<rightharpoonup> CInPoint"
  nTransactionsUpdated :: u32

definition addUnchecked :: "uint256 \<Rightarrow> CTransaction \<Rightarrow> CTxMemPool \<Rightarrow> CTxMemPool" where
  "addUnchecked hash tx pool =
     pool\<lparr> mapTx := map_set hash tx (mapTx pool),
       mapNextTx := fold (\<lambda>i m. m(prevout (vin tx ! i) \<mapsto> (hash, of_nat i))) [0..<length (vin tx)] (mapNextTx pool),
       nTransactionsUpdated := nTransactionsUpdated pool + 1 \<rparr>"

definition pool_exists :: "uint256 \<Rightarrow> CTxMemPool \<Rightarrow> bool" where
  "pool_exists hash pool \<longleftrightarrow> map_of (mapTx pool) hash \<noteq> None"

definition pool_lookup :: "uint256 \<Rightarrow> CTxMemPool \<Rightarrow> CTransaction option" where
  "pool_lookup hash pool = map_of (mapTx pool) hash"

definition pool_remove :: "ext \<Rightarrow> CTransaction \<Rightarrow> CTxMemPool \<Rightarrow> CTxMemPool" where
  "pool_remove E tx pool =
     (let hash = tx_GetHash E tx
      in if pool_exists hash pool
         then pool\<lparr> mapNextTx := fold (\<lambda>txin m. m(prevout txin := None)) (vin tx) (mapNextTx pool),
                mapTx := map_erase hash (mapTx pool), nTransactionsUpdated := nTransactionsUpdated pool + 1 \<rparr>
         else pool)"

definition pool_clear :: "CTxMemPool \<Rightarrow> CTxMemPool" where
  "pool_clear pool = pool\<lparr> mapTx := [], mapNextTx := Map.empty, nTransactionsUpdated := nTransactionsUpdated pool + 1 \<rparr>"

definition queryHashes :: "CTxMemPool \<Rightarrow> uint256 list" where
  "queryHashes pool = map fst (mapTx pool)"

definition pool_empty :: CTxMemPool where
  "pool_empty = \<lparr> mapTx = [], mapNextTx = Map.empty, nTransactionsUpdated = 0 \<rparr>"

section \<open>Orphan transactions\<close>

record orphan_txs =
  mapOrphanTransactions :: "(uint256 \<times> CTransaction) list"
  mapOrphanTransactionsByPrev :: "uint256 \<rightharpoonup> uint256 set"

definition AddOrphanTx :: "ext \<Rightarrow> CTransaction \<Rightarrow> orphan_txs \<Rightarrow> bool \<times> orphan_txs" where
  "AddOrphanTx E tx s =
     (let hash = tx_GetHash E tx
      in if map_of (mapOrphanTransactions s) hash \<noteq> None then (False, s)
         else if length (ser_tx tx) > 5000 then (False, s)
         else (True, s\<lparr> mapOrphanTransactions := map_set hash tx (mapOrphanTransactions s),
                mapOrphanTransactionsByPrev :=
                  fold (\<lambda>txin m. m(op_hash (prevout txin) \<mapsto>
                      insert hash (case m (op_hash (prevout txin)) of None \<Rightarrow> {} | Some hs \<Rightarrow> hs)))
                    (vin tx) (mapOrphanTransactionsByPrev s) \<rparr>))"

text \<open>\<^verbatim>\<open>operator[]\<close> creates a missing set, which is then empty and erased.\<close>

definition unlink_orphan :: "uint256 \<Rightarrow> uint256 \<Rightarrow> (uint256 \<rightharpoonup> uint256 set) \<Rightarrow> uint256 \<rightharpoonup> uint256 set" where
  "unlink_orphan hash prev m =
     (let hs = (case m prev of None \<Rightarrow> {} | Some hs \<Rightarrow> hs) - {hash} in if hs = {} then m(prev := None) else m(prev \<mapsto> hs))"

definition EraseOrphanTx :: "uint256 \<Rightarrow> orphan_txs \<Rightarrow> orphan_txs" where
  "EraseOrphanTx hash s =
     (case map_of (mapOrphanTransactions s) hash of None \<Rightarrow> s
      | Some tx \<Rightarrow>
          s\<lparr> mapOrphanTransactionsByPrev :=
               fold (\<lambda>txin. unlink_orphan hash (op_hash (prevout txin))) (vin tx) (mapOrphanTransactionsByPrev s),
             mapOrphanTransactions := map_erase hash (mapOrphanTransactions s) \<rparr>)"

lemma EraseOrphanTx_shorter:
  "mapOrphanTransactions s \<noteq> [] \<Longrightarrow>
    length (mapOrphanTransactions (EraseOrphanTx (fst (lower_bound r (mapOrphanTransactions s))) s))
      < length (mapOrphanTransactions s)"
  using lower_bound_mem [of "mapOrphanTransactions s" r]
  by (auto simp: EraseOrphanTx_def map_of_eq_None_iff split: option.splits)

text \<open>\<^verbatim>\<open>GetRandHash\<close> draws from a sequence of hashes, one per evicted entry.\<close>

function limit_orphan_txs :: "(nat \<Rightarrow> uint256) \<Rightarrow> u32 \<Rightarrow> nat \<Rightarrow> orphan_txs \<Rightarrow> nat \<times> orphan_txs" where
  "limit_orphan_txs GetRandHash nMaxOrphans nEvicted s =
     (if length (mapOrphanTransactions s) > unat nMaxOrphans
      then limit_orphan_txs GetRandHash nMaxOrphans (nEvicted + 1)
             (EraseOrphanTx (fst (lower_bound (GetRandHash nEvicted) (mapOrphanTransactions s))) s)
      else (nEvicted, s))"
  by pat_completeness auto
termination
  by (relation "measure (\<lambda>(g, n, k, s). length (mapOrphanTransactions s))") (auto intro!: EraseOrphanTx_shorter)

declare limit_orphan_txs.simps [simp del]

definition LimitOrphanTxSize :: "(nat \<Rightarrow> uint256) \<Rightarrow> u32 \<Rightarrow> orphan_txs \<Rightarrow> u32 \<times> orphan_txs" where
  "LimitOrphanTxSize GetRandHash nMaxOrphans s =
     (let (n, s) = limit_orphan_txs GetRandHash nMaxOrphans 0 s in (of_nat n, s))"

section \<open>Orphan blocks\<close>

record orphan_blocks =
  mapOrphanBlocks :: "(uint256 \<times> CBlock) list"
  mapOrphanBlocksByPrev :: "(uint256 \<times> uint256) list"
  setStakeSeenOrphan :: "(COutPoint \<times> u32) set"

definition erase_orphan_block :: "uint256 \<Rightarrow> CBlock \<Rightarrow> orphan_blocks \<Rightarrow> orphan_blocks" where
  "erase_orphan_block h pevict s =
     s\<lparr> mapOrphanBlocksByPrev := filter (\<lambda>(prev, p). \<not> (prev = hashPrevBlock pevict \<and> p = h)) (mapOrphanBlocksByPrev s),
        setStakeSeenOrphan := (if blk_IsProofOfStake pevict then setStakeSeenOrphan s - {GetProofOfStake pevict}
          else setStakeSeenOrphan s),
        mapOrphanBlocks := map_erase h (mapOrphanBlocks s) \<rparr>"

lemma erase_orphan_block_shorter:
  assumes "mapOrphanBlocks s \<noteq> []"
  shows "length (mapOrphanBlocks (erase_orphan_block (fst (lower_bound r (mapOrphanBlocks s))) b s)) < length (mapOrphanBlocks s)"
  using lower_bound_mem [OF assms, of r] by (auto simp: erase_orphan_block_def)

function limit_orphan_blocks :: "(nat \<Rightarrow> uint256) \<Rightarrow> u32 \<Rightarrow> nat \<Rightarrow> orphan_blocks \<Rightarrow> nat \<times> orphan_blocks" where
  "limit_orphan_blocks GetRandHash nMaxOrphans nEvicted s =
     (if length (mapOrphanBlocks s) > unat nMaxOrphans
      then let it = lower_bound (GetRandHash nEvicted) (mapOrphanBlocks s)
           in limit_orphan_blocks GetRandHash nMaxOrphans (nEvicted + 1) (erase_orphan_block (fst it) (snd it) s)
      else (nEvicted, s))"
  by pat_completeness auto
termination
  by (relation "measure (\<lambda>(g, n, k, s). length (mapOrphanBlocks s))") (auto intro!: erase_orphan_block_shorter)

declare limit_orphan_blocks.simps [simp del]

definition LimitOrphanBlocks :: "(nat \<Rightarrow> uint256) \<Rightarrow> u32 \<Rightarrow> orphan_blocks \<Rightarrow> u32 \<times> orphan_blocks" where
  "LimitOrphanBlocks GetRandHash nMaxOrphans s =
     (let (n, s) = limit_orphan_blocks GetRandHash nMaxOrphans 0 s in (of_nat n, s))"

text \<open>The walk to the first orphan of a run; a cycle of predecessors would never end.\<close>

partial_function (option) first_orphan :: "(uint256 \<times> CBlock) list \<Rightarrow> CBlock \<Rightarrow> CBlock option" where
  "first_orphan m pblock =
     (case map_of m (hashPrevBlock pblock) of None \<Rightarrow> Some pblock | Some prev \<Rightarrow> first_orphan m prev)"

definition GetOrphanRoot :: "ext \<Rightarrow> orphan_blocks \<Rightarrow> CBlock \<Rightarrow> uint256 option" where
  "GetOrphanRoot E s pblock = map_option (\<lambda>b. fst (blk_GetHash E b)) (first_orphan (mapOrphanBlocks s) pblock)"

definition WantedByOrphan :: "orphan_blocks \<Rightarrow> CBlock \<Rightarrow> uint256 option" where
  "WantedByOrphan s pblockOrphan = map_option hashPrevBlock (first_orphan (mapOrphanBlocks s) pblockOrphan)"

section \<open>The index of spent outputs\<close>

text \<open>Input \<open>n\<close> of the pool transaction \<open>h\<close> spends the output \<open>out\<close>.\<close>

definition pool_spends :: "CTxMemPool \<Rightarrow> COutPoint \<Rightarrow> CInPoint \<Rightarrow> bool" where
  "pool_spends pool out ip \<longleftrightarrow> (case map_of (mapTx pool) (fst ip) of None \<Rightarrow> False
     | Some tx \<Rightarrow> unat (snd ip) < length (vin tx) \<and> prevout (vin tx ! unat (snd ip)) = out)"

definition pool_ok :: "ext \<Rightarrow> CTxMemPool \<Rightarrow> bool" where
  "pool_ok E pool \<longleftrightarrow> sorted_wrt (<) (map fst (mapTx pool)) \<and>
     (\<forall>h tx. map_of (mapTx pool) h = Some tx \<longrightarrow> tx_GetHash E tx = h \<and> length (vin tx) < 2 ^ 32) \<and>
     (\<forall>out ip. mapNextTx pool out = Some ip \<longleftrightarrow> pool_spends pool out ip)"

lemma pool_next: "pool_ok E pool \<Longrightarrow> mapNextTx pool out = Some ip \<longleftrightarrow> pool_spends pool out ip"
  unfolding pool_ok_def by blast

lemma pool_sorted: "pool_ok E pool \<Longrightarrow> sorted_wrt (<) (map fst (mapTx pool))"
  unfolding pool_ok_def by blast

lemma pool_txs: "pool_ok E pool \<Longrightarrow> map_of (mapTx pool) h = Some tx \<Longrightarrow> tx_GetHash E tx = h \<and> length (vin tx) < 2 ^ 32"
  unfolding pool_ok_def by blast

lemma pool_okI:
  assumes "sorted_wrt (<) (map fst (mapTx pool))"
    "\<And>h tx. map_of (mapTx pool) h = Some tx \<Longrightarrow> tx_GetHash E tx = h \<and> length (vin tx) < 2 ^ 32"
    "\<And>out h n. mapNextTx pool out = Some (h, n) \<longleftrightarrow> pool_spends pool out (h, n)"
  shows "pool_ok E pool"
  using assms unfolding pool_ok_def by auto

lemma pool_empty_ok: "pool_ok E pool_empty"
  by (simp add: pool_ok_def pool_empty_def pool_spends_def)

lemma pool_ok_unique: "pool_ok E pool \<Longrightarrow> pool_spends pool out ip \<Longrightarrow> pool_spends pool out ip' \<Longrightarrow> ip = ip'"
  unfolding pool_ok_def by (metis option.inject)

lemma pool_clear_ok: "pool_ok E (pool_clear pool)"
  by (simp add: pool_ok_def pool_clear_def pool_spends_def)

lemma index_inputs:
  assumes "distinct (map prevout vs)" "n \<le> length vs"
  shows "fold (\<lambda>i m. m(prevout (vs ! i) \<mapsto> (h, of_nat i))) [0..<n] m0 out = Some ip \<longleftrightarrow>
    (\<exists>i < n. prevout (vs ! i) = out \<and> ip = (h, of_nat i)) \<or> (\<forall>i < n. prevout (vs ! i) \<noteq> out) \<and> m0 out = Some ip"
  using assms(2)
proof (induction n)
  case (Suc n)
  have "prevout (vs ! i) \<noteq> prevout (vs ! n)" if "i < n" for i
    using nth_eq_iff_index_eq [OF assms(1), of i n] Suc.prems that by simp
  then show ?case using Suc.IH Suc.prems by (auto simp: less_Suc_eq)
qed simp

lemma addUnchecked_ok:
  assumes ok: "pool_ok E pool" and new: "\<not> pool_exists (tx_GetHash E tx) pool"
    and free: "\<forall>txin \<in> set (vin tx). mapNextTx pool (prevout txin) = None"
    and d: "distinct (map prevout (vin tx))" and len: "length (vin tx) < 2 ^ 32"
  shows "pool_ok E (addUnchecked (tx_GetHash E tx) tx pool)"
proof (rule pool_okI)
  let ?h = "tx_GetHash E tx"
  show "sorted_wrt (<) (map fst (mapTx (addUnchecked ?h tx pool)))"
    using pool_sorted [OF ok] by (simp add: addUnchecked_def map_set_sorted)
  show "tx_GetHash E t = h \<and> length (vin t) < 2 ^ 32" if "map_of (mapTx (addUnchecked ?h tx pool)) h = Some t" for h t
    using that pool_txs [OF ok] len by (auto simp: addUnchecked_def split: if_splits)
  fix out h and n :: u32
  have i: "(\<exists>i < length (vin tx). prevout (vin tx ! i) = out \<and> n = of_nat i) \<longleftrightarrow>
      unat n < length (vin tx) \<and> prevout (vin tx ! unat n) = out"
    using len by (auto simp: unsigned_of_nat take_bit_nat_eq_self intro!: exI [of _ "unat n"])
  have h: "\<not> pool_spends pool out (?h, n)" using new by (simp add: pool_spends_def pool_exists_def)
  have f: "\<not> (\<forall>i < length (vin tx). prevout (vin tx ! i) \<noteq> out) \<Longrightarrow> \<not> pool_spends pool out (h, n)"
    using free pool_next [OF ok, of out "(h, n)"] by fastforce
  have "mapNextTx (addUnchecked ?h tx pool) out = Some (h, n) \<longleftrightarrow>
      h = ?h \<and> unat n < length (vin tx) \<and> prevout (vin tx ! unat n) = out \<or> pool_spends pool out (h, n)"
    using index_inputs [OF d order_refl, of ?h "mapNextTx pool" out "(h, n)"] i f
    unfolding addUnchecked_def pool_next [OF ok] by (simp; blast)
  then show "mapNextTx (addUnchecked ?h tx pool) out = Some (h, n) \<longleftrightarrow> pool_spends (addUnchecked ?h tx pool) out (h, n)"
    using h by (auto simp: pool_spends_def addUnchecked_def)
qed

lemma fold_erase: "fold (\<lambda>txin m. m(prevout txin := None)) vs m out = (if out \<in> prevout ` set vs then None else m out)"
  by (induction vs arbitrary: m) auto

lemma pool_remove_ok:
  assumes ok: "pool_ok E pool" and same: "\<And>tx'. pool_lookup (tx_GetHash E tx) pool = Some tx' \<Longrightarrow> vin tx' = vin tx"
  shows "pool_ok E (pool_remove E tx pool)"
proof (cases "map_of (mapTx pool) (tx_GetHash E tx)")
  case None
  then show ?thesis using ok by (simp add: pool_remove_def pool_exists_def)
next
  case (Some tx')
  let ?h = "tx_GetHash E tx"
  have v: "vin tx' = vin tx" using same Some by (simp add: pool_lookup_def)
  have m: "mapTx (pool_remove E tx pool) = map_erase ?h (mapTx pool)"
    "mapNextTx (pool_remove E tx pool) out = (if out \<in> prevout ` set (vin tx) then None else mapNextTx pool out)" for out
    using Some by (simp_all add: pool_remove_def pool_exists_def fold_erase)
  have mine: "h = ?h" if o: "out \<in> prevout ` set (vin tx)" and s: "pool_spends pool out (h, n)" for out h n
  proof -
    obtain i where i: "i < length (vin tx)" "prevout (vin tx ! i) = out" using o by (auto simp: in_set_conv_nth)
    have "length (vin tx) < 2 ^ 32" using pool_txs [OF ok Some] v by simp
    with i(1) have "i < 2 ^ 32" by (rule less_trans)
    then have "pool_spends pool out (?h, of_nat i)" using Some i v
      by (simp add: pool_spends_def unsigned_of_nat take_bit_nat_eq_self)
    from pool_ok_unique [OF ok s this] show ?thesis by simp
  qed
  show ?thesis
  proof (rule pool_okI)
    show "sorted_wrt (<) (map fst (mapTx (pool_remove E tx pool)))"
      unfolding m by (rule map_erase_sorted) (rule pool_sorted [OF ok])
    show "tx_GetHash E t = h \<and> length (vin t) < 2 ^ 32" if "map_of (mapTx (pool_remove E tx pool)) h = Some t" for h t
      using that pool_txs [OF ok] by (simp add: m split: if_splits)
    fix out h n
    have "pool_spends (pool_remove E tx pool) out (h, n) \<longleftrightarrow> h \<noteq> ?h \<and> pool_spends pool out (h, n)"
      by (simp add: pool_spends_def m)
    moreover have "out \<in> prevout ` set (vin tx)" if "pool_spends pool out (?h, n)"
      using that Some v by (auto simp: pool_spends_def)
    ultimately show "mapNextTx (pool_remove E tx pool) out = Some (h, n) \<longleftrightarrow> pool_spends (pool_remove E tx pool) out (h, n)"
      using mine [of out h n] by (auto simp: m pool_next [OF ok])
  qed
qed

section \<open>The index of orphan transactions\<close>

definition parents :: "CTxIn list \<Rightarrow> uint256 set" where
  "parents vs = (\<lambda>txin. op_hash (prevout txin)) ` set vs"

definition orphans_of :: "(uint256 \<rightharpoonup> CTransaction) \<Rightarrow> uint256 \<Rightarrow> uint256 set" where
  "orphans_of m p = {h. \<exists>tx. m h = Some tx \<and> p \<in> parents (vin tx)}"

definition some_set :: "'a set \<Rightarrow> 'a set option" where
  "some_set S = (if S = {} then None else Some S)"

definition get_set :: "'a set option \<Rightarrow> 'a set" where
  "get_set m = (case m of None \<Rightarrow> {} | Some hs \<Rightarrow> hs)"

lemma get_some_set [simp]: "get_set (some_set S) = S"
  by (simp add: get_set_def some_set_def)

definition orphans_ok :: "ext \<Rightarrow> orphan_txs \<Rightarrow> bool" where
  "orphans_ok E s \<longleftrightarrow> sorted_wrt (<) (map fst (mapOrphanTransactions s)) \<and>
     (\<forall>(h, tx) \<in> set (mapOrphanTransactions s). tx_GetHash E tx = h \<and> length (ser_tx tx) \<le> 5000) \<and>
     (\<forall>p. mapOrphanTransactionsByPrev s p = some_set (orphans_of (map_of (mapOrphanTransactions s)) p))"

lemma link_fold:
  "fold (\<lambda>txin m. m(op_hash (prevout txin) \<mapsto> insert hash (case m (op_hash (prevout txin)) of None \<Rightarrow> {} | Some hs \<Rightarrow> hs))) vs m p =
    (if p \<in> parents vs then Some (insert hash (get_set (m p))) else m p)"
  by (induction vs arbitrary: m) (auto simp: parents_def get_set_def split: option.splits)

lemma unlink_fold:
  "fold (\<lambda>txin. unlink_orphan hash (op_hash (prevout txin))) vs m p =
    (if p \<in> parents vs then some_set (get_set (m p) - {hash}) else m p)"
  by (induction vs arbitrary: m) (auto simp: parents_def get_set_def some_set_def unlink_orphan_def Let_def split: option.splits)

lemma set_map_set_subset: "set (map_set k v m) \<subseteq> insert (k, v) (set m)"
  by (induction k v m rule: map_set.induct) auto

lemma length_map_set_new: "map_of m k = None \<Longrightarrow> length (map_set k v m) = Suc (length m)"
  by (induction k v m rule: map_set.induct) (auto split: if_splits)

lemma AddOrphanTx_ok:
  assumes "orphans_ok E s"
  shows "orphans_ok E (snd (AddOrphanTx E tx s))"
proof -
  let ?h = "tx_GetHash E tx" and ?s = "snd (AddOrphanTx E tx s)"
  consider "?s = s" | "map_of (mapOrphanTransactions s) ?h = None" "length (ser_tx tx) \<le> 5000" "AddOrphanTx E tx s = (True, ?s)"
      "mapOrphanTransactions ?s = map_set ?h tx (mapOrphanTransactions s)"
      "\<And>p. mapOrphanTransactionsByPrev ?s p = (if p \<in> parents (vin tx) then Some (insert ?h (get_set (mapOrphanTransactionsByPrev s p)))
        else mapOrphanTransactionsByPrev s p)"
    by (cases "map_of (mapOrphanTransactions s) ?h = None \<and> length (ser_tx tx) \<le> 5000") (force simp: AddOrphanTx_def Let_def link_fold)+
  then show ?thesis
  proof cases
    case 2
    have "orphans_of (map_of (mapOrphanTransactions ?s)) p =
        (if p \<in> parents (vin tx) then {?h} else {}) \<union> orphans_of (map_of (mapOrphanTransactions s)) p" for p
      using 2(1) by (auto simp: 2(4) orphans_of_def)
    then have "mapOrphanTransactionsByPrev ?s p = some_set (orphans_of (map_of (mapOrphanTransactions ?s)) p)" for p
      using assms unfolding orphans_ok_def by (simp add: 2(5)) (simp add: some_set_def)
    then show ?thesis using assms 2(2) set_map_set_subset [of ?h tx "mapOrphanTransactions s"]
      unfolding orphans_ok_def 2(4) by (auto simp: map_set_sorted)
  qed (use assms in simp)
qed

lemma sorted_distinct_keys: "sorted_wrt (<) (map fst m) \<Longrightarrow> distinct (map fst (m :: ('k :: linorder \<times> 'v) list))"
  using strict_sorted_iff by blast

lemma length_map_erase:
  assumes "sorted_wrt (<) (map fst (m :: ('k :: linorder \<times> 'v) list))" "map_of m k \<noteq> None"
  shows "Suc (length (map_erase k m)) = length m"
  using assms
proof (induction m)
  case (Cons kv m)
  show ?case
  proof (cases "fst kv = k")
    case True
    then have "\<forall>x \<in> set m. fst x \<noteq> k" using Cons.prems(1) by auto
    then show ?thesis using True by (simp add: map_erase_def filter_id_conv)
  next
    case False
    then show ?thesis using Cons by (auto simp: map_erase_def)
  qed
qed simp

lemma EraseOrphanTx_ok:
  assumes "orphans_ok E s"
  shows "orphans_ok E (EraseOrphanTx h s)"
proof (cases "map_of (mapOrphanTransactions s) h")
  case (Some tx)
  let ?s = "EraseOrphanTx h s"
  have m: "mapOrphanTransactions ?s = map_erase h (mapOrphanTransactions s)"
    and b: "mapOrphanTransactionsByPrev ?s p = (if p \<in> parents (vin tx) then some_set (get_set (mapOrphanTransactionsByPrev s p) - {h})
        else mapOrphanTransactionsByPrev s p)" for p
    using Some by (simp_all add: EraseOrphanTx_def unlink_fold)
  have "orphans_of (map_of (mapOrphanTransactions ?s)) p = orphans_of (map_of (mapOrphanTransactions s)) p - {h}" for p
    by (auto simp: m orphans_of_def)
  moreover have "h \<notin> orphans_of (map_of (mapOrphanTransactions s)) p" if "p \<notin> parents (vin tx)" for p
    using Some that by (auto simp: orphans_of_def)
  ultimately have "mapOrphanTransactionsByPrev ?s p = some_set (orphans_of (map_of (mapOrphanTransactions ?s)) p)" for p
    using assms unfolding orphans_ok_def by (simp add: b)
  then show ?thesis using assms unfolding orphans_ok_def m by (auto simp: map_erase_sorted) (auto simp: map_erase_def)
qed (use assms in \<open>simp add: EraseOrphanTx_def\<close>)

lemma limit_orphan_txs_ok:
  assumes "orphans_ok E s" "limit_orphan_txs g n k s = (k', s')"
  shows "orphans_ok E s' \<and> k' + length (mapOrphanTransactions s') = k + length (mapOrphanTransactions s) \<and>
    length (mapOrphanTransactions s') = min (unat n) (length (mapOrphanTransactions s)) \<and>
    set (mapOrphanTransactions s') \<subseteq> set (mapOrphanTransactions s)"
  using assms
proof (induction g n k s rule: limit_orphan_txs.induct)
  case (1 g n k s)
  let ?m = "mapOrphanTransactions s"
  show ?case
  proof (cases "unat n < length ?m")
    case True
    let ?h = "fst (lower_bound (g k) ?m)"
    have "lower_bound (g k) ?m \<in> set ?m" using True by (intro lower_bound_mem) auto
    then have some: "map_of ?m ?h \<noteq> None" by (simp add: map_of_eq_None_iff)
    then have m: "mapOrphanTransactions (EraseOrphanTx ?h s) = map_erase ?h ?m" by (auto simp: EraseOrphanTx_def)
    have len: "Suc (length (map_erase ?h ?m)) = length ?m"
      using "1.prems"(1) some unfolding orphans_ok_def by (intro length_map_erase) auto
    have "set (map_erase ?h ?m) \<subseteq> set ?m" by (auto simp: map_erase_def)
    moreover have "limit_orphan_txs g n (k + 1) (EraseOrphanTx ?h s) = (k', s')"
      using "1.prems"(2) True by (subst (asm) limit_orphan_txs.simps) simp
    ultimately show ?thesis using "1.IH" [OF True EraseOrphanTx_ok [OF "1.prems"(1)]] len True unfolding m by (auto simp: min_def)
  next
    case False
    then show ?thesis using "1.prems" by (subst (asm) limit_orphan_txs.simps) auto
  qed
qed

section \<open>The walk to the first orphan block\<close>

lemma first_orphan_returns:
  assumes "\<And>h b. map_of m h = Some b \<Longrightarrow> rank (hashPrevBlock b) < (rank h :: nat)"
  shows "\<exists>b'. first_orphan m b = Some b' \<and> map_of m (hashPrevBlock b') = None \<and> (b' = b \<or> b' \<in> snd ` set m)"
proof (induction "rank (hashPrevBlock b)" arbitrary: b rule: less_induct)
  case less
  show ?case
  proof (cases "map_of m (hashPrevBlock b)")
    case None
    then show ?thesis by (subst first_orphan.simps) simp
  next
    case (Some p)
    from less [OF assms [OF Some]] show ?thesis using Some map_of_SomeD [OF Some]
      by (subst first_orphan.simps) force
  qed
qed

section \<open>Properties\<close>

text \<open>C28. The buffer of orphan transactions stays within its limit: after an orphan is offered and the buffer is trimmed,
  whatever hashes the random source returns, no more entries remain than allowed and none above 5000 bytes, the
  index by parent lists exactly the remaining orphans, and the count returned is the number of entries dropped.\<close>

theorem orphan_buffer:
  assumes "orphans_ok E s" "length (mapOrphanTransactions s) < 2 ^ 32 - 1"
    and "AddOrphanTx E tx s = (added, s1)" "LimitOrphanTxSize g n s1 = (evicted, s2)"
  shows "orphans_ok E s2 \<and>
    length (mapOrphanTransactions s1) = length (mapOrphanTransactions s) + (if added then 1 else 0) \<and>
    length (mapOrphanTransactions s2) = min (unat n) (length (mapOrphanTransactions s1)) \<and>
    unat evicted + length (mapOrphanTransactions s2) = length (mapOrphanTransactions s1) \<and>
    set (mapOrphanTransactions s2) \<subseteq> insert (tx_GetHash E tx, tx) (set (mapOrphanTransactions s)) \<and>
    sum_list (map (\<lambda>(h, t). length (ser_tx t)) (mapOrphanTransactions s2)) \<le> 5000 * unat n"
proof -
  let ?l = "\<lambda>s. length (mapOrphanTransactions s)"
  have l1: "?l s1 = ?l s + (if added then 1 else 0)"
    and sub: "set (mapOrphanTransactions s1) \<subseteq> insert (tx_GetHash E tx, tx) (set (mapOrphanTransactions s))"
    using assms(3) set_map_set_subset [of "tx_GetHash E tx" tx "mapOrphanTransactions s"]
    by (auto simp: AddOrphanTx_def Let_def length_map_set_new split: if_splits)
  obtain k where k: "limit_orphan_txs g n 0 s1 = (k, s2)" "evicted = of_nat k"
    using assms(4) by (auto simp: LimitOrphanTxSize_def split: prod.splits)
  have ok1: "orphans_ok E s1" using AddOrphanTx_ok [OF assms(1), of tx] assms(3) by simp
  note lim = limit_orphan_txs_ok [OF ok1 k(1)]
  have "k < 2 ^ 32" using lim l1 assms(2) by (auto split: if_splits)
  then have ev: "unat evicted = k" by (simp add: k(2) unsigned_of_nat take_bit_nat_eq_self)
  have "sum_list (map (\<lambda>(h, t). length (ser_tx t)) (mapOrphanTransactions s2)) \<le> sum_list (map (\<lambda>x. 5000) (mapOrphanTransactions s2))"
    using lim unfolding orphans_ok_def by (intro sum_list_mono) auto
  then have "sum_list (map (\<lambda>(h, t). length (ser_tx t)) (mapOrphanTransactions s2)) \<le> 5000 * unat n"
    using lim by (simp add: sum_list_triv)
  then show ?thesis using lim l1 sub ev by auto
qed

definition orphan_txs_empty :: orphan_txs where
  "orphan_txs_empty = \<lparr> mapOrphanTransactions = [], mapOrphanTransactionsByPrev = Map.empty \<rparr>"

theorem orphan_buffer_witness:
  "fst (AddOrphanTx ext_example (tx_example 1) orphan_txs_empty) \<and>
   mapOrphanTransactions (snd (LimitOrphanTxSize (\<lambda>k. 0) 0 (snd (AddOrphanTx ext_example (tx_example 1) orphan_txs_empty)))) = []"
proof -
  have a: "fst (AddOrphanTx ext_example (tx_example 1) orphan_txs_empty)"
    by (simp add: AddOrphanTx_def orphan_txs_empty_def tx_example_def ser_tx_def ser_vector_def length_WriteCompactSize
        GetSizeOfCompactSize_def)
  have ok: "orphans_ok ext_example orphan_txs_empty"
    by (simp add: orphans_ok_def orphan_txs_empty_def orphans_of_def some_set_def)
  have l: "length (mapOrphanTransactions orphan_txs_empty) < 2 ^ 32 - 1" by (simp add: orphan_txs_empty_def)
  from orphan_buffer [OF ok l surjective_pairing surjective_pairing, where tx = "tx_example 1" and g = "\<lambda>k. 0" and n = 0] show ?thesis
    using a by simp
qed

end
