(* ===== verification/Connect_Tx.thy ===== *)
theory Connect_Tx
  imports Hobo_Prelude Ext_Crypto Bignum Serialize Script Tx_Data Sig_Check Interpreter Interp_Limits Standard Block Block_Index
    Txdb Tx_Rules Rewards Block_Files Mempool
begin

text \<open>
  Spending and unspending (\<^verbatim>\<open>main.cpp\<close>): fetching the transactions an input refers to, connecting a transaction's inputs to
  them, undoing that, coin age, and admission to the memory pool.  An index record that cannot be decoded counts as
  missing.
\<close>

section \<open>Coin age\<close>

fun cent_seconds :: "ext \<Rightarrow> bool \<Rightarrow> int \<Rightarrow> blkfiles \<Rightarrow> CTxDB \<Rightarrow> u32 \<Rightarrow> BIGNUM \<Rightarrow> CTxIn list \<Rightarrow> BIGNUM option" where
  "cent_seconds E fTestNet nBestHeight F db nTime bnCentSecond [] = Some bnCentSecond"
| "cent_seconds E fTestNet nBestHeight F db nTime bnCentSecond (txin # rest) =
     (case tx_ReadFromDisk_out F db (prevout txin) of
        None \<Rightarrow> cent_seconds E fTestNet nBestHeight F db nTime bnCentSecond rest
      | Some (txPrev, txindex) \<Rightarrow>
          if nTime < tx_nTime txPrev then None
          else case blk_ReadFromDisk E fTestNet F (nFile (txi_pos txindex)) (nBlockPos (txi_pos txindex)) False of None \<Rightarrow> None
            | Some block \<Rightarrow>
                if blk_GetBlockTime block + uint (GetStakeMinAge fTestNet nBestHeight) > uint nTime
                then cent_seconds E fTestNet nBestHeight F db nTime bnCentSecond rest
                else let nValueIn = nValue (vout txPrev ! unat (op_n (prevout txin)));
                         bnCentSecond = bnCentSecond + bn_div (nValueIn * uint (nTime - tx_nTime txPrev)) CENT
                     in cent_seconds E fTestNet nBestHeight F db nTime bnCentSecond rest)"

definition tx_GetCoinAge :: "ext \<Rightarrow> bool \<Rightarrow> int \<Rightarrow> blkfiles \<Rightarrow> CTxDB \<Rightarrow> CTransaction \<Rightarrow> u64 option" where
  "tx_GetCoinAge E fTestNet nBestHeight F db tx =
     (if IsCoinBase tx then Some 0
      else case cent_seconds E fTestNet nBestHeight F db (tx_nTime tx) 0 (vin tx) of None \<Rightarrow> None
        | Some bnCentSecond \<Rightarrow>
            let bnCoinDay = bn_div (bn_div (bnCentSecond * CENT) COIN) (24 * 60 * 60) in Some (getuint64 E bnCoinDay))"

fun coin_age_sum :: "ext \<Rightarrow> bool \<Rightarrow> int \<Rightarrow> blkfiles \<Rightarrow> CTxDB \<Rightarrow> u64 \<Rightarrow> CTransaction list \<Rightarrow> u64 option" where
  "coin_age_sum E fTestNet nBestHeight F db nCoinAge [] = Some nCoinAge"
| "coin_age_sum E fTestNet nBestHeight F db nCoinAge (tx # txs) =
     (case tx_GetCoinAge E fTestNet nBestHeight F db tx of None \<Rightarrow> None
      | Some nTxCoinAge \<Rightarrow> coin_age_sum E fTestNet nBestHeight F db (nCoinAge + nTxCoinAge) txs)"

definition blk_GetCoinAge :: "ext \<Rightarrow> bool \<Rightarrow> int \<Rightarrow> blkfiles \<Rightarrow> CTxDB \<Rightarrow> CBlock \<Rightarrow> u64 option" where
  "blk_GetCoinAge E fTestNet nBestHeight F db b =
     map_option (\<lambda>a. if a = 0 then 1 else a) (coin_age_sum E fTestNet nBestHeight F db 0 (vtx b))"

section \<open>Undoing a transaction\<close>

fun release_inputs :: "CTxIn list \<Rightarrow> CTxDB \<Rightarrow> bool \<times> CTxDB" where
  "release_inputs [] db = (True, db)"
| "release_inputs (txin # rest) db =
     (let out = prevout txin in
      case ReadTxIndex (op_hash out) db of None \<Rightarrow> (False, db)
      | Some txindex \<Rightarrow>
          if unat (op_n out) \<ge> length (vSpent txindex) then (False, db)
          else let txindex = txindex\<lparr> vSpent := (vSpent txindex)[unat (op_n out) := pos_SetNull] \<rparr>
               in case UpdateTxIndex (op_hash out) txindex db of (False, db) \<Rightarrow> (False, db)
                  | (True, db) \<Rightarrow> release_inputs rest db)"

definition DisconnectInputs :: "ext \<Rightarrow> CTransaction \<Rightarrow> CTxDB \<Rightarrow> bool \<times> CTxDB" where
  "DisconnectInputs E tx db =
     (case (if IsCoinBase tx then (True, db) else release_inputs (vin tx) db) of (False, db) \<Rightarrow> (False, db)
      | (True, db) \<Rightarrow> (True, snd (EraseTxIndex E tx db)))"

section \<open>Fetching the inputs\<close>

text \<open>The position that stands for the memory pool.\<close>

definition pos_mempool :: CDiskTxPos where "pos_mempool = \<lparr> nFile = 1, nBlockPos = 1, nTxPos = 1 \<rparr>"

definition fetch_one :: "blkfiles \<Rightarrow> CTxDB \<Rightarrow> CTxMemPool \<Rightarrow> (uint256 \<rightharpoonup> CTxIndex) \<Rightarrow> bool \<Rightarrow> bool \<Rightarrow> uint256 \<Rightarrow>
    (CTxIndex \<times> CTransaction) option" where
  "fetch_one F db mempool mapTestPool fBlock fMiner hash =
     (let found = (if (fBlock \<or> fMiner) \<and> mapTestPool hash \<noteq> None then mapTestPool hash else ReadTxIndex hash db)
      in if found = None \<and> (fBlock \<or> fMiner) then None
         else if found = None \<or> txi_pos (the found) = pos_mempool
         then case pool_lookup hash mempool of None \<Rightarrow> None
           | Some txPrev \<Rightarrow>
               Some (case found of None \<Rightarrow> txindex_new pos_SetNull (length (vout txPrev)) | Some txindex \<Rightarrow> txindex, txPrev)
         else case tx_ReadFromDisk F (txi_pos (the found)) of None \<Rightarrow> None
           | Some txPrev \<Rightarrow> Some (the found, txPrev))"

fun fetch_loop :: "blkfiles \<Rightarrow> CTxDB \<Rightarrow> CTxMemPool \<Rightarrow> (uint256 \<rightharpoonup> CTxIndex) \<Rightarrow> bool \<Rightarrow> bool \<Rightarrow> MapPrevTx \<Rightarrow> CTxIn list \<Rightarrow>
    MapPrevTx option" where
  "fetch_loop F db mempool mapTestPool fBlock fMiner inputsRet [] = Some inputsRet"
| "fetch_loop F db mempool mapTestPool fBlock fMiner inputsRet (txin # rest) =
     (let hash = op_hash (prevout txin) in
      if inputsRet hash \<noteq> None then fetch_loop F db mempool mapTestPool fBlock fMiner inputsRet rest
      else case fetch_one F db mempool mapTestPool fBlock fMiner hash of None \<Rightarrow> None
        | Some p \<Rightarrow> fetch_loop F db mempool mapTestPool fBlock fMiner (inputsRet(hash \<mapsto> p)) rest)"

definition prevout_in_range :: "MapPrevTx \<Rightarrow> CTxIn \<Rightarrow> bool" where
  "prevout_in_range inputs txin =
     (case inputs (op_hash (prevout txin)) of None \<Rightarrow> False
      | Some (txindex, txPrev) \<Rightarrow>
          \<not> (unat (op_n (prevout txin)) \<ge> length (vout txPrev) \<or> unat (op_n (prevout txin)) \<ge> length (vSpent txindex)))"

text \<open>The left result carries \<^verbatim>\<open>fInvalid\<close>.  Every caller passes an empty \<^verbatim>\<open>inputsRet\<close>.\<close>

definition FetchInputs :: "blkfiles \<Rightarrow> CTxDB \<Rightarrow> CTxMemPool \<Rightarrow> (uint256 \<rightharpoonup> CTxIndex) \<Rightarrow> bool \<Rightarrow> bool \<Rightarrow> CTransaction \<Rightarrow>
    bool \<times> failure + MapPrevTx" where
  "FetchInputs F db mempool mapTestPool fBlock fMiner tx =
     (if IsCoinBase tx then Inr Map.empty
      else case fetch_loop F db mempool mapTestPool fBlock fMiner Map.empty (vin tx) of None \<Rightarrow> Inl (False, Reject)
        | Some inputs \<Rightarrow> if list_all (prevout_in_range inputs) (vin tx) then Inr inputs else Inl (True, DoS 100))"

section \<open>Connecting the inputs\<close>

definition nCoinbaseMaturity :: "bool \<Rightarrow> int" where
  "nCoinbaseMaturity fTestNet = (if fTestNet then 10 else 5)"

record CScriptCheck =
  sc_scriptPubKey :: CScript
  sc_txTo :: CTransaction
  sc_nIn :: nat
  sc_nFlags :: u32
  sc_nHashType :: int

definition CScriptCheck_new :: "CTransaction \<Rightarrow> CTransaction \<Rightarrow> nat \<Rightarrow> u32 \<Rightarrow> int \<Rightarrow> CScriptCheck" where
  "CScriptCheck_new txFromIn txToIn nInIn nFlagsIn nHashTypeIn =
     \<lparr> sc_scriptPubKey = scriptPubKey (vout txFromIn ! unat (op_n (prevout (vin txToIn ! nInIn)))),
       sc_txTo = txToIn, sc_nIn = nInIn, sc_nFlags = nFlagsIn, sc_nHashType = nHashTypeIn \<rparr>"

definition run_check :: "ext \<Rightarrow> CScriptCheck \<Rightarrow> CSignatureCache \<Rightarrow> bool \<times> CSignatureCache" where
  "run_check E s c =
     VerifyScript E (scriptSig (vin (sc_txTo s) ! sc_nIn s)) (sc_scriptPubKey s)
       \<lparr> ctx_txTo = sc_txTo s, ctx_nIn = sc_nIn s, ctx_flags = sc_nFlags s, ctx_nHashType = sc_nHashType s \<rparr> c"

definition VerifySignature :: "ext \<Rightarrow> CTransaction \<Rightarrow> CTransaction \<Rightarrow> nat \<Rightarrow> u32 \<Rightarrow> int \<Rightarrow> CSignatureCache \<Rightarrow> bool \<times> CSignatureCache" where
  "VerifySignature E txFrom txTo nIn flags nHashType c = run_check E (CScriptCheck_new txFrom txTo nIn flags nHashType) c"

text \<open>A generated output that is still too young: its block is among the last \<^verbatim>\<open>nCoinbaseMaturity\<close> of the branch.\<close>

fun immature :: "bool \<Rightarrow> int \<Rightarrow> CDiskTxPos \<Rightarrow> pchain \<Rightarrow> bool" where
  "immature fTestNet height pos [] = False"
| "immature fTestNet height pos (pindex # rest) =
     (if height - nHeight pindex < nCoinbaseMaturity fTestNet
      then if bi_nBlockPos pindex = nBlockPos pos \<and> bi_nFile pindex = nFile pos then True else immature fTestNet height pos rest
      else False)"

fun connect_checks :: "bool \<Rightarrow> u32 \<Rightarrow> MapPrevTx \<Rightarrow> pchain \<Rightarrow> int \<Rightarrow> CTxIn list \<Rightarrow> failure + int" where
  "connect_checks fTestNet nTime inputs pindexBlock nValueIn [] = Inr nValueIn"
| "connect_checks fTestNet nTime inputs pindexBlock nValueIn (txin # rest) =
     (case inputs (op_hash (prevout txin)) of None \<Rightarrow> Inl Exception
      | Some (txindex, txPrev) \<Rightarrow>
          if \<not> prevout_in_range inputs txin then Inl (DoS 100)
          else if (IsCoinBase txPrev \<or> IsCoinStake txPrev) \<and> pindexBlock \<noteq> []
            \<and> immature fTestNet (nHeight (hd pindexBlock)) (txi_pos txindex) pindexBlock then Inl Reject
          else if tx_nTime txPrev > nTime then Inl (DoS 100)
          else let v = nValue (vout txPrev ! unat (op_n (prevout txin))); nValueIn = s64 (nValueIn + v)
               in if \<not> MoneyRange v \<or> \<not> MoneyRange nValueIn then Inl (DoS 100)
                  else connect_checks fTestNet nTime inputs pindexBlock nValueIn rest)"

definition inline_check :: "ext \<Rightarrow> CTransaction \<Rightarrow> CTransaction \<Rightarrow> nat \<Rightarrow> u32 \<Rightarrow> CSignatureCache \<Rightarrow> (failure + unit) \<times> CSignatureCache" where
  "inline_check E txPrev tx i flags c =
     (case run_check E (CScriptCheck_new txPrev tx i flags 0) c of (True, c) \<Rightarrow> (Inr (), c)
      | (False, c) \<Rightarrow>
          if flags AND STRICT_FLAGS \<noteq> 0
          then case run_check E (CScriptCheck_new txPrev tx i (flags AND NOT STRICT_FLAGS) 0) c of
              (True, c) \<Rightarrow> (Inl Reject, c) | (False, c) \<Rightarrow> (Inl (DoS 100), c)
          else (Inl (DoS 100), c))"

text \<open>The second loop: the inputs and the queued changes are updated together.  A \<open>defer\<close> flag stands for a check list
  that is not \<^verbatim>\<open>NULL\<close>.\<close>

fun connect_spend :: "ext \<Rightarrow> CTransaction \<Rightarrow> CDiskTxPos \<Rightarrow> bool \<Rightarrow> bool \<Rightarrow> u32 \<Rightarrow> bool \<Rightarrow> nat list \<Rightarrow>
    MapPrevTx \<Rightarrow> (uint256 \<rightharpoonup> CTxIndex) \<Rightarrow> CScriptCheck list \<Rightarrow> CSignatureCache \<Rightarrow>
    (failure + (uint256 \<rightharpoonup> CTxIndex) \<times> CScriptCheck list) \<times> CSignatureCache" where
  "connect_spend E tx posThisTx write fScriptChecks flags defer [] inputs mapTestPool vChecks c = (Inr (mapTestPool, vChecks), c)"
| "connect_spend E tx posThisTx write fScriptChecks flags defer (i # is) inputs mapTestPool vChecks c =
     (let out = prevout (vin tx ! i) in
      case inputs (op_hash out) of None \<Rightarrow> (Inl Exception, c)
      | Some (txindex, txPrev) \<Rightarrow>
          if \<not> pos_IsNull (vSpent txindex ! unat (op_n out)) then (Inl Reject, c)
          else case (if fScriptChecks \<and> \<not> defer then inline_check E txPrev tx i flags c else (Inr (), c)) of
              (Inl e, c) \<Rightarrow> (Inl e, c)
            | (Inr _, c) \<Rightarrow>
                let vChecks = (if fScriptChecks \<and> defer then vChecks @ [CScriptCheck_new txPrev tx i flags 0] else vChecks);
                    txindex = txindex\<lparr> vSpent := (vSpent txindex)[unat (op_n out) := posThisTx] \<rparr>;
                    mapTestPool = (if write then mapTestPool(op_hash out \<mapsto> txindex) else mapTestPool)
                in connect_spend E tx posThisTx write fScriptChecks flags defer is (inputs(op_hash out \<mapsto> (txindex, txPrev)))
                     mapTestPool vChecks c)"

definition connect_values :: "ext \<Rightarrow> bool \<Rightarrow> int \<Rightarrow> blkfiles \<Rightarrow> CTxDB \<Rightarrow> CTransaction \<Rightarrow> pchain \<Rightarrow> bool \<Rightarrow> int \<Rightarrow> failure + unit" where
  "connect_values E fTestNet nBestHeight F db tx pindexBlock fBlock nValueIn =
     (if IsCoinStake tx then
        case tx_GetCoinAge E fTestNet nBestHeight F db tx of None \<Rightarrow> Inl Reject
        | Some nCoinAge \<Rightarrow>
            (case GetValueOut tx of Inl e \<Rightarrow> Inl e
             | Inr nValueOut \<Rightarrow>
                 if pindexBlock = [] then Inl Exception
                 else let nStakeReward = nValueOut - nValueIn;
                          nCalculatedStakeReward = GetProofOfStakeReward E fTestNet (s64 (uint nCoinAge)) (bi_nBits (hd pindexBlock))
                            (tx_nTime tx) False - GetMinFee_default tx + MIN_TX_FEE
                      in if nStakeReward > nCalculatedStakeReward then Inl (DoS 100) else Inr ())
      else case GetValueOut tx of Inl e \<Rightarrow> Inl e
        | Inr nValueOut \<Rightarrow>
            if nValueIn < nValueOut then Inl (DoS 100)
            else let nTxFee = nValueIn - nValueOut
                 in if nTxFee < 0 then Inl (DoS 100)
                    else if nTxFee < GetMinFee_default tx then Inl (if fBlock then DoS 100 else Reject)
                    else if \<not> MoneyRange nTxFee then Inl (DoS 100) else Inr ())"

definition ConnectInputs :: "ext \<Rightarrow> bool \<Rightarrow> int \<Rightarrow> blkfiles \<Rightarrow> CTxDB \<Rightarrow> MapPrevTx \<Rightarrow> (uint256 \<rightharpoonup> CTxIndex) \<Rightarrow> CDiskTxPos \<Rightarrow> pchain \<Rightarrow>
    bool \<Rightarrow> bool \<Rightarrow> bool \<Rightarrow> u32 \<Rightarrow> bool \<Rightarrow> CTransaction \<Rightarrow> CSignatureCache \<Rightarrow>
    (failure + (uint256 \<rightharpoonup> CTxIndex) \<times> CScriptCheck list) \<times> CSignatureCache" where
  "ConnectInputs E fTestNet nBestHeight F db inputs mapTestPool posThisTx pindexBlock fBlock fMiner fScriptChecks flags defer tx c =
     (if IsCoinBase tx then (Inr (mapTestPool, []), c)
      else case connect_checks fTestNet (tx_nTime tx) inputs pindexBlock 0 (vin tx) of Inl e \<Rightarrow> (Inl e, c)
        | Inr nValueIn \<Rightarrow>
            (case connect_spend E tx posThisTx (fBlock \<or> fMiner) fScriptChecks flags defer [0..<length (vin tx)]
                inputs mapTestPool [] c of (Inl e, c) \<Rightarrow> (Inl e, c)
             | (Inr r, c) \<Rightarrow>
                 (case connect_values E fTestNet nBestHeight F db tx pindexBlock fBlock nValueIn of Inl e \<Rightarrow> (Inl e, c)
                  | Inr _ \<Rightarrow> (Inr r, c))))"

section \<open>The memory pool's admission test\<close>

text \<open>\<open>rate_limited\<close> is the verdict of the floating-point accounting of free transactions, and \<^verbatim>\<open>SyncWithWallets\<close> is left to
  the wallet.  The result comes with \<^verbatim>\<open>*pfMissingInputs\<close>.\<close>

definition AcceptToMemoryPool :: "ext \<Rightarrow> bool \<Rightarrow> int \<Rightarrow> int \<Rightarrow> blkfiles \<Rightarrow> CTxDB \<Rightarrow> pchain \<Rightarrow> bool \<Rightarrow> CTransaction \<Rightarrow>
    CTxMemPool \<Rightarrow> CSignatureCache \<Rightarrow> (failure + unit) \<times> bool \<times> CTxMemPool \<times> CSignatureCache" where
  "AcceptToMemoryPool E fTestNet nBestHeight GetAdjustedTime F db pindexBest rate_limited tx pool c =
     (let reject = (\<lambda>e c. (Inl e, False, pool, c)); hash = tx_GetHash E tx in
      case CheckTransaction GetAdjustedTime tx of Inl e \<Rightarrow> reject e c
      | Inr _ \<Rightarrow>
          if IsCoinBase tx then reject (DoS 100) c
          else if IsCoinStake tx then reject (DoS 100) c
          else if \<not> fTestNet \<and> \<not> IsStandardTx nBestHeight GetAdjustedTime tx then reject Reject c
          else if pool_exists hash pool then reject Reject c
          else if list_ex (\<lambda>txin. mapNextTx pool (prevout txin) \<noteq> None) (vin tx) then reject Reject c
          else if ContainsTx hash db then reject Reject c
          else case FetchInputs F db pool Map.empty False False tx of
              Inl (fInvalid, e) \<Rightarrow> (Inl e, \<not> fInvalid, pool, c)
            | Inr mapInputs \<Rightarrow>
              (case AreInputsStandard E mapInputs tx c of Inl e \<Rightarrow> reject e c
               | Inr (standard, c) \<Rightarrow>
                 if \<not> standard \<and> \<not> fTestNet then reject Reject c
                 else case GetValueIn mapInputs tx of Inl e \<Rightarrow> reject e c
                   | Inr nValueIn \<Rightarrow>
                     (case GetValueOut tx of Inl e \<Rightarrow> reject e c
                      | Inr nValueOut \<Rightarrow>
                        let nFees = s64 (nValueIn - nValueOut);
                            nSize = of_nat (length (ser_tx tx));
                            txMinFee = GetMinFee 1000 False GMF_RELAY nSize tx
                        in if nFees < txMinFee then reject Reject c
                           else if nFees < MIN_RELAY_TX_FEE \<and> rate_limited then reject Reject c
                           else case ConnectInputs E fTestNet nBestHeight F db mapInputs Map.empty pos_mempool pindexBest
                                  False False True
                                  (if VERSION_2_0_SWITCH_TIME False < uint (tx_nTime tx) then STRICT_FLAGS else SOFT_FLAGS) False tx c of
                               (Inl e, c) \<Rightarrow> reject e c
                             | (Inr _, c) \<Rightarrow> (Inr (), False, addUnchecked hash tx pool, c))))"

section \<open>Spent marks\<close>

text \<open>The index with the outputs \<open>S\<close> marked as spent at \<open>pos\<close>.\<close>

definition hits :: "COutPoint set \<Rightarrow> uint256 \<Rightarrow> nat \<Rightarrow> bool" where
  "hits S h n \<longleftrightarrow> (\<exists>out \<in> S. op_hash out = h \<and> unat (op_n out) = n)"

definition mark_spent :: "COutPoint set \<Rightarrow> CDiskTxPos \<Rightarrow> (uint256 \<rightharpoonup> CTxIndex) \<Rightarrow> uint256 \<rightharpoonup> CTxIndex" where
  "mark_spent S pos W h =
     map_option (\<lambda>x. x\<lparr> vSpent := map (\<lambda>n. if hits S h n then pos else vSpent x ! n) [0..<length (vSpent x)] \<rparr>) (W h)"

definition unspent :: "(uint256 \<rightharpoonup> CTxIndex) \<Rightarrow> COutPoint \<Rightarrow> bool" where
  "unspent W out = (case W (op_hash out) of None \<Rightarrow> False
     | Some x \<Rightarrow> unat (op_n out) < length (vSpent x) \<and> pos_IsNull (vSpent x ! unat (op_n out)))"

lemma hits_self: "hits S (op_hash out) (unat (op_n out)) \<longleftrightarrow> out \<in> S"
proof
  assume "hits S (op_hash out) (unat (op_n out))"
  then obtain q where q: "q \<in> S" "op_hash q = op_hash out" "unat (op_n q) = unat (op_n out)" by (auto simp: hits_def)
  then have "q = out" by (cases q, cases out) (simp add: unsigned_word_eqI)
  then show "out \<in> S" using q by simp
qed (auto simp: hits_def)

lemma hits_Un [simp]: "hits (S \<union> T) h n \<longleftrightarrow> hits S h n \<or> hits T h n" and hits_empty [simp]: "\<not> hits {} h n"
  by (auto simp: hits_def)

lemma mark_spent_None [simp]: "W h = None \<Longrightarrow> mark_spent S pos W h = None"
  by (simp add: mark_spent_def)

lemma mark_spent_Some:
  assumes "W h = Some x"
  obtains x' where "mark_spent S pos W h = Some x'" "txi_pos x' = txi_pos x" "length (vSpent x') = length (vSpent x)"
    "\<And>n. n < length (vSpent x) \<Longrightarrow> vSpent x' ! n = (if hits S h n then pos else vSpent x ! n)"
  using assms by (auto simp: mark_spent_def)

lemma txindex_eqI:
  assumes "txi_pos x = txi_pos (y :: CTxIndex)" "length (vSpent x) = length (vSpent y)"
    "\<And>n. n < length (vSpent y) \<Longrightarrow> vSpent x ! n = vSpent y ! n"
  shows "x = y"
  using assms by (intro CTxIndex.equality) (auto simp: list_eq_iff_nth_eq)

lemma mark_spent_eqI:
  assumes "\<And>x. W h = Some x \<Longrightarrow> \<exists>y. V = Some y \<and> txi_pos y = txi_pos x \<and> length (vSpent y) = length (vSpent x) \<and>
      (\<forall>n < length (vSpent x). vSpent y ! n = (if hits S h n then pos else vSpent x ! n))"
    "W h = None \<Longrightarrow> V = None"
  shows "mark_spent S pos W h = V"
proof (cases "W h")
  case (Some x)
  obtain y where y: "V = Some y" "txi_pos y = txi_pos x" "length (vSpent y) = length (vSpent x)"
      "\<forall>n < length (vSpent x). vSpent y ! n = (if hits S h n then pos else vSpent x ! n)"
    using assms(1) [OF Some] by blast
  obtain x' where x: "mark_spent S pos W h = Some x'" "txi_pos x' = txi_pos x" "length (vSpent x') = length (vSpent x)"
    "\<And>n. n < length (vSpent x) \<Longrightarrow> vSpent x' ! n = (if hits S h n then pos else vSpent x ! n)"
    using mark_spent_Some [of W h x S pos] Some by metis
  have "x' = y" by (rule txindex_eqI) (use x y in simp_all)
  then show ?thesis using x y by simp
qed (use assms(2) in simp)

lemma mark_spent_empty [simp]: "mark_spent {} pos W = W"
  by (intro ext mark_spent_eqI) auto

lemma mark_spent_Un: "mark_spent S pos (mark_spent T pos W) = mark_spent (S \<union> T) pos W"
proof (rule ext, rule mark_spent_eqI)
  fix h x
  assume "mark_spent T pos W h = Some x"
  then show "\<exists>y. mark_spent (S \<union> T) pos W h = Some y \<and> txi_pos y = txi_pos x \<and> length (vSpent y) = length (vSpent x) \<and>
      (\<forall>n < length (vSpent x). vSpent y ! n = (if hits S h n then pos else vSpent x ! n))"
    by (auto simp: mark_spent_def)
qed (auto simp: mark_spent_def)

lemma mark_spent_other: "(\<And>n. \<not> hits S h n) \<Longrightarrow> mark_spent S pos W h = W h"
  by (rule mark_spent_eqI) auto

lemma mark_spent_one:
  assumes "W (op_hash out) = Some x"
  shows "mark_spent {out} pos W = W(op_hash out \<mapsto> x\<lparr> vSpent := (vSpent x)[unat (op_n out) := pos] \<rparr>)"
  by (rule ext, rule mark_spent_eqI) (use assms in \<open>auto simp: hits_def nth_list_update\<close>)

lemma unspent_mark: "\<not> pos_IsNull pos \<Longrightarrow> unspent (mark_spent S pos W) out \<longleftrightarrow> unspent W out \<and> out \<notin> S"
  by (cases "W (op_hash out)") (auto simp: unspent_def mark_spent_def hits_self split: if_splits)

text \<open>Releasing what was marked gives the index back when unused positions are all written the same way.\<close>

definition nulls_plain :: "(uint256 \<rightharpoonup> CTxIndex) \<Rightarrow> bool" where
  "nulls_plain W \<longleftrightarrow> (\<forall>h x n. W h = Some x \<longrightarrow> n < length (vSpent x) \<longrightarrow> pos_IsNull (vSpent x ! n) \<longrightarrow> vSpent x ! n = pos_SetNull)"

lemma release_marks:
  assumes "\<forall>out \<in> S. unspent W out" "nulls_plain W"
  shows "mark_spent S pos_SetNull (mark_spent S pos W) = W"
proof (rule ext, rule mark_spent_eqI)
  fix h x
  assume x: "mark_spent S pos W h = Some x"
  then obtain y where y: "W h = Some y" by (cases "W h") auto
  have "vSpent y ! n = pos_SetNull" if n: "n < length (vSpent y)" "hits S h n" for n
  proof -
    obtain out where "out \<in> S" "op_hash out = h" "unat (op_n out) = n" using n(2) by (auto simp: hits_def)
    then have "pos_IsNull (vSpent y ! n)" using assms(1) y by (auto simp: unspent_def)
    then show ?thesis using assms(2) y n(1) unfolding nulls_plain_def by blast
  qed
  then show "\<exists>y. W h = Some y \<and> txi_pos y = txi_pos x \<and> length (vSpent y) = length (vSpent x) \<and>
      (\<forall>n < length (vSpent x). vSpent y ! n = (if hits S h n then pos_SetNull else vSpent x ! n))"
    using x y by (auto simp: mark_spent_def)
qed (auto simp: mark_spent_def)

lemma nulls_plain_mark: "nulls_plain W \<Longrightarrow> pos_IsNull pos \<longrightarrow> pos = pos_SetNull \<Longrightarrow> nulls_plain (mark_spent S pos W)"
  unfolding nulls_plain_def by (auto simp: mark_spent_def)

section \<open>Scripts do not depend on the cache\<close>

lemma EvalScript_cache:
  assumes "point_codec_documented E" "cache_ok E c1" "cache_ok E c2"
  shows "\<exists>b st d1 d2. EvalScript E ctx st0 script c1 = (b, st, d1) \<and> EvalScript E ctx st0 script c2 = (b, st, d2) \<and>
    cache_ok E d1 \<and> cache_ok E d2"
proof -
  have "vm_sim E (vm_init st0 script c1) (vm_init st0 script c2)" using assms(2,3) by (simp add: vm_sim_def vm_init_def)
  from eval_loop_sim [OF assms(1) this, of ctx script] show ?thesis
    using assms(2,3) by (auto simp: EvalScript_def res_sim_def vm_sim_def split_beta)
qed

lemma VerifyScript_cache:
  assumes "point_codec_documented E" "cache_ok E c1" "cache_ok E c2"
  shows "fst (VerifyScript E sig spk ctx c1) = fst (VerifyScript E sig spk ctx c2) \<and> cache_ok E (snd (VerifyScript E sig spk ctx c1))"
proof -
  note ev = EvalScript_cache [OF assms(1)]
  obtain b1 s1 d1 d2 where 1: "EvalScript E ctx [] sig c1 = (b1, s1, d1)" "EvalScript E ctx [] sig c2 = (b1, s1, d2)"
    "cache_ok E d1" "cache_ok E d2" using ev [OF assms(2,3)] by blast
  obtain b2 s2 e1 e2 where 2: "EvalScript E ctx s1 spk d1 = (b2, s2, e1)" "EvalScript E ctx s1 spk d2 = (b2, s2, e2)"
    "cache_ok E e1" "cache_ok E e2" using ev [OF 1(3,4)] by blast
  obtain b3 s3 f1 f2 where 3: "EvalScript E ctx (tl s1) (hd s1) e1 = (b3, s3, f1)"
    "EvalScript E ctx (tl s1) (hd s1) e2 = (b3, s3, f2)" "cache_ok E f1" using ev [OF 2(3,4)] by blast
  show ?thesis using 1(3) 2(3) 3(3) by (cases b1; cases b2; cases b3) (simp_all add: VerifyScript_def 1 2 3)
qed

text \<open>The verdict of a check, with nothing cached.\<close>

definition script_ok :: "ext \<Rightarrow> CScriptCheck \<Rightarrow> bool" where
  "script_ok E s \<longleftrightarrow> fst (run_check E s (empty_cache 0))"

lemma run_check_cache:
  assumes "point_codec_documented E" "cache_ok E c"
  shows "fst (run_check E s c) = script_ok E s" "cache_ok E (snd (run_check E s c))"
  using VerifyScript_cache [OF assms empty_cache_ok] by (simp_all add: run_check_def script_ok_def)

lemma inline_check_ok:
  assumes "point_codec_documented E" "cache_ok E c" "inline_check E txPrev tx i flags c = (r, c')"
  shows "cache_ok E c' \<and> (r = Inr () \<longrightarrow> script_ok E (CScriptCheck_new txPrev tx i flags 0))"
proof -
  obtain b d where r1: "run_check E (CScriptCheck_new txPrev tx i flags 0) c = (b, d)" by force
  have 1: "b = script_ok E (CScriptCheck_new txPrev tx i flags 0)" "cache_ok E d"
    using run_check_cache [OF assms(1,2), of "CScriptCheck_new txPrev tx i flags 0"] by (simp_all add: r1)
  obtain b2 d2 where r2: "run_check E (CScriptCheck_new txPrev tx i (flags AND NOT STRICT_FLAGS) 0) d = (b2, d2)" by force
  have 2: "cache_ok E d2"
    using run_check_cache(2) [OF assms(1) 1(2), of "CScriptCheck_new txPrev tx i (flags AND NOT STRICT_FLAGS) 0"] by (simp add: r2)
  show ?thesis using assms(3) 1 2 by (auto simp: inline_check_def r1 r2 split: bool.splits if_splits)
qed

section \<open>What connecting the inputs does\<close>

definition index_of :: "MapPrevTx \<Rightarrow> uint256 \<rightharpoonup> CTxIndex" where
  "index_of I h = map_option fst (I h)"

definition prev_of :: "MapPrevTx \<Rightarrow> COutPoint \<Rightarrow> CTransaction" where
  "prev_of I out = snd (the (I (op_hash out)))"

abbreviation spent_at :: "CTransaction \<Rightarrow> nat \<Rightarrow> COutPoint" where
  "spent_at tx i \<equiv> prevout (vin tx ! i)"

lemma connect_spend_marks:
  assumes "connect_spend E tx pos write fs fl defer is I M v c = (Inr (M', v'), c')"
    "\<forall>i \<in> set is. prevout_in_range I (vin tx ! i)" "\<not> pos_IsNull pos"
  shows "(\<forall>i \<in> set is. unspent (index_of I) (spent_at tx i)) \<and> distinct (map (spent_at tx) is) \<and>
    M' = (if write then (\<lambda>h. if h \<in> op_hash ` spent_at tx ` set is then mark_spent (spent_at tx ` set is) pos (index_of I) h else M h) else M)"
  using assms(1,2)
proof (induction "is" arbitrary: I M v c)
  case (Cons i "is")
  let ?o = "spent_at tx i" and ?S = "spent_at tx ` set is"
  obtain x p where x: "I (op_hash ?o) = Some (x, p)" "unat (op_n ?o) < length (vSpent x)"
    using Cons.prems(2) by (auto simp: prevout_in_range_def split: option.splits)
  define I' where "I' = I(op_hash ?o \<mapsto> (x\<lparr> vSpent := (vSpent x)[unat (op_n ?o) := pos] \<rparr>, p))"
  define M1 where "M1 = (if write then M(op_hash ?o \<mapsto> x\<lparr> vSpent := (vSpent x)[unat (op_n ?o) := pos] \<rparr>) else M)"
  obtain v1 c1 where n: "pos_IsNull (vSpent x ! unat (op_n ?o))"
    and c: "connect_spend E tx pos write fs fl defer is I' M1 v1 c1 = (Inr (M', v'), c')"
    using Cons.prems(1) x(1) unfolding I'_def M1_def by (auto simp: Let_def split: if_splits prod.splits sum.splits)
  have W: "index_of I' = mark_spent {?o} pos (index_of I)"
    using mark_spent_one [of "index_of I" ?o x pos] x(1) by (auto simp: I'_def index_of_def fun_eq_iff)
  have r: "\<forall>j \<in> set is. prevout_in_range I' (vin tx ! j)"
    using Cons.prems(2) x(1) by (auto simp: prevout_in_range_def I'_def split: option.splits)
  note IH = Cons.IH [OF c r]
  have u: "unspent (index_of I) ?o" using x n by (simp add: unspent_def index_of_def)
  have others: "\<forall>j \<in> set is. unspent (index_of I) (spent_at tx j) \<and> spent_at tx j \<noteq> ?o"
    using IH unfolding W unspent_mark [OF assms(3)] by blast
  have all: "mark_spent ?S pos (index_of I') = mark_spent (spent_at tx ` set (i # is)) pos (index_of I)"
    unfolding W mark_spent_Un by simp
  have last: "M1 h = mark_spent (spent_at tx ` set (i # is)) pos (index_of I) h" if "write" "h = op_hash ?o" "h \<notin> op_hash ` ?S" for h
  proof -
    have "mark_spent ?S pos (index_of I') h = index_of I' h" using that(3) by (intro mark_spent_other) (auto simp: hits_def)
    then show ?thesis using all that(1,2) by (simp add: M1_def I'_def index_of_def)
  qed
  have "M' h = (if write then if h \<in> op_hash ` spent_at tx ` set (i # is) then mark_spent (spent_at tx ` set (i # is)) pos (index_of I) h
      else M h else M h)" for h
    using IH last [of h] unfolding all by (cases "write"; cases "h = op_hash ?o"; cases "h \<in> op_hash ` ?S") (simp_all add: M1_def)
  then show ?case using IH u others by (auto simp: fun_eq_iff)
qed auto

lemma connect_spend_scripts:
  assumes "point_codec_documented E"
    "connect_spend E tx pos write True fl False is I M v c = (r, c')" "cache_ok E c"
  shows "cache_ok E c' \<and> (\<forall>y. r = Inr y \<longrightarrow> (\<forall>i \<in> set is. script_ok E (CScriptCheck_new (prev_of I (spent_at tx i)) tx i fl 0)))"
  using assms(2,3)
proof (induction "is" arbitrary: I M v c)
  case (Cons i "is")
  let ?o = "spent_at tx i"
  show ?case
  proof (cases "I (op_hash ?o)")
    case (Some xp)
    obtain x p where x: "xp = (x, p)" by force
    show ?thesis
    proof (cases "pos_IsNull (vSpent x ! unat (op_n ?o))")
      case n: True
      obtain q c1 where q: "inline_check E p tx i fl c = (q, c1)" by force
      note ok = inline_check_ok [OF assms(1) Cons.prems(2) q]
      define I' where "I' = I(op_hash ?o \<mapsto> (x\<lparr> vSpent := (vSpent x)[unat (op_n ?o) := pos] \<rparr>, p))"
      have same: "prev_of I' out = prev_of I out" for out using Some x by (simp add: I'_def prev_of_def)
      show ?thesis
      proof (cases q)
        case (Inr y)
        then obtain M1 where "connect_spend E tx pos write True fl False is I' M1 v c1 = (r, c')"
          using Cons.prems(1) Some x n q by (auto simp: Let_def I'_def)
        from Cons.IH [OF this] ok Inr show ?thesis using Some x by (auto simp: same) (simp add: prev_of_def)
      qed (use Cons.prems Some x n q ok in \<open>auto simp: Let_def\<close>)
    qed (use Cons.prems Some x in \<open>auto simp: Let_def\<close>)
  qed (use Cons.prems in auto)
qed auto

lemma connect_spend_deferred:
  "connect_spend E tx pos write True fl True is I M v c = (Inr (M', v'), c') \<Longrightarrow>
    c' = c \<and> v' = v @ map (\<lambda>i. CScriptCheck_new (prev_of I (spent_at tx i)) tx i fl 0) is"
proof (induction "is" arbitrary: I M v)
  case (Cons i "is")
  let ?o = "spent_at tx i"
  obtain x p where x: "I (op_hash ?o) = Some (x, p)" using Cons.prems by (auto simp: Let_def split: option.splits)
  define I' where "I' = I(op_hash ?o \<mapsto> (x\<lparr> vSpent := (vSpent x)[unat (op_n ?o) := pos] \<rparr>, p))"
  have same: "prev_of I' out = prev_of I out" for out using x by (simp add: I'_def prev_of_def)
  obtain M1 where "connect_spend E tx pos write True fl True is I' M1 (v @ [CScriptCheck_new p tx i fl 0]) c = (Inr (M', v'), c')"
    using Cons.prems x by (auto simp: Let_def I'_def split: if_splits)
  from Cons.IH [OF this] show ?case using x by (simp add: same) (simp add: prev_of_def)
qed auto

text \<open>The amount an input brings.\<close>

definition input_value :: "MapPrevTx \<Rightarrow> CTxIn \<Rightarrow> int" where
  "input_value I txin = nValue (vout (prev_of I (prevout txin)) ! unat (op_n (prevout txin)))"

lemma connect_checks_value:
  assumes "connect_checks tn t I ch v0 ins = Inr v" "MoneyRange v0"
  shows "v = v0 + sum_list (map (input_value I) ins) \<and> MoneyRange v \<and>
    (\<forall>txin \<in> set ins. prevout_in_range I txin \<and> tx_nTime (prev_of I (prevout txin)) \<le> t \<and> MoneyRange (input_value I txin))"
  using assms
proof (induction ins arbitrary: v0)
  case (Cons txin ins)
  obtain x p where x: "I (op_hash (prevout txin)) = Some (x, p)" using Cons.prems(1) by (auto split: option.splits)
  let ?v = "nValue (vout p ! unat (op_n (prevout txin)))"
  have iv: "input_value I txin = ?v" "prev_of I (prevout txin) = p" using x by (simp_all add: input_value_def prev_of_def)
  have c: "prevout_in_range I txin" "\<not> t < tx_nTime p" "MoneyRange ?v" "MoneyRange (s64 (v0 + ?v))"
    "connect_checks tn t I ch (s64 (v0 + ?v)) ins = Inr v"
    using Cons.prems(1) x by (auto simp: Let_def split: if_splits)
  have "s64 (v0 + ?v) = v0 + ?v" by (rule money_range_sum [OF Cons.prems(2) c(3)])
  with Cons.IH [OF c(5,4)] c iv show ?case by auto
qed auto

lemma value_out_loop_sum: "value_out_loop v0 outs = Inr v \<Longrightarrow> MoneyRange v0 \<Longrightarrow> v = v0 + sum_list (map nValue outs) \<and> MoneyRange v"
proof (induction outs arbitrary: v0)
  case (Cons out outs)
  then have r: "MoneyRange (nValue out)" "MoneyRange (s64 (v0 + nValue out))" "value_out_loop (s64 (v0 + nValue out)) outs = Inr v"
    by (auto simp: Let_def split: if_splits)
  have "s64 (v0 + nValue out) = v0 + nValue out" by (rule money_range_sum [OF Cons.prems(2) r(1)])
  with Cons.IH [OF r(3,2)] show ?case by auto
qed simp

lemma GetValueOut_sum: "GetValueOut tx = Inr v \<Longrightarrow> v = sum_list (map nValue (vout tx)) \<and> MoneyRange v"
  using value_out_loop_sum [of 0 "vout tx" v] by (simp add: GetValueOut_def MoneyRange_def money_consts)

text \<open>What a transaction may pay out, given what its inputs bring: no more than that less the fee, or for a coinstake
  that plus the reward for the age of its coins.\<close>

definition pays_within :: "ext \<Rightarrow> bool \<Rightarrow> int \<Rightarrow> blkfiles \<Rightarrow> CTxDB \<Rightarrow> pchain \<Rightarrow> CTransaction \<Rightarrow> int \<Rightarrow> bool" where
  "pays_within E fTestNet nBestHeight F db pindexBlock tx nValueIn \<longleftrightarrow>
     (if IsCoinStake tx
      then \<exists>age. tx_GetCoinAge E fTestNet nBestHeight F db tx = Some age \<and>
        sum_list (map nValue (vout tx)) \<le> nValueIn + GetProofOfStakeReward E fTestNet (s64 (uint age)) (bi_nBits (hd pindexBlock)) (tx_nTime tx) False
      else sum_list (map nValue (vout tx)) + MIN_TX_FEE \<le> nValueIn)"

lemma connect_values_within:
  assumes "connect_values E tn best F db tx ch fBlock v = Inr y"
  shows "pays_within E tn best F db ch tx v"
proof -
  obtain nv where nv: "GetValueOut tx = Inr nv" using assms by (auto simp: connect_values_def split: if_splits option.splits sum.splits)
  show ?thesis using assms nv GetValueOut_sum [OF nv]
    by (auto simp: connect_values_def pays_within_def GetMinFee_default_value Let_def split: if_splits option.splits)
qed

section \<open>What fetching the inputs does\<close>

lemma fetch_one_block: "fetch_one F db pool Q True False h = Some (x, p) \<Longrightarrow> (tx_view db ++ Q) h = Some x"
  by (auto simp: fetch_one_def Let_def tx_view_def map_add_def split: if_splits option.splits)

lemma fetch_loop_index:
  assumes "fetch_loop F db pool Q True False I0 ins = Some I"
    "\<forall>h x. index_of I0 h = Some x \<longrightarrow> (tx_view db ++ Q) h = Some x"
  shows "(\<forall>h x. index_of I h = Some x \<longrightarrow> (tx_view db ++ Q) h = Some x) \<and> (\<forall>txin \<in> set ins. I (op_hash (prevout txin)) \<noteq> None) \<and>
    (\<forall>h. I0 h \<noteq> None \<longrightarrow> I h = I0 h)"
  using assms
proof (induction ins arbitrary: I0)
  case (Cons txin ins)
  let ?h = "op_hash (prevout txin)"
  show ?case
  proof (cases "I0 ?h")
    case None
    then obtain p where p: "fetch_one F db pool Q True False ?h = Some p" "fetch_loop F db pool Q True False (I0(?h \<mapsto> p)) ins = Some I"
      using Cons.prems(1) by (auto simp: Let_def split: option.splits)
    have "\<forall>h x. index_of (I0(?h \<mapsto> p)) h = Some x \<longrightarrow> (tx_view db ++ Q) h = Some x"
      using Cons.prems(2) fetch_one_block [of F db pool Q ?h "fst p" "snd p"] p(1) by (auto simp: index_of_def)
    from Cons.IH [OF p(2) this] None show ?thesis by fastforce
  next
    case (Some p)
    then have "fetch_loop F db pool Q True False I0 ins = Some I" using Cons.prems(1) by (simp add: Let_def)
    from Cons.IH [OF this Cons.prems(2)] Some show ?thesis by fastforce
  qed
qed simp

lemma FetchInputs_index:
  assumes "FetchInputs F db pool Q True False tx = Inr I" "\<not> IsCoinBase tx" "txin \<in> set (vin tx)"
  shows "(tx_view db ++ Q) (op_hash (prevout txin)) = index_of I (op_hash (prevout txin)) \<and> index_of I (op_hash (prevout txin)) \<noteq> None"
proof -
  have "fetch_loop F db pool Q True False Map.empty (vin tx) = Some I"
    using assms(1,2) by (auto simp: FetchInputs_def split: option.splits if_splits)
  from fetch_loop_index [OF this] assms(3) show ?thesis by (auto simp: index_of_def)
qed

lemma ConnectInputs_Inr:
  assumes "ConnectInputs E tn best F db I Q pos ch fB fM sc fl defer tx c = (Inr (Q', v), c')" "\<not> IsCoinBase tx"
  obtains c1 where "connect_spend E tx pos (fB \<or> fM) sc fl defer [0..<length (vin tx)] I Q [] c = (Inr (Q', v), c1)" "c1 = c'"
    "\<forall>i < length (vin tx). prevout_in_range I (vin tx ! i)"
    "\<forall>txin \<in> set (vin tx). tx_nTime (prev_of I (prevout txin)) \<le> tx_nTime tx"
    "MoneyRange (sum_list (map (input_value I) (vin tx)))"
    "pays_within E tn best F db ch tx (sum_list (map (input_value I) (vin tx)))"
proof -
  obtain nv where nv: "connect_checks tn (tx_nTime tx) I ch 0 (vin tx) = Inr nv"
    using assms by (auto simp: ConnectInputs_def split: sum.splits)
  have s: "connect_spend E tx pos (fB \<or> fM) sc fl defer [0..<length (vin tx)] I Q [] c = (Inr (Q', v), c')"
    and w: "connect_values E tn best F db tx ch fB nv = Inr ()"
    using assms nv by (auto simp: ConnectInputs_def split: sum.splits prod.splits)
  have "MoneyRange 0" by (simp add: MoneyRange_def money_consts)
  note cv = connect_checks_value [OF nv this]
  show ?thesis by (rule that [OF s refl]) (use cv connect_values_within [OF w] in auto)
qed

lemma input_standard_cache:
  assumes "point_codec_documented E" "cache_ok E c"
  shows "cache_ok E (snd (input_standard E tx i prev c))"
proof -
  obtain b st d1 d2 where "EvalScript E \<lparr> ctx_txTo = tx, ctx_nIn = i, ctx_flags = 0, ctx_nHashType = 0 \<rparr> [] (scriptSig (vin tx ! i)) c = (b, st, d1)"
    "cache_ok E d1" using EvalScript_cache [OF assms assms(2)] by blast
  then show ?thesis using assms(2) by (auto simp: input_standard_def Let_def split: prod.splits bool.splits)
qed

lemma inputs_standard_cache:
  "point_codec_documented E \<Longrightarrow> cache_ok E c \<Longrightarrow> inputs_standard E tx I is c = Inr (b, c') \<Longrightarrow> cache_ok E c'"
proof (induction "is" arbitrary: c)
  case (Cons i "is")
  then obtain prev where p: "GetOutputFor (vin tx ! i) I = Inr prev" by (auto split: sum.splits)
  obtain b1 c1 where i: "input_standard E tx i prev c = (b1, c1)" by force
  have "cache_ok E c1" using input_standard_cache [OF Cons.prems(1,2), of tx i prev] by (simp add: i)
  then show ?case using Cons p i by (cases b1) auto
qed auto

lemma length_vin_ser: "length (vin tx) \<le> length (ser_tx tx)"
proof -
  have "length xs \<le> length (concat (map ser_txin xs))" for xs
    by (induction xs) (auto simp: ser_txin_def ser_outpoint_def)
  then show ?thesis by (simp add: ser_tx_def ser_vector_def) (meson le_add2 le_trans trans_le_add1 trans_le_add2)
qed

lemma CheckTransaction_inputs:
  "CheckTransaction now tx = Inr () \<Longrightarrow> distinct (map prevout (vin tx)) \<and> length (vin tx) < 2 ^ 32"
  using duplicate_inputs_distinct [of "[]" "vin tx"] length_vin_ser [of tx]
  by (auto simp: CheckTransaction_def MAX_BLOCK_SIZE_def split: if_splits sum.splits)

lemma AcceptToMemoryPool_Inr:
  assumes "AcceptToMemoryPool E tn best now F db ch lim tx pool c = (Inr (), miss, pool', c')"
  obtains I c1 st y where "CheckTransaction now tx = Inr ()" "\<not> IsCoinBase tx" "\<not> IsCoinStake tx"
    "tn \<or> IsStandardTx best now tx" "\<not> pool_exists (tx_GetHash E tx) pool"
    "\<forall>txin \<in> set (vin tx). mapNextTx pool (prevout txin) = None" "\<not> ContainsTx (tx_GetHash E tx) db"
    "FetchInputs F db pool Map.empty False False tx = Inr I" "AreInputsStandard E I tx c = Inr (st, c1)" "tn \<or> st"
    "ConnectInputs E tn best F db I Map.empty pos_mempool ch False False True
       (if VERSION_2_0_SWITCH_TIME False < uint (tx_nTime tx) then STRICT_FLAGS else SOFT_FLAGS) False tx c1 = (Inr y, c')"
    "pool' = addUnchecked (tx_GetHash E tx) tx pool"
proof -
  obtain I where a: "CheckTransaction now tx = Inr ()" "\<not> IsCoinBase tx" "\<not> IsCoinStake tx"
    "tn \<or> IsStandardTx best now tx" "\<not> pool_exists (tx_GetHash E tx) pool"
    "\<not> list_ex (\<lambda>txin. mapNextTx pool (prevout txin) \<noteq> None) (vin tx)" "\<not> ContainsTx (tx_GetHash E tx) db"
    "FetchInputs F db pool Map.empty False False tx = Inr I"
    using assms by (auto simp: AcceptToMemoryPool_def Let_def split: sum.splits if_splits)
  have free: "\<forall>txin \<in> set (vin tx). mapNextTx pool (prevout txin) = None"
    using a(6) unfolding list_ex_iff by blast
  obtain st c1 where b: "AreInputsStandard E I tx c = Inr (st, c1)" "tn \<or> st"
    using assms a by (auto simp: AcceptToMemoryPool_def Let_def split: sum.splits if_splits)
  obtain vi vo where v: "GetValueIn I tx = Inr vi" "GetValueOut tx = Inr vo"
    using assms a b by (auto simp: AcceptToMemoryPool_def Let_def split: sum.splits if_splits)
  obtain y where "ConnectInputs E tn best F db I Map.empty pos_mempool ch False False True
       (if VERSION_2_0_SWITCH_TIME False < uint (tx_nTime tx) then STRICT_FLAGS else SOFT_FLAGS) False tx c1 = (Inr y, c')"
    "pool' = addUnchecked (tx_GetHash E tx) tx pool"
    using assms a b v by (auto simp: AcceptToMemoryPool_def Let_def split: sum.splits if_splits prod.splits)
  with a b free that show ?thesis by blast
qed

lemma AcceptToMemoryPool_Inl: "AcceptToMemoryPool E tn best now F db ch lim tx pool c = (Inl e, miss, pool', c') \<Longrightarrow> pool' = pool"
  by (auto simp: AcceptToMemoryPool_def Let_def split: sum.splits if_splits prod.splits)

text \<open>The queue of index changes after the inputs are connected.\<close>

lemma connect_queue:
  assumes "FetchInputs F db pool Q True False tx = Inr I"
    and "ConnectInputs E tn best F db I Q pos ch True False sc fl defer tx c = (Inr (Q', v), c')"
    and "\<not> IsCoinBase tx" "\<not> pos_IsNull pos"
  shows "let S = prevout ` set (vin tx); W = tx_view db ++ Q in
    distinct (map prevout (vin tx)) \<and> (\<forall>out \<in> S. unspent W out) \<and>
    Q' = (\<lambda>h. if h \<in> op_hash ` S then mark_spent S pos W h else Q h)"
proof -
  obtain c1 where s: "connect_spend E tx pos (True \<or> False) sc fl defer [0..<length (vin tx)] I Q [] c = (Inr (Q', v), c1)"
    and r: "\<forall>i < length (vin tx). prevout_in_range I (vin tx ! i)"
    by (rule ConnectInputs_Inr [OF assms(2,3)]) auto
  define S W where "S = prevout ` set (vin tx)" and "W = tx_view db ++ Q"
  have d: "map (spent_at tx) [0..<length (vin tx)] = map prevout (vin tx)" by (rule nth_equalityI) simp_all
  have S: "spent_at tx ` set [0..<length (vin tx)] = S" using arg_cong [OF d, of set] unfolding S_def set_map .
  have r': "\<forall>i \<in> set [0..<length (vin tx)]. prevout_in_range I (vin tx ! i)" using r by simp
  note m = connect_spend_marks [OF s r' assms(4), unfolded S d]
  have same: "index_of I (op_hash out) = W (op_hash out)" if "out \<in> S" for out
    using FetchInputs_index [OF assms(1,3)] that unfolding S_def W_def by auto
  have u: "\<forall>out \<in> S. unspent W out"
  proof
    fix out assume o: "out \<in> S"
    then have "unspent (index_of I) out" using m S by blast
    then show "unspent W out" using same [OF o] by (simp add: unspent_def)
  qed
  have "mark_spent S pos (index_of I) h = mark_spent S pos W h" if "h \<in> op_hash ` S" for h
    using same that by (auto simp: mark_spent_def)
  then have "Q' = (\<lambda>h. if h \<in> op_hash ` S then mark_spent S pos W h else Q h)" using m by (auto simp: fun_eq_iff)
  then show ?thesis using m u unfolding Let_def S_def [symmetric] W_def [symmetric] by blast
qed

lemma unspent_marked: "unspent W out \<Longrightarrow> mark_spent S pos W (op_hash out) \<noteq> None"
  by (auto simp: unspent_def mark_spent_def split: option.splits)

lemma queue_marks:
  assumes "\<forall>out \<in> S. unspent (V ++ Q) out"
  shows "V ++ (\<lambda>h. if h \<in> op_hash ` S then mark_spent S pos (V ++ Q) h else Q h) = mark_spent S pos (V ++ Q)"
proof
  fix h
  show "(V ++ (\<lambda>h. if h \<in> op_hash ` S then mark_spent S pos (V ++ Q) h else Q h)) h = mark_spent S pos (V ++ Q) h"
  proof (cases "h \<in> op_hash ` S")
    case True
    then have "mark_spent S pos (V ++ Q) h \<noteq> None" using assms unspent_marked by blast
    then show ?thesis using True by (auto simp: map_add_def split: option.splits)
  next
    case False
    moreover have "mark_spent S pos (V ++ Q) h = (V ++ Q) h" using False by (intro mark_spent_other) (auto simp: hits_def)
    ultimately show ?thesis by (simp add: map_add_def)
  qed
qed

section \<open>Properties\<close>

text \<open>C6. Connecting the inputs of a transaction in a block spends each of them once: the outputs it refers to exist
  and were all unspent in the database with the block's earlier changes on top, they are distinct, afterwards
  exactly they are marked with the transaction's position and the rest of the index is as before, the inputs are not younger than
  the transaction, and it pays out at most what they bring less the minimum fee, or the stake reward on top.\<close>

theorem spend_inputs:
  assumes "FetchInputs F db pool Q True False tx = Inr I"
    and "ConnectInputs E tn best F db I Q pos ch True False sc fl defer tx c = (Inr (Q', v), c')"
    and "\<not> IsCoinBase tx" "\<not> pos_IsNull pos"
  shows "let S = prevout ` set (vin tx); W = tx_view db ++ Q in
    distinct (map prevout (vin tx)) \<and> (\<forall>out \<in> S. unspent W out) \<and>
    tx_view db ++ Q' = mark_spent S pos W \<and>
    (\<forall>txin \<in> set (vin tx). tx_nTime (prev_of I (prevout txin)) \<le> tx_nTime tx) \<and>
    pays_within E tn best F db ch tx (sum_list (map (input_value I) (vin tx)))"
proof -
  have rest: "\<forall>txin \<in> set (vin tx). tx_nTime (prev_of I (prevout txin)) \<le> tx_nTime tx"
      "pays_within E tn best F db ch tx (sum_list (map (input_value I) (vin tx)))"
    using ConnectInputs_Inr [OF assms(2,3)] by metis+
  note q = connect_queue [OF assms, unfolded Let_def]
  have "tx_view db ++ Q' = mark_spent (prevout ` set (vin tx)) pos (tx_view db ++ Q)"
    using q queue_marks [of "prevout ` set (vin tx)" "tx_view db" Q pos] by simp
  then show ?thesis using q rest unfolding Let_def by blast
qed

text \<open>A transaction in the pool with one output, and one that spends it.\<close>

definition funding_example :: CTransaction where
  "funding_example = \<lparr> tx_nVersion = 1, tx_nTime = 1, vin = [\<lparr> prevout = \<lparr> op_hash = 7, op_n = 0 \<rparr>, scriptSig = [], nSequence = - 1 \<rparr>],
     vout = [\<lparr> nValue = 10000, scriptPubKey = [1, 7] \<rparr>], nLockTime = 0 \<rparr>"

definition spend_example :: CTransaction where
  "spend_example = pay_example\<lparr> tx_nTime := 2 \<rparr>"

definition queue_example :: "uint256 \<rightharpoonup> CTxIndex" where
  "queue_example = [1 \<mapsto> txindex_new pos_mempool 1]"

definition db_example :: CTxDB where
  "db_example = \<lparr> pdb = Map.empty, activeBatch = None, fReadOnly = False \<rparr>"

definition pool_example :: CTxMemPool where
  "pool_example = addUnchecked 1 funding_example pool_empty"

lemma pool_example_lookup: "pool_lookup 1 pool_example = Some funding_example"
  by (simp add: pool_example_def pool_lookup_def addUnchecked_def)

lemma fetch_example:
  "FetchInputs no_files db_example pool_example queue_example True False spend_example =
    Inr [1 \<mapsto> (txindex_new pos_mempool 1, funding_example)]"
  by (simp add: FetchInputs_def spend_example_def pay_example_def IsCoinBase_def op_IsNull_def fetch_one_def queue_example_def pool_example_lookup
      txindex_new_def prevout_in_range_def funding_example_def)

lemma spend_example_kinds: "\<not> IsCoinBase spend_example" "\<not> IsCoinStake spend_example" "\<not> IsCoinBase funding_example" "\<not> IsCoinStake funding_example"
  by (simp_all add: spend_example_def pay_example_def funding_example_def IsCoinBase_def IsCoinStake_def op_IsNull_def txout_IsEmpty_def)

lemma connect_example:
  "\<exists>Q'. ConnectInputs ext_example False 0 no_files db_example [1 \<mapsto> (txindex_new pos_mempool 1, funding_example)] queue_example
     \<lparr> nFile = 1, nBlockPos = 8, nTxPos = 90 \<rparr> [] True False False 0 False spend_example (empty_cache 0) = (Inr (Q', []), empty_cache 0)"
proof -
  have c: "connect_checks False (tx_nTime spend_example) [1 \<mapsto> (txindex_new pos_mempool 1, funding_example)] [] 0 (vin spend_example) = Inr 10000"
    by (simp add: spend_example_def pay_example_def funding_example_def prevout_in_range_def txindex_new_def MoneyRange_def money_consts s64_def Let_def)
  have "connect_values ext_example False 0 no_files db_example spend_example [] True 10000 = Inr ()"
    unfolding connect_values_def GetMinFee_default_value using spend_example_kinds
    by (simp add: GetValueOut_def Let_def MoneyRange_def money_consts) (simp add: spend_example_def pay_example_def MoneyRange_def money_consts s64_def Let_def)
  then show ?thesis using c spend_example_kinds
    by (simp add: ConnectInputs_def) (simp add: spend_example_def pay_example_def txindex_new_def pos_IsNull_def pos_SetNull_def)
qed

theorem spend_inputs_witness:
  "\<exists>Q'. tx_view db_example ++ Q' = mark_spent {\<lparr> op_hash = 1, op_n = 0 \<rparr>} \<lparr> nFile = 1, nBlockPos = 8, nTxPos = 90 \<rparr> (tx_view db_example ++ queue_example)"
proof -
  obtain Q' where q: "ConnectInputs ext_example False 0 no_files db_example [1 \<mapsto> (txindex_new pos_mempool 1, funding_example)] queue_example
     \<lparr> nFile = 1, nBlockPos = 8, nTxPos = 90 \<rparr> [] True False False 0 False spend_example (empty_cache 0) = (Inr (Q', []), empty_cache 0)"
    using connect_example by blast
  have S: "prevout ` set (vin spend_example) = {\<lparr> op_hash = 1, op_n = 0 \<rparr>}" by (simp add: spend_example_def pay_example_def)
  from spend_inputs [OF fetch_example q spend_example_kinds(1), unfolded Let_def S] show ?thesis
    by (auto simp: pos_IsNull_def)
qed

text \<open>C7. Admission to the memory pool keeps the pool's index exact, and a transaction that is admitted is new, standard unless on the
  test network, spends only outputs that are unspent in the database and in the pool, pays at least the minimum
  fee, and every one of its input scripts runs to true, whatever verified signatures the cache holds; a transaction
  that is refused leaves the pool alone.\<close>

theorem accept_to_pool:
  assumes "point_codec_documented E" "cache_ok E c" "pool_ok E pool"
    and "AcceptToMemoryPool E tn best now F db ch lim tx pool c = (r, miss, pool', c')"
  shows "pool_ok E pool' \<and> (case r of Inl e \<Rightarrow> pool' = pool
    | Inr _ \<Rightarrow> pool' = addUnchecked (tx_GetHash E tx) tx pool \<and> \<not> pool_exists (tx_GetHash E tx) pool \<and>
        (tn \<or> IsStandardTx best now tx) \<and>
        (\<forall>txin \<in> set (vin tx). \<forall>ip. \<not> pool_spends pool (prevout txin) ip) \<and>
        (\<exists>I. FetchInputs F db pool Map.empty False False tx = Inr I \<and>
           (\<forall>i < length (vin tx). unspent (index_of I) (spent_at tx i) \<and>
              script_ok E (CScriptCheck_new (prev_of I (spent_at tx i)) tx i
                (if VERSION_2_0_SWITCH_TIME False < uint (tx_nTime tx) then STRICT_FLAGS else SOFT_FLAGS) 0)) \<and>
           sum_list (map nValue (vout tx)) + MIN_TX_FEE \<le> sum_list (map (input_value I) (vin tx))))"
proof (cases r)
  case (Inl e)
  then show ?thesis using AcceptToMemoryPool_Inl [OF assms(4) [unfolded Inl]] assms(3) by simp
next
  case (Inr u)
  let ?fl = "if VERSION_2_0_SWITCH_TIME False < uint (tx_nTime tx) then STRICT_FLAGS else SOFT_FLAGS"
  have acc: "AcceptToMemoryPool E tn best now F db ch lim tx pool c = (Inr (), miss, pool', c')" using assms(4) Inr by simp
  obtain I c1 st y where a: "CheckTransaction now tx = Inr ()" "\<not> IsCoinBase tx" "\<not> IsCoinStake tx"
    "tn \<or> IsStandardTx best now tx" "\<not> pool_exists (tx_GetHash E tx) pool"
    "\<forall>txin \<in> set (vin tx). mapNextTx pool (prevout txin) = None"
    and f: "FetchInputs F db pool Map.empty False False tx = Inr I" "AreInputsStandard E I tx c = Inr (st, c1)"
    and ci: "ConnectInputs E tn best F db I Map.empty pos_mempool ch False False True ?fl False tx c1 = (Inr y, c')"
    and p: "pool' = addUnchecked (tx_GetHash E tx) tx pool"
    by (rule AcceptToMemoryPool_Inr [OF acc])
  obtain Q' v where y: "y = (Q', v)" by force
  have c1: "cache_ok E c1" using inputs_standard_cache [OF assms(1,2)] f(2) a(2) by (simp add: AreInputsStandard_def)
  obtain c2 where s: "connect_spend E tx pos_mempool (False \<or> False) True ?fl False [0..<length (vin tx)] I Map.empty [] c1 = (Inr (Q', v), c2)"
    and r: "\<forall>i < length (vin tx). prevout_in_range I (vin tx ! i)"
    and w: "pays_within E tn best F db ch tx (sum_list (map (input_value I) (vin tx)))"
    by (rule ConnectInputs_Inr [OF ci [unfolded y] a(2)]) auto
  have r': "\<forall>i \<in> set [0..<length (vin tx)]. prevout_in_range I (vin tx ! i)" using r by simp
  have np: "\<not> pos_IsNull pos_mempool" by (simp add: pos_IsNull_def pos_mempool_def)
  have un: "\<forall>i < length (vin tx). unspent (index_of I) (spent_at tx i)" using connect_spend_marks [OF s r' np] by simp
  have sc: "\<forall>i < length (vin tx). script_ok E (CScriptCheck_new (prev_of I (spent_at tx i)) tx i ?fl 0)"
    using connect_spend_scripts [OF assms(1) s c1] by auto
  have "pool_ok E pool'" unfolding p using addUnchecked_ok [OF assms(3) a(5,6)] CheckTransaction_inputs [OF a(1)] by blast
  moreover have "\<forall>txin \<in> set (vin tx). \<forall>ip. \<not> pool_spends pool (prevout txin) ip"
    using a(6) pool_next [OF assms(3)] by (metis option.distinct(1))
  ultimately show ?thesis using a(3,4,5) Inr p f(1) un sc w by (auto simp: pays_within_def)
qed

text \<open>A hash function that tells the example transactions apart: the low byte of the time stamp.\<close>

definition ext_tagged :: ext where
  "ext_tagged = ext_example\<lparr> SHA256 := (\<lambda>m. if length m = 32 then m else m ! 4 # replicate 31 0) \<rparr>"

lemma ext_tagged_documented: "point_codec_documented ext_tagged"
  by (auto simp: point_codec_documented_def ext_tagged_def ext_example_def split: if_splits)

lemma tagged_hashes: "tx_GetHash ext_tagged funding_example = 1" "tx_GetHash ext_tagged spend_example = 2"
  by (simp_all add: tx_GetHash_Hash Hash_def ext_tagged_def funding_example_def spend_example_def pay_example_def ser_tx_def
      uint256_of_bytes_def ser_i32_def ser_u32_def nth_append ser_vector_def WriteCompactSize_def ser_txin_def ser_outpoint_def ser_txout_def ser_bytes_def le_bytes_4)

lemma pool_example_ok: "pool_ok ext_tagged pool_example"
  using addUnchecked_ok [OF pool_empty_ok, of ext_tagged funding_example, unfolded tagged_hashes]
  by (simp add: pool_example_def pool_exists_def pool_empty_def funding_example_def)

lemma push_script: "EvalScript E ctx [] [1, 7] c = (True, [[7]], c)"
proof -
  have "GetOp2 [1, 7] = Some (1, [7], [])" by (simp add: get_operand_def)
  then show ?thesis
    unfolding EvalScript_def by (simp only: eval_loop_step example_push_step) (simp add: vm_init_def)
qed

lemma empty_script: "EvalScript E ctx st [] c = (True, st, c)"
  by (simp add: EvalScript_def vm_init_def)

lemma fetch_pool_example:
  "FetchInputs no_files db_example pool_example Map.empty False False spend_example =
    Inr [1 \<mapsto> (txindex_new pos_SetNull 1, funding_example)]"
  by (simp add: FetchInputs_def spend_example_def pay_example_def IsCoinBase_def op_IsNull_def fetch_one_def pool_example_lookup
      txindex_new_def prevout_in_range_def funding_example_def ReadTxIndex_def db_Read_def db_Get_def db_example_def)

lemma check_example: "inline_check E funding_example spend_example 0 SOFT_FLAGS c = (Inr (), c)"
  by (simp add: inline_check_def run_check_def CScriptCheck_new_def spend_example_def pay_example_def funding_example_def
      VerifyScript_def empty_script push_script top_true_def IsPayToScriptHash_def)

lemma standard_example: "\<exists>b. AreInputsStandard E [1 \<mapsto> (x, funding_example)] spend_example c = Inr (b, c)"
proof -
  have "\<exists>b. input_standard E spend_example 0 prev c = (b, c)" for prev
    by (auto simp: input_standard_def empty_script spend_example_def pay_example_def Let_def split: prod.splits bool.splits)
  then obtain b where "input_standard E spend_example 0 (vout funding_example ! 0) c = (b, c)" by blast
  then show ?thesis by (intro exI [of _ b], cases b)
    (simp_all add: AreInputsStandard_def GetOutputFor_def spend_example_def pay_example_def IsCoinBase_def op_IsNull_def, simp_all add: funding_example_def)
qed

lemma check_tx_example: "CheckTransaction 0 spend_example = Inr ()"
proof -
  have "length (ser_tx spend_example) \<le> MAX_BLOCK_SIZE"
    by (simp add: spend_example_def pay_example_def ser_tx_def ser_vector_def ser_txin_def ser_txout_def ser_outpoint_def ser_bytes_def
        WriteCompactSize_def size_consts)
  then show "CheckTransaction 0 spend_example = Inr ()"
    unfolding CheckTransaction_def
    by (simp add: spend_example_def pay_example_def IsCoinBase_def IsCoinStake_def op_IsNull_def txout_IsEmpty_def money_consts MoneyRange_def s64_def Let_def)
qed

lemma pool_free_example: "\<not> pool_exists 2 pool_example" "\<not> list_ex (\<lambda>txin. mapNextTx pool_example (prevout txin) \<noteq> None) (vin spend_example)"
  by (simp_all add: pool_exists_def pool_example_def addUnchecked_def pool_empty_def spend_example_def pay_example_def funding_example_def)

lemma value_in_example: "GetValueIn [1 \<mapsto> (x, funding_example)] spend_example = Inr 10000" "GetValueOut spend_example = Inr 5000"
  by (simp_all add: GetValueIn_def GetValueOut_def GetOutputFor_def IsCoinBase_def op_IsNull_def spend_example_def pay_example_def funding_example_def
     MoneyRange_def money_consts s64_def Let_def)

lemma fee_example: "GetMinFee 1000 False GMF_RELAY (of_nat (length (ser_tx spend_example))) spend_example \<le> 5000"
  by (simp add: spend_example_def pay_example_def ser_tx_def ser_vector_def ser_txin_def ser_txout_def ser_outpoint_def ser_bytes_def
      WriteCompactSize_def GetMinFee_def money_consts MAX_BLOCK_SIZE_GEN_def MAX_BLOCK_SIZE_def Let_def MoneyRange_def)

lemma connect_pool_example:
  "ConnectInputs ext_tagged True 0 no_files db_example [1 \<mapsto> (txindex_new pos_SetNull 1, funding_example)] Map.empty pos_mempool [] False False True
    SOFT_FLAGS False spend_example c = (Inr (Map.empty, []), c)"
proof -
  have c: "connect_checks True (tx_nTime spend_example) [1 \<mapsto> (txindex_new pos_SetNull 1, funding_example)] [] 0 (vin spend_example) = Inr 10000"
    by (simp add: spend_example_def pay_example_def funding_example_def prevout_in_range_def txindex_new_def MoneyRange_def money_consts s64_def Let_def)
  have v: "connect_values ext_tagged True 0 no_files db_example spend_example [] False 10000 = Inr ()"
    unfolding connect_values_def GetMinFee_default_value value_in_example(2) using spend_example_kinds
    by (simp add: Let_def MoneyRange_def money_consts)
  have l: "length (vin spend_example) = 1" "op_hash (spent_at spend_example 0) = 1" "op_n (spent_at spend_example 0) = 0"
    by (simp_all add: spend_example_def pay_example_def)
  have s: "connect_spend ext_tagged spend_example pos_mempool (False \<or> False) True SOFT_FLAGS False [0..<length (vin spend_example)]
      [1 \<mapsto> (txindex_new pos_SetNull 1, funding_example)] Map.empty [] c = (Inr (Map.empty, []), c)"
    by (simp add: l check_example txindex_new_def pos_IsNull_def pos_SetNull_def)
  show ?thesis unfolding ConnectInputs_def c sum.case s v prod.case using spend_example_kinds(1) by simp
qed

lemma accept_example:
  "AcceptToMemoryPool ext_tagged True 0 0 no_files db_example [] False spend_example pool_example (empty_cache 0) =
    (Inr (), False, addUnchecked 2 spend_example pool_example, empty_cache 0)"
proof -
  obtain b where b: "AreInputsStandard ext_tagged [1 \<mapsto> (txindex_new pos_SetNull 1, funding_example)] spend_example (empty_cache 0) = Inr (b, empty_cache 0)"
    using standard_example by blast
  have fl: "(if VERSION_2_0_SWITCH_TIME False < uint (tx_nTime spend_example) then STRICT_FLAGS else SOFT_FLAGS) = SOFT_FLAGS"
    by (simp add: VERSION_2_0_SWITCH_TIME_def spend_example_def)
  have e: "\<not> ContainsTx 2 db_example" by (simp add: ContainsTx_def db_Exists_def db_example_def)
  have s: "s64 (10000 - 5000) = 5000" by (simp add: s64_def)
  have m: "\<not> 5000 < GetMinFee 1000 False GMF_RELAY (of_nat (length (ser_tx spend_example))) spend_example" using fee_example by simp
  show ?thesis unfolding AcceptToMemoryPool_def Let_def check_tx_example sum.case tagged_hashes fetch_pool_example b prod.case value_in_example
      s fl connect_pool_example using spend_example_kinds pool_free_example e m by simp
qed

theorem accept_to_pool_witness:
  "pool_ok ext_tagged (addUnchecked 2 spend_example pool_example) \<and> \<not> pool_exists 2 pool_example"
  using accept_to_pool [OF ext_tagged_documented empty_cache_ok pool_example_ok accept_example] by (simp add: tagged_hashes)

end
