(* ===== verification/Stake_Kernel.thy ===== *)
theory Stake_Kernel
  imports Hobo_Prelude Ext_Crypto Bignum Serialize Tx_Data Sig_Check Interp_Limits Block Block_Index Txdb Tx_Rules Rewards
    Block_Files Connect_Tx "HOL-Library.Product_Lexorder"
begin

text \<open>
  The proof-of-stake kernel (\<^verbatim>\<open>kernel.cpp\<close>): stake modifiers collected from selected blocks, the kernel hash of a coin, the search
  for a kernel by a staking wallet and its check by everybody else.  Log output is left out.
\<close>

section \<open>Intervals\<close>

definition GetModiferInterval :: "bool \<Rightarrow> u32" where
  "GetModiferInterval fTestNet = (if fTestNet then 20 * 60 else 6 * 60 * 60)"

definition nStakeMaxAge :: u32 where "nStakeMaxAge = 60 * 60 * 24 * 30"

definition MODIFIER_INTERVAL_RATIO :: u32 where "MODIFIER_INTERVAL_RATIO = 3"

definition GetWeight :: "bool \<Rightarrow> int \<Rightarrow> int \<Rightarrow> int \<Rightarrow> int" where
  "GetWeight fTestNet nBestHeight nIntervalBeginning nIntervalEnd =
     (if nIntervalEnd > VERSION1_5_SWITCH_TIME
      then min (nIntervalEnd - nIntervalBeginning - uint (GetStakeMinAge fTestNet nBestHeight)) (uint nStakeMaxAge)
      else min (nIntervalEnd - nIntervalBeginning) (uint nStakeMaxAge) - uint (GetStakeMinAge fTestNet nBestHeight))"

text \<open>A failed assertion is \<open>None\<close>; the sections are computed in unsigned arithmetic.\<close>

definition GetStakeModifierSelectionIntervalSection :: "bool \<Rightarrow> nat \<Rightarrow> int option" where
  "GetStakeModifierSelectionIntervalSection fTestNet nSection =
     (if nSection < 64
      then Some (uint (GetModiferInterval fTestNet * 63 div (63 + (63 - of_nat nSection) * (MODIFIER_INTERVAL_RATIO - 1))))
      else None)"

definition GetStakeModifierSelectionInterval :: "bool \<Rightarrow> int" where
  "GetStakeModifierSelectionInterval fTestNet =
     fold (\<lambda>nSection n. n + the (GetStakeModifierSelectionIntervalSection fTestNet nSection)) [0..<64] 0"

section \<open>Stake modifiers\<close>

fun last_generated :: "pchain \<Rightarrow> pchain" where
  "last_generated (i # i' # rest) = (if \<not> GeneratedStakeModifier i then last_generated (i' # rest) else i # i' # rest)"
| "last_generated c = c"

definition GetLastStakeModifier :: "pchain \<Rightarrow> (u64 \<times> int) option" where
  "GetLastStakeModifier pindex =
     (case last_generated pindex of [] \<Rightarrow> None
      | i # _ \<Rightarrow> if \<not> GeneratedStakeModifier i then None else Some (nStakeModifier i, bi_GetBlockTime i))"

definition selection_hash :: "ext \<Rightarrow> u64 \<Rightarrow> CBlockIndex \<Rightarrow> uint256" where
  "selection_hash E nStakeModifierPrev pindex =
     (let hashProof = (if bi_IsProofOfStake pindex then hashProofOfStake pindex else bi_GetBlockHash pindex);
          hashSelection = Hash E (ser_uint256 hashProof @ ser_u64 nStakeModifierPrev)
      in if bi_IsProofOfStake pindex then drop_bit 32 hashSelection else hashSelection)"

text \<open>The outer option is the missing index entry, the inner one whether a block was selected.\<close>

fun select_loop :: "ext \<Rightarrow> block_map \<Rightarrow> uint256 set \<Rightarrow> int \<Rightarrow> u64 \<Rightarrow> (int \<times> uint256) list \<Rightarrow> (uint256 \<times> CBlockIndex) option \<Rightarrow>
    (uint256 \<times> CBlockIndex) option option" where
  "select_loop E M mapSelectedBlocks stop prev [] best = Some best"
| "select_loop E M mapSelectedBlocks stop prev (item # rest) best =
     (case M (snd item) of None \<Rightarrow> None
      | Some pindex \<Rightarrow>
          if best \<noteq> None \<and> bi_GetBlockTime pindex > stop then Some best
          else if bi_GetBlockHash pindex \<in> mapSelectedBlocks then select_loop E M mapSelectedBlocks stop prev rest best
          else let hashSelection = selection_hash E prev pindex
               in select_loop E M mapSelectedBlocks stop prev rest
                    (case best of None \<Rightarrow> Some (hashSelection, pindex)
                     | Some (hashBest, _) \<Rightarrow> if hashSelection < hashBest then Some (hashSelection, pindex) else best))"

definition SelectBlockFromCandidates :: "ext \<Rightarrow> block_map \<Rightarrow> (int \<times> uint256) list \<Rightarrow> uint256 set \<Rightarrow> int \<Rightarrow> u64 \<Rightarrow> CBlockIndex option" where
  "SelectBlockFromCandidates E M vSortedByTimestamp mapSelectedBlocks nSelectionIntervalStop nStakeModifierPrev =
     (case select_loop E M mapSelectedBlocks nSelectionIntervalStop nStakeModifierPrev vSortedByTimestamp None of
        Some (Some (_, pindex)) \<Rightarrow> Some pindex | _ \<Rightarrow> None)"

fun modifier_rounds :: "ext \<Rightarrow> bool \<Rightarrow> block_map \<Rightarrow> (int \<times> uint256) list \<Rightarrow> u64 \<Rightarrow> nat list \<Rightarrow> int \<Rightarrow> uint256 set \<Rightarrow> u64 \<Rightarrow> u64 option" where
  "modifier_rounds E fTestNet M cand prev [] stop mapSelectedBlocks new = Some new"
| "modifier_rounds E fTestNet M cand prev (nRound # rounds) stop mapSelectedBlocks new =
     (case GetStakeModifierSelectionIntervalSection fTestNet nRound of None \<Rightarrow> None
      | Some section \<Rightarrow>
          let stop = stop + section in
          case SelectBlockFromCandidates E M cand mapSelectedBlocks stop prev of None \<Rightarrow> None
          | Some pindex \<Rightarrow>
              modifier_rounds E fTestNet M cand prev rounds stop (insert (bi_GetBlockHash pindex) mapSelectedBlocks)
                (new OR push_bit nRound (ucast (bi_GetStakeEntropyBit pindex))))"

definition candidates :: "int \<Rightarrow> pchain \<Rightarrow> (int \<times> uint256) list" where
  "candidates start pindexPrev =
     sort (rev (map (\<lambda>i. (bi_GetBlockTime i, bi_GetBlockHash i)) (takeWhile (\<lambda>i. bi_GetBlockTime i \<ge> start) pindexPrev)))"

definition ComputeNextStakeModifier :: "ext \<Rightarrow> bool \<Rightarrow> block_map \<Rightarrow> pchain \<Rightarrow> (u64 \<times> bool) option" where
  "ComputeNextStakeModifier E fTestNet M pindexPrev =
     (if pindexPrev = [] then Some (0, True)
      else case GetLastStakeModifier pindexPrev of None \<Rightarrow> None
        | Some (modifier, nModifierTime) \<Rightarrow>
            let interval = uint (GetModiferInterval fTestNet); t = bi_GetBlockTime (hd pindexPrev) in
            if tdiv nModifierTime interval \<ge> tdiv t interval then Some (modifier, False)
            else let nSelectionIntervalStart = tdiv t interval * interval - GetStakeModifierSelectionInterval fTestNet;
                     vSortedByTimestamp = candidates nSelectionIntervalStart pindexPrev
                 in case modifier_rounds E fTestNet M vSortedByTimestamp modifier [0..<min 64 (length vSortedByTimestamp)]
                        nSelectionIntervalStart {} 0 of None \<Rightarrow> None
                    | Some new \<Rightarrow> Some (new, True))"

definition GetStakeModifierChecksum :: "ext \<Rightarrow> uint256 \<Rightarrow> pchain \<Rightarrow> u32 option" where
  "GetStakeModifierChecksum E genesis pindex =
     (case pindex of [] \<Rightarrow> None
      | i # prevs \<Rightarrow>
          if \<not> (prevs \<noteq> [] \<or> bi_GetBlockHash i = genesis) then None
          else let ss = (case prevs of [] \<Rightarrow> [] | p # _ \<Rightarrow> ser_u32 (nStakeModifierChecksum p))
                     @ ser_u32 (nFlags i) @ ser_uint256 (hashProofOfStake i) @ ser_u64 (nStakeModifier i);
                   hashChecksum = drop_bit (256 - 32) (Hash E ss)
               in Some (ucast (hashChecksum :: uint256)))"

definition mapStakeModifierCheckpoints :: "int \<rightharpoonup> u32" where
  "mapStakeModifierCheckpoints =
     [0 \<mapsto> 0x0e00670b, 261031 \<mapsto> 0x8c12bdb8, 435735 \<mapsto> 0xb956cfa0, 750000 \<mapsto> 0xb86ffee4, 1000000 \<mapsto> 0xa68f1279,
      2000000 \<mapsto> 0x029173a3, 3000000 \<mapsto> 0xecd4d6c7, 4000000 \<mapsto> 0xa655151a, 5000000 \<mapsto> 0xe02d611e, 5499330 \<mapsto> 0x3026e5af,
      5499331 \<mapsto> 0x0e5f8ce1, 5499332 \<mapsto> 0x91436a27, 5500000 \<mapsto> 0xa053fcf3, 5520100 \<mapsto> 0x5c7752ee]"

definition CheckStakeModifierCheckpoints :: "bool \<Rightarrow> int \<Rightarrow> u32 \<Rightarrow> bool" where
  "CheckStakeModifierCheckpoints fTestNet height checksum =
     (if fTestNet then True
      else case mapStakeModifierCheckpoints height of None \<Rightarrow> True | Some c \<Rightarrow> checksum = c)"

section \<open>Kernels\<close>

text \<open>The walk along \<^verbatim>\<open>pnext\<close>.  The outer option is whether it ends.\<close>

partial_function (option) kernel_walk :: "block_map \<Rightarrow> int \<Rightarrow> CBlockIndex \<Rightarrow> int \<Rightarrow> u64 option option" where
  "kernel_walk M until pindex nStakeModifierTime =
     (if nStakeModifierTime < until
      then case pnext pindex of None \<Rightarrow> Some None
        | Some h \<Rightarrow>
            (case M h of None \<Rightarrow> Some None
             | Some i \<Rightarrow> kernel_walk M until i (if GeneratedStakeModifier i then bi_GetBlockTime i else nStakeModifierTime))
      else Some (Some (nStakeModifier pindex)))"

definition GetKernelStakeModifier :: "bool \<Rightarrow> block_map \<Rightarrow> uint256 \<Rightarrow> u64 option option" where
  "GetKernelStakeModifier fTestNet M hashBlockFrom =
     (case M hashBlockFrom of None \<Rightarrow> Some None
      | Some pindexFrom \<Rightarrow>
          kernel_walk M (bi_GetBlockTime pindexFrom + GetStakeModifierSelectionInterval fTestNet) pindexFrom (bi_GetBlockTime pindexFrom))"

definition kernel_hash :: "ext \<Rightarrow> u64 \<Rightarrow> u32 \<Rightarrow> u32 \<Rightarrow> u32 \<Rightarrow> u32 \<Rightarrow> u32 \<Rightarrow> uint256" where
  "kernel_hash E modifier nTimeBlockFrom nTxPrevOffset nTimePrev n nTimeTx =
     Hash E (ser_u64 modifier @ ser_u32 nTimeBlockFrom @ ser_u32 nTxPrevOffset @ ser_u32 nTimePrev @ ser_u32 n @ ser_u32 nTimeTx)"

definition coin_day_weight :: "bool \<Rightarrow> int \<Rightarrow> int \<Rightarrow> u32 \<Rightarrow> u32 \<Rightarrow> BIGNUM" where
  "coin_day_weight fTestNet nBestHeight nValueIn nTimePrev nTimeTx =
     bn_div (bn_div (nValueIn * GetWeight fTestNet nBestHeight (uint nTimePrev) (uint nTimeTx)) COIN) (24 * 60 * 60)"

text \<open>The outer option is that of the walk; success carries \<^verbatim>\<open>hashProofOfStake\<close> and \<^verbatim>\<open>targetProofOfStake\<close>.\<close>

definition CheckStakeKernelHash :: "ext \<Rightarrow> bool \<Rightarrow> int \<Rightarrow> block_map \<Rightarrow> u32 \<Rightarrow> CBlock \<Rightarrow> u32 \<Rightarrow> CTransaction \<Rightarrow> COutPoint \<Rightarrow> u32 \<Rightarrow>
    (failure + uint256 \<times> uint256) option" where
  "CheckStakeKernelHash E fTestNet nBestHeight M bits blockFrom nTxPrevOffset txPrev out nTimeTx =
     (if nTimeTx < tx_nTime txPrev then Some (Inl Reject)
      else let nTimeBlockFrom = blk_nTime blockFrom in
        if nTimeBlockFrom + GetStakeMinAge fTestNet nBestHeight > nTimeTx then Some (Inl Reject)
        else let bnTargetPerCoinDay = SetCompact E bits;
                 nValueIn = nValue (vout txPrev ! unat (op_n out));
                 hashBlockFrom = fst (blk_GetHash E blockFrom);
                 bnCoinDayWeight = coin_day_weight fTestNet nBestHeight nValueIn (tx_nTime txPrev) nTimeTx;
                 target = getuint256 E (bnCoinDayWeight * bnTargetPerCoinDay)
             in case GetKernelStakeModifier fTestNet M hashBlockFrom of None \<Rightarrow> None
                | Some None \<Rightarrow> Some (Inl Reject)
                | Some (Some modifier) \<Rightarrow>
                    let hashProof = kernel_hash E modifier nTimeBlockFrom nTxPrevOffset (tx_nTime txPrev) (op_n out) nTimeTx
                    in if uint hashProof > bnCoinDayWeight * bnTargetPerCoinDay then Some (Inl Reject) else Some (Inr (hashProof, target)))"

definition CheckProofOfStake :: "ext \<Rightarrow> bool \<Rightarrow> int \<Rightarrow> blkfiles \<Rightarrow> CTxDB \<Rightarrow> block_map \<Rightarrow> CTransaction \<Rightarrow> u32 \<Rightarrow> CSignatureCache \<Rightarrow>
    (failure + uint256 \<times> uint256) option \<times> CSignatureCache" where
  "CheckProofOfStake E fTestNet nBestHeight F db M tx bits c =
     (if \<not> IsCoinStake tx then (Some (Inl Reject), c)
      else let txin = vin tx ! 0 in
        case tx_ReadFromDisk_out F db (prevout txin) of None \<Rightarrow> (Some (Inl (DoS 1)), c)
        | Some (txPrev, txindex) \<Rightarrow>
            (case VerifySignature E txPrev tx 0 MANDATORY_SCRIPT_VERIFY_FLAGS 0 c of (False, c) \<Rightarrow> (Some (Inl (DoS 100)), c)
             | (True, c) \<Rightarrow>
                 (case blk_ReadFromDisk E fTestNet F (nFile (txi_pos txindex)) (nBlockPos (txi_pos txindex)) False of
                    None \<Rightarrow> (Some (Inl Reject), c)
                  | Some block \<Rightarrow>
                      (case CheckStakeKernelHash E fTestNet nBestHeight M bits block (nTxPos (txi_pos txindex) - nBlockPos (txi_pos txindex))
                          txPrev (prevout txin) (tx_nTime tx) of None \<Rightarrow> (None, c)
                       | Some (Inl e) \<Rightarrow> (Some (Inl (DoS 1)), c)
                       | Some (Inr r) \<Rightarrow> (Some (Inr r), c)))))"

definition CheckCoinStakeTimestamp :: "int \<Rightarrow> int \<Rightarrow> bool" where
  "CheckCoinStakeTimestamp nTimeBlock nTimeTx \<longleftrightarrow> nTimeBlock = nTimeTx"

section \<open>The search for a kernel\<close>

record KernelSearchSettings =
  ks_nBits :: u32
  ks_nTime :: u32
  ks_nSearchInterval :: u32

text \<open>An entry of the wallet's table of coins: the index record, the coin, its block and its modifier.\<close>

record meta_item =
  mi_txindex :: CTxIndex
  mi_tx :: CTransaction
  mi_n :: u32
  mi_block :: CBlock
  mi_modifier :: u64

definition nMaxStakeSearchInterval :: u32 where "nMaxStakeSearchInterval = 60"

definition kernel_found :: "ext \<Rightarrow> bool \<Rightarrow> int \<Rightarrow> KernelSearchSettings \<Rightarrow> meta_item \<Rightarrow> u32 \<Rightarrow> bool" where
  "kernel_found E fTestNet nBestHeight settings m nTimeTx \<longleftrightarrow>
     (let nTxOffset = nTxPos (txi_pos (mi_txindex m)) - nBlockPos (txi_pos (mi_txindex m));
          nValueIn = nValue (vout (mi_tx m) ! unat (mi_n m));
          bnTargetProofOfStake = coin_day_weight fTestNet nBestHeight nValueIn (tx_nTime (mi_tx m)) nTimeTx * SetCompact E (ks_nBits settings)
      in bnTargetProofOfStake \<ge> uint (kernel_hash E (mi_modifier m) (blk_nTime (mi_block m)) nTxOffset (tx_nTime (mi_tx m)) (mi_n m) nTimeTx))"

text \<open>\<open>actual\<close> and \<open>go\<close> are what \<^verbatim>\<open>GetCoinsDataActual\<close> and \<^verbatim>\<open>fShutdown\<close> say when they are asked, per coin and per second.\<close>

fun scan_loop :: "ext \<Rightarrow> bool \<Rightarrow> int \<Rightarrow> KernelSearchSettings \<Rightarrow> (nat \<Rightarrow> bool) \<Rightarrow> (nat \<Rightarrow> nat \<Rightarrow> bool) \<Rightarrow> nat \<Rightarrow> meta_item list \<Rightarrow>
    (meta_item \<times> u32 \<times> u32) option" where
  "scan_loop E fTestNet nBestHeight settings actual go k [] = None"
| "scan_loop E fTestNet nBestHeight settings actual go k (m # rest) =
     (if \<not> actual k then None
      else if GetStakeMinAge fTestNet nBestHeight + blk_nTime (mi_block m) > ks_nTime settings - nMaxStakeSearchInterval
      then scan_loop E fTestNet nBestHeight settings actual go (k + 1) rest
      else let nCurrentSearchInterval = min (ks_nSearchInterval settings) nMaxStakeSearchInterval
           in case find (\<lambda>n. kernel_found E fTestNet nBestHeight settings m (ks_nTime settings - of_nat n))
                     (takeWhile (go k) [0..<unat nCurrentSearchInterval]) of
                Some n \<Rightarrow> Some (m, ks_nTime settings - of_nat n, blk_nTime (mi_block m))
              | None \<Rightarrow> scan_loop E fTestNet nBestHeight settings actual go (k + 1) rest)"

definition ScanForStakeKernelHash :: "ext \<Rightarrow> bool \<Rightarrow> int \<Rightarrow> meta_item list \<Rightarrow> KernelSearchSettings \<Rightarrow> (nat \<Rightarrow> bool) \<Rightarrow> (nat \<Rightarrow> nat \<Rightarrow> bool) \<Rightarrow>
    (meta_item \<times> u32 \<times> u32) option" where
  "ScanForStakeKernelHash E fTestNet nBestHeight mapMeta settings actual go =
     scan_loop E fTestNet nBestHeight settings actual go 0 mapMeta"

section \<open>Selecting a block\<close>

definition eligible :: "block_map \<Rightarrow> uint256 set \<Rightarrow> (int \<times> uint256) list \<Rightarrow> CBlockIndex set" where
  "eligible M S items = {i. \<exists>it \<in> set items. M (snd it) = Some i \<and> bi_GetBlockHash i \<notin> S}"

text \<open>The candidate list names indexed blocks with their times, in the order of time.\<close>

definition listed :: "block_map \<Rightarrow> (int \<times> uint256) list \<Rightarrow> bool" where
  "listed M items \<longleftrightarrow> sorted (map fst items) \<and> distinct (map snd items) \<and>
     (\<forall>it \<in> set items. \<exists>i. M (snd it) = Some i \<and> bi_GetBlockTime i = fst it \<and> bi_GetBlockHash i = snd it)"

lemma listed_Cons:
  assumes "listed M (it # items)"
  obtains i where "M (snd it) = Some i" "bi_GetBlockTime i = fst it" "bi_GetBlockHash i = snd it" "listed M items"
    "\<And>q. q \<in> eligible M S items \<Longrightarrow> bi_GetBlockTime i \<le> bi_GetBlockTime q"
    "eligible M S (it # items) = (if bi_GetBlockHash i \<in> S then {} else {i}) \<union> eligible M S items"
proof -
  obtain i where i: "M (snd it) = Some i" "bi_GetBlockTime i = fst it" "bi_GetBlockHash i = snd it" "listed M items"
    using assms by (auto simp: listed_def)
  have "bi_GetBlockTime i \<le> bi_GetBlockTime q" if "q \<in> eligible M S items" for q
    using assms that i by (fastforce simp: listed_def eligible_def)
  moreover have "eligible M S (it # items) = (if bi_GetBlockHash i \<in> S then {} else {i}) \<union> eligible M S items"
    using i(1) by (auto simp: eligible_def)
  ultimately show ?thesis using that i by blast
qed

lemma select_loop_best:
  assumes "listed M items" "hb = selection_hash E prev pb"
  shows "\<exists>p. select_loop E M S stop prev items (Some (hb, pb)) = Some (Some (selection_hash E prev p, p)) \<and>
    (p = pb \<or> p \<in> eligible M S items) \<and> selection_hash E prev p \<le> hb \<and>
    (\<forall>q \<in> eligible M S items. bi_GetBlockTime q \<le> stop \<longrightarrow> selection_hash E prev p \<le> selection_hash E prev q)"
  using assms
proof (induction items arbitrary: hb pb)
  case (Cons it items)
  obtain i where i: "M (snd it) = Some i" "listed M items"
    and t: "\<And>q. q \<in> eligible M S items \<Longrightarrow> bi_GetBlockTime i \<le> bi_GetBlockTime q"
    and e: "eligible M S (it # items) = (if bi_GetBlockHash i \<in> S then {} else {i}) \<union> eligible M S items"
    using listed_Cons [OF Cons.prems(1), of S] by metis
  show ?case
  proof (cases "bi_GetBlockTime i > stop")
    case True
    then show ?thesis using i(1) t Cons.prems(2) by (intro exI [of _ pb]) (auto simp: e split: if_splits dest: t)
  next
    case False
    show ?thesis
    proof (cases "bi_GetBlockHash i \<in> S")
      case True
      then show ?thesis using Cons.IH [OF i(2) Cons.prems(2)] False i(1) by (simp add: e)
    next
      case new: False
      show ?thesis
      proof (cases "selection_hash E prev i < hb")
        case True
        obtain p where "select_loop E M S stop prev items (Some (selection_hash E prev i, i)) = Some (Some (selection_hash E prev p, p))"
          "p = i \<or> p \<in> eligible M S items" "selection_hash E prev p \<le> selection_hash E prev i"
          "\<forall>q \<in> eligible M S items. bi_GetBlockTime q \<le> stop \<longrightarrow> selection_hash E prev p \<le> selection_hash E prev q"
          using Cons.IH [OF i(2) refl] by blast
        then show ?thesis using True new False i(1) by (intro exI [of _ p]) (auto simp: e)
      next
        case no: False
        obtain p where "select_loop E M S stop prev items (Some (hb, pb)) = Some (Some (selection_hash E prev p, p))"
          "p = pb \<or> p \<in> eligible M S items" "selection_hash E prev p \<le> hb"
          "\<forall>q \<in> eligible M S items. bi_GetBlockTime q \<le> stop \<longrightarrow> selection_hash E prev p \<le> selection_hash E prev q"
          using Cons.IH [OF i(2) Cons.prems(2)] by blast
        then show ?thesis using no new False i(1) by (intro exI [of _ p]) (auto simp: e)
      qed
    qed
  qed
qed (auto simp: eligible_def)

lemma select_loop_first:
  assumes "listed M items" "eligible M S items \<noteq> {}"
  shows "\<exists>p. select_loop E M S stop prev items None = Some (Some (selection_hash E prev p, p)) \<and> p \<in> eligible M S items \<and>
    (\<forall>q \<in> eligible M S items. bi_GetBlockTime q \<le> stop \<longrightarrow> selection_hash E prev p \<le> selection_hash E prev q)"
  using assms
proof (induction items)
  case (Cons it items)
  obtain i where i: "M (snd it) = Some i" "listed M items"
    and e: "eligible M S (it # items) = (if bi_GetBlockHash i \<in> S then {} else {i}) \<union> eligible M S items"
    using listed_Cons [OF Cons.prems(1), of S] by metis
  show ?case
  proof (cases "bi_GetBlockHash i \<in> S")
    case True
    then show ?thesis using Cons.IH [OF i(2)] Cons.prems(2) i(1) by (simp add: e)
  next
    case False
    then show ?thesis using select_loop_best [OF i(2) refl, of E S stop prev i] i(1) by (auto simp: e)
  qed
qed (simp add: eligible_def)

lemma SelectBlockFromCandidates_spec:
  assumes "listed M items" "eligible M S items \<noteq> {}"
  obtains p where "SelectBlockFromCandidates E M items S stop prev = Some p" "p \<in> eligible M S items"
    "\<forall>q \<in> eligible M S items. bi_GetBlockTime q \<le> stop \<longrightarrow> selection_hash E prev p \<le> selection_hash E prev q"
  using select_loop_first [OF assms, of E stop prev] by (auto simp: SelectBlockFromCandidates_def)

lemma sorted_pairs_fst: "sorted xs \<Longrightarrow> sorted (map fst (xs :: ('a :: linorder \<times> 'b :: linorder) list))"
  by (rule sorted_map_mono) (auto intro!: mono_onI simp: less_eq_prod_def)

lemma candidates_listed:
  assumes "index_wf M"
  shows "listed M (candidates start (chain M p))"
proof -
  let ?f = "\<lambda>i. (bi_GetBlockTime i, bi_GetBlockHash i)"
  let ?t = "takeWhile (\<lambda>i. bi_GetBlockTime i \<ge> start) (chain M p)"
  have "distinct (map bi_GetBlockHash ?t)"
    using chain_distinct [OF assms, of p] by (metis distinct_take map_append takeWhile_eq_take take_map)
  then have "distinct (map snd (map ?f ?t))" by (simp add: comp_def)
  then have "distinct (map ?f ?t) \<and> inj_on snd (set (map ?f ?t))" unfolding distinct_map [of snd] .
  then have "distinct (map snd (candidates start (chain M p)))" unfolding candidates_def distinct_map [of snd] by simp
  moreover have "\<exists>i. M (snd it) = Some i \<and> bi_GetBlockTime i = fst it \<and> bi_GetBlockHash i = snd it"
    if "it \<in> set (candidates start (chain M p))" for it
    using that chain_mem [OF assms] by (auto simp: candidates_def bi_GetBlockHash_def dest!: set_takeWhileD)
  ultimately show ?thesis unfolding listed_def using sorted_pairs_fst [OF sorted_sort] by (auto simp: candidates_def)
qed

text \<open>The upper end of the selection interval in a round.\<close>

definition round_stop :: "bool \<Rightarrow> int \<Rightarrow> nat \<Rightarrow> int" where
  "round_stop fTestNet start k = start + (\<Sum>i < k. the (GetStakeModifierSelectionIntervalSection fTestNet i))"

text \<open>A block that wins a round: not chosen before, and with the least selection hash among the candidates of the round.\<close>

definition wins_round :: "ext \<Rightarrow> block_map \<Rightarrow> (int \<times> uint256) list \<Rightarrow> u64 \<Rightarrow> uint256 set \<Rightarrow> int \<Rightarrow> CBlockIndex \<Rightarrow> bool" where
  "wins_round E M cand prev S stop p \<longleftrightarrow> p \<in> eligible M S cand \<and>
     (\<forall>q \<in> eligible M S cand. bi_GetBlockTime q \<le> stop \<longrightarrow> selection_hash E prev p \<le> selection_hash E prev q)"

lemma bit_entropy: "n < 64 \<Longrightarrow> bit (push_bit n (ucast (bi_GetStakeEntropyBit i)) :: u64) b \<longleftrightarrow> b = n \<and> bit (nFlags i) 1"
  by (auto simp: flag_bits bit_push_bit_iff bit_1_iff)

lemma modifier_rounds_spec:
  assumes "listed M cand" "n \<le> 64" "n \<le> length cand"
  shows "k \<le> n \<Longrightarrow> S \<subseteq> snd ` set cand \<Longrightarrow> card S = k \<Longrightarrow>
    \<exists>sel r. length sel = n - k \<and> distinct (map bi_GetBlockHash sel) \<and>
      modifier_rounds E tn M cand prev [k..<n] (round_stop tn start k) S new = Some r \<and>
      (\<forall>j < n - k. wins_round E M cand prev (S \<union> bi_GetBlockHash ` set (take j sel)) (round_stop tn start (Suc (k + j))) (sel ! j)) \<and>
      (\<forall>b. bit r b \<longleftrightarrow> bit new b \<or> k \<le> b \<and> b < n \<and> bit (nFlags (sel ! (b - k))) 1)"
proof (induction "n - k" arbitrary: k S new)
  case 0
  then show ?case by (intro exI [of _ "[]"] exI [of _ new]) auto
next
  case (Suc m)
  have kn: "k < n" and m: "m = n - Suc k" using Suc.hyps(2) by simp_all
  have "card (snd ` set cand) = length cand" using assms(1) by (metis distinct_card length_map listed_def set_map)
  then have "S \<noteq> snd ` set cand" using Suc.prems(3) kn assms(3) by auto
  then obtain h where h: "h \<in> snd ` set cand" "h \<notin> S" using Suc.prems(2) by blast
  then have "eligible M S cand \<noteq> {}" using assms(1) by (fastforce simp: eligible_def listed_def)
  then obtain p where p: "SelectBlockFromCandidates E M cand S (round_stop tn start (Suc k)) prev = Some p" "p \<in> eligible M S cand"
    "\<forall>q \<in> eligible M S cand. bi_GetBlockTime q \<le> round_stop tn start (Suc k) \<longrightarrow> selection_hash E prev p \<le> selection_hash E prev q"
    using SelectBlockFromCandidates_spec [OF assms(1)] by metis
  let ?S = "insert (bi_GetBlockHash p) S" and ?new = "new OR push_bit k (ucast (bi_GetStakeEntropyBit p))"
  have hp: "bi_GetBlockHash p \<notin> S" "bi_GetBlockHash p \<in> snd ` set cand"
    using p(2) assms(1) by (auto simp: eligible_def listed_def) force
  have "finite S" using Suc.prems(2) by (rule finite_subset) simp
  then have S: "?S \<subseteq> snd ` set cand" "card ?S = Suc k" using hp Suc.prems by auto
  obtain sel r where sel: "length sel = n - Suc k" "distinct (map bi_GetBlockHash sel)"
      "modifier_rounds E tn M cand prev [Suc k..<n] (round_stop tn start (Suc k)) ?S ?new = Some r"
      "\<forall>j < n - Suc k. wins_round E M cand prev (?S \<union> bi_GetBlockHash ` set (take j sel)) (round_stop tn start (Suc (Suc k + j))) (sel ! j)"
      "\<forall>b. bit r b \<longleftrightarrow> bit ?new b \<or> Suc k \<le> b \<and> b < n \<and> bit (nFlags (sel ! (b - Suc k))) 1"
    using Suc.hyps(1) [OF m Suc_leI [OF kn] S, where new = ?new] by blast
  have sec: "GetStakeModifierSelectionIntervalSection tn k = Some (the (GetStakeModifierSelectionIntervalSection tn k))"
    using kn assms(2) by (simp add: GetStakeModifierSelectionIntervalSection_def)
  have stop: "round_stop tn start k + the (GetStakeModifierSelectionIntervalSection tn k) = round_stop tn start (Suc k)"
    by (simp add: round_stop_def)
  have run: "modifier_rounds E tn M cand prev [k..<n] (round_stop tn start k) S new = Some r"
    unfolding upt_conv_Cons [OF kn] modifier_rounds.simps by (subst sec) (simp add: stop p(1) sel(3))
  have notin: "bi_GetBlockHash p \<notin> bi_GetBlockHash ` set sel"
  proof
    assume "bi_GetBlockHash p \<in> bi_GetBlockHash ` set sel"
    then obtain j where "j < length sel" "bi_GetBlockHash (sel ! j) = bi_GetBlockHash p" by (metis imageE in_set_conv_nth)
    then show False using sel(1,4) by (auto simp: wins_round_def eligible_def)
  qed
  show ?case
  proof (intro exI conjI)
    show "length (p # sel) = n - k" "distinct (map bi_GetBlockHash (p # sel))" using sel(1,2) kn notin by auto
    show "modifier_rounds E tn M cand prev [k..<n] (round_stop tn start k) S new = Some r" by (fact run)
    show "\<forall>j < n - k. wins_round E M cand prev (S \<union> bi_GetBlockHash ` set (take j (p # sel))) (round_stop tn start (Suc (k + j))) ((p # sel) ! j)"
    proof (intro allI impI)
      fix j assume j: "j < n - k"
      show "wins_round E M cand prev (S \<union> bi_GetBlockHash ` set (take j (p # sel))) (round_stop tn start (Suc (k + j))) ((p # sel) ! j)"
      proof (cases j)
        case 0
        then show ?thesis using p(2,3) by (simp add: wins_round_def)
      next
        case (Suc j')
        then show ?thesis using sel(4) [rule_format, of j'] j by simp
      qed
    qed
    show "\<forall>b. bit r b \<longleftrightarrow> bit new b \<or> k \<le> b \<and> b < n \<and> bit (nFlags ((p # sel) ! (b - k))) 1"
    proof
      fix b
      have "bit ?new b \<longleftrightarrow> bit new b \<or> b = k \<and> bit (nFlags p) 1"
        using bit_entropy [of k p b] kn assms(2) by (simp add: bit_or_iff)
      then show "bit r b \<longleftrightarrow> bit new b \<or> k \<le> b \<and> b < n \<and> bit (nFlags ((p # sel) ! (b - k))) 1"
        using sel(5) kn by (cases "b \<le> k") (auto simp: nth_Cons')
    qed
  qed
qed

lemma last_generated_Some:
  assumes "\<exists>i \<in> set c. GeneratedStakeModifier i"
  shows "\<exists>md t. GetLastStakeModifier c = Some (md, t)"
proof -
  have "\<exists>i r. last_generated c = i # r \<and> GeneratedStakeModifier i"
    using assms by (induction c rule: last_generated.induct) auto
  then show ?thesis by (auto simp: GetLastStakeModifier_def)
qed

section \<open>Properties\<close>


text \<open>A chain of one block that generated a modifier.\<close>

definition modifier_example :: CBlockIndex where
  "modifier_example = (index_example 5 None)\<lparr> nFlags := 6, nStakeModifier := 9, bi_nTime := 100 \<rparr>"


lemma scan_loop_found:
  "scan_loop E tn best st actual go k metas = Some (m, t, bt) \<Longrightarrow>
    m \<in> set metas \<and> bt = blk_nTime (mi_block m) \<and> kernel_found E tn best st m t \<and>
    \<not> GetStakeMinAge tn best + blk_nTime (mi_block m) > ks_nTime st - nMaxStakeSearchInterval \<and>
    (\<exists>n < 60. t = ks_nTime st - of_nat n)"
proof (induction metas arbitrary: k)
  case (Cons x metas)
  show ?case
  proof (cases "GetStakeMinAge tn best + blk_nTime (mi_block x) > ks_nTime st - nMaxStakeSearchInterval")
    case True
    then show ?thesis using Cons by (auto split: if_splits)
  next
    case False
    let ?P = "\<lambda>n. kernel_found E tn best st x (ks_nTime st - of_nat n)"
    let ?l = "takeWhile (go k) [0..<unat (min (ks_nSearchInterval st) nMaxStakeSearchInterval)]"
    show ?thesis
    proof (cases "find ?P ?l")
      case None
      then show ?thesis using Cons False by (auto simp: Let_def split: if_splits)
    next
      case (Some n)
      then have "?P n" "n \<in> set ?l" by (auto simp: find_Some_iff in_set_conv_nth)
      then have "n < unat (min (ks_nSearchInterval st) nMaxStakeSearchInterval)" by (auto dest: set_takeWhileD)
      also have "\<dots> \<le> 60" by (auto simp: min_def nMaxStakeSearchInterval_def word_le_nat_alt)
      finally have "n < 60" .
      then show ?thesis using Cons.prems False Some \<open>?P n\<close> by (auto simp: Let_def split: if_splits)
    qed
  qed
qed simp

text \<open>C12. What the staking search finds, everybody else accepts: if a wallet's table entry carries the kernel modifier of its
  block and its coin is no younger than the block, then the kernel found for it passes \<^verbatim>\<open>CheckStakeKernelHash\<close> with the
  transaction time the search returns, which is less than a minute before the requested one, despite the unsigned arithmetic in the age tests.\<close>

theorem found_kernel_accepted:
  assumes "ScanForStakeKernelHash E tn best metas st actual go = Some (m, nTimeTx, nBlockTime)"
    and "GetKernelStakeModifier tn M (fst (blk_GetHash E (mi_block m))) = Some (Some (mi_modifier m))"
    and "tx_nTime (mi_tx m) \<le> blk_nTime (mi_block m)" "60 \<le> ks_nTime st"
    and "uint (blk_nTime (mi_block m)) + uint (GetStakeMinAge tn best) < 2 ^ 32" "op_n out = mi_n m"
  shows "m \<in> set metas \<and> nTimeTx \<le> ks_nTime st \<and> uint (ks_nTime st) - uint nTimeTx < 60 \<and>
    (\<exists>r. CheckStakeKernelHash E tn best M (ks_nBits st) (mi_block m)
      (nTxPos (txi_pos (mi_txindex m)) - nBlockPos (txi_pos (mi_txindex m))) (mi_tx m) out nTimeTx = Some (Inr r))"
proof -
  let ?b = "mi_block m" and ?a = "GetStakeMinAge tn best"
  from scan_loop_found [OF assms(1) [unfolded ScanForStakeKernelHash_def]] obtain n where
    m: "m \<in> set metas" "kernel_found E tn best st m nTimeTx" "?a + blk_nTime ?b \<le> ks_nTime st - 60"
    and n: "n < 60" "nTimeTx = ks_nTime st - of_nat n" by (auto simp: nMaxStakeSearchInterval_def)
  have nat_n: "unat (of_nat n :: u32) = n" using n(1) by (simp add: unsigned_of_nat take_bit_nat_eq_self)
  have k: "60 \<le> unat (ks_nTime st)" using assms(4) by (simp add: word_le_nat_alt)
  have t60: "unat (ks_nTime st - 60) = unat (ks_nTime st) - 60" using unat_sub [OF assms(4)] by simp
  have le: "(of_nat n :: u32) \<le> ks_nTime st" unfolding word_le_nat_alt nat_n using k n(1) by linarith
  have t: "unat nTimeTx = unat (ks_nTime st) - n" unfolding n(2) unat_sub [OF le] nat_n ..
  have "int (unat ?a + unat (blk_nTime ?b)) < int (2 ^ 32)" using assms(5) by simp
  then have "unat ?a + unat (blk_nTime ?b) < 2 ^ 32" unfolding of_nat_less_iff .
  then have sum: "unat (?a + blk_nTime ?b) = unat ?a + unat (blk_nTime ?b)" by (simp add: unat_word_ariths)
  have ge: "?a + blk_nTime ?b \<le> nTimeTx"
    using m(3) n(1) unfolding word_le_nat_alt t t60 by linarith
  then have "blk_nTime ?b \<le> nTimeTx" unfolding word_le_nat_alt sum by linarith
  then have young: "\<not> nTimeTx < tx_nTime (mi_tx m)" using assms(3) by simp
  have age: "\<not> nTimeTx < blk_nTime ?b + ?a" using ge by (simp add: add.commute)
  have "\<exists>r. CheckStakeKernelHash E tn best M (ks_nBits st) ?b
      (nTxPos (txi_pos (mi_txindex m)) - nBlockPos (txi_pos (mi_txindex m))) (mi_tx m) out nTimeTx = Some (Inr r)"
    using m(2) young age assms(2,6) by (simp add: CheckStakeKernelHash_def kernel_found_def Let_def)
  moreover have "nTimeTx \<le> ks_nTime st" "uint (ks_nTime st) - uint nTimeTx < 60"
    using n(1) k unfolding word_le_nat_alt uint_nat t by arith+
  ultimately show ?thesis using m(1) by simp
qed

text \<open>A coin of one unit thirty days old, the block after it that fixes its modifier, and a search at that time.\<close>

definition stake_coin :: meta_item where
  "stake_coin = \<lparr> mi_txindex = txindex_new \<lparr> nFile = 1, nBlockPos = 8, nTxPos = 89 \<rparr> 1,
     mi_tx = (tx_example 0)\<lparr> vout := [\<lparr> nValue = COIN, scriptPubKey = [] \<rparr>] \<rparr>, mi_n = 0,
     mi_block = CBlock_new\<lparr> hashCache := 5, fHashCached := True \<rparr>, mi_modifier = 9 \<rparr>"

definition stake_index :: block_map where
  "stake_index = [5 \<mapsto> (index_example 5 None)\<lparr> pnext := Some 6 \<rparr>,
     6 \<mapsto> (index_example 6 (Some 5))\<lparr> nFlags := 4, nStakeModifier := 9, bi_nTime := 800000 \<rparr>]"

definition stake_search :: KernelSearchSettings where
  "stake_search = \<lparr> ks_nBits = 0x03000001, ks_nTime = 2592000, ks_nSearchInterval = 1 \<rparr>"

definition ext_zero :: ext where
  "ext_zero = ext_example\<lparr> SHA256 := (\<lambda>m. replicate 32 0) \<rparr>"

lemma selection_interval: "GetStakeModifierSelectionInterval False = 761920"
  by code_simp

lemma stake_modifier_example: "GetKernelStakeModifier False stake_index 5 = Some (Some 9)"
  unfolding GetKernelStakeModifier_def selection_interval
  by (simp add: stake_index_def index_example_def CBlockIndex_new_def bi_GetBlockTime_def kernel_walk.simps GeneratedStakeModifier_def)

lemma compact_one: "SetCompact ext_zero 0x03000001 = 1"
  by code_simp

lemma kernel_example: "kernel_found ext_zero False 0 stake_search stake_coin 2592000"
  using compact_one unfolding kernel_found_def
  by (simp add: stake_search_def stake_coin_def kernel_hash_def Hash_def ext_zero_def uint256_of_bytes_def coin_day_weight_def tx_example_def GetWeight_def
    VERSION1_5_SWITCH_TIME_def GetStakeMinAge_def SPACING_TARGET_SWITCH_def nStakeMaxAge_def COIN_def bn_div_def tdiv_def)

lemma scan_example: "ScanForStakeKernelHash ext_zero False 0 [stake_coin] stake_search (\<lambda>k. True) (\<lambda>k n. True) = Some (stake_coin, 2592000, 0)"
proof -
  have "ks_nTime stake_search = 2592000" "blk_nTime (mi_block stake_coin) = 0" "min (ks_nSearchInterval stake_search) nMaxStakeSearchInterval = 1"
    by (simp_all add: stake_search_def stake_coin_def CBlock_new_def blk_SetNull_def nMaxStakeSearchInterval_def)
  then show ?thesis using kernel_example
    by (simp add: ScanForStakeKernelHash_def GetStakeMinAge_def SPACING_TARGET_SWITCH_def nMaxStakeSearchInterval_def Let_def)
qed

theorem found_kernel_accepted_witness:
  "\<exists>r. CheckStakeKernelHash ext_zero False 0 stake_index 0x03000001 (mi_block stake_coin) 81 (mi_tx stake_coin)
    \<lparr> op_hash = 1, op_n = 0 \<rparr> 2592000 = Some (Inr r)"
proof -
  have "GetKernelStakeModifier False stake_index (fst (blk_GetHash ext_zero (mi_block stake_coin))) = Some (Some (mi_modifier stake_coin))"
    using stake_modifier_example by (simp add: stake_coin_def blk_GetHash_def)
  from found_kernel_accepted [OF scan_example this, of "\<lparr> op_hash = 1, op_n = 0 \<rparr>"] show ?thesis
    by (simp add: stake_coin_def stake_search_def txindex_new_def tx_example_def CBlock_new_def blk_SetNull_def GetStakeMinAge_def
        SPACING_TARGET_SWITCH_def)
qed

end
