(* ===== verification/Text_Codec.thy ===== *)
theory Text_Codec
  imports Hobo_Prelude Ext_Crypto Bignum Serialize Tx_Data Key Standard Tx_Rules
begin

text \<open>
  Text forms of data (\<^verbatim>\<open>util.cpp\<close>, \<^verbatim>\<open>util.h\<close>, \<^verbatim>\<open>base58.h\<close>): hexadecimal, base 64, base 32, base 58 with its checksum, addresses and
  secrets, and amounts of money.  A string is the list of its bytes, and the pointer into a C string is the rest of it, with
  the byte zero when nothing is left.
\<close>

unbundle bit_operations_syntax

section \<open>Characters\<close>

abbreviation text_of :: "string \<Rightarrow> valtype" where
  "text_of s \<equiv> map of_char s"

definition c_str :: "valtype \<Rightarrow> valtype" where
  "c_str s = takeWhile (\<lambda>c. c \<noteq> 0) s"

definition deref :: "valtype \<Rightarrow> byte" where
  "deref p = (case p of [] \<Rightarrow> 0 | c # _ \<Rightarrow> c)"

definition isspace :: "byte \<Rightarrow> bool" where
  "isspace c \<longleftrightarrow> 9 \<le> c \<and> c \<le> 13 \<or> c = 32"

definition isdigit :: "byte \<Rightarrow> bool" where
  "isdigit c \<longleftrightarrow> 48 \<le> c \<and> c \<le> 57"

section \<open>Hexadecimal\<close>

text \<open>\<open>None\<close> is the entry $-1$ of a decoding table.\<close>

definition phexdigit :: "byte \<Rightarrow> byte option" where
  "phexdigit c =
     (if 48 \<le> c \<and> c \<le> 57 then Some (c - 48)
      else if 65 \<le> c \<and> c \<le> 70 then Some (c - 55)
      else if 97 \<le> c \<and> c \<le> 102 then Some (c - 87) else None)"

definition hexmap :: valtype where "hexmap = text_of ''0123456789abcdef''"

definition HexStr :: "valtype \<Rightarrow> valtype" where
  "HexStr vch = concat (map (\<lambda>val. [hexmap ! unat (drop_bit 4 val), hexmap ! unat (val AND 15)]) vch)"

definition IsHex :: "valtype \<Rightarrow> bool" where
  "IsHex str \<longleftrightarrow> list_all (\<lambda>c. phexdigit c \<noteq> None) str \<and> length str > 0 \<and> length str mod 2 = 0"

lemma dropWhile_shorter: "dropWhile P p = a # b # r \<Longrightarrow> length r < length p"
  using length_dropWhile_le [of P p] by simp

function parse_hex :: "valtype \<Rightarrow> valtype" where
  "parse_hex p =
     (case dropWhile isspace p of
        a # b # rest \<Rightarrow>
          (case phexdigit a of None \<Rightarrow> []
           | Some c \<Rightarrow>
               let n = push_bit 4 c
               in case phexdigit b of None \<Rightarrow> [] | Some c \<Rightarrow> (n OR c) # parse_hex rest)
      | _ \<Rightarrow> [])"
  by pat_completeness auto
termination by (relation "measure length") (auto dest!: dropWhile_shorter)

declare parse_hex.simps [simp del]

definition ParseHex :: "valtype \<Rightarrow> valtype" where
  "ParseHex str = parse_hex (c_str str)"

section \<open>Base 64\<close>

definition pbase64 :: valtype where
  "pbase64 = text_of ''ABCDEFGHIJKLMNOPQRSTUVWXYZabcdefghijklmnopqrstuvwxyz0123456789+/''"

definition decode64_table :: "byte \<Rightarrow> u32 option" where
  "decode64_table c =
     (if 65 \<le> c \<and> c \<le> 90 then Some (ucast (c - 65))
      else if 97 \<le> c \<and> c \<le> 122 then Some (ucast (c - 71))
      else if 48 \<le> c \<and> c \<le> 57 then Some (ucast (c + 4))
      else if c = 43 then Some 62 else if c = 47 then Some 63 else None)"

text \<open>The loop over the bytes with the state \<open>mode\<close> and \<open>left\<close>, and the padding after it.\<close>

fun enc64 :: "nat \<Rightarrow> u32 \<Rightarrow> valtype \<Rightarrow> valtype" where
  "enc64 mode left [] =
     (if mode \<noteq> 0 then [pbase64 ! unat left, 61] @ (if mode = 1 then [61] else []) else [])"
| "enc64 mode left (b # rest) =
     (let enc = ucast b :: u32 in
      if mode = 0 then pbase64 ! unat (drop_bit 2 enc) # enc64 1 (push_bit 4 (enc AND 3)) rest
      else if mode = 1 then pbase64 ! unat (left OR drop_bit 4 enc) # enc64 2 (push_bit 2 (enc AND 15)) rest
      else pbase64 ! unat (left OR drop_bit 6 enc) # pbase64 ! unat (enc AND 63) # enc64 0 left rest)"

definition EncodeBase64 :: "valtype \<Rightarrow> valtype" where
  "EncodeBase64 vch = enc64 0 0 vch"

text \<open>The decoding loop returns the bytes, the final state and the pointer where it stopped.\<close>

fun dec64 :: "nat \<Rightarrow> u32 \<Rightarrow> valtype \<Rightarrow> valtype \<times> nat \<times> u32 \<times> valtype" where
  "dec64 mode left [] = ([], mode, left, [])"
| "dec64 mode left (c # p) =
     (case decode64_table c of None \<Rightarrow> ([], mode, left, c # p)
      | Some dec \<Rightarrow>
          if mode = 0 then dec64 1 dec p
          else if mode = 1 then (let (v, r) = dec64 2 (dec AND 15) p in (ucast (push_bit 2 left OR drop_bit 4 dec) # v, r))
          else if mode = 2 then (let (v, r) = dec64 3 (dec AND 3) p in (ucast (push_bit 4 left OR drop_bit 2 dec) # v, r))
          else (let (v, r) = dec64 0 left p in (ucast (push_bit 6 left OR dec) # v, r)))"

definition DecodeBase64 :: "valtype \<Rightarrow> valtype \<times> bool" where
  "DecodeBase64 str =
     (let (vchRet, mode, left, p) = dec64 0 0 (c_str str); at = (\<lambda>n. deref (drop n p));
          fInvalid = (if mode = 0 then False
            else if mode = 1 then True
            else if mode = 2 then left \<noteq> 0 \<or> at 0 \<noteq> 61 \<or> at 1 \<noteq> 61 \<or> decode64_table (at 2) \<noteq> None
            else left \<noteq> 0 \<or> at 0 \<noteq> 61 \<or> decode64_table (at 1) \<noteq> None)
      in (vchRet, fInvalid))"

section \<open>Base 32\<close>

definition pbase32 :: valtype where "pbase32 = text_of ''abcdefghijklmnopqrstuvwxyz234567''"

definition decode32_table :: "byte \<Rightarrow> u32 option" where
  "decode32_table c =
     (if 65 \<le> c \<and> c \<le> 90 then Some (ucast (c - 65))
      else if 97 \<le> c \<and> c \<le> 122 then Some (ucast (c - 97))
      else if 50 \<le> c \<and> c \<le> 55 then Some (ucast (c - 24)) else None)"

definition nPadding :: "nat list" where "nPadding = [0, 6, 4, 3, 1]"

fun enc32 :: "nat \<Rightarrow> u32 \<Rightarrow> valtype \<Rightarrow> valtype" where
  "enc32 mode left [] = (if mode \<noteq> 0 then pbase32 ! unat left # replicate (nPadding ! mode) 61 else [])"
| "enc32 mode left (b # rest) =
     (let enc = ucast b :: u32 in
      if mode = 0 then pbase32 ! unat (drop_bit 3 enc) # enc32 1 (push_bit 2 (enc AND 7)) rest
      else if mode = 1 then pbase32 ! unat (left OR drop_bit 6 enc) # pbase32 ! unat (drop_bit 1 enc AND 31) # enc32 2 (push_bit 4 (enc AND 1)) rest
      else if mode = 2 then pbase32 ! unat (left OR drop_bit 4 enc) # enc32 3 (push_bit 1 (enc AND 15)) rest
      else if mode = 3 then pbase32 ! unat (left OR drop_bit 7 enc) # pbase32 ! unat (drop_bit 2 enc AND 31) # enc32 4 (push_bit 3 (enc AND 3)) rest
      else pbase32 ! unat (left OR drop_bit 5 enc) # pbase32 ! unat (enc AND 31) # enc32 0 left rest)"

definition EncodeBase32 :: "valtype \<Rightarrow> valtype" where
  "EncodeBase32 vch = enc32 0 0 vch"

fun dec32 :: "nat \<Rightarrow> u32 \<Rightarrow> valtype \<Rightarrow> valtype \<times> nat \<times> u32 \<times> valtype" where
  "dec32 mode left [] = ([], mode, left, [])"
| "dec32 mode left (c # p) =
     (case decode32_table c of None \<Rightarrow> ([], mode, left, c # p)
      | Some dec \<Rightarrow>
          if mode = 0 then dec32 1 dec p
          else if mode = 1 then (let (v, r) = dec32 2 (dec AND 3) p in (ucast (push_bit 3 left OR drop_bit 2 dec) # v, r))
          else if mode = 2 then dec32 3 (push_bit 5 left OR dec) p
          else if mode = 3 then (let (v, r) = dec32 4 (dec AND 15) p in (ucast (push_bit 1 left OR drop_bit 4 dec) # v, r))
          else if mode = 4 then (let (v, r) = dec32 5 (dec AND 1) p in (ucast (push_bit 4 left OR drop_bit 1 dec) # v, r))
          else if mode = 5 then dec32 6 (push_bit 5 left OR dec) p
          else if mode = 6 then (let (v, r) = dec32 7 (dec AND 7) p in (ucast (push_bit 2 left OR drop_bit 3 dec) # v, r))
          else (let (v, r) = dec32 0 left p in (ucast (push_bit 5 left OR dec) # v, r)))"

definition DecodeBase32 :: "valtype \<Rightarrow> valtype \<times> bool" where
  "DecodeBase32 str =
     (let (vchRet, mode, left, p) = dec32 0 0 (c_str str); at = (\<lambda>n. deref (drop n p));
          padded = (\<lambda>k. \<not> (left \<noteq> 0 \<or> list_ex (\<lambda>n. at n \<noteq> 61) [0..<k] \<or> decode32_table (at k) \<noteq> None));
          fInvalid = (if mode = 0 then False
            else if mode = 1 \<or> mode = 3 \<or> mode = 6 then True
            else if mode = 2 then \<not> padded 6 else if mode = 4 then \<not> padded 4
            else if mode = 5 then \<not> padded 3 else \<not> padded 1)
      in (vchRet, fInvalid))"

section \<open>Base 58\<close>

definition pszBase58 :: valtype where
  "pszBase58 = text_of ''123456789ABCDEFGHJKLMNPQRSTUVWXYZabcdefghijkmnopqrstuvwxyz''"

text \<open>The digits, least significant first.\<close>

function base58_digits :: "BIGNUM \<Rightarrow> valtype" where
  "base58_digits bn = (if bn > 0 then pszBase58 ! nat (bn mod 58) # base58_digits (bn div 58) else [])"
  by pat_completeness auto
termination by (relation "measure nat") auto

declare base58_digits.simps [simp del]

definition EncodeBase58 :: "ext \<Rightarrow> valtype \<Rightarrow> valtype" where
  "EncodeBase58 E vch =
     (let vchTmp = rev vch @ [0]; bn = setvch E vchTmp
      in rev (base58_digits bn @ map (\<lambda>_. pszBase58 ! 0) (takeWhile (\<lambda>b. b = 0) vch)))"

text \<open>The place of a character in the alphabet (\<^verbatim>\<open>strchr\<close>).\<close>

fun char_index :: "byte \<Rightarrow> valtype \<Rightarrow> nat option" where
  "char_index c [] = None"
| "char_index c (d # ds) = (if c = d then Some 0 else map_option Suc (char_index c ds))"

fun base58_value :: "BIGNUM \<Rightarrow> valtype \<Rightarrow> BIGNUM option" where
  "base58_value bn [] = Some bn"
| "base58_value bn (c # p) =
     (case char_index c pszBase58 of
        None \<Rightarrow> if dropWhile isspace (c # p) \<noteq> [] then None else Some bn
      | Some n \<Rightarrow> base58_value (bn * 58 + int n) p)"

definition DecodeBase58 :: "ext \<Rightarrow> valtype \<Rightarrow> valtype option" where
  "DecodeBase58 E str =
     (let psz = dropWhile isspace (c_str str) in
      case base58_value 0 psz of None \<Rightarrow> None
      | Some bn \<Rightarrow>
          let vchTmp = getvch E bn;
              vchTmp = (if length vchTmp \<ge> 2 \<and> last vchTmp = 0 \<and> last (butlast vchTmp) \<ge> 0x80 then butlast vchTmp else vchTmp);
              nLeadingZeros = length (takeWhile (\<lambda>c. c = pszBase58 ! 0) psz)
          in Some (replicate nLeadingZeros 0 @ rev vchTmp))"

definition EncodeBase58Check :: "ext \<Rightarrow> valtype \<Rightarrow> valtype" where
  "EncodeBase58Check E vchIn = EncodeBase58 E (vchIn @ take 4 (ser_uint256 (Hash E vchIn)))"

definition DecodeBase58Check :: "ext \<Rightarrow> valtype \<Rightarrow> valtype option" where
  "DecodeBase58Check E psz =
     (case DecodeBase58 E psz of None \<Rightarrow> None
      | Some vchRet \<Rightarrow>
          if length vchRet < 4 then None
          else let data = take (length vchRet - 4) vchRet
               in if take 4 (ser_uint256 (Hash E data)) \<noteq> drop (length vchRet - 4) vchRet then None else Some data)"

section \<open>Addresses and secrets\<close>

record CBase58Data =
  b58_nVersion :: byte
  vchData :: valtype

definition CBase58Data_new :: CBase58Data where
  "CBase58Data_new = \<lparr> b58_nVersion = 0, vchData = [] \<rparr>"

definition b58_SetData :: "byte \<Rightarrow> valtype \<Rightarrow> CBase58Data" where
  "b58_SetData nVersionIn pdata = \<lparr> b58_nVersion = nVersionIn, vchData = pdata \<rparr>"

text \<open>A string that does not decode clears the object.\<close>

definition b58_SetString :: "ext \<Rightarrow> valtype \<Rightarrow> bool \<times> CBase58Data" where
  "b58_SetString E psz =
     (case DecodeBase58Check E psz of
        Some (v # data) \<Rightarrow> (True, \<lparr> b58_nVersion = v, vchData = data \<rparr>)
      | _ \<Rightarrow> (False, \<lparr> b58_nVersion = 0, vchData = [] \<rparr>))"

definition b58_ToString :: "ext \<Rightarrow> CBase58Data \<Rightarrow> valtype" where
  "b58_ToString E d = EncodeBase58Check E (b58_nVersion d # vchData d)"

definition PUBKEY_ADDRESS :: byte where "PUBKEY_ADDRESS = 34"
definition SCRIPT_ADDRESS :: byte where "SCRIPT_ADDRESS = 8"
definition PUBKEY_ADDRESS_TEST :: byte where "PUBKEY_ADDRESS_TEST = 111"
definition SCRIPT_ADDRESS_TEST :: byte where "SCRIPT_ADDRESS_TEST = 196"

definition addr_Set :: "bool \<Rightarrow> CTxDestination \<Rightarrow> bool \<times> CBase58Data" where
  "addr_Set fTestNet dest =
     (case dest of
        DestKey i \<Rightarrow> (True, b58_SetData (if fTestNet then PUBKEY_ADDRESS_TEST else PUBKEY_ADDRESS) (ser_uint160 i))
      | DestScript i \<Rightarrow> (True, b58_SetData (if fTestNet then SCRIPT_ADDRESS_TEST else SCRIPT_ADDRESS) (ser_uint160 i))
      | CNoDestination \<Rightarrow> (False, CBase58Data_new))"

definition addr_IsValid :: "bool \<Rightarrow> CBase58Data \<Rightarrow> bool" where
  "addr_IsValid fTestNet a =
     (if b58_nVersion a = PUBKEY_ADDRESS \<or> b58_nVersion a = SCRIPT_ADDRESS then False = fTestNet \<and> length (vchData a) = 20
      else if b58_nVersion a = PUBKEY_ADDRESS_TEST \<or> b58_nVersion a = SCRIPT_ADDRESS_TEST then True = fTestNet \<and> length (vchData a) = 20
      else False)"

definition addr_Get :: "bool \<Rightarrow> CBase58Data \<Rightarrow> CTxDestination" where
  "addr_Get fTestNet a =
     (if \<not> addr_IsValid fTestNet a then CNoDestination
      else let i = of_nat (le_nat (take 20 (vchData a)))
           in if b58_nVersion a = PUBKEY_ADDRESS \<or> b58_nVersion a = PUBKEY_ADDRESS_TEST then DestKey i
              else if b58_nVersion a = SCRIPT_ADDRESS \<or> b58_nVersion a = SCRIPT_ADDRESS_TEST then DestScript i
              else CNoDestination)"

definition addr_GetKeyID :: "bool \<Rightarrow> CBase58Data \<Rightarrow> CKeyID option" where
  "addr_GetKeyID fTestNet a =
     (if \<not> addr_IsValid fTestNet a then None
      else if b58_nVersion a = PUBKEY_ADDRESS \<or> b58_nVersion a = PUBKEY_ADDRESS_TEST then Some (of_nat (le_nat (take 20 (vchData a))))
      else None)"

definition addr_IsScript :: "bool \<Rightarrow> CBase58Data \<Rightarrow> bool" where
  "addr_IsScript fTestNet a \<longleftrightarrow>
     addr_IsValid fTestNet a \<and> (b58_nVersion a = SCRIPT_ADDRESS \<or> b58_nVersion a = SCRIPT_ADDRESS_TEST)"

text \<open>Secrets, of 32 bytes by an assertion.\<close>

definition secret_version :: "bool \<Rightarrow> byte" where
  "secret_version fTestNet = 128 + (if fTestNet then PUBKEY_ADDRESS_TEST else PUBKEY_ADDRESS)"

definition secret_SetSecret :: "bool \<Rightarrow> valtype \<Rightarrow> bool \<Rightarrow> CBase58Data option" where
  "secret_SetSecret fTestNet vchSecret fCompressed =
     (if length vchSecret \<noteq> 32 then None
      else let d = b58_SetData (secret_version fTestNet) vchSecret
           in Some (if fCompressed then d\<lparr> vchData := vchData d @ [1] \<rparr> else d))"

definition secret_GetSecret :: "CBase58Data \<Rightarrow> valtype \<times> bool" where
  "secret_GetSecret d = (take 32 (vchData d), length (vchData d) = 33)"

definition secret_IsValid :: "bool \<Rightarrow> CBase58Data \<Rightarrow> bool" where
  "secret_IsValid fTestNet d =
     (if b58_nVersion d = secret_version False \<or> b58_nVersion d = secret_version True
      then (b58_nVersion d = secret_version True) = fTestNet \<and>
        (length (vchData d) = 32 \<or> length (vchData d) = 33 \<and> vchData d ! 32 = 1)
      else False)"

definition secret_SetString :: "ext \<Rightarrow> bool \<Rightarrow> valtype \<Rightarrow> bool \<times> CBase58Data" where
  "secret_SetString E fTestNet psz = (let (ok, d) = b58_SetString E psz in (ok \<and> secret_IsValid fTestNet d, d))"

section \<open>Amounts\<close>

fun dec_digits :: "nat \<Rightarrow> valtype" where
  "dec_digits n = (if n < 10 then [48 + of_nat n] else dec_digits (n div 10) @ [48 + of_nat (n mod 10)])"

declare dec_digits.simps [simp del]

definition pad6 :: "valtype \<Rightarrow> valtype" where
  "pad6 s = replicate (6 - length s) 48 @ s"

text \<open>Trailing zeros go while a digit stands two places before them.\<close>

function trim_zeros :: "valtype \<Rightarrow> valtype" where
  "trim_zeros str =
     (if 3 \<le> length str \<and> last str = 48 \<and> isdigit (str ! (length str - 3)) then trim_zeros (butlast str) else str)"
  by pat_completeness auto
termination by (relation "measure length") auto

declare trim_zeros.simps [simp del]

definition FormatMoney :: "int \<Rightarrow> bool \<Rightarrow> valtype" where
  "FormatMoney n fPlus =
     (let n_abs = (if n > 0 then n else s64 (- n));
          quotient = tdiv n_abs COIN; remainder = n_abs - tdiv n_abs COIN * COIN;
          str = trim_zeros (dec_digits (nat quotient) @ [46] @ pad6 (dec_digits (nat remainder)))
      in if n < 0 then 45 # str else if fPlus \<and> n > 0 then 43 # str else str)"

fun money_fraction :: "int \<Rightarrow> int \<Rightarrow> valtype \<Rightarrow> int \<times> valtype" where
  "money_fraction nUnits nMult (c # p) =
     (if isdigit c \<and> nMult > 0 then money_fraction (nUnits + nMult * (uint c - 48)) (nMult div 10) p else (nUnits, c # p))"
| "money_fraction nUnits nMult [] = (nUnits, [])"

text \<open>The whole part, the units after the point and the rest of the text.\<close>

fun money_parts :: "valtype \<Rightarrow> valtype \<Rightarrow> (valtype \<times> int \<times> valtype) option" where
  "money_parts strWhole [] = Some (strWhole, 0, [])"
| "money_parts strWhole (c # p) =
     (if c = 46 then (let (nUnits, p) = money_fraction 0 (CENT * 10) p in Some (strWhole, nUnits, p))
      else if isspace c then Some (strWhole, 0, c # p)
      else if \<not> isdigit c then None
      else money_parts (strWhole @ [c]) p)"

definition dec_value :: "valtype \<Rightarrow> int" where
  "dec_value s = foldl (\<lambda>v c. v * 10 + (uint c - 48)) 0 s"

definition ParseMoney :: "valtype \<Rightarrow> int option" where
  "ParseMoney str =
     (case money_parts [] (dropWhile isspace (c_str str)) of None \<Rightarrow> None
      | Some (strWhole, nUnits, p) \<Rightarrow>
          if list_ex (\<lambda>c. \<not> isspace c) p then None
          else if length strWhole > 10 then None
          else if nUnits < 0 \<or> nUnits > COIN then None
          else Some (s64 (dec_value strWhole * COIN + nUnits)))"

section \<open>The tables are inverse to the alphabets\<close>

lemma table_inverse:
  assumes "list_all (\<lambda>n. tab (alph ! n) = Some (of_nat n)) [0..<k]" "unat x < k"
  shows "tab (alph ! unat x) = Some (x :: 'a :: len word)"
  using assms by (auto simp: list_all_iff)

lemma hex_table: "n < 16 \<Longrightarrow> phexdigit (hexmap ! unat n) = Some n"
  by (rule table_inverse [where k = 16]) (code_simp, simp add: word_less_nat_alt)

lemma table64: "n < 64 \<Longrightarrow> decode64_table (pbase64 ! unat n) = Some n"
  by (rule table_inverse [where k = 64]) (code_simp, simp add: word_less_nat_alt)

lemma table32: "n < 32 \<Longrightarrow> decode32_table (pbase32 ! unat n) = Some n"
  by (rule table_inverse [where k = 32]) (code_simp, simp add: word_less_nat_alt)

lemma masks:
  "x AND 1 = take_bit 1 (x :: 'a :: len word)" "x AND 3 = take_bit 2 x" "x AND 7 = take_bit 3 x" "x AND 15 = take_bit 4 x"
  "x AND 31 = take_bit 5 x" "x AND 63 = take_bit 6 x"
  by (simp_all add: take_bit_eq_mask mask_eq_exp_minus_1)

lemma below_exp:
  assumes "\<And>m. n \<le> m \<Longrightarrow> m < 32 \<Longrightarrow> \<not> bit x m" "n < 32"
  shows "(x :: u32) < 2 ^ n"
proof -
  have "take_bit n x = x" using assms(1) by (intro bit_word_eqI) (auto simp: bit_simps, meson not_le)
  then have "unat x = take_bit n (unat x)" by (metis unsigned_take_bit_eq)
  also have "\<dots> < 2 ^ n" by (rule take_bit_nat_less_exp)
  finally have "unat x < 2 ^ n" .
  moreover have "unat (2 ^ n :: u32) = 2 ^ n" using power_strict_increasing [OF assms(2), of "2 :: nat"] unat_of_nat [where 'a = 32, of "2 ^ n"] by simp
  ultimately show ?thesis by (simp add: word_less_nat_alt)
qed

lemma byte_eq_iff:
  "(a :: byte) = b \<longleftrightarrow> bit a 0 = bit b 0 \<and> bit a 1 = bit b 1 \<and> bit a 2 = bit b 2 \<and> bit a 3 = bit b 3 \<and>
    bit a 4 = bit b 4 \<and> bit a 5 = bit b 5 \<and> bit a 6 = bit b 6 \<and> bit a 7 = bit b 7"
proof
  assume bits: "bit a 0 = bit b 0 \<and> bit a 1 = bit b 1 \<and> bit a 2 = bit b 2 \<and> bit a 3 = bit b 3 \<and>
    bit a 4 = bit b 4 \<and> bit a 5 = bit b 5 \<and> bit a 6 = bit b 6 \<and> bit a 7 = bit b 7"
  show "a = b"
  proof (rule bit_word_eqI)
    fix n
    assume "n < LENGTH(8)"
    then consider "n = 0" | "n = 1" | "n = 2" | "n = 3" | "n = 4" | "n = 5" | "n = 6" | "n = 7" by fastforce
    then show "bit a n = bit b n" using bits by cases simp_all
  qed
qed simp

lemma byte_high: "8 \<le> n \<Longrightarrow> \<not> bit (a :: byte) n"
  using bit_imp_le_length [of a n] by auto

lemma low_bits: "odd (ucast b :: u32) = bit (b :: byte) 0" "Suc (Suc 0) = 2" "Suc (Suc (Suc 0)) = 3"
  by (simp_all add: bit_0 [symmetric] bit_simps del: bit_0)

lemma group64:
  fixes a b c :: byte
  defines "x \<equiv> (ucast a :: u32)" and "y \<equiv> (ucast b :: u32)" and "z \<equiv> (ucast c :: u32)"
  shows "drop_bit 2 x < 64" "push_bit 4 (x AND 3) OR drop_bit 4 y < 64" "push_bit 2 (y AND 15) OR drop_bit 6 z < 64" "z AND 63 < 64"
    "push_bit 4 (x AND 3) < 64" "push_bit 2 (y AND 15) < 64"
    "ucast (push_bit 2 (drop_bit 2 x) OR drop_bit 4 (push_bit 4 (x AND 3) OR drop_bit 4 y)) = a"
    "ucast (push_bit 2 (drop_bit 2 x) OR drop_bit 4 (push_bit 4 (x AND 3))) = a"
    "ucast (push_bit 4 ((push_bit 4 (x AND 3) OR drop_bit 4 y) AND 15) OR drop_bit 2 (push_bit 2 (y AND 15) OR drop_bit 6 z)) = b"
    "ucast (push_bit 4 ((push_bit 4 (x AND 3) OR drop_bit 4 y) AND 15) OR drop_bit 2 (push_bit 2 (y AND 15))) = b"
    "ucast (push_bit 6 ((push_bit 2 (y AND 15) OR drop_bit 6 z) AND 3) OR (z AND 63)) = c"
    "push_bit 4 (x AND 3) AND 15 = 0" "push_bit 2 (y AND 15) AND 3 = 0"
proof -
  note lt = below_exp [where n = 6, simplified] and d = x_def y_def z_def masks bit_simps
  show "drop_bit 2 x < 64" "push_bit 4 (x AND 3) OR drop_bit 4 y < 64" "push_bit 2 (y AND 15) OR drop_bit 6 z < 64" "z AND 63 < 64"
    "push_bit 4 (x AND 3) < 64" "push_bit 2 (y AND 15) < 64"
    by (rule lt; fastforce simp: d dest: bit_imp_le_length)+
  show "ucast (push_bit 2 (drop_bit 2 x) OR drop_bit 4 (push_bit 4 (x AND 3) OR drop_bit 4 y)) = a"
    "ucast (push_bit 2 (drop_bit 2 x) OR drop_bit 4 (push_bit 4 (x AND 3))) = a"
    "ucast (push_bit 4 ((push_bit 4 (x AND 3) OR drop_bit 4 y) AND 15) OR drop_bit 2 (push_bit 2 (y AND 15) OR drop_bit 6 z)) = b"
    "ucast (push_bit 4 ((push_bit 4 (x AND 3) OR drop_bit 4 y) AND 15) OR drop_bit 2 (push_bit 2 (y AND 15))) = b"
    "ucast (push_bit 6 ((push_bit 2 (y AND 15) OR drop_bit 6 z) AND 3) OR (z AND 63)) = c"
    by (simp_all add: byte_eq_iff d byte_high bit_iff_odd_drop_bit [symmetric] low_bits del: push_bit_Suc bit_0)
  show "push_bit 4 (x AND 3) AND 15 = 0" "push_bit 2 (y AND 15) AND 3 = 0"
    by (rule bit_word_eqI; auto simp: d simp del: push_bit_Suc bit_0)+
qed

lemma group32:
  fixes a b c d e :: byte
  defines "v \<equiv> (ucast a :: u32)" and "w \<equiv> (ucast b :: u32)" and "x \<equiv> (ucast c :: u32)" and "y \<equiv> (ucast d :: u32)" and "z \<equiv> (ucast e :: u32)"
  shows "drop_bit 3 v < 32" "push_bit 2 (v AND 7) OR drop_bit 6 w < 32" "drop_bit 1 w AND 31 < 32" "push_bit 4 (w AND 1) OR drop_bit 4 x < 32"
    "push_bit 1 (x AND 15) OR drop_bit 7 y < 32" "drop_bit 2 y AND 31 < 32" "push_bit 3 (y AND 3) OR drop_bit 5 z < 32" "z AND 31 < 32"
    "push_bit 2 (v AND 7) < 32" "push_bit 4 (w AND 1) < 32" "push_bit 1 (x AND 15) < 32" "push_bit 3 (y AND 3) < 32"
    "ucast (push_bit 3 (drop_bit 3 v) OR drop_bit 2 (push_bit 2 (v AND 7) OR drop_bit 6 w)) = a"
    "ucast (push_bit 3 (drop_bit 3 v) OR drop_bit 2 (push_bit 2 (v AND 7))) = a"
    "ucast (push_bit 1 (push_bit 5 ((push_bit 2 (v AND 7) OR drop_bit 6 w) AND 3) OR (drop_bit 1 w AND 31)) OR drop_bit 4 (push_bit 4 (w AND 1) OR drop_bit 4 x)) = b"
    "ucast (push_bit 1 (push_bit 5 ((push_bit 2 (v AND 7) OR drop_bit 6 w) AND 3) OR (drop_bit 1 w AND 31)) OR drop_bit 4 (push_bit 4 (w AND 1))) = b"
    "ucast (push_bit 4 ((push_bit 4 (w AND 1) OR drop_bit 4 x) AND 15) OR drop_bit 1 (push_bit 1 (x AND 15) OR drop_bit 7 y)) = c"
    "ucast (push_bit 4 ((push_bit 4 (w AND 1) OR drop_bit 4 x) AND 15) OR drop_bit 1 (push_bit 1 (x AND 15))) = c"
    "ucast (push_bit 2 (push_bit 5 ((push_bit 1 (x AND 15) OR drop_bit 7 y) AND 1) OR (drop_bit 2 y AND 31)) OR drop_bit 3 (push_bit 3 (y AND 3) OR drop_bit 5 z)) = d"
    "ucast (push_bit 2 (push_bit 5 ((push_bit 1 (x AND 15) OR drop_bit 7 y) AND 1) OR (drop_bit 2 y AND 31)) OR drop_bit 3 (push_bit 3 (y AND 3))) = d"
    "ucast (push_bit 5 ((push_bit 3 (y AND 3) OR drop_bit 5 z) AND 7) OR (z AND 31)) = e"
    "push_bit 2 (v AND 7) AND 3 = 0" "push_bit 4 (w AND 1) AND 15 = 0" "push_bit 1 (x AND 15) AND 1 = 0" "push_bit 3 (y AND 3) AND 7 = 0"
proof -
  note lt = below_exp [where n = 5, simplified] and d = v_def w_def x_def y_def z_def masks bit_simps
  show "drop_bit 3 v < 32" "push_bit 2 (v AND 7) OR drop_bit 6 w < 32" "drop_bit 1 w AND 31 < 32" "push_bit 4 (w AND 1) OR drop_bit 4 x < 32"
    "push_bit 1 (x AND 15) OR drop_bit 7 y < 32" "drop_bit 2 y AND 31 < 32" "push_bit 3 (y AND 3) OR drop_bit 5 z < 32" "z AND 31 < 32"
    "push_bit 2 (v AND 7) < 32" "push_bit 4 (w AND 1) < 32" "push_bit 1 (x AND 15) < 32" "push_bit 3 (y AND 3) < 32"
    by (rule lt; fastforce simp: d simp del: push_bit_Suc bit_0 dest: bit_imp_le_length)+
  show "ucast (push_bit 3 (drop_bit 3 v) OR drop_bit 2 (push_bit 2 (v AND 7) OR drop_bit 6 w)) = a"
    "ucast (push_bit 3 (drop_bit 3 v) OR drop_bit 2 (push_bit 2 (v AND 7))) = a"
    "ucast (push_bit 1 (push_bit 5 ((push_bit 2 (v AND 7) OR drop_bit 6 w) AND 3) OR (drop_bit 1 w AND 31)) OR drop_bit 4 (push_bit 4 (w AND 1) OR drop_bit 4 x)) = b"
    "ucast (push_bit 1 (push_bit 5 ((push_bit 2 (v AND 7) OR drop_bit 6 w) AND 3) OR (drop_bit 1 w AND 31)) OR drop_bit 4 (push_bit 4 (w AND 1))) = b"
    "ucast (push_bit 4 ((push_bit 4 (w AND 1) OR drop_bit 4 x) AND 15) OR drop_bit 1 (push_bit 1 (x AND 15) OR drop_bit 7 y)) = c"
    "ucast (push_bit 4 ((push_bit 4 (w AND 1) OR drop_bit 4 x) AND 15) OR drop_bit 1 (push_bit 1 (x AND 15))) = c"
    "ucast (push_bit 2 (push_bit 5 ((push_bit 1 (x AND 15) OR drop_bit 7 y) AND 1) OR (drop_bit 2 y AND 31)) OR drop_bit 3 (push_bit 3 (y AND 3) OR drop_bit 5 z)) = d"
    "ucast (push_bit 2 (push_bit 5 ((push_bit 1 (x AND 15) OR drop_bit 7 y) AND 1) OR (drop_bit 2 y AND 31)) OR drop_bit 3 (push_bit 3 (y AND 3))) = d"
    "ucast (push_bit 5 ((push_bit 3 (y AND 3) OR drop_bit 5 z) AND 7) OR (z AND 31)) = e"
    by (simp_all add: byte_eq_iff d byte_high bit_iff_odd_drop_bit [symmetric] low_bits del: push_bit_Suc bit_0)
  show "push_bit 2 (v AND 7) AND 3 = 0" "push_bit 4 (w AND 1) AND 15 = 0" "push_bit 1 (x AND 15) AND 1 = 0" "push_bit 3 (y AND 3) AND 7 = 0"
    by (rule bit_word_eqI; auto simp: d simp del: push_bit_Suc bit_0)+
qed

section \<open>Decoding what was encoded\<close>

lemma triples_induct [case_names Nil One Two Step]:
  assumes "P []" "\<And>a. P [a]" "\<And>a b. P [a, b]" "\<And>a b c xs. P xs \<Longrightarrow> P (a # b # c # xs)"
  shows "P (xs :: 'a list)"
proof (induction "length xs" arbitrary: xs rule: less_induct)
  case less
  show ?case
  proof (cases xs)
    case (Cons a ys)
    then show ?thesis using assms less by (cases ys; cases "tl ys") auto
  qed (use assms in simp)
qed

lemma quintuples_induct [case_names Nil One Two Three Four Step]:
  assumes "P []" "\<And>a. P [a]" "\<And>a b. P [a, b]" "\<And>a b c. P [a, b, c]" "\<And>a b c d. P [a, b, c, d]"
    "\<And>a b c d e xs. P xs \<Longrightarrow> P (a # b # c # d # e # xs)"
  shows "P (xs :: 'a list)"
proof (induction "length xs" arbitrary: xs rule: less_induct)
  case less
  consider "xs = []" | a where "xs = [a]" | a b where "xs = [a, b]" | a b c where "xs = [a, b, c]"
    | a b c d where "xs = [a, b, c, d]" | a b c d e ys where "xs = a # b # c # d # e # ys"
    by (metis list.exhaust)
  then show ?case using assms less by cases auto
qed

lemma pad_char: "decode64_table 61 = None" "decode32_table 61 = None" "decode64_table 0 = None" "decode32_table 0 = None"
  by (simp_all add: decode64_table_def decode32_table_def)

lemma pads: "replicate 6 (61 :: byte) = 61 # replicate 5 61" "replicate 4 (61 :: byte) = 61 # replicate 3 61" "replicate 3 (61 :: byte) = 61 # replicate 2 61"
  by (simp_all add: numeral_eq_Suc)

lemma alphabet_nz:
  fixes n :: u32
  shows "n < 64 \<Longrightarrow> pbase64 ! unat n \<noteq> 0" "n < 64 \<Longrightarrow> 0 \<noteq> pbase64 ! unat n" "n < 32 \<Longrightarrow> pbase32 ! unat n \<noteq> 0"
  "n < 32 \<Longrightarrow> 0 \<noteq> pbase32 ! unat n"
  using table64 [of n] table32 [of n] pad_char by auto

lemma dec_enc64:
  "\<exists>mode left p. dec64 0 l' (enc64 0 l v) = (v, mode, left, p) \<and> 0 \<notin> set (enc64 0 l v) \<and>
    (mode = 0 \<and> p = [] \<or> mode = 2 \<and> left = 0 \<and> p = [61, 61] \<or> mode = 3 \<and> left = 0 \<and> p = [61])"
proof (induction v arbitrary: l l' rule: triples_induct)
  case (Step a b c xs)
  define x y z where "x = (ucast a :: u32)" and "y = (ucast b :: u32)" and "z = (ucast c :: u32)"
  define n0 n1 n2 n3 where n: "n0 = drop_bit 2 x" "n1 = push_bit 4 (x AND 3) OR drop_bit 4 y"
    "n2 = push_bit 2 (y AND 15) OR drop_bit 6 z" "n3 = z AND 63"
  have e: "enc64 0 l (a # b # c # xs) = pbase64 ! unat n0 # pbase64 ! unat n1 # pbase64 ! unat n2 # pbase64 ! unat n3 # enc64 0 (push_bit 2 (y AND 15)) xs"
    by (simp add: Let_def n x_def y_def z_def)
  note g = group64(1) [of a] group64(2,7) [of a b] group64(3,11) [of b c] group64(4) [of c] group64(9) [of a b c]
  note g = g [folded x_def y_def z_def, folded n]
  obtain m le p where "dec64 0 (n2 AND 3) (enc64 0 (push_bit 2 (y AND 15)) xs) = (xs, m, le, p)"
    "0 \<notin> set (enc64 0 (push_bit 2 (y AND 15)) xs)" "m = 0 \<and> p = [] \<or> m = 2 \<and> le = 0 \<and> p = [61, 61] \<or> m = 3 \<and> le = 0 \<and> p = [61]" using Step.IH by blast
  then show ?case unfolding e using g by (simp add: Let_def table64 alphabet_nz)
next
  case (One a)
  define x where "x = (ucast a :: u32)"
  define n0 n1 where n: "n0 = drop_bit 2 x" "n1 = push_bit 4 (x AND 3)"
  have e: "enc64 0 l [a] = [pbase64 ! unat n0, pbase64 ! unat n1, 61, 61]" by (simp add: Let_def n x_def)
  show ?case unfolding e using group64(1,5,8,12) [of a, folded x_def, folded n] by (simp add: Let_def table64 alphabet_nz pad_char)
next
  case (Two a b)
  define x y where "x = (ucast a :: u32)" and "y = (ucast b :: u32)"
  define n0 n1 n2 where n: "n0 = drop_bit 2 x" "n1 = push_bit 4 (x AND 3) OR drop_bit 4 y" "n2 = push_bit 2 (y AND 15)"
  have e: "enc64 0 l [a, b] = [pbase64 ! unat n0, pbase64 ! unat n1, pbase64 ! unat n2, 61]" by (simp add: Let_def n x_def y_def)
  note g = group64(1) [of a, folded x_def, folded n] group64(2,7) [of a b, folded x_def y_def, folded n]
    group64(6,13) [of b, folded y_def, folded n] group64(10) [of a b, folded x_def y_def, folded n]
  show ?case unfolding e using g by (simp add: Let_def table64 alphabet_nz pad_char)
qed simp

lemma dec_enc32:
  "\<exists>mode left p. dec32 0 l' (enc32 0 l v) = (v, mode, left, p) \<and> 0 \<notin> set (enc32 0 l v) \<and>
    (mode = 0 \<and> p = [] \<or> (mode, length p) \<in> {(2, 6), (4, 4), (5, 3), (7, 1)} \<and> left = 0 \<and> p = replicate (length p) 61)"
proof (induction v arbitrary: l l' rule: quintuples_induct)
  case (Step a b c d e xs)
  define v w x y z where "v = (ucast a :: u32)" and "w = (ucast b :: u32)" and "x = (ucast c :: u32)" and "y = (ucast d :: u32)" and "z = (ucast e :: u32)"
  note u = v_def w_def x_def y_def z_def
  define n0 n1 n2 n3 n4 n5 n6 n7 where n: "n0 = drop_bit 3 v" "n1 = push_bit 2 (v AND 7) OR drop_bit 6 w" "n2 = drop_bit 1 w AND 31"
    "n3 = push_bit 4 (w AND 1) OR drop_bit 4 x" "n4 = push_bit 1 (x AND 15) OR drop_bit 7 y" "n5 = drop_bit 2 y AND 31"
    "n6 = push_bit 3 (y AND 3) OR drop_bit 5 z" "n7 = z AND 31"
  have enc: "enc32 0 l (a # b # c # d # e # xs) = map (\<lambda>n. pbase32 ! unat n) [n0, n1, n2, n3, n4, n5, n6, n7] @ enc32 0 (push_bit 3 (y AND 3)) xs"
    by (simp add: Let_def n u)
  note g = group32(1) [of a] group32(2,13) [of a b] group32(3) [of b] group32(4) [of b c] group32(5) [of c d] group32(6) [of d]
    group32(7,21) [of d e] group32(8) [of e] group32(15) [of a b c] group32(17) [of b c d] group32(19) [of c d e]
  note g = g [folded u, folded n]
  obtain m le p where "dec32 0 (n6 AND 7) (enc32 0 (push_bit 3 (y AND 3)) xs) = (xs, m, le, p)"
    "0 \<notin> set (enc32 0 (push_bit 3 (y AND 3)) xs)" "m = 0 \<and> p = [] \<or> (m, length p) \<in> {(2, 6), (4, 4), (5, 3), (7, 1)} \<and> le = 0 \<and> p = replicate (length p) 61" using Step.IH by blast
  then show ?case unfolding enc using g by (simp add: Let_def table32 alphabet_nz)
next
  case (One a)
  define v where "v = (ucast a :: u32)"
  define n0 n1 where n: "n0 = drop_bit 3 v" "n1 = push_bit 2 (v AND 7)"
  have e: "enc32 0 l [a] = pbase32 ! unat n0 # pbase32 ! unat n1 # replicate 6 61" by (simp add: Let_def n v_def nPadding_def)
  show ?case unfolding e using group32(1,9,14,22) [of a, folded v_def, folded n] by (simp add: Let_def table32 alphabet_nz pad_char pads)
next
  case (Two a b)
  define v w where "v = (ucast a :: u32)" and "w = (ucast b :: u32)"
  define n0 n1 n2 n3 where n: "n0 = drop_bit 3 v" "n1 = push_bit 2 (v AND 7) OR drop_bit 6 w" "n2 = drop_bit 1 w AND 31" "n3 = push_bit 4 (w AND 1)"
  have e: "enc32 0 l [a, b] = map (\<lambda>n. pbase32 ! unat n) [n0, n1, n2, n3] @ replicate 4 61" by (simp add: Let_def n v_def w_def nPadding_def)
  note g = group32(1) [of a] group32(2,13,16) [of a b] group32(3,10,23) [of b]
  note g = g [folded v_def w_def, folded n]
  show ?case unfolding e using g by (simp add: Let_def table32 alphabet_nz pad_char pads)
next
  case (Three a b c)
  define v w x where "v = (ucast a :: u32)" and "w = (ucast b :: u32)" and "x = (ucast c :: u32)"
  define n0 n1 n2 n3 n4 where n: "n0 = drop_bit 3 v" "n1 = push_bit 2 (v AND 7) OR drop_bit 6 w" "n2 = drop_bit 1 w AND 31"
    "n3 = push_bit 4 (w AND 1) OR drop_bit 4 x" "n4 = push_bit 1 (x AND 15)"
  have e: "enc32 0 l [a, b, c] = map (\<lambda>n. pbase32 ! unat n) [n0, n1, n2, n3, n4] @ replicate 3 61"
    by (simp add: Let_def n v_def w_def x_def nPadding_def)
  note g = group32(1) [of a] group32(2,13) [of a b] group32(3) [of b] group32(4,18) [of b c] group32(11,24) [of c] group32(15) [of a b c]
  note g = g [folded v_def w_def x_def, folded n]
  show ?case unfolding e using g by (simp add: Let_def table32 alphabet_nz pad_char pads)
next
  case (Four a b c d)
  define v w x y where "v = (ucast a :: u32)" and "w = (ucast b :: u32)" and "x = (ucast c :: u32)" and "y = (ucast d :: u32)"
  define n0 n1 n2 n3 n4 n5 n6 where n: "n0 = drop_bit 3 v" "n1 = push_bit 2 (v AND 7) OR drop_bit 6 w" "n2 = drop_bit 1 w AND 31"
    "n3 = push_bit 4 (w AND 1) OR drop_bit 4 x" "n4 = push_bit 1 (x AND 15) OR drop_bit 7 y" "n5 = drop_bit 2 y AND 31" "n6 = push_bit 3 (y AND 3)"
  have e: "enc32 0 l [a, b, c, d] = map (\<lambda>n. pbase32 ! unat n) [n0, n1, n2, n3, n4, n5, n6] @ [61]"
    by (simp add: Let_def n v_def w_def x_def y_def nPadding_def)
  note g = group32(1) [of a] group32(2,13) [of a b] group32(3) [of b] group32(4) [of b c] group32(5,20) [of c d] group32(6,12,25) [of d]
    group32(15) [of a b c] group32(17) [of b c d]
  note g = g [folded v_def w_def x_def y_def, folded n]
  show ?case unfolding e using g by (simp add: Let_def table32 alphabet_nz pad_char)
qed simp

lemma c_str_id: "0 \<notin> set s \<Longrightarrow> c_str s = s"
  by (auto simp: c_str_def takeWhile_eq_all_conv)

lemma base64_roundtrip: "DecodeBase64 (EncodeBase64 v) = (v, False)"
proof -
  obtain m le p where "dec64 0 0 (enc64 0 0 v) = (v, m, le, p)" "0 \<notin> set (enc64 0 0 v)"
    "m = 0 \<and> p = [] \<or> m = 2 \<and> le = 0 \<and> p = [61, 61] \<or> m = 3 \<and> le = 0 \<and> p = [61]" using dec_enc64 [of 0 0 v] by blast
  then show ?thesis by (auto simp: DecodeBase64_def EncodeBase64_def c_str_id deref_def pad_char)
qed

lemma base32_roundtrip: "DecodeBase32 (EncodeBase32 v) = (v, False)"
proof -
  obtain m le p where d: "dec32 0 0 (enc32 0 0 v) = (v, m, le, p)" "0 \<notin> set (enc32 0 0 v)"
    "m = 0 \<and> p = [] \<or> (m, length p) \<in> {(2, 6), (4, 4), (5, 3), (7, 1)} \<and> le = 0 \<and> p = replicate (length p) 61" using dec_enc32 [of 0 0 v] by blast
  have "deref (drop n (replicate k 61)) = (if n < k then 61 else 0)" for n k :: nat
    by (auto simp: deref_def split: list.splits) (metis in_set_replicate list.set_intros(1))
  then have "\<not> list_ex (\<lambda>n. deref (drop n p) \<noteq> 61) [0..<length p] \<and> deref (drop (length p) p) = 0" if "p = replicate (length p) 61"
    using that by (metis (mono_tags, lifting) atLeast_upt drop_all lessThan_iff list_ex_iff order_refl order_less_irrefl)
  then show ?thesis using d by (auto simp: DecodeBase32_def EncodeBase32_def c_str_id pad_char Let_def)
qed

lemma HexStr_Cons: "HexStr (b # v) = hexmap ! unat (drop_bit 4 b) # hexmap ! unat (b AND 15) # HexStr v"
  by (simp add: HexStr_def)

lemma hex_bounds: "drop_bit 4 b < (16 :: byte)" "b AND 15 < (16 :: byte)" "push_bit 4 (drop_bit 4 b) OR (b AND 15) = (b :: byte)"
proof -
  have "unat b < 2 ^ LENGTH(8)" by (rule unsigned_less)
  then have "unat b div 16 < 16" by (intro less_mult_imp_div_less) (simp del: unsigned_less)
  then have "unat (drop_bit 4 b) < 16" by (simp add: drop_bit_eq_div unat_div)
  then show "drop_bit 4 b < 16" by (simp add: word_less_nat_alt)
  have "unat (b AND 15) < 16" unfolding masks by (simp add: unsigned_take_bit_eq take_bit_nat_less_exp [of 4, simplified])
  then show "b AND 15 < 16" by (simp add: word_less_nat_alt)
  show "push_bit 4 (drop_bit 4 b) OR (b AND 15) = b" by (simp add: byte_eq_iff masks bit_simps byte_high low_bits)
qed

lemma hex_char: "(n :: byte) < 16 \<Longrightarrow> \<not> isspace (hexmap ! unat n) \<and> hexmap ! unat n \<noteq> 0"
  using hex_table [of n] by (auto simp: phexdigit_def isspace_def word_le_nat_alt split: if_splits)

lemma parse_HexStr: "parse_hex (HexStr v) = v"
proof (induction v)
  case (Cons b v)
  have "dropWhile isspace (HexStr (b # v)) = HexStr (b # v)" using hex_char [OF hex_bounds(1)] by (simp add: HexStr_Cons)
  then show ?case by (subst parse_hex.simps) (simp add: HexStr_Cons hex_table hex_bounds Cons.IH)
qed (simp add: HexStr_def parse_hex.simps)

lemma hex_roundtrip: "ParseHex (HexStr v) = v" "v \<noteq> [] \<Longrightarrow> IsHex (HexStr v)"
proof -
  have nz: "0 \<notin> set (HexStr v)" using hex_char hex_bounds by (induction v) (auto simp: HexStr_def)
  show "ParseHex (HexStr v) = v" by (simp add: ParseHex_def c_str_id [OF nz] parse_HexStr)
  have "list_all (\<lambda>c. phexdigit c \<noteq> None) (HexStr v) \<and> even (length (HexStr v))"
    by (induction v) (auto simp: HexStr_Cons hex_table hex_bounds, simp_all add: HexStr_def)
  then show "IsHex (HexStr v)" if "v \<noteq> []" using that by (auto simp: IsHex_def even_iff_mod_2_eq_zero) (simp add: HexStr_def)
qed

section \<open>Base 58\<close>

lemma alphabet58_distinct: "distinct pszBase58 \<and> length pszBase58 = 58 \<and> list_all (\<lambda>c. \<not> isspace c \<and> c \<noteq> 0) pszBase58"
  by (simp add: pszBase58_def isspace_def)

lemma char_index_nth: "distinct s \<Longrightarrow> k < length s \<Longrightarrow> char_index (s ! k) s = Some k"
proof (induction s arbitrary: k)
  case (Cons c s)
  then show ?case by (cases k) auto
qed simp

lemma alphabet58:
  "k < 58 \<Longrightarrow> char_index (pszBase58 ! k) pszBase58 = Some k \<and> \<not> isspace (pszBase58 ! k) \<and> pszBase58 ! k \<noteq> 0"
  using alphabet58_distinct char_index_nth [of pszBase58 k] by (auto simp: list_all_length)

abbreviation in_alphabet :: "valtype \<Rightarrow> bool" where
  "in_alphabet s \<equiv> \<forall>c \<in> set s. \<exists>k < 58. c = pszBase58 ! k"

lemma base58_value_append: "in_alphabet s \<Longrightarrow> base58_value a (s @ t) = base58_value (the (base58_value a s)) t"
  by (induction s arbitrary: a) (auto simp: alphabet58)

lemma base58_value_some: "in_alphabet s \<Longrightarrow> \<exists>v. base58_value a s = Some v"
  by (induction s arbitrary: a) (auto simp: alphabet58)

lemma base58_digits_alphabet: "in_alphabet (base58_digits n)"
proof (induction n rule: base58_digits.induct)
  case (1 n)
  have "nat (n mod 58) < 58" by (simp add: nat_less_iff)
  then show ?case using 1 by (subst base58_digits.simps) auto
qed

lemma base58_digits_value: "0 \<le> n \<Longrightarrow> base58_value 0 (rev (base58_digits n)) = Some n"
proof (induction n rule: base58_digits.induct)
  case (1 n)
  show ?case
  proof (cases "n > 0")
    case True
    have k: "nat (n mod 58) < 58" by (simp add: nat_less_iff)
    have "base58_value 0 (rev (base58_digits (n div 58)) @ [pszBase58 ! nat (n mod 58)]) = Some (n div 58 * 58 + n mod 58)"
      using 1 True alphabet58 [OF k] base58_digits_alphabet [of "n div 58"] by (subst base58_value_append) auto
    then show ?thesis using True by (subst base58_digits.simps) simp
  qed (use 1 in \<open>simp add: base58_digits.simps\<close>)
qed

lemma base58_digits_top: "0 < n \<Longrightarrow> base58_digits n \<noteq> [] \<and> last (base58_digits n) \<noteq> pszBase58 ! 0"
proof (induction n rule: base58_digits.induct)
  case (1 n)
  show ?case
  proof (cases "n div 58 > 0")
    case True
    then show ?thesis using 1 by (subst (1 2) base58_digits.simps) simp
  next
    case False
    then have "n < 58" "n mod 58 = n" using 1(2) by auto
    then have "char_index (pszBase58 ! nat n) pszBase58 = Some (nat n)" "char_index (pszBase58 ! 0) pszBase58 = Some 0"
      using 1(2) alphabet58 [of "nat n"] alphabet58 [of 0] by auto
    then have "pszBase58 ! nat n \<noteq> pszBase58 ! 0" using 1(2) by auto
    moreover have "base58_digits n = [pszBase58 ! nat n]" using 1(2) False \<open>n mod 58 = n\<close>
      by (subst base58_digits.simps, subst base58_digits.simps) simp
    ultimately show ?thesis by simp
  qed
qed

lemma mag_bytes_be_nat: "bs = [] \<or> hd bs \<noteq> 0 \<Longrightarrow> mag_bytes (be_nat bs) = bs"
proof (induction bs rule: rev_induct)
  case (snoc b bs)
  have e: "be_nat (bs @ [b]) = be_nat bs * 256 + unat b" by (simp add: be_nat_def)
  have lt: "unat b < 256" using unat_byte_less by simp
  have IH: "mag_bytes (be_nat bs) = bs" using snoc by (cases bs) auto
  have nz: "be_nat (bs @ [b]) \<noteq> 0"
  proof (cases bs)
    case Nil
    then show ?thesis using snoc.prems e by (simp add: be_nat_def unat_eq_0)
  next
    case (Cons c cs)
    then have "bs = mag_bytes (be_nat bs)" "bs \<noteq> []" using IH by auto
    then have "be_nat bs \<noteq> 0" by (metis mag_bytes_Nil)
    then show ?thesis using e by simp
  qed
  have last: "(of_nat (be_nat bs * 256 + unat b) :: byte) = b"
    using lt by (intro word_unat_eq_iff [THEN iffD2]) (simp only: unat_of_nat_byte mod_mult_self3 mod_less)
  have "(be_nat bs * 256 + unat b) div 256 = be_nat bs" using lt by simp
  then have "mag_bytes (be_nat bs * 256 + unat b) = mag_bytes (be_nat bs) @ [of_nat (be_nat bs * 256 + unat b)]"
    using nz unfolding e by (subst mag_bytes.simps) (simp only: if_False)
  then show ?case unfolding e IH last .
qed (simp add: mag_bytes_Nil be_nat_def)

lemma be_nat_zeros: "be_nat (replicate z 0 @ bs) = be_nat bs"
  by (induction z) (simp_all add: be_nat_Cons)

text \<open>The bytes the decoder keeps of a number are those of its magnitude.\<close>

lemma trimmed_bytes:
  assumes "mpi_documented E" "0 \<le> n"
  shows "rev (let v = getvch E n in if length v \<ge> 2 \<and> last v = 0 \<and> last (butlast v) \<ge> 0x80 then butlast v else v) = mag_bytes (nat n)"
proof (cases "mag_bytes (nat n)")
  case Nil
  then show ?thesis using assms by (simp add: getvch_enc mpi_enc_def Let_def)
next
  case (Cons b bs)
  have b0: "b \<noteq> 0" using mag_bytes_hd [of "nat n"] Cons by (metis list.distinct(1) list.sel(1) mag_bytes_Nil)
  have ge: "0x80 \<le> b \<longleftrightarrow> bit b 7" by (simp add: byte_bit7 word_le_nat_alt)
  have "getvch E n = rev (if bit b 7 then 0 # b # bs else b # bs)" using assms Cons by (simp add: getvch_enc mpi_enc_def)
  then show ?thesis using Cons b0 ge by (simp add: Let_def butlast_append last_append)
qed

lemma base58_roundtrip:
  assumes "mpi_documented E" "length v + 1 < 2 ^ 32"
  shows "DecodeBase58 E (EncodeBase58 E v) = Some v"
proof -
  define z where "z = length (takeWhile (\<lambda>b. b = 0) v)"
  define w where "w = dropWhile (\<lambda>b. b = 0) v"
  define n where "n = int (be_nat v)"
  define s where "s = replicate z (pszBase58 ! 0) @ rev (base58_digits n)"
  have "takeWhile (\<lambda>b. b = 0) v = replicate z 0" unfolding z_def by (rule replicate_length_same [symmetric]) (auto dest: set_takeWhileD)
  then have v: "v = replicate z 0 @ w" unfolding w_def by (metis takeWhile_dropWhile_id)
  have wh: "w = [] \<or> hd w \<noteq> 0" unfolding w_def using hd_dropWhile [of "\<lambda>b. b = 0" v] by blast
  have "setvch E (rev v @ [0]) = n" using assms by (simp add: setvch_value n_def be_nat_Cons)
  moreover have "map (\<lambda>_. pszBase58 ! 0) (takeWhile (\<lambda>b. b = 0) v) = replicate z (pszBase58 ! 0)" by (simp add: map_replicate_const z_def)
  ultimately have enc: "EncodeBase58 E v = s" by (simp add: EncodeBase58_def Let_def s_def)
  have alph: "in_alphabet s" unfolding s_def using base58_digits_alphabet [of n] by (auto intro: exI [of _ 0])
  have "c_str s = s" by (rule c_str_id) (use alph alphabet58 in force)
  moreover have "dropWhile isspace s = s" by (rule dropWhile_eq_self_iff [THEN iffD2]) (use alph alphabet58 in \<open>force dest!: hd_in_set\<close>)
  moreover have "base58_value 0 s = Some n"
  proof -
    have "base58_value 0 (replicate z (pszBase58 ! 0)) = Some 0" by (induction z) (use alphabet58 [of 0] in auto)
    then show ?thesis unfolding s_def using base58_digits_value [of n]
      by (subst base58_value_append) (auto simp: n_def intro: exI [of _ 0])
  qed
  moreover have "length (takeWhile (\<lambda>c. c = pszBase58 ! 0) s) = z"
  proof (cases "n > 0")
    case True
    then have t: "base58_digits n \<noteq> []" "last (base58_digits n) \<noteq> pszBase58 ! 0" using base58_digits_top [of n] by auto
    then obtain c cs where "rev (base58_digits n) = c # cs" "c \<noteq> pszBase58 ! 0" by (cases "base58_digits n" rule: rev_cases) auto
    then show ?thesis unfolding s_def by (simp add: takeWhile_append)
  next
    case False
    then have "base58_digits n = []" by (subst base58_digits.simps) simp
    then show ?thesis unfolding s_def by (simp add: takeWhile_eq_all_conv [THEN iffD2])
  qed
  moreover have "mag_bytes (nat n) = w" using mag_bytes_be_nat [OF wh] be_nat_zeros [of z w] v by (simp add: n_def)
  ultimately show ?thesis unfolding enc DecodeBase58_def Let_def
    using trimmed_bytes [OF assms(1), of n] v by (simp add: Let_def n_def)
qed

lemma base58check_roundtrip:
  assumes "mpi_documented E" "length v + 5 < 2 ^ 32"
  shows "DecodeBase58Check E (EncodeBase58Check E v) = Some v"
proof -
  have "length (take 4 (ser_uint256 (Hash E v))) = 4" by simp
  then show ?thesis using assms base58_roundtrip [of E "v @ take 4 (ser_uint256 (Hash E v))"]
    by (simp add: DecodeBase58Check_def EncodeBase58Check_def)
qed

lemma data_roundtrip:
  assumes "mpi_documented E" "length (vchData d) + 6 < 2 ^ 32"
  shows "b58_SetString E (b58_ToString E d) = (True, d)"
  using base58check_roundtrip [OF assms(1), of "b58_nVersion d # vchData d"] assms(2)
  by (simp add: b58_SetString_def b58_ToString_def)

section \<open>Amounts\<close>

lemma digit_char: "k < 10 \<Longrightarrow> isdigit (48 + of_nat k) \<and> uint (48 + of_nat k :: byte) - 48 = int k"
proof -
  have "list_all (\<lambda>k. isdigit (48 + of_nat k) \<and> uint (48 + of_nat k :: byte) - 48 = int k) [0..<10]" by code_simp
  then show "k < 10 \<Longrightarrow> ?thesis" by (auto simp: list_all_iff)
qed

lemma dec_digits_isdigit: "c \<in> set (dec_digits n) \<Longrightarrow> isdigit c"
proof (induction n rule: dec_digits.induct)
  case (1 n)
  show ?case using 1 digit_char [of n] digit_char [of "n mod 10"] dec_digits.simps [of n] by (auto split: if_splits)
qed

lemma dec_value_append: "dec_value (s @ [c]) = dec_value s * 10 + (uint c - 48)"
  by (simp add: dec_value_def)

lemma dec_value_digits: "dec_value (dec_digits n) = int n"
proof (induction n rule: dec_digits.induct)
  case (1 n)
  show ?case
  proof (cases "n < 10")
    case True
    then show ?thesis using digit_char [of n] by (subst dec_digits.simps) (simp add: dec_value_def)
  next
    case False
    have "int (n div 10) * 10 + int (n mod 10) = int n" by (metis div_mult_mod_eq of_nat_add of_nat_mult of_nat_numeral)
    then show ?thesis using False 1 digit_char [of "n mod 10"] by (subst dec_digits.simps) (simp add: dec_value_append)
  qed
qed

lemma length_dec_digits: "n < 10 ^ Suc k \<Longrightarrow> length (dec_digits n) \<le> Suc k"
proof (induction k arbitrary: n)
  case (Suc k)
  show ?case
  proof (cases "n < 10")
    case False
    have "n div 10 < 10 ^ Suc k" using Suc.prems by (intro less_mult_imp_div_less) simp
    then show ?thesis using Suc.IH [of "n div 10"] False by (subst dec_digits.simps) simp
  qed (simp add: dec_digits.simps)
qed (simp add: dec_digits.simps)

lemma trim_zeros_dot: "\<exists>g k. trim_zeros (w @ 46 # f) = w @ 46 # g \<and> f = g @ replicate k 48"
proof (induction f rule: rev_induct)
  case (snoc c f)
  show ?case
  proof (cases "3 \<le> length (w @ 46 # f @ [c]) \<and> last (w @ 46 # f @ [c]) = 48 \<and> isdigit ((w @ 46 # f @ [c]) ! (length (w @ 46 # f @ [c]) - 3))")
    case True
    then have "trim_zeros (w @ 46 # f @ [c]) = trim_zeros (butlast (w @ 46 # f @ [c]))" by (subst trim_zeros.simps) (rule if_P)
    then have "trim_zeros (w @ 46 # f @ [c]) = trim_zeros (w @ 46 # f)" by (simp add: butlast_append)
    moreover obtain g k where "trim_zeros (w @ 46 # f) = w @ 46 # g" "f = g @ replicate k 48" using snoc by blast
    ultimately show ?thesis using True by (intro exI [of _ g] exI [of _ "Suc k"]) (simp add: replicate_append_same)
  next
    case False
    then have "trim_zeros (w @ 46 # f @ [c]) = w @ 46 # f @ [c]" by (subst trim_zeros.simps) (rule if_not_P)
    then show ?thesis by (intro exI [of _ "f @ [c]"] exI [of _ 0]) simp
  qed
qed (subst trim_zeros.simps, simp)

lemma dec_value_Cons: "dec_value (c # s) = (uint c - 48) * 10 ^ length s + dec_value s"
proof (induction s rule: rev_induct)
  case (snoc d s)
  then show ?case using dec_value_append [of "c # s" d] by (simp add: dec_value_append algebra_simps)
qed (simp add: dec_value_def)

lemma dec_value_zeros: "dec_value (replicate k 48 @ s) = dec_value s" "dec_value (s @ replicate k 48) = dec_value s * 10 ^ k"
proof -
  show "dec_value (replicate k 48 @ s) = dec_value s" by (induction k) (simp_all add: dec_value_Cons)
  show "dec_value (s @ replicate k 48) = dec_value s * 10 ^ k"
  proof (induction k)
    case (Suc k)
    have "dec_value ((s @ replicate k 48) @ [48]) = dec_value (s @ replicate k 48) * 10" by (simp only: dec_value_append) simp
    then show ?case using Suc by (simp add: replicate_append_same)
  qed simp
qed

lemma money_fraction_value:
  "\<forall>c \<in> set g. isdigit c \<Longrightarrow> length g \<le> k \<Longrightarrow> money_fraction u (10 ^ k div 10) g = (u + dec_value g * 10 ^ (k - length g), [])"
proof (induction g arbitrary: u k)
  case (Cons c g)
  then obtain j where j: "k = Suc j" by (cases k) auto
  have "10 ^ j = 10 ^ length g * (10 ^ (j - length g) :: int)" using Cons.prems(2) j by (simp flip: power_add)
  then have e: "dec_value (c # g) * 10 ^ (j - length g) = 10 ^ j * (uint c - 48) + dec_value g * 10 ^ (j - length g)"
    by (simp add: dec_value_Cons algebra_simps)
  have "money_fraction u (10 ^ k div 10) (c # g) = money_fraction (u + 10 ^ j * (uint c - 48)) (10 ^ j div 10) g"
    using Cons.prems(1) j by simp
  also have "\<dots> = (u + 10 ^ j * (uint c - 48) + dec_value g * 10 ^ (j - length g), [])" using Cons j by simp
  finally show ?case using e j by simp
qed (simp add: dec_value_def)

lemma money_parts_digits: "\<forall>c \<in> set w. isdigit c \<Longrightarrow> money_parts acc (w @ 46 # g) =
    Some (acc @ w, money_fraction 0 (CENT * 10) g)"
proof (induction w arbitrary: acc)
  case (Cons c w)
  then have "isdigit c" "c \<noteq> 46" "\<not> isspace c" by (auto simp: isdigit_def isspace_def word_le_nat_alt)
  then show ?case using Cons by simp
qed (simp add: Let_def split: prod.split)

lemma money_roundtrip:
  assumes "0 \<le> n" "n < 10 ^ 16"
  shows "ParseMoney (FormatMoney n False) = Some n"
proof -
  define q r where "q = nat (n div COIN)" and "r = nat (n mod COIN)"
  have C: "COIN = 10 ^ 6" "CENT * 10 = 10 ^ 6 div 10" by (simp_all add: money_consts)
  have qr: "int q = n div 10 ^ 6" "int r = n mod 10 ^ 6" using assms(1) by (simp_all add: q_def r_def C pos_imp_zdiv_nonneg_iff)
  have n: "n = int q * COIN + int r" unfolding qr C by simp
  have "int r < 10 ^ 6" unfolding qr by simp
  then have r: "r < 10 ^ 6" by simp
  have "n div 10 ^ 6 < 10 ^ 10" using assms(2) by (simp add: div_less_iff_less_mult)
  then have q: "q < 10 ^ Suc 9" unfolding qr(1) [symmetric] by simp
  let ?w = "dec_digits q" and ?f = "pad6 (dec_digits r)"
  have f6: "length ?f = 6" using length_dec_digits [of r 5] r by (simp add: pad6_def)
  have digits: "\<forall>c \<in> set ?w. isdigit c" "\<forall>c \<in> set ?f. isdigit c"
    using dec_digits_isdigit by (auto simp: pad6_def isdigit_def)
  obtain g k where g: "trim_zeros (?w @ 46 # ?f) = ?w @ 46 # g" "?f = g @ replicate k 48" using trim_zeros_dot by blast
  have gd: "\<forall>c \<in> set g. isdigit c" "length g + k = 6" using digits(2) f6 unfolding g(2) by auto
  have "FormatMoney n False = trim_zeros (?w @ 46 # ?f)"
  proof (cases "n = 0")
    case False
    have "tdiv n COIN = n div COIN" using assms(1) False C by (simp add: tdiv_def)
    moreover have "n - n div COIN * COIN = n mod COIN" by (simp add: minus_div_mult_eq_mod)
    ultimately show ?thesis using False assms(1) by (simp add: FormatMoney_def Let_def q_def r_def)
  qed (simp add: FormatMoney_def Let_def q_def r_def s64_def tdiv_def)
  then have fm: "FormatMoney n False = ?w @ 46 # g" using g(1) by simp
  have ne: "?w \<noteq> []" by (subst dec_digits.simps) simp
  have chars: "\<forall>c \<in> set (?w @ 46 # g). c \<noteq> 0 \<and> \<not> isspace c"
    using digits(1) gd(1) by (auto simp: isdigit_def isspace_def word_le_nat_alt)
  have "c_str (?w @ 46 # g) = ?w @ 46 # g" by (rule c_str_id) (use chars in blast)
  moreover have "dropWhile isspace (?w @ 46 # g) = ?w @ 46 # g"
    by (rule dropWhile_eq_self_iff [THEN iffD2]) (use chars ne in \<open>metis append_is_Nil_conv hd_in_set\<close>)
  moreover have "money_fraction 0 (CENT * 10) g = (int r, [])"
    using money_fraction_value [OF gd(1), of 6 0] gd(2) dec_value_zeros(2) [of g k] dec_value_zeros(1) [of "6 - length (dec_digits r)" "dec_digits r"]
      dec_value_digits [of r] g(2) unfolding C pad6_def by (metis add.commute add_0 add_diff_cancel_left' le_add1)
  moreover have "s64 (int q * COIN + int r) = n" unfolding n [symmetric] using assms by (intro s64_id) (simp add: int64_range_def)
  ultimately show ?thesis
    using money_parts_digits [OF digits(1), of "[]" g] length_dec_digits [OF q] r dec_value_digits [of q]
    by (simp add: ParseMoney_def fm C)
qed

section \<open>Properties\<close>

text \<open>Every byte string survives its text forms: decoding what was encoded gives it back in hexadecimal, base 64 and base 32,
  with the padding judged valid, and the hexadecimal form of a non-empty string is recognised as such.\<close>

theorem text_roundtrips:
  "ParseHex (HexStr v) = v \<and> IsHex (HexStr v) = (v \<noteq> []) \<and> DecodeBase64 (EncodeBase64 v) = (v, False) \<and>
    DecodeBase32 (EncodeBase32 v) = (v, False)"
proof -
  have "IsHex (HexStr v) = (v \<noteq> [])" using hex_roundtrip(2) [of v] by (cases "v = []") (auto simp: IsHex_def HexStr_def)
  then show ?thesis using hex_roundtrip(1) base64_roundtrip base32_roundtrip by blast
qed

text \<open>C39. Printing a destination as an address and parsing it gives the destination back on the same network, as a key or a
  script hash according to its kind, and no valid address on the other network; a secret of 32 bytes comes back with its
  compression flag.\<close>

theorem address_roundtrip:
  assumes "mpi_documented E" and "dest \<noteq> CNoDestination" and "secret_SetSecret tn sec compressed = Some d"
  shows "(let (ok, a) = addr_Set tn dest; (parsed, b) = b58_SetString E (b58_ToString E a) in
      ok \<and> parsed \<and> addr_IsValid tn b \<and> \<not> addr_IsValid (\<not> tn) b \<and> addr_Get tn b = dest \<and>
      (addr_GetKeyID tn b = (case dest of DestKey i \<Rightarrow> Some i | _ \<Rightarrow> None)) \<and>
      addr_IsScript tn b = (case dest of DestScript i \<Rightarrow> True | _ \<Rightarrow> False)) \<and>
    secret_SetString E tn (b58_ToString E d) = (True, d) \<and> secret_GetSecret d = (sec, compressed)"
proof -
  note c = PUBKEY_ADDRESS_def PUBKEY_ADDRESS_TEST_def SCRIPT_ADDRESS_def SCRIPT_ADDRESS_TEST_def
  have i: "of_nat (le_nat (ser_uint160 i)) = i" for i
    using of_nat_mod_word [where 'a = 160, of "unat i"] by (simp add: ser_uint160_def le_nat_bytes)
  have r: "b58_SetString E (b58_ToString E (b58_SetData v (ser_uint160 i))) = (True, b58_SetData v (ser_uint160 i))" for v i
    by (rule data_roundtrip [OF assms(1)]) (simp add: b58_SetData_def)
  have addr: "let (ok, a) = addr_Set tn dest; (parsed, b) = b58_SetString E (b58_ToString E a) in
      ok \<and> parsed \<and> addr_IsValid tn b \<and> \<not> addr_IsValid (\<not> tn) b \<and> addr_Get tn b = dest \<and>
      (addr_GetKeyID tn b = (case dest of DestKey i \<Rightarrow> Some i | _ \<Rightarrow> None)) \<and>
      addr_IsScript tn b = (case dest of DestScript i \<Rightarrow> True | _ \<Rightarrow> False)"
    using assms(2) by (cases dest) (simp_all add: addr_Set_def r Let_def, simp_all add: addr_IsValid_def addr_Get_def addr_GetKeyID_def
        addr_IsScript_def b58_SetData_def i c)
  have d: "length sec = 32" "d = b58_SetData (secret_version tn) (sec @ (if compressed then [1] else []))"
    using assms(3) by (auto simp: secret_SetSecret_def b58_SetData_def Let_def split: if_splits)
  have "b58_SetString E (b58_ToString E d) = (True, d)" by (rule data_roundtrip [OF assms(1)]) (simp add: d b58_SetData_def)
  moreover have "secret_IsValid tn d" using d by (auto simp: secret_IsValid_def b58_SetData_def secret_version_def c nth_append)
  ultimately have "secret_SetString E tn (b58_ToString E d) = (True, d) \<and> secret_GetSecret d = (sec, compressed)"
    using d by (simp add: secret_SetString_def secret_GetSecret_def b58_SetData_def)
  with addr show ?thesis by blast
qed

theorem address_roundtrip_witness:
  "addr_Get False (snd (b58_SetString ext_example (b58_ToString ext_example (snd (addr_Set False (DestKey 7)))))) = DestKey 7 \<and>
    secret_GetSecret (b58_SetData (secret_version False) (replicate 32 5 @ [1])) = (replicate 32 5, True)"
proof -
  have s: "secret_SetSecret False (replicate 32 5) True = Some (b58_SetData (secret_version False) (replicate 32 5 @ [1]))"
    by (simp add: secret_SetSecret_def b58_SetData_def Let_def)
  have n: "DestKey 7 \<noteq> CNoDestination" by simp
  show ?thesis using address_roundtrip [OF ext_example_documented(1) n s] by (auto simp: Let_def split: prod.splits)
qed

text \<open>An amount of less than ten thousand million coins is printed so that parsing gives it back.\<close>

theorem money_text:
  assumes "0 \<le> n" and "n < 10 ^ 16"
  shows "ParseMoney (FormatMoney n False) = Some n"
  by (rule money_roundtrip [OF assms])

theorem money_text_witness: "ParseMoney (FormatMoney 1230000 False) = Some 1230000"
  by (rule money_text) simp_all

end
