(* ===== verification/Checkpoints.thy ===== *)
theory Checkpoints
  imports Hobo_Prelude Ext_Crypto Serialize Tx_Data Key Block Block_Index Txdb Rewards Mempool Connect_Tx Text_Codec
begin

text \<open>
  Checkpoints (\<^verbatim>\<open>checkpoints.cpp\<close>, \<^verbatim>\<open>checkpoints.h\<close>): the hardened list of block hashes, and the synchronised checkpoint that a master key
  signs.  The operations that switch the best chain are with the chain code.  A failed assertion is \<open>None\<close>.
\<close>

section \<open>Hardened checkpoints\<close>

definition hashGenesisBlockOfficial :: uint256 where
  "hashGenesisBlockOfficial = 0x000009ea5ef5019446b315e7e581fc2ea184315ed46c9ddeadc8aa9442deedc9"

definition hashGenesisBlockTestNet :: uint256 where
  "hashGenesisBlockTestNet = 0x0000f9e0292f278190e4d58cd1e1e9a32b7466c8092bd2371ffc80b06f8eca4a"

definition genesis_hash :: "bool \<Rightarrow> uint256" where
  "genesis_hash fTestNet = (if \<not> fTestNet then hashGenesisBlockOfficial else hashGenesisBlockTestNet)"

text \<open>The map in the order of its keys.\<close>

definition mapCheckpoints :: "(int \<times> uint256) list" where
  "mapCheckpoints =
     [(0, hashGenesisBlockOfficial),
      (50000, 0x00000002751f54b06ffac8da64d221babf48e9d82365c08c20e82585d674e6b6),
      (110465, 0x000000022e2e3c4a5d305aaf8d01b1bbb0fc5afccc0fb65dad642b333fdc2cd8),
      (210943, 0x000000029af45dc0e3bcb929fe1e060593a59c2fd983ee57c769bce83d1f6e86),
      (265734, 0x00000004d7a22505fb8a091c6fed6bc6c66f7ccc4789c396dc9fdb6f511d2945),
      (411000, 0x000000010c06d563dfe062ac53d7765dedc18e16de9457d0e5742255887965bc),
      (750000, 0xcda70f71ae25ef36fd7954b27067f7b4e11c6d0f3e162d53086a7516a4b067ca),
      (1000000, 0x356be281863d1a006da922d184f81065db45d5ba1302ccedabed5175b8637994),
      (2000000, 0x0000000002f68f476e4622e6a9e6eb60912df15d9822b0fe9ece9b5d372c88ab),
      (3000000, 0x3a5414c5dd29bd6fac4fe15bf900dff00a95725c39f7096a0fcbb6e40072e75b),
      (4000000, 0x212ed3ddae5f49ee7fe1092f62a393cabc50e2172ee400969dabd673ebd2051d),
      (5000000, 0x7f00f5447153b3331fcd6743f184a9434d5f866f46200cc8c7fc10108659ef45),
      (5499330, 0xaed47152a5cc2db3859dd9428089b8da1d0bdd445cd76e9711f3e304d727330f),
      (5499331, 0x00000000050e13566f81f688f2edd372415685b3c048d5b051457d170c2ea848),
      (5499332, 0x000000003806a3ee782ebc103bd7d7f47aeb753d4cce911a19dab453051e3ce5),
      (5500000, 0xa8f0c882004f2f976ec8af49fa42c45620d4b33d7a1a95de748c9e19fc917962),
      (5520100, 0x8231997f2fe53ab744f37531d619c37983b3d4dfb619169e2034e4d3d9467e6b),
      (5525100, 0x99202c5db266191c3bebba59873b5fb7514d5c9e8926e5099c5d36400f8a0ff4),
      (5579000, 0x74cd42bbe9781749a862317a21fcc97527c3e32569b4e3cd1fd59514210ed50b),
      (5608000, 0x37fb3b685a62047542a8345f031f8199839ebe716679dfe8fa318e8a5ea46d64),
      (7000000, 0x5951dafa0ca3bbe0ae77cde77e49aec3c24d7240c895009d59fc7d97ca5a8d5f),
      (7500000, 0xff72f7e6be1a14ad0aa4853ca088180d8baddaa64dd5bc877356f550124eb1f9),
      (7900000, 0x6bb7df798156d1029ca0704a0f808a4ed3f0af1d48685a59844cb394ab9b22fe),
      (7990000, 0x5d96b92f208c0d5b5670bdeb357619f4567c022e9cfc1a5c022c11db9d0cf78f)]"

definition mapCheckpointsTestnet :: "(int \<times> uint256) list" where
  "mapCheckpointsTestnet = [(0, hashGenesisBlockTestNet)]"

definition checkpoints :: "bool \<Rightarrow> (int \<times> uint256) list" where
  "checkpoints fTestNet = (if fTestNet then mapCheckpointsTestnet else mapCheckpoints)"

definition CheckHardened :: "bool \<Rightarrow> int \<Rightarrow> uint256 \<Rightarrow> bool" where
  "CheckHardened fTestNet height hash = (case map_of (checkpoints fTestNet) height of None \<Rightarrow> True | Some h \<Rightarrow> hash = h)"

fun verify_hardened :: "block_map \<Rightarrow> int \<Rightarrow> nat \<Rightarrow> (int \<times> uint256) list \<Rightarrow> bool \<times> nat" where
  "verify_hardened M nBestHeight nChecked [] = (True, nChecked)"
| "verify_hardened M nBestHeight nChecked ((height, hash) # rest) =
     (if height = 0 \<or> height > nBestHeight then verify_hardened M nBestHeight nChecked rest
      else case M hash of None \<Rightarrow> (False, nChecked)
        | Some t \<Rightarrow> if nHeight t \<noteq> height then (False, nChecked) else verify_hardened M nBestHeight (nChecked + 1) rest)"

definition VerifyHardenedInChain :: "bool \<Rightarrow> block_map \<Rightarrow> int \<Rightarrow> bool \<times> nat" where
  "VerifyHardenedInChain fTestNet M nBestHeight = verify_hardened M nBestHeight 0 (checkpoints fTestNet)"

definition GetTotalBlocksEstimate :: "bool \<Rightarrow> int" where
  "GetTotalBlocksEstimate fTestNet = fst (last (checkpoints fTestNet))"

definition GetLastCheckpoint :: "bool \<Rightarrow> block_map \<Rightarrow> bptr" where
  "GetLastCheckpoint fTestNet M = find (\<lambda>hash. M hash \<noteq> None) (map snd (rev (checkpoints fTestNet)))"

section \<open>The checkpoint message\<close>

record CSyncCheckpoint =
  cp_nVersion :: int
  hashCheckpoint :: uint256
  cp_vchMsg :: valtype
  cp_vchSig :: valtype

definition cp_SetNull :: CSyncCheckpoint where
  "cp_SetNull = \<lparr> cp_nVersion = 1, hashCheckpoint = 0, cp_vchMsg = [], cp_vchSig = [] \<rparr>"

definition cp_IsNull :: "CSyncCheckpoint \<Rightarrow> bool" where
  "cp_IsNull cp \<longleftrightarrow> hashCheckpoint cp = 0"

definition ser_unsigned_checkpoint :: "CSyncCheckpoint \<Rightarrow> valtype" where
  "ser_unsigned_checkpoint cp = ser_i32 (cp_nVersion cp) @ ser_uint256 (hashCheckpoint cp)"

definition strMasterPubKey :: "bool \<Rightarrow> valtype" where
  "strMasterPubKey fTestNet = (if fTestNet
     then text_of ''04d22e393d8500b017d0d3df9ef961321df12748bbd39a9f18b4cc47002717ad4d2f0ba87d1d81b83fff61472fad51ce11677b55b4f0861b4272ca3c6b001f8b1e''
     else text_of ''04bdd7aa319f16d2682afab4d0d807141be59caac0291802ba7467f0288eaf54db9d144f8c78231d61746bb7b5f1ef70f92c62d4b18c5488ab39118e38460304dd'')"

definition cp_CheckSignature :: "ext \<Rightarrow> bool \<Rightarrow> CSyncCheckpoint \<Rightarrow> failure + CSyncCheckpoint" where
  "cp_CheckSignature E fTestNet cp =
     (case key_SetPubKey E (ParseHex (strMasterPubKey fTestNet)) key_Reset of (False, key) \<Rightarrow> Inl Reject
      | (True, key) \<Rightarrow>
          if \<not> key_Verify E (Hash E (cp_vchMsg cp)) (cp_vchSig cp) key then Inl Reject
          else case rbind (unser_i32 (cp_vchMsg cp)) (\<lambda>v s. rbind (unser_uint256 s) (\<lambda>h s. Inr (cp\<lparr> cp_nVersion := v, hashCheckpoint := h \<rparr>, s))) of
              Inl e \<Rightarrow> Inl Exception
            | Inr (cp, _) \<Rightarrow> Inr cp)"

section \<open>The synchronised checkpoint\<close>

record sync_state =
  hashSyncCheckpoint :: uint256
  hashPendingCheckpoint :: uint256
  checkpointMessage :: CSyncCheckpoint
  checkpointMessagePending :: CSyncCheckpoint
  hashInvalidCheckpoint :: uint256
  nSyncCheckpointHeight :: int

definition GetLastSyncCheckpoint :: "block_map \<Rightarrow> sync_state \<Rightarrow> CBlockIndex option" where
  "GetLastSyncCheckpoint M s = M (hashSyncCheckpoint s)"

text \<open>The walk back to a height; the empty list is the null pointer.\<close>

fun trace_back :: "int \<Rightarrow> pchain \<Rightarrow> pchain" where
  "trace_back height [] = []"
| "trace_back height (pindex # rest) = (if nHeight pindex > height then trace_back height rest else pindex # rest)"

definition ValidateSyncCheckpoint :: "block_map \<Rightarrow> uint256 \<Rightarrow> sync_state \<Rightarrow> bool \<times> sync_state" where
  "ValidateSyncCheckpoint M hashCp s =
     (case M (hashSyncCheckpoint s) of None \<Rightarrow> (False, s)
      | Some pindexSyncCheckpoint \<Rightarrow>
          (case M hashCp of None \<Rightarrow> (False, s)
           | Some pindexCheckpointRecv \<Rightarrow>
               if nHeight pindexCheckpointRecv \<le> nHeight pindexSyncCheckpoint
               then case trace_back (nHeight pindexCheckpointRecv) (chain M (Some (hashSyncCheckpoint s))) of [] \<Rightarrow> (False, s)
                 | pindex # _ \<Rightarrow>
                     if bi_GetBlockHash pindex \<noteq> hashCp then (False, s\<lparr> hashInvalidCheckpoint := hashCp \<rparr>) else (False, s)
               else case trace_back (nHeight pindexSyncCheckpoint) (chain M (Some hashCp)) of [] \<Rightarrow> (False, s)
                 | pindex # _ \<Rightarrow>
                     if bi_GetBlockHash pindex \<noteq> hashSyncCheckpoint s then (False, s\<lparr> hashInvalidCheckpoint := hashCp \<rparr>)
                     else (True, s)))"

text \<open>A handle of its own begins, writes and commits.\<close>

definition cp_WriteSyncCheckpoint :: "block_map \<Rightarrow> uint256 \<Rightarrow> CTxDB \<Rightarrow> sync_state \<Rightarrow> bool \<times> CTxDB \<times> sync_state" where
  "cp_WriteSyncCheckpoint M hashCp db s =
     (let db = snd (TxnBegin db) in
      case WriteSyncCheckpoint hashCp db of (False, db) \<Rightarrow> (False, snd (TxnAbort db), s)
      | (True, db) \<Rightarrow>
          (case TxnCommit db of (False, db) \<Rightarrow> (False, db, s)
           | (True, db) \<Rightarrow>
               (True, db, s\<lparr> hashSyncCheckpoint := hashCp,
                  nSyncCheckpointHeight := (case M hashCp of Some i \<Rightarrow> nHeight i | None \<Rightarrow> 0) \<rparr>)))"

definition CHECKPOINT_MAX_SPAN :: int where "CHECKPOINT_MAX_SPAN = 60 * 60 * 4"

text \<open>The search forward along \<^verbatim>\<open>pnext\<close>; the option is whether it ends.\<close>

partial_function (option) select_forward :: "bool \<Rightarrow> block_map \<Rightarrow> CBlockIndex \<Rightarrow> CBlockIndex \<Rightarrow> CBlockIndex option" where
  "select_forward fTestNet M pindexBest pindex =
     (case pnext pindex of None \<Rightarrow> Some pindex
      | Some h \<Rightarrow>
          if bi_GetBlockTime pindex + CHECKPOINT_MAX_SPAN \<le> bi_GetBlockTime pindexBest
            \<or> nHeight pindex + min 6 (nCoinbaseMaturity fTestNet - 20) \<le> nHeight pindexBest
          then (case M h of None \<Rightarrow> Some pindex | Some i \<Rightarrow> select_forward fTestNet M pindexBest i)
          else Some pindex)"

definition AutoSelectSyncCheckpoint :: "bool \<Rightarrow> block_map \<Rightarrow> pchain \<Rightarrow> uint256 option" where
  "AutoSelectSyncCheckpoint fTestNet M pindexBest =
     map_option bi_GetBlockHash (select_forward fTestNet M (hd pindexBest) (hd (GetLastBlockIndex False pindexBest)))"

definition CheckSync :: "block_map \<Rightarrow> bptr \<Rightarrow> sync_state \<Rightarrow> uint256 \<Rightarrow> pchain \<Rightarrow> bool option" where
  "CheckSync M pindexBest s hashBlock pindexPrev =
     (let height = nHeight (hd pindexPrev) + 1 in
      case M (hashSyncCheckpoint s) of None \<Rightarrow> None
      | Some pindexSync \<Rightarrow>
          if height > nHeight pindexSync \<and> \<not> (bi_IsInMainChain pindexBest pindexSync \<and> bi_IsInMainChain pindexBest (hd pindexPrev))
            \<and> (case trace_back (nHeight pindexSync) pindexPrev of [] \<Rightarrow> True
               | pindex # _ \<Rightarrow> nHeight pindex < nHeight pindexSync \<or> bi_GetBlockHash pindex \<noteq> hashSyncCheckpoint s)
          then Some False
          else if height = nHeight pindexSync \<and> hashBlock \<noteq> hashSyncCheckpoint s then Some False
          else if height < nHeight pindexSync \<and> M hashBlock = None then Some False
          else Some True)"

text \<open>The option is whether the walk through the orphans ends.\<close>

definition WantedByPendingSyncCheckpoint :: "orphan_blocks \<Rightarrow> sync_state \<Rightarrow> uint256 \<Rightarrow> bool option" where
  "WantedByPendingSyncCheckpoint orphans s hashBlock =
     (if hashPendingCheckpoint s = 0 then Some False
      else if hashBlock = hashPendingCheckpoint s then Some True
      else case map_of (mapOrphanBlocks orphans) (hashPendingCheckpoint s) of None \<Rightarrow> Some False
        | Some b \<Rightarrow> map_option (\<lambda>h. hashBlock = h) (WantedByOrphan orphans b))"

text \<open>The block a peer is asked for.\<close>

definition AskForPendingSyncCheckpoint :: "block_map \<Rightarrow> orphan_blocks \<Rightarrow> sync_state \<Rightarrow> uint256 option" where
  "AskForPendingSyncCheckpoint M orphans s =
     (if hashPendingCheckpoint s \<noteq> 0 \<and> M (hashPendingCheckpoint s) = None \<and> map_of (mapOrphanBlocks orphans) (hashPendingCheckpoint s) = None
      then Some (hashPendingCheckpoint s) else None)"

definition IsMatureSyncCheckpoint :: "bool \<Rightarrow> int \<Rightarrow> int \<Rightarrow> block_map \<Rightarrow> sync_state \<Rightarrow> bool option" where
  "IsMatureSyncCheckpoint fTestNet nBestHeight GetAdjustedTime M s =
     (case M (hashSyncCheckpoint s) of None \<Rightarrow> None
      | Some pindexSync \<Rightarrow>
          Some (nBestHeight \<ge> nHeight pindexSync + nCoinbaseMaturity fTestNet
            \<or> bi_GetBlockTime pindexSync + uint (GetStakeMinAge fTestNet nBestHeight) < GetAdjustedTime))"

section \<open>Walking back\<close>

lemma trace_back_chain:
  assumes "index_wf M" "M h = Some i" "0 \<le> k" "k \<le> nHeight i"
  shows "\<exists>j \<in> set (chain M (Some h)). nHeight j = k \<and> trace_back k (chain M (Some h)) = chain M (Some (phashBlock j))"
  using assms(2,4)
proof (induction "nat (nHeight i - k)" arbitrary: h i)
  case 0
  then show ?case using chain_Some [OF assms(1) 0(2)] index_wfD(1) [OF assms(1) 0(2)] by (intro bexI [of _ i]) simp_all
next
  case (Suc n)
  then have k: "k < nHeight i" by simp
  then obtain p where p: "pprev i = Some p" using index_wfD(3) [OF assms(1) Suc(3)] assms(3) by (cases "pprev i") auto
  then obtain j where j: "M p = Some j" "nHeight i = nHeight j + 1" using index_wfD(4) [OF assms(1) Suc(3)] by blast
  have "n = nat (nHeight j - k)" "k \<le> nHeight j" using Suc(2) j(2) k by simp_all
  from Suc(1) [OF this(1) j(1) this(2)] show ?case using chain_Some [OF assms(1) Suc(3)] p k by auto
qed

lemma chain_height_unique:
  assumes "index_wf M" "i \<in> set (chain M p)" "j \<in> set (chain M p)" "nHeight i = nHeight j"
  shows "i = j"
proof -
  have "sorted_wrt (\<lambda>i j. nHeight i \<noteq> nHeight j) (chain M p)"
    by (rule sorted_wrt_mono_rel [OF _ chain_heights [OF assms(1)]]) simp
  then have "distinct (map nHeight (chain M p))" by (rule sorted_neq_distinct)
  then show ?thesis using assms(2-4) unfolding distinct_map inj_on_def by blast
qed

lemma chain_below_tip:
  assumes "index_wf M" "M h = Some i" "j \<in> set (chain M (Some h))"
  shows "nHeight j \<le> nHeight i"
  using chain_heights [OF assms(1), of "Some h"] assms(3) by (auto simp: chain_Some [OF assms(1,2)] less_imp_le)

text \<open>The block the walk ends at tells whether the two blocks are on one branch.\<close>

lemma trace_back_descends:
  assumes "index_wf M" "M h = Some i" "M g = Some s" "nHeight s \<le> nHeight i"
  shows "\<exists>j rest. trace_back (nHeight s) (chain M (Some h)) = j # rest \<and> nHeight j = nHeight s \<and> M (bi_GetBlockHash j) = Some j \<and>
    (bi_GetBlockHash j = g \<longleftrightarrow> s \<in> set (chain M (Some h)))"
proof -
  obtain j where j: "j \<in> set (chain M (Some h))" "nHeight j = nHeight s"
    "trace_back (nHeight s) (chain M (Some h)) = chain M (Some (phashBlock j))"
    using trace_back_chain [OF assms(1,2) _ assms(4)] index_wfD(2) [OF assms(1,3)] by blast
  have mj: "M (phashBlock j) = Some j" by (rule chain_mem [OF assms(1) j(1)])
  have "bi_GetBlockHash j = g \<longleftrightarrow> s \<in> set (chain M (Some h))"
  proof
    assume "bi_GetBlockHash j = g"
    then show "s \<in> set (chain M (Some h))" using mj j(1) assms(3) by (simp add: bi_GetBlockHash_def)
  next
    assume "s \<in> set (chain M (Some h))"
    then have "j = s" using chain_height_unique [OF assms(1) j(1)] j(2) by blast
    then show "bi_GetBlockHash j = g" using index_wfD(1) [OF assms(1,3)] by (simp add: bi_GetBlockHash_def)
  qed
  then show ?thesis using j(2,3) mj chain_Some [OF assms(1) mj] by (auto simp: bi_GetBlockHash_def)
qed

text \<open>On the main chain a lower block is always an ancestor.\<close>

lemma main_chain_descends:
  assumes "main_ok M best" "M h = Some i" "M g = Some s" "nHeight s \<le> nHeight i" "bi_IsInMainChain best i" "bi_IsInMainChain best s"
  shows "s \<in> set (chain M (Some h))"
proof -
  note wf = main_okD(1) [OF assms(1)]
  have m: "i \<in> set (chain M best)" "s \<in> set (chain M best)" using main_chain_iff [OF assms(1)] assms by blast+
  obtain j rest where j: "trace_back (nHeight s) (chain M (Some h)) = j # rest" "nHeight j = nHeight s"
    using trace_back_descends [OF wf assms(2-4)] by blast
  obtain t where t: "t \<in> set (chain M (Some h))" "nHeight t = nHeight s"
    using trace_back_chain [OF wf assms(2) _ assms(4)] index_wfD(2) [OF wf assms(3)] by blast
  obtain xs where "chain M best = xs @ chain M (Some h)"
    using chain_suffix [OF wf m(1)] index_wfD(1) [OF wf assms(2)] by auto
  then have "t \<in> set (chain M best)" using t(1) by simp
  then have "t = s" using chain_height_unique [OF wf _ m(2)] t(2) by blast
  then show ?thesis using t(1) by simp
qed

lemma select_forward_tip:
  assumes "main_ok M (Some b)" "M b = Some tip" "i \<in> set (chain M (Some b))"
  shows "select_forward fTestNet M tip i = Some tip"
  using assms(3)
proof (induction "nat (nHeight tip - nHeight i)" arbitrary: i rule: less_induct)
  case less
  note wf = main_okD(1) [OF assms(1)]
  have mi: "M (phashBlock i) = Some i" by (rule chain_mem [OF wf less.prems])
  have le: "nHeight i \<le> nHeight tip" by (rule chain_below_tip [OF wf assms(2) less.prems])
  show ?case
  proof (cases "pnext i")
    case None
    then have "phashBlock i = b" using chain_successor [OF wf less.prems] main_okD(3) [OF assms(1) mi] by fastforce
    then show ?thesis using mi assms(2) None by (subst select_forward.simps) simp
  next
    case (Some n)
    then obtain j where j: "j \<in> set (chain M (Some b))" "phashBlock j = n" "pprev j = Some (phashBlock i)"
      using main_okD(3) [OF assms(1) mi] by blast
    have mj: "M n = Some j" using chain_mem [OF wf j(1)] j(2) by simp
    have "nHeight j = nHeight i + 1" using index_wfD(4) [OF wf mj j(3)] mi by simp
    then have "nat (nHeight tip - nHeight j) < nat (nHeight tip - nHeight i)" using chain_below_tip [OF wf assms(2) j(1)] by simp
    from less.hyps [OF this j(1)] show ?thesis using Some mj le by (subst select_forward.simps) (simp add: nCoinbaseMaturity_def)
  qed
qed

lemma GetLastBlockIndex_suffix: "\<exists>xs. c = xs @ GetLastBlockIndex f c \<and> (c \<noteq> [] \<longrightarrow> GetLastBlockIndex f c \<noteq> [])"
proof (induction f c rule: GetLastBlockIndex.induct)
  case (1 f i i' rest)
  show ?case
  proof (cases "bi_IsProofOfStake i \<noteq> f")
    case True
    with 1 obtain xs where "i' # rest = xs @ GetLastBlockIndex f (i' # rest)" "GetLastBlockIndex f (i' # rest) \<noteq> []" by auto
    then show ?thesis using True by (intro exI [of _ "i # xs"]) simp
  qed (intro exI [of _ "[]"], simp)
qed auto

section \<open>Properties\<close>

text \<open>C11. Only the branch of the synchronised checkpoint goes on: above its height a block passes \<^verbatim>\<open>CheckSync\<close> exactly when
  its predecessor descends from the checkpoint, the shortcut for the main chain included; and a received checkpoint is
  valid exactly when it is a proper descendant of the current one, and is remembered as invalid exactly when neither
  descends from the other.\<close>

theorem sync_checkpoint_descent:
  assumes "main_ok M best" and "M (hashSyncCheckpoint s) = Some sync" and "M p = Some prev" and "nHeight sync \<le> nHeight prev"
    and "M r = Some recv"
  shows "CheckSync M best s hashBlock (chain M (Some p)) = Some (sync \<in> set (chain M (Some p))) \<and>
    ValidateSyncCheckpoint M r s =
      (nHeight sync < nHeight recv \<and> sync \<in> set (chain M (Some r)),
       if sync \<in> set (chain M (Some r)) \<or> recv \<in> set (chain M (Some (hashSyncCheckpoint s))) then s
       else s\<lparr> hashInvalidCheckpoint := r \<rparr>)"
proof -
  note wf = main_okD(1) [OF assms(1)]
  have hd: "hd (chain M (Some p)) = prev" by (simp add: chain_Some [OF wf assms(3)])
  obtain j rest where j: "trace_back (nHeight sync) (chain M (Some p)) = j # rest" "nHeight j = nHeight sync"
    "bi_GetBlockHash j = hashSyncCheckpoint s \<longleftrightarrow> sync \<in> set (chain M (Some p))"
    using trace_back_descends [OF wf assms(3,2,4)] by blast
  have "CheckSync M best s hashBlock (chain M (Some p)) = Some (sync \<in> set (chain M (Some p)))"
    using main_chain_descends [OF assms(1,3,2,4)] assms(2,4) j by (auto simp: CheckSync_def hd Let_def)
  moreover have "ValidateSyncCheckpoint M r s =
      (nHeight sync < nHeight recv \<and> sync \<in> set (chain M (Some r)),
       if sync \<in> set (chain M (Some r)) \<or> recv \<in> set (chain M (Some (hashSyncCheckpoint s))) then s
       else s\<lparr> hashInvalidCheckpoint := r \<rparr>)"
  proof (cases "nHeight recv \<le> nHeight sync")
    case True
    obtain j rest where j: "trace_back (nHeight recv) (chain M (Some (hashSyncCheckpoint s))) = j # rest"
      "bi_GetBlockHash j = r \<longleftrightarrow> recv \<in> set (chain M (Some (hashSyncCheckpoint s)))"
      using trace_back_descends [OF wf assms(2,5) True] by blast
    have "recv \<in> set (chain M (Some (hashSyncCheckpoint s)))" if "sync \<in> set (chain M (Some r))"
    proof -
      have "nHeight sync \<le> nHeight recv" by (rule chain_below_tip [OF wf assms(5) that])
      moreover have "recv \<in> set (chain M (Some r))" by (simp add: chain_Some [OF wf assms(5)])
      ultimately have "sync = recv" using chain_height_unique [OF wf that] True by simp
      then show ?thesis by (simp add: chain_Some [OF wf assms(2)])
    qed
    then show ?thesis using True j assms(2,5) by (auto simp: ValidateSyncCheckpoint_def)
  next
    case False
    obtain j rest where j: "trace_back (nHeight sync) (chain M (Some r)) = j # rest"
      "bi_GetBlockHash j = hashSyncCheckpoint s \<longleftrightarrow> sync \<in> set (chain M (Some r))"
      using trace_back_descends [OF wf assms(5,2)] False by fastforce
    have "recv \<notin> set (chain M (Some (hashSyncCheckpoint s)))" using chain_below_tip [OF wf assms(2)] False by blast
    then show ?thesis using False j assms(2,5) by (auto simp: ValidateSyncCheckpoint_def)
  qed
  ultimately show ?thesis by blast
qed

text \<open>A genesis block with two successors, one of them the best block.\<close>

definition fork_example :: block_map where
  "fork_example = [7 \<mapsto> (index_example 7 None)\<lparr> pnext := Some 8 \<rparr>, 8 \<mapsto> (index_example 8 (Some 7))\<lparr> nHeight := 1 \<rparr>,
     9 \<mapsto> (index_example 9 (Some 7))\<lparr> nHeight := 1 \<rparr>]"

definition sync_example :: sync_state where
  "sync_example = \<lparr> hashSyncCheckpoint = 8, hashPendingCheckpoint = 0, checkpointMessage = cp_SetNull, checkpointMessagePending = cp_SetNull,
     hashInvalidCheckpoint = 0, nSyncCheckpointHeight = 1 \<rparr>"

lemma fork_example_wf: "index_wf fork_example"
  by (auto simp: index_wf_def fork_example_def index_example_def CBlockIndex_new_def)

lemma fork_example_chain:
  "chain fork_example (Some 8) = [(index_example 8 (Some 7))\<lparr> nHeight := 1 \<rparr>, (index_example 7 None)\<lparr> pnext := Some 8 \<rparr>]"
  "chain fork_example (Some 9) = [(index_example 9 (Some 7))\<lparr> nHeight := 1 \<rparr>, (index_example 7 None)\<lparr> pnext := Some 8 \<rparr>]"
  by (simp_all add: chain_def fork_example_def index_example_def CBlockIndex_new_def)

lemma fork_example_main: "main_ok fork_example (Some 8)"
  unfolding main_ok_def fork_example_chain using fork_example_wf
  by (auto simp: fork_example_def index_example_def CBlockIndex_new_def)

theorem sync_checkpoint_descent_witness:
  "CheckSync fork_example (Some 8) sync_example 10 (chain fork_example (Some 9)) = Some False \<and>
    snd (ValidateSyncCheckpoint fork_example 9 sync_example) = sync_example\<lparr> hashInvalidCheckpoint := 9 \<rparr>"
proof -
  have b: "fork_example (hashSyncCheckpoint sync_example) = Some ((index_example 8 (Some 7))\<lparr> nHeight := 1 \<rparr>)"
    "fork_example 9 = Some ((index_example 9 (Some 7))\<lparr> nHeight := 1 \<rparr>)" "hashSyncCheckpoint sync_example = 8"
    by (simp_all add: fork_example_def sync_example_def)
  from sync_checkpoint_descent [OF fork_example_main b(1,2) _ b(2), of 10] show ?thesis
    unfolding b(3) fork_example_chain by (simp add: index_example_def CBlockIndex_new_def)
qed

text \<open>C38. The automatic choice of a checkpoint is always the best block: the maturity of coinbases is less than 20 blocks, so the
  search forward from the last proof-of-work block never stops at a block that is mature enough.\<close>

theorem auto_select_is_tip:
  assumes "main_ok M (Some b)"
  shows "AutoSelectSyncCheckpoint fTestNet M (chain M (Some b)) = Some b"
proof -
  obtain tip where tip: "M b = Some tip" using main_okD(2) [OF assms, of b] by auto
  have c: "chain M (Some b) = tip # chain M (pprev tip)" by (rule chain_Some [OF main_okD(1) [OF assms] tip])
  obtain xs where "chain M (Some b) = xs @ GetLastBlockIndex False (chain M (Some b))" "GetLastBlockIndex False (chain M (Some b)) \<noteq> []"
    using GetLastBlockIndex_suffix [of "chain M (Some b)" False] c by auto
  then have "hd (GetLastBlockIndex False (chain M (Some b))) \<in> set (chain M (Some b))" by (metis in_set_conv_decomp list.collapse)
  then show ?thesis using select_forward_tip [OF assms tip] c index_wfD(1) [OF main_okD(1) [OF assms] tip]
    by (simp add: AutoSelectSyncCheckpoint_def bi_GetBlockHash_def)
qed

theorem auto_select_is_tip_witness: "AutoSelectSyncCheckpoint False fork_example (chain fork_example (Some 8)) = Some 8"
  by (rule auto_select_is_tip [OF fork_example_main])

end
