(* ===== verification/Connect_Block.thy ===== *)
theory Connect_Block
  imports Hobo_Prelude Ext_Crypto Serialize Script Tx_Data Key Sig_Check Interpreter Standard Block Block_Index Txdb Tx_Rules Rewards
    Block_Files Mempool Connect_Tx Stake_Kernel Checkpoints
begin

text \<open>
  Checking, connecting and disconnecting a block (\<^verbatim>\<open>main.cpp\<close>).  An abstract ledger, the transaction index as a map with each
  transaction marking the outputs it spends, is the specification that the database changes are compared with.
\<close>

section \<open>Block signatures\<close>

fun coinbase_signed :: "ext \<Rightarrow> uint256 \<Rightarrow> valtype \<Rightarrow> CTxOut list \<Rightarrow> bool" where
  "coinbase_signed E hash sig [] = False"
| "coinbase_signed E hash sig (txout # rest) =
     (case Solver (scriptPubKey txout) of (False, _) \<Rightarrow> False
      | (True, whichType, vSolutions) \<Rightarrow>
          if whichType = TX_PUBKEY
          then case key_SetPubKey E (vSolutions ! 0) key_Reset of (ok, key) \<Rightarrow>
            if \<not> ok then coinbase_signed E hash sig rest
            else if sig = [] then coinbase_signed E hash sig rest
            else if \<not> key_Verify E hash sig key then coinbase_signed E hash sig rest
            else True
          else coinbase_signed E hash sig rest)"

definition CheckBlockSignature :: "ext \<Rightarrow> bool \<Rightarrow> bool \<Rightarrow> CBlock \<Rightarrow> bool" where
  "CheckBlockSignature E fTestNet fProofOfStake b =
     (let hash = fst (blk_GetHash E b) in
      if hash = genesis_hash fTestNet then vchBlockSig b = []
      else if fProofOfStake
      then case Solver (scriptPubKey (vout (vtx b ! 1) ! 1)) of (False, _) \<Rightarrow> False
        | (True, whichType, vSolutions) \<Rightarrow>
            if whichType = TX_PUBKEY
            then case key_SetPubKey E (vSolutions ! 0) key_Reset of (ok, key) \<Rightarrow>
              if \<not> ok then False else if vchBlockSig b = [] then False else key_Verify E hash (vchBlockSig b) key
            else False
      else coinbase_signed E hash (vchBlockSig b) (vout (vtx b ! 0)))"

text \<open>An unreadable public key ends the search with the exception of \<^verbatim>\<open>GetPubKey\<close>.\<close>

fun sign_coinbase :: "ext \<Rightarrow> key_store \<Rightarrow> uint256 \<Rightarrow> CTxOut list \<Rightarrow> failure + valtype" where
  "sign_coinbase E ks hash [] = Inl Reject"
| "sign_coinbase E ks hash (txout # rest) =
     (case Solver (scriptPubKey txout) of (False, _) \<Rightarrow> sign_coinbase E ks hash rest
      | (True, whichType, vSolutions) \<Rightarrow>
          if whichType = TX_PUBKEY
          then case ks_GetKey ks (pubkey_GetID E (vSolutions ! 0)) of None \<Rightarrow> sign_coinbase E ks hash rest
            | Some key \<Rightarrow>
                (case key_GetPubKey E key of Inl e \<Rightarrow> Inl Exception
                 | Inr pk \<Rightarrow>
                     if pk \<noteq> vSolutions ! 0 then sign_coinbase E ks hash rest
                     else case key_Sign E hash key of None \<Rightarrow> sign_coinbase E ks hash rest | Some sig \<Rightarrow> Inr sig)
          else sign_coinbase E ks hash rest)"

definition SignBlock :: "ext \<Rightarrow> key_store \<Rightarrow> CBlock \<Rightarrow> failure + CBlock" where
  "SignBlock E ks b =
     (let (hash, b) = blk_GetHash E b in
      case sign_coinbase E ks hash (vout (vtx b ! 0)) of Inl e \<Rightarrow> Inl e | Inr sig \<Rightarrow> Inr (b\<lparr> vchBlockSig := sig \<rparr>))"

section \<open>Checks that need no context\<close>

definition REWARD_SWITCH_TIME :: int where "REWARD_SWITCH_TIME = 1369432800"

definition check_stake :: "ext \<Rightarrow> bool \<Rightarrow> bool \<Rightarrow> CBlock \<Rightarrow> failure + unit" where
  "check_stake E fTestNet fCheckSig b =
     (if list_ex IsCoinStake (drop 2 (vtx b)) then Inl (DoS 100)
      else if length (vout (vtx b ! 0)) \<noteq> 1 \<or> \<not> txout_IsEmpty (vout (vtx b ! 0) ! 0) then Inl (DoS 100)
      else if \<not> CheckCoinStakeTimestamp (blk_GetBlockTime b) (uint (tx_nTime (vtx b ! 1))) then Inl (DoS 50)
      else if fCheckSig \<and> \<not> CheckBlockSignature E fTestNet True b then Inl (DoS 100)
      else Inr ())"

definition check_reward :: "CBlock \<Rightarrow> failure + unit" where
  "check_reward b =
     (case GetValueOut (vtx b ! 0) of Inl e \<Rightarrow> Inl e
      | Inr nValueOut \<Rightarrow>
          if blk_GetBlockTime b < REWARD_SWITCH_TIME
          then if nValueOut > (if blk_IsProofOfWork b then MAX_MINT_PROOF_OF_WORK else 0) then Inl (DoS 50) else Inr ()
          else if nValueOut > (if blk_IsProofOfWork b then GetProofOfWorkReward - GetMinFee_default (vtx b ! 0) + MIN_TX_FEE else 0)
               then Inl (DoS 50) else Inr ())"

fun check_txs :: "int \<Rightarrow> int \<Rightarrow> CTransaction list \<Rightarrow> failure + unit" where
  "check_txs GetAdjustedTime nTimeBlock [] = Inr ()"
| "check_txs GetAdjustedTime nTimeBlock (tx # txs) =
     (case CheckTransaction GetAdjustedTime tx of Inl e \<Rightarrow> Inl e
      | Inr _ \<Rightarrow> if nTimeBlock < uint (tx_nTime tx) then Inl (DoS 50) else check_txs GetAdjustedTime nTimeBlock txs)"

definition CheckBlock :: "ext \<Rightarrow> bool \<Rightarrow> int \<Rightarrow> bool \<Rightarrow> bool \<Rightarrow> bool \<Rightarrow> CBlock \<Rightarrow> failure + unit" where
  "CheckBlock E fTestNet GetAdjustedTime fCheckPOW fCheckMerkleRoot fCheckSig b =
     (if vtx b = [] \<or> length (vtx b) > MAX_BLOCK_SIZE \<or> length (ser_block b) > MAX_BLOCK_SIZE then Inl (DoS 100)
      else if fCheckPOW \<and> blk_IsProofOfWork b \<and> \<not> CheckProofOfWork E fTestNet (fst (blk_GetHash E b)) (nBits b) then Inl (DoS 50)
      else if blk_GetBlockTime b > FutureDrift GetAdjustedTime then Inl Reject
      else if vtx b = [] \<or> \<not> IsCoinBase (vtx b ! 0) then Inl (DoS 100)
      else if list_ex IsCoinBase (drop 1 (vtx b)) then Inl (DoS 100)
      else if blk_GetBlockTime b > FutureDrift (uint (tx_nTime (vtx b ! 0))) then Inl (DoS 50)
      else case (if blk_IsProofOfStake b then check_stake E fTestNet fCheckSig b else check_reward b) of Inl e \<Rightarrow> Inl e
        | Inr _ \<Rightarrow>
            (case check_txs GetAdjustedTime (blk_GetBlockTime b) (vtx b) of Inl e \<Rightarrow> Inl e
             | Inr _ \<Rightarrow>
                 if card (set (map (tx_GetHash E) (vtx b))) \<noteq> length (vtx b) then Inl (DoS 100)
                 else if unat (fold (\<lambda>tx n. n + GetLegacySigOpCount tx) (vtx b) 0) > MAX_BLOCK_SIGOPS then Inl (DoS 100)
                 else if fCheckMerkleRoot \<and> hashMerkleRoot b \<noteq> fst (BuildMerkleTree E b) then Inl (DoS 100)
                 else Inr ()))"

section \<open>Connecting\<close>

text \<open>The options the connection reads, and what the network tells.\<close>

record connect_opts =
  opt_checkpointdepth :: int
  opt_dyncheckpoint :: bool
  GetNumBlocksOfPeers :: int
  fScriptThreads :: bool
  fUseFastIndex :: bool

definition DYNAMIC_CHECKPOINT_VERIFY_WINDOW :: int where "DYNAMIC_CHECKPOINT_VERIFY_WINDOW = 500"

definition nVerifyFromHeight :: "bool \<Rightarrow> connect_opts \<Rightarrow> int \<Rightarrow> int \<Rightarrow> int" where
  "nVerifyFromHeight fTestNet opts nSync nBestHeight =
     (let v = GetTotalBlocksEstimate fTestNet;
          nBestKnownHeight = max nBestHeight (GetNumBlocksOfPeers opts);
          v = (if opt_dyncheckpoint opts \<and> nSync > v
               then max v (min nSync (nBestKnownHeight - DYNAMIC_CHECKPOINT_VERIFY_WINDOW)) else v)
      in if opt_checkpointdepth opts > 0 then max v (nBestKnownHeight - opt_checkpointdepth opts) else v)"

record connect_state =
  cs_nTxPos :: u32
  mapQueuedChanges :: "uint256 \<rightharpoonup> CTxIndex"
  cs_nFees :: int
  cs_nValueIn :: int
  cs_nValueOut :: int
  cs_nSigOps :: u32
  cs_vChecks :: "CScriptCheck list"

text \<open>A transaction with inputs.  Whatever the score of a failed step, the block is refused without one, except by too
  many signature operations.\<close>

definition connect_one :: "ext \<Rightarrow> bool \<Rightarrow> int \<Rightarrow> blkfiles \<Rightarrow> CTxDB \<Rightarrow> CTxMemPool \<Rightarrow> pchain \<Rightarrow> bool \<Rightarrow> bool \<Rightarrow> CDiskTxPos \<Rightarrow> CTransaction \<Rightarrow>
    connect_state \<Rightarrow> CSignatureCache \<Rightarrow> (failure + connect_state) \<times> CSignatureCache" where
  "connect_one E fTestNet nBestHeight F db mempool pindex fScriptChecks defer posThisTx tx st c =
     (case FetchInputs F db mempool (mapQueuedChanges st) True False tx of Inl e \<Rightarrow> (Inl Reject, c)
      | Inr mapInputs \<Rightarrow>
          (case GetP2SHSigOpCount mapInputs tx of Inl e \<Rightarrow> (Inl e, c)
           | Inr n \<Rightarrow>
               let nSigOps = cs_nSigOps st + n in
               if unat nSigOps > MAX_BLOCK_SIGOPS then (Inl (DoS 100), c)
               else case GetValueIn mapInputs tx of Inl e \<Rightarrow> (Inl e, c)
                 | Inr nTxValueIn \<Rightarrow>
                     (case GetValueOut tx of Inl e \<Rightarrow> (Inl e, c)
                      | Inr nTxValueOut \<Rightarrow>
                          (case ConnectInputs E fTestNet nBestHeight F db mapInputs (mapQueuedChanges st) posThisTx pindex True False
                               fScriptChecks (SCRIPT_VERIFY_NOCACHE OR SCRIPT_VERIFY_P2SH) defer tx c of
                             (Inl Exception, c) \<Rightarrow> (Inl Exception, c)
                           | (Inl e, c) \<Rightarrow> (Inl Reject, c)
                           | (Inr (Q, vChecks), c) \<Rightarrow>
                               (Inr (st\<lparr> mapQueuedChanges := Q, cs_nSigOps := nSigOps, cs_vChecks := cs_vChecks st @ vChecks,
                                  cs_nValueIn := s64 (cs_nValueIn st + nTxValueIn), cs_nValueOut := s64 (cs_nValueOut st + nTxValueOut),
                                  cs_nFees := (if \<not> IsCoinStake tx then s64 (cs_nFees st + (nTxValueIn - nTxValueOut)) else cs_nFees st) \<rparr>), c)))))"

fun connect_txs :: "ext \<Rightarrow> bool \<Rightarrow> int \<Rightarrow> blkfiles \<Rightarrow> CTxDB \<Rightarrow> CTxMemPool \<Rightarrow> pchain \<Rightarrow> bool \<Rightarrow> bool \<Rightarrow> bool \<Rightarrow> CTransaction list \<Rightarrow>
    connect_state \<Rightarrow> CSignatureCache \<Rightarrow> (failure + connect_state) \<times> CSignatureCache" where
  "connect_txs E fTestNet nBestHeight F db mempool pindex fJustCheck fScriptChecks defer [] st c = (Inr st, c)"
| "connect_txs E fTestNet nBestHeight F db mempool pindex fJustCheck fScriptChecks defer (tx # txs) st c =
     (let hashTx = tx_GetHash E tx in
      if (case ReadTxIndex hashTx db of None \<Rightarrow> False | Some txindexOld \<Rightarrow> list_ex pos_IsNull (vSpent txindexOld)) then (Inl Reject, c)
      else let nSigOps = cs_nSigOps st + GetLegacySigOpCount tx in
        if unat nSigOps > MAX_BLOCK_SIGOPS then (Inl (DoS 100), c)
        else let posThisTx = \<lparr> nFile = bi_nFile (hd pindex), nBlockPos = bi_nBlockPos (hd pindex), nTxPos = cs_nTxPos st \<rparr>;
                 st = st\<lparr> cs_nSigOps := nSigOps, cs_nTxPos := (if \<not> fJustCheck then cs_nTxPos st + of_nat (length (ser_tx tx)) else cs_nTxPos st) \<rparr>
             in case (if IsCoinBase tx
                      then (case GetValueOut tx of Inl e \<Rightarrow> (Inl e, c) | Inr v \<Rightarrow> (Inr (st\<lparr> cs_nValueOut := s64 (cs_nValueOut st + v) \<rparr>), c))
                      else connect_one E fTestNet nBestHeight F db mempool pindex fScriptChecks defer posThisTx tx st c) of
                  (Inl e, c) \<Rightarrow> (Inl e, c)
                | (Inr st, c) \<Rightarrow>
                    connect_txs E fTestNet nBestHeight F db mempool pindex fJustCheck fScriptChecks defer txs
                      (st\<lparr> mapQueuedChanges := (mapQueuedChanges st)(hashTx \<mapsto> txindex_new posThisTx (length (vout tx))) \<rparr>) c)"

text \<open>The keys of \<^verbatim>\<open>mapQueuedChanges\<close> after the loop, in the order of the map.\<close>

definition queued_keys :: "ext \<Rightarrow> CTransaction list \<Rightarrow> uint256 list" where
  "queued_keys E txs =
     sort (remdups (concat (map (\<lambda>tx. tx_GetHash E tx # (if IsCoinBase tx then [] else map (op_hash \<circ> prevout) (vin tx))) txs)))"

text \<open>Every check that was put into the queue has been run when \<^verbatim>\<open>Wait\<close> returns; the flag that keeps results out of the
  signature cache is set.  \<open>pindex\<close> is the list that starts with the block's index object.\<close>

definition ConnectBlock :: "ext \<Rightarrow> bool \<Rightarrow> int \<Rightarrow> int \<Rightarrow> blkfiles \<Rightarrow> CTxMemPool \<Rightarrow> connect_opts \<Rightarrow> int \<Rightarrow> CTxDB \<Rightarrow> pchain \<Rightarrow> bool \<Rightarrow> CBlock \<Rightarrow>
    CSignatureCache \<Rightarrow> (failure + CBlockIndex) \<times> CTxDB \<times> CSignatureCache" where
  "ConnectBlock E fTestNet GetAdjustedTime nBestHeight F mempool opts nSync db pindex fJustCheck b c =
     (let i = hd pindex; prevs = tl pindex; write = WriteBlockIndex E (fUseFastIndex opts) GetAdjustedTime;
          fRecheckPOW = (\<not> fJustCheck \<and> nHeight i > GetTotalBlocksEstimate fTestNet) in
      case CheckBlock E fTestNet GetAdjustedTime fRecheckPOW (\<not> fJustCheck) False b of Inl e \<Rightarrow> (Inl e, db, c)
      | Inr _ \<Rightarrow>
          let fScriptChecks = (nHeight i \<ge> nVerifyFromHeight fTestNet opts nSync nBestHeight);
              nTxPos = (if fJustCheck then 1 else first_tx_pos (bi_nBlockPos i) (length (vtx b)));
              st = \<lparr> cs_nTxPos = nTxPos, mapQueuedChanges = Map.empty, cs_nFees = 0, cs_nValueIn = 0, cs_nValueOut = 0, cs_nSigOps = 0, cs_vChecks = [] \<rparr>
          in case connect_txs E fTestNet nBestHeight F db mempool pindex fJustCheck fScriptChecks (fScriptThreads opts) (vtx b) st c of
               (Inl e, c) \<Rightarrow> (Inl e, db, c)
             | (Inr st, c) \<Rightarrow>
                 if fScriptChecks \<and> fScriptThreads opts \<and> \<not> list_all (\<lambda>s. fst (run_check E s c)) (cs_vChecks st) then (Inl (DoS 100), db, c)
                 else let i = i\<lparr> nMint := s64 (cs_nValueOut st - cs_nValueIn st + cs_nFees st),
                          nMoneySupply := s64 ((case prevs of [] \<Rightarrow> 0 | p # _ \<Rightarrow> nMoneySupply p) + cs_nValueOut st - cs_nValueIn st) \<rparr>
                      in case write (CDiskBlockIndex_of i) db of (False, db) \<Rightarrow> (Inl Reject, db, c)
                         | (True, db) \<Rightarrow>
                             if fJustCheck then (Inr i, db, c)
                             else case write_all UpdateTxIndex (map (\<lambda>k. (k, the (mapQueuedChanges st k))) (queued_keys E (vtx b))) db of
                                 (False, db) \<Rightarrow> (Inl Reject, db, c)
                               | (True, db) \<Rightarrow>
                                   (case prevs of [] \<Rightarrow> (Inr i, db, c)
                                    | p # _ \<Rightarrow>
                                        (case write ((CDiskBlockIndex_of p)\<lparr> hashNext := bi_GetBlockHash i \<rparr>) db of
                                           (False, db) \<Rightarrow> (Inl Reject, db, c) | (True, db) \<Rightarrow> (Inr i, db, c))))"

section \<open>Disconnecting\<close>

fun disconnect_txs :: "ext \<Rightarrow> CTransaction list \<Rightarrow> CTxDB \<Rightarrow> bool \<times> CTxDB" where
  "disconnect_txs E [] db = (True, db)"
| "disconnect_txs E (tx # txs) db =
     (case DisconnectInputs E tx db of (False, db) \<Rightarrow> (False, db) | (True, db) \<Rightarrow> disconnect_txs E txs db)"

definition DisconnectBlock :: "ext \<Rightarrow> int \<Rightarrow> connect_opts \<Rightarrow> pchain \<Rightarrow> CBlock \<Rightarrow> CTxDB \<Rightarrow> bool \<times> CTxDB" where
  "DisconnectBlock E GetAdjustedTime opts pindex b db =
     (case disconnect_txs E (rev (vtx b)) db of (False, db) \<Rightarrow> (False, db)
      | (True, db) \<Rightarrow>
          (case tl pindex of [] \<Rightarrow> (True, db)
           | p # _ \<Rightarrow> WriteBlockIndex E (fUseFastIndex opts) GetAdjustedTime ((CDiskBlockIndex_of p)\<lparr> hashNext := 0 \<rparr>) db))"

section \<open>The ledger\<close>

text \<open>What a transaction at a position does to the index: the outputs it spends must be distinct and unspent, they are marked
  with its position, and its own outputs are added.\<close>

definition spent_by :: "CTransaction \<Rightarrow> COutPoint list" where
  "spent_by tx = (if IsCoinBase tx then [] else map prevout (vin tx))"

definition ledger_tx :: "ext \<Rightarrow> CDiskTxPos \<Rightarrow> CTransaction \<Rightarrow> (uint256 \<rightharpoonup> CTxIndex) \<Rightarrow> (uint256 \<rightharpoonup> CTxIndex) option" where
  "ledger_tx E pos tx W =
     (if distinct (spent_by tx) \<and> list_all (unspent W) (spent_by tx)
      then Some ((mark_spent (set (spent_by tx)) pos W)(tx_GetHash E tx \<mapsto> txindex_new pos (length (vout tx)))) else None)"

fun ledger_txs :: "ext \<Rightarrow> (CDiskTxPos \<times> CTransaction) list \<Rightarrow> (uint256 \<rightharpoonup> CTxIndex) \<Rightarrow> (uint256 \<rightharpoonup> CTxIndex) option" where
  "ledger_txs E [] W = Some W"
| "ledger_txs E ((pos, tx) # ts) W = (case ledger_tx E pos tx W of None \<Rightarrow> None | Some W \<Rightarrow> ledger_txs E ts W)"

definition block_positions :: "CBlockIndex \<Rightarrow> u32 \<Rightarrow> CTransaction list \<Rightarrow> (CDiskTxPos \<times> CTransaction) list" where
  "block_positions i p txs = zip (map (\<lambda>q. \<lparr> nFile = bi_nFile i, nBlockPos = bi_nBlockPos i, nTxPos = q \<rparr>) (tx_positions p txs)) txs"

definition ledger_block :: "ext \<Rightarrow> CBlockIndex \<Rightarrow> CBlock \<Rightarrow> (uint256 \<rightharpoonup> CTxIndex) \<Rightarrow> (uint256 \<rightharpoonup> CTxIndex) option" where
  "ledger_block E i b W = ledger_txs E (block_positions i (first_tx_pos (bi_nBlockPos i) (length (vtx b))) (vtx b)) W"

section \<open>Connecting follows the ledger\<close>

lemma connect_one_Inr:
  assumes "connect_one E tn best F db pool ch sc defer pos tx st c = (Inr st', c')"
  obtains I n vi vo Q v where "FetchInputs F db pool (mapQueuedChanges st) True False tx = Inr I"
    "GetValueIn I tx = Inr vi" "GetValueOut tx = Inr vo"
    "ConnectInputs E tn best F db I (mapQueuedChanges st) pos ch True False sc (SCRIPT_VERIFY_NOCACHE OR SCRIPT_VERIFY_P2SH) defer tx c = (Inr (Q, v), c')"
    "st' = st\<lparr> mapQueuedChanges := Q, cs_nSigOps := n, cs_vChecks := cs_vChecks st @ v,
       cs_nValueIn := s64 (cs_nValueIn st + vi), cs_nValueOut := s64 (cs_nValueOut st + vo),
       cs_nFees := (if \<not> IsCoinStake tx then s64 (cs_nFees st + (vi - vo)) else cs_nFees st) \<rparr>"
proof -
  obtain I where I: "FetchInputs F db pool (mapQueuedChanges st) True False tx = Inr I"
    using assms by (auto simp: connect_one_def split: sum.splits)
  obtain n vi vo where v: "GetP2SHSigOpCount I tx = Inr n" "GetValueIn I tx = Inr vi" "GetValueOut tx = Inr vo"
    using assms I by (auto simp: connect_one_def Let_def split: sum.splits if_splits)
  obtain r c1 where c: "ConnectInputs E tn best F db I (mapQueuedChanges st) pos ch True False sc (SCRIPT_VERIFY_NOCACHE OR SCRIPT_VERIFY_P2SH) defer tx c = (r, c1)"
    by force
  obtain Q w where r: "r = Inr (Q, w)" "c1 = c'" "st' = st\<lparr> mapQueuedChanges := Q, cs_nSigOps := cs_nSigOps st + n, cs_vChecks := cs_vChecks st @ w,
       cs_nValueIn := s64 (cs_nValueIn st + vi), cs_nValueOut := s64 (cs_nValueOut st + vo),
       cs_nFees := (if \<not> IsCoinStake tx then s64 (cs_nFees st + (vi - vo)) else cs_nFees st) \<rparr>"
    using assms I v c by (auto simp: connect_one_def Let_def split: sum.splits if_splits failure.splits)
  show ?thesis by (rule that [OF I v(2,3) c [unfolded r(1,2)] r(3)])
qed

text \<open>One round of the loop.\<close>

lemma connect_txs_Cons:
  assumes "connect_txs E tn best F db pool ch just sc defer (tx # txs) st c = (Inr st'', c'')"
  obtains st1 st2 c' where
    "st1 = st\<lparr> cs_nSigOps := cs_nSigOps st + GetLegacySigOpCount tx,
       cs_nTxPos := (if \<not> just then cs_nTxPos st + of_nat (length (ser_tx tx)) else cs_nTxPos st) \<rparr>"
    "IsCoinBase tx \<longrightarrow> (\<exists>v. GetValueOut tx = Inr v \<and> st2 = st1\<lparr> cs_nValueOut := s64 (cs_nValueOut st1 + v) \<rparr> \<and> c' = c)"
    "\<not> IsCoinBase tx \<longrightarrow> connect_one E tn best F db pool ch sc defer
       \<lparr> nFile = bi_nFile (hd ch), nBlockPos = bi_nBlockPos (hd ch), nTxPos = cs_nTxPos st \<rparr> tx st1 c = (Inr st2, c')"
    "connect_txs E tn best F db pool ch just sc defer txs (st2\<lparr> mapQueuedChanges := (mapQueuedChanges st2)(tx_GetHash E tx \<mapsto>
       txindex_new \<lparr> nFile = bi_nFile (hd ch), nBlockPos = bi_nBlockPos (hd ch), nTxPos = cs_nTxPos st \<rparr> (length (vout tx))) \<rparr>) c' = (Inr st'', c'')"
proof -
  define st1 where "st1 = st\<lparr> cs_nSigOps := cs_nSigOps st + GetLegacySigOpCount tx,
       cs_nTxPos := (if \<not> just then cs_nTxPos st + of_nat (length (ser_tx tx)) else cs_nTxPos st) \<rparr>"
  define pos where "pos = \<lparr> nFile = bi_nFile (hd ch), nBlockPos = bi_nBlockPos (hd ch), nTxPos = cs_nTxPos st \<rparr>"
  obtain r c' where r: "(if IsCoinBase tx
        then (case GetValueOut tx of Inl e \<Rightarrow> (Inl e, c) | Inr v \<Rightarrow> (Inr (st1\<lparr> cs_nValueOut := s64 (cs_nValueOut st1 + v) \<rparr>), c))
        else connect_one E tn best F db pool ch sc defer pos tx st1 c) = (r, c')" by force
  have step: "(case (r, c') of (Inl e, c) \<Rightarrow> (Inl e, c) | (Inr st, c) \<Rightarrow>
      connect_txs E tn best F db pool ch just sc defer txs
        (st\<lparr> mapQueuedChanges := (mapQueuedChanges st)(tx_GetHash E tx \<mapsto> txindex_new pos (length (vout tx))) \<rparr>) c) = (Inr st'', c'')"
    using assms unfolding r [symmetric] pos_def st1_def by (simp add: Let_def split: if_splits)
  then obtain st2 where st2: "r = Inr st2" by (cases r) auto
  show ?thesis
  proof (rule that [OF st1_def])
    show "IsCoinBase tx \<longrightarrow> (\<exists>v. GetValueOut tx = Inr v \<and> st2 = st1\<lparr> cs_nValueOut := s64 (cs_nValueOut st1 + v) \<rparr> \<and> c' = c)"
      using r st2 by (auto split: sum.splits)
    show "\<not> IsCoinBase tx \<longrightarrow> connect_one E tn best F db pool ch sc defer
       \<lparr> nFile = bi_nFile (hd ch), nBlockPos = bi_nBlockPos (hd ch), nTxPos = cs_nTxPos st \<rparr> tx st1 c = (Inr st2, c')"
      using r st2 by (auto simp: pos_def)
    show "connect_txs E tn best F db pool ch just sc defer txs (st2\<lparr> mapQueuedChanges := (mapQueuedChanges st2)(tx_GetHash E tx \<mapsto>
       txindex_new \<lparr> nFile = bi_nFile (hd ch), nBlockPos = bi_nBlockPos (hd ch), nTxPos = cs_nTxPos st \<rparr> (length (vout tx))) \<rparr>) c' = (Inr st'', c'')"
      using step st2 by (simp add: pos_def)
  qed
qed

lemma connect_txs_ledger:
  assumes "connect_txs E tn best F db pool ch False sc defer txs st c = (Inr st', c')" "bi_nFile (hd ch) \<noteq> - 1"
  shows "ledger_txs E (block_positions (hd ch) (cs_nTxPos st) txs) (tx_view db ++ mapQueuedChanges st) = Some (tx_view db ++ mapQueuedChanges st') \<and>
    dom (mapQueuedChanges st') = dom (mapQueuedChanges st) \<union> set (queued_keys E txs)"
  using assms(1)
proof (induction txs arbitrary: st c)
  case (Cons tx txs)
  define pos where "pos = \<lparr> nFile = bi_nFile (hd ch), nBlockPos = bi_nBlockPos (hd ch), nTxPos = cs_nTxPos st \<rparr>"
  let ?h = "tx_GetHash E tx" and ?x = "txindex_new pos (length (vout tx))"
  obtain st1 st2 c1 where s1: "st1 = st\<lparr> cs_nSigOps := cs_nSigOps st + GetLegacySigOpCount tx,
       cs_nTxPos := (if \<not> False then cs_nTxPos st + of_nat (length (ser_tx tx)) else cs_nTxPos st) \<rparr>"
    and cb: "IsCoinBase tx \<longrightarrow> (\<exists>v. GetValueOut tx = Inr v \<and> st2 = st1\<lparr> cs_nValueOut := s64 (cs_nValueOut st1 + v) \<rparr> \<and> c1 = c)"
    and one: "\<not> IsCoinBase tx \<longrightarrow> connect_one E tn best F db pool ch sc defer pos tx st1 c = (Inr st2, c1)"
    and go: "connect_txs E tn best F db pool ch False sc defer txs (st2\<lparr> mapQueuedChanges := (mapQueuedChanges st2)(?h \<mapsto> ?x) \<rparr>) c1 = (Inr st', c')"
    by (rule connect_txs_Cons [OF Cons.prems]) (unfold pos_def, blast)
  have np: "\<not> pos_IsNull pos" using assms(2) by (simp add: pos_def pos_IsNull_def)
  let ?W = "tx_view db ++ mapQueuedChanges st"
  have "distinct (spent_by tx) \<and> list_all (unspent ?W) (spent_by tx) \<and>
      tx_view db ++ mapQueuedChanges st2 = mark_spent (set (spent_by tx)) pos ?W \<and> cs_nTxPos st2 = cs_nTxPos st1 \<and>
      dom (mapQueuedChanges st2) = dom (mapQueuedChanges st) \<union> op_hash ` set (spent_by tx)"
  proof (cases "IsCoinBase tx")
    case True
    then show ?thesis using cb by (auto simp: spent_by_def s1)
  next
    case False
    obtain I n vi vo Q v where I: "FetchInputs F db pool (mapQueuedChanges st1) True False tx = Inr I"
      and ci: "ConnectInputs E tn best F db I (mapQueuedChanges st1) pos ch True False sc (SCRIPT_VERIFY_NOCACHE OR SCRIPT_VERIFY_P2SH) defer tx c = (Inr (Q, v), c1)"
      and st2: "mapQueuedChanges st2 = Q" "cs_nTxPos st2 = cs_nTxPos st1"
      by (rule connect_one_Inr [OF mp [OF one False]]) auto
    have q1: "mapQueuedChanges st1 = mapQueuedChanges st" by (simp add: s1)
    let ?S = "prevout ` set (vin tx)"
    note q = connect_queue [OF I ci False np, unfolded Let_def q1]
    have sp: "spent_by tx = map prevout (vin tx)" by (simp add: spent_by_def False)
    have marks: "tx_view db ++ Q = mark_spent ?S pos ?W" using q queue_marks [of ?S "tx_view db" "mapQueuedChanges st" pos] by simp
    have "dom Q = dom (mapQueuedChanges st) \<union> op_hash ` ?S"
      using q unspent_marked [where W = ?W and S = ?S and pos = pos] by (auto simp: dom_def split: if_splits)
    then show ?thesis using q marks st2 by (simp add: sp list_all_iff)
  qed
  note one = this
  have "tx_view db ++ (mapQueuedChanges st2)(?h \<mapsto> ?x) = (mark_spent (set (spent_by tx)) pos ?W)(?h \<mapsto> ?x)"
    using one by (simp only: map_add_upd)
  then have l: "ledger_tx E pos tx ?W = Some (tx_view db ++ (mapQueuedChanges st2)(?h \<mapsto> ?x))" using one by (simp add: ledger_tx_def)
  have bp: "block_positions (hd ch) (cs_nTxPos st) (tx # txs) = (pos, tx) # block_positions (hd ch) (cs_nTxPos st2) txs"
    using one by (simp add: block_positions_def pos_def s1)
  have k: "set (queued_keys E (tx # txs)) = {?h} \<union> op_hash ` set (spent_by tx) \<union> set (queued_keys E txs)"
    by (auto simp: queued_keys_def spent_by_def)
  have d: "dom ((mapQueuedChanges st2)(?h \<mapsto> ?x)) = insert ?h (dom (mapQueuedChanges st) \<union> op_hash ` set (spent_by tx))"
    using one by (simp only: dom_fun_upd option.distinct if_False)
  from Cons.IH [OF go] d show ?case unfolding bp k ledger_txs.simps l option.case by (simp del: fun_upd_apply dom_fun_upd) blast
qed (simp add: block_positions_def queued_keys_def)

section \<open>What the context-free checks give\<close>

lemma check_txs_Inr: "check_txs now t txs = Inr () \<Longrightarrow> tx \<in> set txs \<Longrightarrow> CheckTransaction now tx = Inr () \<and> uint (tx_nTime tx) \<le> t"
  by (induction txs) (auto split: sum.splits if_splits)

lemma CheckBlock_Inr:
  assumes "CheckBlock E tn now fp fm fs b = Inr ()"
  shows "vtx b \<noteq> []" "length (ser_block b) \<le> MAX_BLOCK_SIZE" "IsCoinBase (vtx b ! 0)" "\<forall>tx \<in> set (tl (vtx b)). \<not> IsCoinBase tx"
    "blk_IsProofOfStake b \<Longrightarrow> check_stake E tn fs b = Inr ()" "\<not> blk_IsProofOfStake b \<Longrightarrow> check_reward b = Inr ()"
    "\<forall>tx \<in> set (vtx b). CheckTransaction now tx = Inr ()" "distinct (map (tx_GetHash E) (vtx b))"
proof -
  define k where "k = (if blk_IsProofOfStake b then check_stake E tn fs b else check_reward b)"
  note a = assms [unfolded CheckBlock_def, folded k_def]
  have 1: "\<not> (vtx b = [] \<or> length (vtx b) > MAX_BLOCK_SIZE \<or> length (ser_block b) > MAX_BLOCK_SIZE)" using a by (auto split: if_split_asm)
  note b = a [unfolded if_not_P [OF 1]]
  have 2: "\<not> (vtx b = [] \<or> \<not> IsCoinBase (vtx b ! 0))" "\<not> list_ex IsCoinBase (drop 1 (vtx b))" using b by (simp_all split: if_split_asm)
  have 3: "k = Inr ()" "check_txs now (blk_GetBlockTime b) (vtx b) = Inr ()" "card (set (map (tx_GetHash E) (vtx b))) = length (vtx b)"
    using b by (simp_all split: if_split_asm sum.split_asm)
  show "vtx b \<noteq> []" "length (ser_block b) \<le> MAX_BLOCK_SIZE" "IsCoinBase (vtx b ! 0)" "\<forall>tx \<in> set (tl (vtx b)). \<not> IsCoinBase tx"
    using 1 2 by (simp_all add: list_ex_iff drop_Suc)
  show "blk_IsProofOfStake b \<Longrightarrow> check_stake E tn fs b = Inr ()" "\<not> blk_IsProofOfStake b \<Longrightarrow> check_reward b = Inr ()"
    using 3(1) by (simp_all add: k_def)
  show "\<forall>tx \<in> set (vtx b). CheckTransaction now tx = Inr ()" using check_txs_Inr [OF 3(2)] by blast
  show "distinct (map (tx_GetHash E) (vtx b))" using 3(3) by (intro card_distinct) simp
qed

lemma length_vout_ser: "length (vout tx) \<le> length (ser_tx tx)"
proof -
  have "length xs \<le> length (concat (map ser_txout xs))" for xs
    by (induction xs) (auto simp: ser_txout_def)
  then show ?thesis by (simp add: ser_tx_def ser_vector_def) (meson le_add2 le_trans trans_le_add1 trans_le_add2)
qed

lemma CheckTransaction_outputs: "CheckTransaction now tx = Inr () \<Longrightarrow> length (vout tx) \<le> MAX_SIZE"
  using length_vout_ser [of tx] by (auto simp: CheckTransaction_def MAX_BLOCK_SIZE_def MAX_SIZE_def split: if_splits)

section \<open>Indexes that can be stored\<close>

definition index_ok :: "(uint256 \<rightharpoonup> CTxIndex) \<Rightarrow> bool" where
  "index_ok W \<longleftrightarrow> (\<forall>h x. W h = Some x \<longrightarrow> txindex_ok x)"

lemma index_ok_mark: "index_ok W \<Longrightarrow> index_ok (mark_spent S pos W)"
  by (auto simp: index_ok_def mark_spent_def txindex_ok_def)

lemma ledger_tx_ok:
  assumes "ledger_tx E pos tx W = Some W'" "\<not> pos_IsNull pos"
  shows "index_ok W \<Longrightarrow> length (vout tx) \<le> MAX_SIZE \<Longrightarrow> index_ok W'" "nulls_plain W \<Longrightarrow> nulls_plain W'"
    "dom W' = insert (tx_GetHash E tx) (dom W)"
proof -
  have W': "W' = (mark_spent (set (spent_by tx)) pos W)(tx_GetHash E tx \<mapsto> txindex_new pos (length (vout tx)))"
    using assms(1) by (auto simp: ledger_tx_def split: if_splits)
  show "index_ok W'" if "index_ok W" "length (vout tx) \<le> MAX_SIZE"
    using index_ok_mark [OF that(1)] that(2) unfolding W' by (auto simp: index_ok_def txindex_ok_def txindex_new_def)
  show "nulls_plain W'" if "nulls_plain W"
    using nulls_plain_mark [OF that, of pos] assms(2) unfolding W' by (auto simp: nulls_plain_def txindex_new_def)
  have "dom (mark_spent (set (spent_by tx)) pos W) = dom W" by (auto simp: mark_spent_def)
  then show "dom W' = insert (tx_GetHash E tx) (dom W)" unfolding W' by simp
qed

lemma ledger_txs_ok:
  "ledger_txs E ts W = Some W' \<Longrightarrow> \<forall>(pos, tx) \<in> set ts. \<not> pos_IsNull pos \<and> length (vout tx) \<le> MAX_SIZE \<Longrightarrow> index_ok W \<Longrightarrow> index_ok W'"
proof (induction ts arbitrary: W)
  case (Cons t ts)
  obtain pos tx where t: "t = (pos, tx)" by force
  obtain W1 where W1: "ledger_tx E pos tx W = Some W1" "ledger_txs E ts W1 = Some W'" using Cons.prems(1) t by (auto split: option.splits)
  have "index_ok W1" using ledger_tx_ok(1) [OF W1(1)] Cons.prems(2,3) t by simp
  then show ?case using Cons.IH [OF W1(2)] Cons.prems(2) by simp
qed simp

lemma block_positions_mem:
  assumes "bi_nFile i \<noteq> - 1" "(pos, tx) \<in> set (block_positions i p txs)"
  shows "\<not> pos_IsNull pos \<and> tx \<in> set txs"
  using assms(1) set_zip_leftD [OF assms(2) [unfolded block_positions_def]] set_zip_rightD [OF assms(2) [unfolded block_positions_def]]
  by (auto simp: pos_IsNull_def)

section \<open>The database after connecting\<close>

lemma ConnectBlock_Inr:
  assumes "ConnectBlock E tn now best F pool opts nSync db ch False b c = (Inr i', db', c')"
  obtains st' db1 db2 where "CheckBlock E tn now (nHeight (hd ch) > GetTotalBlocksEstimate tn) True False b = Inr ()"
    "connect_txs E tn best F db pool ch False (nHeight (hd ch) \<ge> nVerifyFromHeight tn opts nSync best) (fScriptThreads opts) (vtx b)
       \<lparr> cs_nTxPos = first_tx_pos (bi_nBlockPos (hd ch)) (length (vtx b)), mapQueuedChanges = Map.empty, cs_nFees = 0, cs_nValueIn = 0,
         cs_nValueOut = 0, cs_nSigOps = 0, cs_vChecks = [] \<rparr> c = (Inr st', c')"
    "nHeight (hd ch) \<ge> nVerifyFromHeight tn opts nSync best \<Longrightarrow> fScriptThreads opts \<Longrightarrow> list_all (\<lambda>s. fst (run_check E s c')) (cs_vChecks st')"
    "i' = (hd ch)\<lparr> nMint := s64 (cs_nValueOut st' - cs_nValueIn st' + cs_nFees st'),
       nMoneySupply := s64 ((case tl ch of [] \<Rightarrow> 0 | p # _ \<Rightarrow> nMoneySupply p) + cs_nValueOut st' - cs_nValueIn st') \<rparr>"
    "WriteBlockIndex E (fUseFastIndex opts) now (CDiskBlockIndex_of i') db = (True, db1)"
    "write_all UpdateTxIndex (map (\<lambda>k. (k, the (mapQueuedChanges st' k))) (queued_keys E (vtx b))) db1 = (True, db2)"
    "db' = (case tl ch of [] \<Rightarrow> db2
       | p # _ \<Rightarrow> snd (WriteBlockIndex E (fUseFastIndex opts) now ((CDiskBlockIndex_of p)\<lparr> hashNext := bi_GetBlockHash i' \<rparr>) db2))"
proof -
  let ?sc = "nHeight (hd ch) \<ge> nVerifyFromHeight tn opts nSync best"
  let ?st = "\<lparr> cs_nTxPos = first_tx_pos (bi_nBlockPos (hd ch)) (length (vtx b)), mapQueuedChanges = Map.empty, cs_nFees = 0, cs_nValueIn = 0,
         cs_nValueOut = 0, cs_nSigOps = 0, cs_vChecks = [] \<rparr> :: connect_state"
  have cb: "CheckBlock E tn now (nHeight (hd ch) > GetTotalBlocksEstimate tn) True False b = Inr ()"
    using assms by (auto simp: ConnectBlock_def Let_def split: sum.splits)
  obtain r c1 where r: "connect_txs E tn best F db pool ch False ?sc (fScriptThreads opts) (vtx b) ?st c = (r, c1)" by force
  obtain st' where st': "r = Inr st'" "c1 = c'"
    using assms cb r by (auto simp: ConnectBlock_def Let_def split: sum.splits if_splits prod.splits bool.splits list.splits)
  define j where "j = (hd ch)\<lparr> nMint := s64 (cs_nValueOut st' - cs_nValueIn st' + cs_nFees st'),
       nMoneySupply := s64 ((case tl ch of [] \<Rightarrow> 0 | p # _ \<Rightarrow> nMoneySupply p) + cs_nValueOut st' - cs_nValueIn st') \<rparr>"
  let ?rest = "case WriteBlockIndex E (fUseFastIndex opts) now (CDiskBlockIndex_of j) db of (False, db) \<Rightarrow> (Inl Reject, db, c')
      | (True, db) \<Rightarrow>
          (case write_all UpdateTxIndex (map (\<lambda>k. (k, the (mapQueuedChanges st' k))) (queued_keys E (vtx b))) db of
             (False, db) \<Rightarrow> (Inl Reject, db, c')
           | (True, db) \<Rightarrow>
               (case tl ch of [] \<Rightarrow> (Inr j, db, c')
                | p # _ \<Rightarrow>
                    (case WriteBlockIndex E (fUseFastIndex opts) now ((CDiskBlockIndex_of p)\<lparr> hashNext := bi_GetBlockHash j \<rparr>) db of
                       (False, db) \<Rightarrow> (Inl Reject, db, c') | (True, db) \<Rightarrow> (Inr j, db, c'))))"
  have eq: "ConnectBlock E tn now best F pool opts nSync db ch False b c =
      (if ?sc \<and> fScriptThreads opts \<and> \<not> list_all (\<lambda>s. fst (run_check E s c')) (cs_vChecks st') then (Inl (DoS 100), db, c') else ?rest)"
    unfolding ConnectBlock_def Let_def j_def if_False using cb r st' by simp
  have rest: "\<not> (?sc \<and> fScriptThreads opts \<and> \<not> list_all (\<lambda>s. fst (run_check E s c')) (cs_vChecks st'))" "?rest = (Inr i', db', c')"
    using assms unfolding eq by (metis (no_types, lifting) Inl_Inr_False prod.inject)+
  obtain w1 db1 where w1: "WriteBlockIndex E (fUseFastIndex opts) now (CDiskBlockIndex_of j) db = (w1, db1)" by force
  obtain w2 db2 where w2: "write_all UpdateTxIndex (map (\<lambda>k. (k, the (mapQueuedChanges st' k))) (queued_keys E (vtx b))) db1 = (w2, db2)" by force
  have w: "w1 = True" "w2 = True" "i' = j" "db' = (case tl ch of [] \<Rightarrow> db2
       | p # _ \<Rightarrow> snd (WriteBlockIndex E (fUseFastIndex opts) now ((CDiskBlockIndex_of p)\<lparr> hashNext := bi_GetBlockHash j \<rparr>) db2))"
    using rest(2) by (auto simp: w1 w2 split: bool.splits list.splits prod.splits)
  show ?thesis
  proof (rule that [OF cb r [unfolded st'] _ w(3) [unfolded j_def] w1 [unfolded w(1) w(3) [symmetric]] w2 [unfolded w(2)] w(4) [folded w(3)]])
    show "list_all (\<lambda>s. fst (run_check E s c')) (cs_vChecks st')" if "?sc" "fScriptThreads opts" using rest(1) that by blast
  qed
qed

lemma ConnectBlock_view:
  assumes "ConnectBlock E tn now best F pool opts nSync db ch False b c = (Inr i', db', c')"
    and "db_ready db" "index_ok (tx_view db)" "bi_nFile (hd ch) \<noteq> - 1"
  shows "ledger_block E (hd ch) b (tx_view db) = Some (tx_view db') \<and> db_ready db' \<and> index_ok (tx_view db') \<and>
    distinct (map (tx_GetHash E) (vtx b)) \<and> (\<forall>tx \<in> set (vtx b). length (vout tx) \<le> MAX_SIZE)"
proof -
  obtain st' db1 db2 where cb: "CheckBlock E tn now (nHeight (hd ch) > GetTotalBlocksEstimate tn) True False b = Inr ()"
    and ct: "connect_txs E tn best F db pool ch False (nHeight (hd ch) \<ge> nVerifyFromHeight tn opts nSync best) (fScriptThreads opts) (vtx b)
       \<lparr> cs_nTxPos = first_tx_pos (bi_nBlockPos (hd ch)) (length (vtx b)), mapQueuedChanges = Map.empty, cs_nFees = 0, cs_nValueIn = 0,
         cs_nValueOut = 0, cs_nSigOps = 0, cs_vChecks = [] \<rparr> c = (Inr st', c')"
    and w1: "WriteBlockIndex E (fUseFastIndex opts) now (CDiskBlockIndex_of i') db = (True, db1)"
    and w2: "write_all UpdateTxIndex (map (\<lambda>k. (k, the (mapQueuedChanges st' k))) (queued_keys E (vtx b))) db1 = (True, db2)"
    and db': "db' = (case tl ch of [] \<Rightarrow> db2
       | p # _ \<Rightarrow> snd (WriteBlockIndex E (fUseFastIndex opts) now ((CDiskBlockIndex_of p)\<lparr> hashNext := bi_GetBlockHash i' \<rparr>) db2))"
    by (rule ConnectBlock_Inr [OF assms(1)])
  let ?Q = "mapQueuedChanges st'" and ?keys = "queued_keys E (vtx b)"
  have l: "ledger_block E (hd ch) b (tx_view db) = Some (tx_view db ++ ?Q)" and d: "dom ?Q = set ?keys"
    using connect_txs_ledger [OF ct assms(4)] by (auto simp: ledger_block_def)
  have sizes: "\<forall>tx \<in> set (vtx b). length (vout tx) \<le> MAX_SIZE" using CheckBlock_Inr(7) [OF cb] CheckTransaction_outputs by blast
  have ok: "index_ok (tx_view db ++ ?Q)"
    by (rule ledger_txs_ok [OF l [unfolded ledger_block_def] _ assms(3)]) (use block_positions_mem [OF assms(4)] sizes in blast)
  have r1: "tx_view db1 = tx_view db" "db_ready db1" using write_others(1,2) [OF assms(2), of E "fUseFastIndex opts" now "CDiskBlockIndex_of i'"] w1 by simp_all
  have m: "map_of (map (\<lambda>k. (k, the (?Q k))) ?keys) = ?Q" by (rule map_of_map_keys) (use d in simp)
  have "txindex_ok (the (?Q k))" if "k \<in> set ?keys" for k
  proof -
    obtain x where "?Q k = Some x" using \<open>k \<in> set ?keys\<close> d by blast
    moreover from this have "(tx_view db ++ ?Q) k = Some x" by (rule map_add_find_right)
    then have "txindex_ok x" by (rule ok [unfolded index_ok_def, rule_format])
    ultimately show ?thesis by simp
  qed
  then have good: "list_all (txindex_ok \<circ> snd) (map (\<lambda>k. (k, the (?Q k))) ?keys)" by (auto simp: list_all_iff)
  have dk: "distinct (map fst (map (\<lambda>k. (k, the (?Q k))) ?keys))" by (simp add: comp_def queued_keys_def)
  have r2: "tx_view db2 = tx_view db ++ ?Q" "db_ready db2"
    using txix.write_all_view [OF r1(2) good dk] w2 m r1(1) by simp_all
  have "tx_view db' = tx_view db2 \<and> db_ready db'" unfolding db' using write_others(1,2) [OF r2(2)] r2(2) by (auto split: list.split)
  then show ?thesis using l r2 ok CheckBlock_Inr(8) [OF cb] sizes by simp
qed

section \<open>Disconnecting undoes the ledger\<close>

definition in_index :: "(uint256 \<rightharpoonup> CTxIndex) \<Rightarrow> COutPoint \<Rightarrow> bool" where
  "in_index W out = (case W (op_hash out) of None \<Rightarrow> False | Some x \<Rightarrow> unat (op_n out) < length (vSpent x))"

lemma in_index_mark: "in_index (mark_spent S pos W) out = in_index W out"
  by (auto simp: in_index_def mark_spent_def split: option.splits)

lemma release_inputs_view:
  assumes "db_ready db" "index_ok (tx_view db)" "\<forall>txin \<in> set ins. in_index (tx_view db) (prevout txin)"
  shows "\<exists>db'. release_inputs ins db = (True, db') \<and> db_ready db' \<and> tx_view db' = mark_spent (prevout ` set ins) pos_SetNull (tx_view db)"
  using assms
proof (induction ins arbitrary: db)
  case (Cons txin ins)
  let ?o = "prevout txin"
  obtain x where x: "tx_view db (op_hash ?o) = Some x" "unat (op_n ?o) < length (vSpent x)"
    using Cons.prems(3) by (auto simp: in_index_def split: option.splits)
  let ?y = "x\<lparr> vSpent := (vSpent x)[unat (op_n ?o) := pos_SetNull] \<rparr>"
  have "txindex_ok x" using Cons.prems(2) x(1) by (rule index_ok_def [THEN iffD1, rule_format])
  then have y: "txindex_ok ?y" by (simp add: txindex_ok_def)
  obtain ok db1 where u: "UpdateTxIndex (op_hash ?o) ?y db = (ok, db1)" by force
  have one: "mark_spent {?o} pos_SetNull (tx_view db) = (tx_view db)(op_hash ?o \<mapsto> ?y)" by (rule mark_spent_one [where W = "tx_view db", OF x(1)])
  have db1: "ok" "tx_view db1 = mark_spent {?o} pos_SetNull (tx_view db)" "db_ready db1"
    using txix.put_view [OF Cons.prems(1) y, of "op_hash ?o"] u one by simp_all
  have "index_ok (tx_view db1)" unfolding db1(2) by (rule index_ok_mark [OF Cons.prems(2)])
  moreover have "\<forall>txin \<in> set ins. in_index (tx_view db1) (prevout txin)" using Cons.prems(3) unfolding db1(2) in_index_mark by simp
  ultimately obtain db2 where "release_inputs ins db1 = (True, db2)" "db_ready db2"
    "tx_view db2 = mark_spent (prevout ` set ins) pos_SetNull (tx_view db1)" using Cons.IH [OF db1(3)] by blast
  moreover have "release_inputs (txin # ins) db = release_inputs ins db1"
    using x db1(1) u by (simp add: Let_def tx_view_def)
  ultimately show ?case unfolding db1(2) mark_spent_Un by simp
qed simp

lemma DisconnectInputs_view:
  assumes "ledger_tx E pos tx W = Some (tx_view db)" "W (tx_GetHash E tx) = None" "nulls_plain W" "db_ready db" "index_ok (tx_view db)"
  shows "\<exists>db'. DisconnectInputs E tx db = (True, db') \<and> db_ready db' \<and> tx_view db' = W"
proof -
  let ?h = "tx_GetHash E tx" and ?S = "set (spent_by tx)" and ?x = "txindex_new pos (length (vout tx))"
  have u: "\<forall>out \<in> ?S. unspent W out" and V: "tx_view db = (mark_spent ?S pos W)(?h \<mapsto> ?x)"
    using assms(1) by (auto simp: ledger_tx_def list_all_iff split: if_splits)
  have other: "op_hash out \<noteq> ?h" if "out \<in> ?S" for out using u that assms(2) by (auto simp: unspent_def split: option.splits)
  have "mark_spent ?S pos_SetNull (tx_view db) = W(?h \<mapsto> ?x)"
  proof
    fix k
    show "mark_spent ?S pos_SetNull (tx_view db) k = (W(?h \<mapsto> ?x)) k"
    proof (cases "k = ?h")
      case True
      have "\<not> hits ?S k n" for n using other True by (auto simp: hits_def)
      then show ?thesis using True by (subst mark_spent_other) (simp_all add: V)
    next
      case False
      then have "mark_spent ?S pos_SetNull (tx_view db) k = mark_spent ?S pos_SetNull (mark_spent ?S pos W) k"
        by (simp add: mark_spent_def V)
      then show ?thesis using release_marks [OF u assms(3)] False by simp
    qed
  qed
  moreover have "in_index (tx_view db) out" if "out \<in> ?S" for out
  proof -
    have "in_index (mark_spent ?S pos W) out" unfolding in_index_mark using u that by (auto simp: in_index_def unspent_def split: option.splits)
    then show ?thesis using other [OF that] by (simp add: in_index_def V)
  qed
  ultimately obtain db1 where r: "(if IsCoinBase tx then (True, db) else release_inputs (vin tx) db) = (True, db1)" "db_ready db1"
    "tx_view db1 = W(?h \<mapsto> ?x)"
    using release_inputs_view [OF assms(4,5), of "vin tx"] assms(4) by (cases "IsCoinBase tx") (auto simp: spent_by_def)
  have "tx_view (snd (EraseTxIndex E tx db1)) = W" "db_ready (snd (EraseTxIndex E tx db1))"
    using txix.del_view [OF r(2), of ?h] assms(2) unfolding EraseTxIndex_erase_tx r(3) by (auto simp: fun_eq_iff)
  then show ?thesis unfolding DisconnectInputs_def r(1) by simp
qed

lemma disconnect_txs_view:
  assumes "ledger_txs E ts W = Some (tx_view db)" "\<forall>(pos, tx) \<in> set ts. \<not> pos_IsNull pos \<and> length (vout tx) \<le> MAX_SIZE"
    "distinct (map (tx_GetHash E \<circ> snd) ts)" "\<forall>(pos, tx) \<in> set ts. W (tx_GetHash E tx) = None"
    "nulls_plain W" "index_ok W" "db_ready db"
  shows "\<exists>db'. disconnect_txs E (rev (map snd ts)) db = (True, db') \<and> db_ready db' \<and> tx_view db' = W"
  using assms
proof (induction ts arbitrary: W)
  case (Cons t ts)
  obtain pos tx where t: "t = (pos, tx)" by force
  obtain W1 where W1: "ledger_tx E pos tx W = Some W1" "ledger_txs E ts W1 = Some (tx_view db)" using Cons.prems(1) t by (auto split: option.splits)
  have p: "\<not> pos_IsNull pos" "length (vout tx) \<le> MAX_SIZE" "W (tx_GetHash E tx) = None" using Cons.prems(2,4) t by auto
  have inv: "nulls_plain W1" "index_ok W1" "dom W1 = insert (tx_GetHash E tx) (dom W)"
    using ledger_tx_ok [OF W1(1) p(1)] Cons.prems(5,6) p(2) by auto
  have "W1 (tx_GetHash E tx') = None" if m: "(pos', tx') \<in> set ts" for pos' tx'
  proof -
    have "tx_GetHash E tx' \<noteq> tx_GetHash E tx" "W (tx_GetHash E tx') = None" using Cons.prems(3,4) t m by force+
    then have "tx_GetHash E tx' \<notin> dom W1" using inv(3) by blast
    then show ?thesis by blast
  qed
  then have "\<forall>(pos, tx) \<in> set ts. W1 (tx_GetHash E tx) = None" by blast
  then obtain db1 where db1: "disconnect_txs E (rev (map snd ts)) db = (True, db1)" "db_ready db1" "tx_view db1 = W1"
    using Cons.IH [OF W1(2)] Cons.prems(2,3,7) inv(1,2) by auto
  have app: "disconnect_txs E (xs @ [tx]) s = (case disconnect_txs E xs s of (False, s) \<Rightarrow> (False, s) | (True, s) \<Rightarrow> DisconnectInputs E tx s)" for xs s
    by (induction xs arbitrary: s) (auto split: prod.splits bool.splits)
  have "\<exists>db'. DisconnectInputs E tx db1 = (True, db') \<and> db_ready db' \<and> tx_view db' = W"
    by (rule DisconnectInputs_view [OF _ p(3) Cons.prems(5) db1(2)]) (use W1(1) inv(2) db1(3) in simp_all)
  then show ?case using t db1(1) by (auto simp: app)
qed auto

section \<open>What a block mints\<close>

text \<open>Equality of 64-bit sums.\<close>

definition cong64 :: "int \<Rightarrow> int \<Rightarrow> bool" where
  "cong64 x y = (x mod 2 ^ 64 = y mod 2 ^ 64)"

lemma cong64_refl [simp]: "cong64 x x"
  by (simp add: cong64_def)

lemma cong64_trans: "cong64 x y \<Longrightarrow> cong64 y z \<Longrightarrow> cong64 x z"
  by (simp add: cong64_def)

lemma s64_cong [simp]: "cong64 (s64 x) x"
  by (simp add: cong64_def s64_def mod_diff_left_eq)

lemma cong64_add: "cong64 a b \<Longrightarrow> cong64 c d \<Longrightarrow> cong64 (a + c) (b + d)"
  unfolding cong64_def by (rule mod_add_cong)

lemma cong64_diff: "cong64 a b \<Longrightarrow> cong64 c d \<Longrightarrow> cong64 (a - c) (b - d)"
  unfolding cong64_def by (rule mod_diff_cong)

lemma cong64_s64: "cong64 x y \<Longrightarrow> s64 x = s64 y"
  unfolding cong64_def s64_def using mod_add_cong [of x "2 ^ 64" y "2 ^ 63" "2 ^ 63"] by simp

lemma GetValueIn_sum: "GetValueIn I tx = Inr v \<Longrightarrow> \<not> IsCoinBase tx \<Longrightarrow> cong64 v (sum_list (map (input_value I) (vin tx)))"
proof -
  have "value_in_loop I a ins = Inr v \<Longrightarrow> cong64 v (a + sum_list (map (input_value I) ins))" for a ins
  proof (induction ins arbitrary: a)
    case (Cons txin ins)
    then obtain out where o: "GetOutputFor txin I = Inr out" "value_in_loop I (s64 (a + nValue out)) ins = Inr v" by (auto split: sum.splits)
    have "nValue out = input_value I txin"
      using o(1) by (auto simp: GetOutputFor_def input_value_def prev_of_def split: option.splits if_splits)
    then have "cong64 (s64 (a + nValue out) + sum_list (map (input_value I) ins)) (a + input_value I txin + sum_list (map (input_value I) ins))"
      by (intro cong64_add) simp_all
    from cong64_trans [OF Cons.IH [OF o(2)] this] show ?case by (simp add: add.assoc)
  qed simp
  from this [of 0 "vin tx"] show "GetValueIn I tx = Inr v \<Longrightarrow> \<not> IsCoinBase tx \<Longrightarrow> cong64 v (sum_list (map (input_value I) (vin tx)))"
    by (simp add: GetValueIn_def)
qed

text \<open>The amount \<open>m\<close> a connected transaction creates and the fee \<open>f\<close> it destroys.\<close>

definition minted :: "ext \<Rightarrow> bool \<Rightarrow> int \<Rightarrow> blkfiles \<Rightarrow> CTxDB \<Rightarrow> pchain \<Rightarrow> CTransaction \<Rightarrow> int \<times> int \<Rightarrow> bool" where
  "minted E fTestNet nBestHeight F db pindex tx = (\<lambda>(m, f).
     if IsCoinBase tx then m = sum_list (map nValue (vout tx)) \<and> MoneyRange m \<and> f = 0
     else if IsCoinStake tx
     then \<bar>m\<bar> \<le> MAX_MONEY \<and> f = 0 \<and>
       (\<exists>age. tx_GetCoinAge E fTestNet nBestHeight F db tx = Some age \<and>
          m \<le> GetProofOfStakeReward E fTestNet (s64 (uint age)) (bi_nBits (hd pindex)) (tx_nTime tx) False)
     else m = 0 \<and> f \<ge> MIN_TX_FEE)"

lemma connect_one_minted:
  assumes "connect_one E tn best F db pool ch sc defer pos tx st c = (Inr st', c')" "\<not> IsCoinBase tx"
  shows "\<exists>m f. minted E tn best F db ch tx (m, f) \<and> cong64 (cs_nValueOut st' - cs_nValueIn st') (cs_nValueOut st - cs_nValueIn st + (m - f)) \<and>
    cong64 (cs_nFees st') (cs_nFees st + f)"
proof -
  obtain I n vi vo Q v where gi: "GetValueIn I tx = Inr vi" and go: "GetValueOut tx = Inr vo"
    and ci: "ConnectInputs E tn best F db I (mapQueuedChanges st) pos ch True False sc (SCRIPT_VERIFY_NOCACHE OR SCRIPT_VERIFY_P2SH) defer tx c = (Inr (Q, v), c')"
    and st': "st' = st\<lparr> mapQueuedChanges := Q, cs_nSigOps := n, cs_vChecks := cs_vChecks st @ v,
       cs_nValueIn := s64 (cs_nValueIn st + vi), cs_nValueOut := s64 (cs_nValueOut st + vo),
       cs_nFees := (if \<not> IsCoinStake tx then s64 (cs_nFees st + (vi - vo)) else cs_nFees st) \<rparr>"
    by (rule connect_one_Inr [OF assms(1)])
  define In Out where "In = sum_list (map (input_value I) (vin tx))" and "Out = sum_list (map nValue (vout tx))"
  have vi: "cong64 vi In" using GetValueIn_sum [OF gi assms(2)] by (simp add: In_def)
  have vo: "vo = Out" "MoneyRange Out" using GetValueOut_sum [OF go] unfolding Out_def by metis+
  have w: "pays_within E tn best F db ch tx In" "MoneyRange In"
    by (rule ConnectInputs_Inr [OF ci assms(2)]; simp only: In_def)+
  have d: "cong64 (cs_nValueOut st' - cs_nValueIn st') (cs_nValueOut st - cs_nValueIn st + (Out - In))"
  proof -
    have "cong64 (cs_nValueOut st') (cs_nValueOut st + Out)" by (simp add: st' vo(1))
    moreover have "cong64 (cs_nValueIn st') (cs_nValueIn st + In)"
      using cong64_trans [OF s64_cong cong64_add [OF cong64_refl vi]] by (simp add: st')
    ultimately have "cong64 (cs_nValueOut st' - cs_nValueIn st') (cs_nValueOut st + Out - (cs_nValueIn st + In))" by (rule cong64_diff)
    then show ?thesis by (simp add: algebra_simps)
  qed
  show ?thesis
  proof (cases "IsCoinStake tx")
    case True
    have "\<bar>Out - In\<bar> \<le> MAX_MONEY" using vo(2) w(2) unfolding MoneyRange_def by linarith
    moreover have "cs_nFees st' = cs_nFees st" using True by (simp add: st')
    ultimately show ?thesis using w(1) True assms(2) d
      by - (rule exI [of _ "Out - In"], rule exI [of _ 0], auto simp: minted_def pays_within_def Out_def)
  next
    case False
    have "cong64 (cs_nFees st') (cs_nFees st + (In - Out))"
      using cong64_trans [OF s64_cong cong64_add [OF cong64_refl cong64_diff [OF vi cong64_refl]]] False by (simp add: st' vo(1))
    then show ?thesis using w(1) False assms(2) d
      by - (rule exI [of _ 0], rule exI [of _ "In - Out"], auto simp: minted_def pays_within_def Out_def)
  qed
qed

lemma connect_txs_minted:
  assumes "connect_txs E tn best F db pool ch just sc defer txs st c = (Inr st', c')"
  shows "\<exists>mfs. list_all2 (minted E tn best F db ch) txs mfs \<and>
    cong64 (cs_nValueOut st' - cs_nValueIn st') (cs_nValueOut st - cs_nValueIn st + (sum_list (map fst mfs) - sum_list (map snd mfs))) \<and>
    cong64 (cs_nFees st') (cs_nFees st + sum_list (map snd mfs))"
  using assms
proof (induction txs arbitrary: st c)
  case (Cons tx txs)
  let ?pos = "\<lparr> nFile = bi_nFile (hd ch), nBlockPos = bi_nBlockPos (hd ch), nTxPos = cs_nTxPos st \<rparr>"
  obtain st1 st2 c1 where s1: "st1 = st\<lparr> cs_nSigOps := cs_nSigOps st + GetLegacySigOpCount tx,
       cs_nTxPos := (if \<not> just then cs_nTxPos st + of_nat (length (ser_tx tx)) else cs_nTxPos st) \<rparr>"
    and cb: "IsCoinBase tx \<longrightarrow> (\<exists>v. GetValueOut tx = Inr v \<and> st2 = st1\<lparr> cs_nValueOut := s64 (cs_nValueOut st1 + v) \<rparr> \<and> c1 = c)"
    and one: "\<not> IsCoinBase tx \<longrightarrow> connect_one E tn best F db pool ch sc defer
       \<lparr> nFile = bi_nFile (hd ch), nBlockPos = bi_nBlockPos (hd ch), nTxPos = cs_nTxPos st \<rparr> tx st1 c = (Inr st2, c1)"
    and go: "connect_txs E tn best F db pool ch just sc defer txs (st2\<lparr> mapQueuedChanges := (mapQueuedChanges st2)(tx_GetHash E tx \<mapsto>
       txindex_new ?pos (length (vout tx))) \<rparr>) c1 = (Inr st', c')"
    by (rule connect_txs_Cons [OF Cons.prems])
  have "\<exists>m f. minted E tn best F db ch tx (m, f) \<and> cong64 (cs_nValueOut st2 - cs_nValueIn st2) (cs_nValueOut st - cs_nValueIn st + (m - f)) \<and>
    cong64 (cs_nFees st2) (cs_nFees st + f)"
  proof (cases "IsCoinBase tx")
    case True
    then obtain v where v: "GetValueOut tx = Inr v" "st2 = st1\<lparr> cs_nValueOut := s64 (cs_nValueOut st1 + v) \<rparr>" using cb by blast
    have "cong64 (s64 (cs_nValueOut st + v) - cs_nValueIn st) (cs_nValueOut st + v - cs_nValueIn st)" by (intro cong64_diff) simp_all
    moreover have "v = sum_list (map nValue (vout tx))" "MoneyRange v" using GetValueOut_sum [OF v(1)] by metis+
    ultimately show ?thesis using True v(2)
      by - (rule exI [of _ v], rule exI [of _ 0], simp add: minted_def s1 algebra_simps)
  next
    case False
    from connect_one_minted [OF mp [OF one False] False] show ?thesis by (simp add: s1)
  qed
  then obtain m f where mf: "minted E tn best F db ch tx (m, f)" "cong64 (cs_nValueOut st2 - cs_nValueIn st2) (cs_nValueOut st - cs_nValueIn st + (m - f))"
    "cong64 (cs_nFees st2) (cs_nFees st + f)" by blast
  obtain mfs where IH: "list_all2 (minted E tn best F db ch) txs mfs"
    "cong64 (cs_nValueOut st' - cs_nValueIn st') (cs_nValueOut st2 - cs_nValueIn st2 + (sum_list (map fst mfs) - sum_list (map snd mfs)))"
    "cong64 (cs_nFees st') (cs_nFees st2 + sum_list (map snd mfs))" using Cons.IH [OF go] by auto
  have "cong64 (cs_nValueOut st' - cs_nValueIn st') (cs_nValueOut st - cs_nValueIn st + (m - f) + (sum_list (map fst mfs) - sum_list (map snd mfs)))"
    using cong64_trans [OF IH(2) cong64_add [OF mf(2) cong64_refl]] .
  moreover have "cong64 (cs_nFees st') (cs_nFees st + f + sum_list (map snd mfs))" using cong64_trans [OF IH(3) cong64_add [OF mf(3) cong64_refl]] .
  ultimately show ?case using IH(1) mf(1) by (intro exI [of _ "(m, f) # mfs"]) (simp add: algebra_simps)
qed (rule exI [of _ "[]"], simp)

section \<open>Every script runs\<close>

text \<open>A transaction whose inputs could be fetched, with a check per input that is in the list of deferred ones or has passed.\<close>

definition check_done :: "ext \<Rightarrow> bool \<Rightarrow> CScriptCheck set \<Rightarrow> CScriptCheck \<Rightarrow> bool" where
  "check_done E defer V s = (if defer then s \<in> V else script_ok E s)"

definition scripts_run :: "ext \<Rightarrow> blkfiles \<Rightarrow> CTxDB \<Rightarrow> CTxMemPool \<Rightarrow> bool \<Rightarrow> CScriptCheck set \<Rightarrow> CTransaction \<Rightarrow> bool" where
  "scripts_run E F db pool defer V tx = (IsCoinBase tx \<or> (\<exists>Q I. FetchInputs F db pool Q True False tx = Inr I \<and>
     (\<forall>i < length (vin tx). check_done E defer V
        (CScriptCheck_new (prev_of I (spent_at tx i)) tx i (SCRIPT_VERIFY_NOCACHE OR SCRIPT_VERIFY_P2SH) 0))))"

lemma check_done_mono: "check_done E defer V s \<Longrightarrow> V \<subseteq> W \<Longrightarrow> check_done E defer W s"
  by (auto simp: check_done_def split: if_splits)

lemma scripts_run_mono: "scripts_run E F db pool defer V tx \<Longrightarrow> V \<subseteq> W \<Longrightarrow> scripts_run E F db pool defer W tx"
  unfolding scripts_run_def using check_done_mono by blast

lemma connect_one_scripts:
  assumes pc: "point_codec_documented E" and one: "connect_one E tn best F db pool ch True defer pos tx st c = (Inr st', c')"
    and ok: "cache_ok E c" and ncb: "\<not> IsCoinBase tx"
  shows "cache_ok E c' \<and> set (cs_vChecks st) \<subseteq> set (cs_vChecks st') \<and> scripts_run E F db pool defer (set (cs_vChecks st')) tx"
proof -
  let ?fl = "SCRIPT_VERIFY_NOCACHE OR SCRIPT_VERIFY_P2SH :: u32"
  obtain I n vi vo Q v where I: "FetchInputs F db pool (mapQueuedChanges st) True False tx = Inr I"
    and "GetValueIn I tx = Inr vi" "GetValueOut tx = Inr vo"
    and ci: "ConnectInputs E tn best F db I (mapQueuedChanges st) pos ch True False True ?fl defer tx c = (Inr (Q, v), c')"
    and st': "st' = st\<lparr> mapQueuedChanges := Q, cs_nSigOps := n, cs_vChecks := cs_vChecks st @ v,
       cs_nValueIn := s64 (cs_nValueIn st + vi), cs_nValueOut := s64 (cs_nValueOut st + vo),
       cs_nFees := (if \<not> IsCoinStake tx then s64 (cs_nFees st + (vi - vo)) else cs_nFees st) \<rparr>"
    by (rule connect_one_Inr [OF one])
  have cs: "connect_spend E tx pos (True \<or> False) True ?fl defer [0..<length (vin tx)] I (mapQueuedChanges st) [] c = (Inr (Q, v), c')"
    by (rule ConnectInputs_Inr [OF ci ncb]) simp
  let ?s = "\<lambda>i. CScriptCheck_new (prev_of I (spent_at tx i)) tx i ?fl 0"
  have "cache_ok E c' \<and> (\<forall>i < length (vin tx). check_done E defer (set v) (?s i))"
  proof (cases "defer")
    case True
    then show ?thesis using connect_spend_deferred [OF cs [unfolded Eq_TrueI [OF True]]] ok by (simp add: check_done_def)
  next
    case False
    then show ?thesis using connect_spend_scripts [OF pc cs [unfolded Eq_FalseI [OF False]] ok] by (simp add: check_done_def)
  qed
  moreover have "set (cs_vChecks st') = set (cs_vChecks st) \<union> set v" by (simp add: st')
  moreover from calculation have "\<forall>i < length (vin tx). check_done E defer (set (cs_vChecks st')) (?s i)"
    using check_done_mono by blast
  ultimately show ?thesis using I unfolding scripts_run_def by blast
qed

lemma connect_txs_scripts:
  assumes "point_codec_documented E" "connect_txs E tn best F db pool ch just True defer txs st c = (Inr st', c')" "cache_ok E c"
  shows "cache_ok E c' \<and> set (cs_vChecks st) \<subseteq> set (cs_vChecks st') \<and> (\<forall>tx \<in> set txs. scripts_run E F db pool defer (set (cs_vChecks st')) tx)"
  using assms(2,3)
proof (induction txs arbitrary: st c)
  case (Cons tx txs)
  let ?pos = "\<lparr> nFile = bi_nFile (hd ch), nBlockPos = bi_nBlockPos (hd ch), nTxPos = cs_nTxPos st \<rparr>"
  obtain st1 st2 c1 where st1: "st1 = st\<lparr> cs_nSigOps := cs_nSigOps st + GetLegacySigOpCount tx,
       cs_nTxPos := (if \<not> just then cs_nTxPos st + of_nat (length (ser_tx tx)) else cs_nTxPos st) \<rparr>"
    and cb: "IsCoinBase tx \<longrightarrow> (\<exists>v. GetValueOut tx = Inr v \<and> st2 = st1\<lparr> cs_nValueOut := s64 (cs_nValueOut st1 + v) \<rparr> \<and> c1 = c)"
    and one: "\<not> IsCoinBase tx \<longrightarrow> connect_one E tn best F db pool ch True defer ?pos tx st1 c = (Inr st2, c1)"
    and go: "connect_txs E tn best F db pool ch just True defer txs (st2\<lparr> mapQueuedChanges := (mapQueuedChanges st2)(tx_GetHash E tx \<mapsto>
       txindex_new ?pos (length (vout tx))) \<rparr>) c1 = (Inr st', c')"
    by (rule connect_txs_Cons [OF Cons.prems(1)])
  have s: "cache_ok E c1 \<and> set (cs_vChecks st) \<subseteq> set (cs_vChecks st2) \<and> scripts_run E F db pool defer (set (cs_vChecks st2)) tx"
  proof (cases "IsCoinBase tx")
    case True
    then show ?thesis using cb Cons.prems(2) by (auto simp: st1 scripts_run_def)
  next
    case False
    have "cs_vChecks st1 = cs_vChecks st" by (simp add: st1)
    then show ?thesis using connect_one_scripts [OF assms(1) mp [OF one False] Cons.prems(2) False] by simp
  qed
  have t: "cache_ok E c' \<and> set (cs_vChecks st2) \<subseteq> set (cs_vChecks st') \<and> (\<forall>tx \<in> set txs. scripts_run E F db pool defer (set (cs_vChecks st')) tx)"
    using Cons.IH [OF go] s by simp
  have "scripts_run E F db pool defer (set (cs_vChecks st')) tx" by (rule scripts_run_mono [of E F db pool "defer" "set (cs_vChecks st2)"]) (use s t in blast)+
  then show ?case using s t by (simp only: list.set ball_simps) blast
qed simp

lemma block_positions_snd: "map snd (block_positions i p txs) = txs"
  by (simp add: block_positions_def)

lemma DisconnectBlock_view:
  assumes "ledger_block E (hd ch) b W = Some (tx_view db)" "bi_nFile (hd ch) \<noteq> - 1" "distinct (map (tx_GetHash E) (vtx b))"
    and "\<forall>tx \<in> set (vtx b). length (vout tx) \<le> MAX_SIZE \<and> W (tx_GetHash E tx) = None" "nulls_plain W" "index_ok W" "db_ready db"
  shows "\<exists>db'. DisconnectBlock E now opts ch b db = (True, db') \<and> db_ready db' \<and> tx_view db' = W"
proof -
  let ?ts = "block_positions (hd ch) (first_tx_pos (bi_nBlockPos (hd ch)) (length (vtx b))) (vtx b)"
  have ts: "\<forall>(pos, tx) \<in> set ?ts. \<not> pos_IsNull pos \<and> length (vout tx) \<le> MAX_SIZE" "\<forall>(pos, tx) \<in> set ?ts. W (tx_GetHash E tx) = None"
    using block_positions_mem [OF assms(2)] assms(4) by blast+
  have d: "distinct (map (tx_GetHash E \<circ> snd) ?ts)" using assms(3) block_positions_snd [of "hd ch"] by (simp flip: map_map)
  obtain db1 where db1: "disconnect_txs E (rev (vtx b)) db = (True, db1)" "db_ready db1" "tx_view db1 = W"
    using disconnect_txs_view [OF assms(1) [unfolded ledger_block_def] ts(1) d ts(2) assms(5-7)] unfolding block_positions_snd by blast
  then show ?thesis
    unfolding DisconnectBlock_def db1(1) using write_others(1-3) [OF db1(2)] by (cases "tl ch") (simp_all add: prod_eq_iff)
qed

section \<open>Properties\<close>

text \<open>C3. Connecting a block to the database is exactly the ledger step of the block, and disconnecting it again succeeds and restores the
  ledger, provided the transactions of the block are new to the index.\<close>

theorem connect_disconnect:
  assumes "ConnectBlock E tn now best F pool opts nSync db ch False b c = (Inr i', db', c')"
    and "db_ready db" "index_ok (tx_view db)" "nulls_plain (tx_view db)" "bi_nFile (hd ch) \<noteq> - 1"
    and "\<forall>tx \<in> set (vtx b). tx_view db (tx_GetHash E tx) = None"
  shows "ledger_block E (hd ch) b (tx_view db) = Some (tx_view db') \<and>
    (\<exists>db''. DisconnectBlock E now opts ch b db' = (True, db'') \<and> tx_view db'' = tx_view db)"
proof -
  note v = ConnectBlock_view [OF assms(1-3,5)]
  then have "ledger_block E (hd ch) b (tx_view db) = Some (tx_view db')" "distinct (map (tx_GetHash E) (vtx b))"
    "\<forall>tx \<in> set (vtx b). length (vout tx) \<le> MAX_SIZE \<and> tx_view db (tx_GetHash E tx) = None" "db_ready db'" using assms(6) by blast+
  from DisconnectBlock_view [OF this(1) assms(5) this(2,3) assms(4,3) this(4)] this(1) show ?thesis by blast
qed

text \<open>The most a coin base may create.\<close>

definition coinbase_limit :: "CBlock \<Rightarrow> int" where
  "coinbase_limit b = (if blk_IsProofOfStake b then 0 else if blk_GetBlockTime b < REWARD_SWITCH_TIME then MAX_MINT_PROOF_OF_WORK
     else GetProofOfWorkReward - GetMinFee_default (vtx b ! 0) + MIN_TX_FEE)"

lemma CheckBlock_coinbase:
  assumes "CheckBlock E tn now fp fm fs b = Inr ()"
  shows "sum_list (map nValue (vout (vtx b ! 0))) \<le> coinbase_limit b"
proof (cases "blk_IsProofOfStake b")
  case True
  then obtain out where "vout (vtx b ! 0) = [out]" "txout_IsEmpty out"
    using CheckBlock_Inr(5) [OF assms True] by (auto simp: check_stake_def length_Suc_conv split: if_splits)
  then show ?thesis using True by (simp add: coinbase_limit_def txout_IsEmpty_def)
next
  case False
  obtain v where v: "GetValueOut (vtx b ! 0) = Inr v"
    using CheckBlock_Inr(6) [OF assms False] by (auto simp: check_reward_def split: sum.splits)
  then have "v \<le> coinbase_limit b"
    using CheckBlock_Inr(6) [OF assms False] False by (auto simp: check_reward_def coinbase_limit_def blk_IsProofOfWork_def split: if_splits)
  then show ?thesis using GetValueOut_sum [OF v] by simp
qed




section \<open>A block with a coin base and a spend\<close>

definition coinbase_example :: CTransaction where
  "coinbase_example = \<lparr> tx_nVersion = 1, tx_nTime = 3, vin = [\<lparr> prevout = \<lparr> op_hash = 0, op_n = - 1 \<rparr>, scriptSig = [1, 2], nSequence = - 1 \<rparr>],
     vout = [\<lparr> nValue = 5000, scriptPubKey = [1, 2] \<rparr>], nLockTime = 0 \<rparr>"

definition two_tx_block :: CBlock where
  "two_tx_block = (let b = CBlock_new\<lparr> blk_nTime := 3, vtx := [coinbase_example, spend_example] \<rparr>
     in b\<lparr> hashMerkleRoot := fst (BuildMerkleTree ext_tagged b) \<rparr>)"

definition two_tx_index :: CBlockIndex where
  "two_tx_index = (index_example 9 None)\<lparr> bi_nFile := 1, bi_nBlockPos := 8, nHeight := GetTotalBlocksEstimate False \<rparr>"

definition funded_db :: CTxDB where
  "funded_db = snd (UpdateTxIndex 1 (txindex_new pos_mempool 1) db_example)"

definition opts_example :: connect_opts where
  "opts_example = \<lparr> opt_checkpointdepth = 0, opt_dyncheckpoint = False, GetNumBlocksOfPeers = 0, fScriptThreads = False, fUseFastIndex = False \<rparr>"

lemma two_tx_fields: "vtx two_tx_block = [coinbase_example, spend_example]" "blk_GetBlockTime two_tx_block = 3"
  "hashMerkleRoot two_tx_block = fst (BuildMerkleTree ext_tagged two_tx_block)" "vchBlockSig two_tx_block = []"
  by (simp_all add: two_tx_block_def Let_def blk_GetBlockTime_def BuildMerkleTree_def CBlock_new_def blk_SetNull_def)

lemma coinbase_kinds: "IsCoinBase coinbase_example" "\<not> IsCoinStake coinbase_example"
  by (simp_all add: coinbase_example_def IsCoinBase_def IsCoinStake_def op_IsNull_def)

lemma coinbase_hash: "tx_GetHash ext_tagged coinbase_example = 3"
  by (simp add: tx_GetHash_Hash Hash_def ext_tagged_def coinbase_example_def ser_tx_def
      uint256_of_bytes_def ser_i32_def ser_u32_def nth_append ser_vector_def WriteCompactSize_def ser_txin_def ser_outpoint_def ser_txout_def ser_bytes_def le_bytes_4)

lemma example_sizes: "length (ser_tx coinbase_example) = 68" "length (ser_tx spend_example) = 65"
  by (simp_all add: coinbase_example_def spend_example_def pay_example_def ser_tx_def ser_vector_def ser_txin_def ser_txout_def ser_outpoint_def ser_bytes_def
        WriteCompactSize_def)

lemma coinbase_checks: "CheckTransaction now coinbase_example = Inr ()" "GetValueOut coinbase_example = Inr 5000"
  unfolding CheckTransaction_def example_sizes
  by (simp_all add: coinbase_example_def IsCoinBase_def IsCoinStake_def op_IsNull_def txout_IsEmpty_def money_consts MoneyRange_def s64_def Let_def
    size_consts GetValueOut_def)

lemma example_sigops: "GetLegacySigOpCount coinbase_example = 0" "GetLegacySigOpCount spend_example = 0"
  by code_simp+

lemma check_block_example: "CheckBlock ext_tagged False 0 False True False two_tx_block = Inr ()"
proof -
  have s: "length (ser_block two_tx_block) \<le> MAX_BLOCK_SIZE"
    by (simp add: ser_block_def two_tx_fields ser_vector_def example_sizes WriteCompactSize_def ser_bytes_def size_consts ser_header_def)
  have k: "\<not> blk_IsProofOfStake two_tx_block" "check_reward two_tx_block = Inr ()"
    using spend_example_kinds coinbase_checks(2)
    by (simp_all add: blk_IsProofOfStake_def check_reward_def two_tx_fields blk_IsProofOfWork_def REWARD_SWITCH_TIME_def MAX_MINT_PROOF_OF_WORK_def COIN_def)
  have t: "check_txs 0 3 [coinbase_example, spend_example] = Inr ()"
    using coinbase_checks(1) check_tx_example by (simp add: coinbase_example_def spend_example_def pay_example_def)
  have d: "FutureDrift 0 = 7200" "FutureDrift (uint (tx_nTime coinbase_example)) = 7203"
    by (simp_all add: FutureDrift_def VERSION1_5_SWITCH_TIME_def coinbase_example_def)
  show ?thesis unfolding CheckBlock_def two_tx_fields
    using s k t d coinbase_kinds spend_example_kinds coinbase_hash tagged_hashes example_sigops two_tx_fields(3)
    by (simp add: size_consts)
qed


lemma funded_db_facts: "db_ready funded_db" "tx_view funded_db = [1 \<mapsto> txindex_new pos_mempool 1]"
proof -
  have "db_ready db_example" "tx_view db_example = Map.empty"
    by (auto simp: db_ready_def db_example_def tx_view_def ReadTxIndex_def db_Read_def db_Get_def)
  moreover have "txindex_ok (txindex_new pos_mempool 1)" by (simp add: txindex_ok_def txindex_new_def MAX_SIZE_def)
  ultimately show "db_ready funded_db" "tx_view funded_db = [1 \<mapsto> txindex_new pos_mempool 1]"
    using txix.put_view [of db_example "txindex_new pos_mempool 1" 1] by (simp_all add: funded_db_def)
qed

lemma funded_reads: "ReadTxIndex h funded_db = (if h = 1 then Some (txindex_new pos_mempool 1) else None)"
  using funded_db_facts(2) by (simp add: txix.get_view)

lemma funded_fetch: "Q 1 = None \<Longrightarrow> FetchInputs no_files funded_db pool_example Q True False spend_example =
    Inr [1 \<mapsto> (txindex_new pos_mempool 1, funding_example)]"
  by (simp add: FetchInputs_def spend_example_def pay_example_def IsCoinBase_def op_IsNull_def fetch_one_def funded_reads pool_example_lookup
      txindex_new_def prevout_in_range_def funding_example_def)

lemma funded_connect:
  "ConnectInputs ext_tagged False 0 no_files db [1 \<mapsto> (txindex_new pos_mempool 1, funding_example)] Q pos ch True False True
    (SCRIPT_VERIFY_NOCACHE OR SCRIPT_VERIFY_P2SH) False spend_example c = (Inr (Q(1 \<mapsto> (txindex_new pos_mempool 1)\<lparr> vSpent := [pos] \<rparr>), []), c)"
proof -
  have c: "connect_checks False (tx_nTime spend_example) [1 \<mapsto> (txindex_new pos_mempool 1, funding_example)] ch 0 (vin spend_example) = Inr 10000"
    using spend_example_kinds
    by (simp add: spend_example_def pay_example_def prevout_in_range_def txindex_new_def MoneyRange_def money_consts s64_def Let_def)
      (simp add: funding_example_def MoneyRange_def money_consts s64_def)
  have v: "connect_values ext_tagged False 0 no_files db spend_example ch True 10000 = Inr ()"
    unfolding connect_values_def GetMinFee_default_value value_in_example(2) using spend_example_kinds
    by (simp add: Let_def MoneyRange_def money_consts)
  have l: "length (vin spend_example) = 1" "op_hash (spent_at spend_example 0) = 1" "op_n (spent_at spend_example 0) = 0"
    by (simp_all add: spend_example_def pay_example_def)
  have k: "inline_check ext_tagged funding_example spend_example 0 9 c = (Inr (), c)"
    by (simp add: inline_check_def run_check_def CScriptCheck_new_def spend_example_def pay_example_def funding_example_def
      VerifyScript_def empty_script push_script top_true_def IsPayToScriptHash_def)
  have s: "connect_spend ext_tagged spend_example pos (True \<or> False) True (SCRIPT_VERIFY_NOCACHE OR SCRIPT_VERIFY_P2SH) False [0..<length (vin spend_example)]
      [1 \<mapsto> (txindex_new pos_mempool 1, funding_example)] Q [] c = (Inr (Q(1 \<mapsto> (txindex_new pos_mempool 1)\<lparr> vSpent := [pos] \<rparr>), []), c)"
    by (simp add: l k txindex_new_def pos_IsNull_def pos_SetNull_def)
  show ?thesis unfolding ConnectInputs_def c sum.case s v prod.case using spend_example_kinds(1) by simp
qed

lemma no_script_sigops: "GetP2SHSigOpCount [1 \<mapsto> (x, funding_example)] spend_example = Inr 0"
  by (simp add: GetP2SHSigOpCount_def spend_example_def pay_example_def IsCoinBase_def op_IsNull_def GetOutputFor_def)
    (simp add: funding_example_def IsPayToScriptHash_def)


lemma estimate_from: "nVerifyFromHeight False opts_example 0 0 = GetTotalBlocksEstimate False"
  by (simp add: nVerifyFromHeight_def opts_example_def)

lemma write_all_ready: "db_ready db \<Longrightarrow> fst (write_all UpdateTxIndex xs db) \<and> db_ready (snd (write_all UpdateTxIndex xs db))"
proof (induction xs arbitrary: db)
  case (Cons x xs)
  obtain k v where x: "x = (k, v)" by force
  have "fst (UpdateTxIndex k v db) \<and> db_ready (snd (UpdateTxIndex k v db))"
    using raw.put_view [OF Cons.prems] by (simp add: UpdateTxIndex_def)
  then show ?case using Cons.IH x by (auto split: prod.splits bool.splits)
qed simp

lemma connect_block_example:
  "\<exists>i' db'. ConnectBlock ext_tagged False 0 0 no_files pool_example opts_example 0 funded_db [two_tx_index] False two_tx_block (empty_cache 0) =
    (Inr i', db', empty_cache 0)"
proof -
  let ?p = "\<lambda>q. \<lparr> nFile = 1, nBlockPos = 8, nTxPos = q \<rparr>" and ?q = "first_tx_pos 8 2" and ?i = "two_tx_index"
  let ?x = "txindex_new (?p ?q) 1"
  have i: "bi_nFile ?i = 1" "bi_nBlockPos ?i = 8" "nHeight ?i = GetTotalBlocksEstimate False" by (simp_all add: two_tx_index_def)
  have one: "connect_one ext_tagged False 0 no_files funded_db pool_example [?i] True False (?p (?q + 68)) spend_example
      (st\<lparr> mapQueuedChanges := [3 \<mapsto> ?x] \<rparr>) c =
    (Inr (st\<lparr> mapQueuedChanges := [3 \<mapsto> ?x, 1 \<mapsto> (txindex_new pos_mempool 1)\<lparr> vSpent := [?p (?q + 68)] \<rparr>],
       cs_nValueIn := s64 (cs_nValueIn st + 10000), cs_nValueOut := s64 (cs_nValueOut st + 5000), cs_nFees := s64 (cs_nFees st + 5000) \<rparr>), c)"
    if "cs_nSigOps st = 0" for st c
    unfolding connect_one_def
    using funded_fetch [of "[3 \<mapsto> ?x]"] no_script_sigops value_in_example funded_connect spend_example_kinds that
    by (simp add: size_consts MAX_BLOCK_SIGOPS_def)
  define st where "st = \<lparr> cs_nTxPos = ?q, mapQueuedChanges = Map.empty, cs_nFees = 0, cs_nValueIn = 0, cs_nValueOut = 0, cs_nSigOps = 0, cs_vChecks = [] \<rparr>"
  have l: "length (vout coinbase_example) = 1" by (simp add: coinbase_example_def)
  have "\<exists>st'. connect_txs ext_tagged False 0 no_files funded_db pool_example [?i] False True False [coinbase_example, spend_example] st (empty_cache 0)
      = (Inr st', empty_cache 0)"
    using coinbase_kinds spend_example_kinds coinbase_hash tagged_hashes example_sigops coinbase_checks(2) example_sizes i l
      one [of "st\<lparr> cs_nTxPos := 133 + ?q, cs_nValueOut := 5000 \<rparr>"]
    by (simp add: funded_reads size_consts MAX_BLOCK_SIGOPS_def Let_def st_def s64_def)
  then obtain st' where ct: "connect_txs ext_tagged False 0 no_files funded_db pool_example [?i] False True False [coinbase_example, spend_example] st (empty_cache 0)
      = (Inr st', empty_cache 0)" by blast
  have w: "\<exists>db'. WriteBlockIndex ext_tagged False 0 d funded_db = (True, db') \<and> db_ready db'" for d
    using write_others(2,3) [OF funded_db_facts(1), of ext_tagged False 0 d] by (cases "WriteBlockIndex ext_tagged False 0 d funded_db") auto
  have u: "\<exists>db'. write_all UpdateTxIndex xs db = (True, db')" if "db_ready db" for xs db
    using write_all_ready [OF that, of xs] by (cases "write_all UpdateTxIndex xs db") auto
  have n: "first_tx_pos (bi_nBlockPos ?i) (length (vtx two_tx_block)) = ?q" by (simp add: i two_tx_fields numeral_2_eq_2)
  have h: "\<not> nHeight ?i > GetTotalBlocksEstimate False" "nHeight ?i \<ge> nVerifyFromHeight False opts_example 0 0" using estimate_from i by simp_all
  have o: "fScriptThreads opts_example = False" "fUseFastIndex opts_example = False" by (simp_all add: opts_example_def)
  define j where "j = CDiskBlockIndex_of (?i\<lparr> nMint := s64 (cs_nValueOut st' - cs_nValueIn st' + cs_nFees st'), nMoneySupply := s64 (0 + cs_nValueOut st' - cs_nValueIn st') \<rparr>)"
  obtain db1 where db1: "WriteBlockIndex ext_tagged False 0 j funded_db = (True, db1)" "db_ready db1" using w by blast
  obtain db2 where db2: "write_all UpdateTxIndex (map (\<lambda>k. (k, the (mapQueuedChanges st' k))) (queued_keys ext_tagged [coinbase_example, spend_example])) db1 = (True, db2)"
    using u [OF db1(2)] by blast
  show ?thesis unfolding ConnectBlock_def Let_def list.sel n o
    using check_block_example h ct db1(1) db2 by (simp add: two_tx_fields st_def j_def)
qed


lemma funded_index: "index_ok (tx_view funded_db)" "nulls_plain (tx_view funded_db)"
  by (auto simp: funded_db_facts index_ok_def nulls_plain_def txindex_new_def txindex_ok_def MAX_SIZE_def)

lemma fresh_example: "\<forall>tx \<in> set (vtx two_tx_block). tx_view funded_db (tx_GetHash ext_tagged tx) = None"
  by (simp add: two_tx_fields coinbase_hash tagged_hashes funded_db_facts)

theorem connect_disconnect_witness:
  "\<exists>db' db''. tx_view db' 2 \<noteq> None \<and> DisconnectBlock ext_tagged 0 opts_example [two_tx_index] two_tx_block db' = (True, db'') \<and>
    tx_view db'' = [1 \<mapsto> txindex_new pos_mempool 1]"
proof -
  obtain i' db' where c: "ConnectBlock ext_tagged False 0 0 no_files pool_example opts_example 0 funded_db [two_tx_index] False two_tx_block (empty_cache 0) =
    (Inr i', db', empty_cache 0)" using connect_block_example by blast
  have "bi_nFile (hd [two_tx_index]) \<noteq> - 1" by (simp add: two_tx_index_def)
  note t = connect_disconnect [OF c funded_db_facts(1) funded_index this fresh_example]
  have "\<exists>W x. W(2 \<mapsto> x) = tx_view db'"
    using conjunct1 [OF t]
    by (simp add: ledger_block_def two_tx_fields block_positions_def ledger_tx_def tagged_hashes coinbase_hash del: fun_upd_apply
        split: option.split_asm if_split_asm) blast
  then have "tx_view db' 2 \<noteq> None" by (metis fun_upd_same option.distinct(1))
  then show ?thesis using t funded_db_facts(2) by metis
qed



section \<open>A coin stake in a proof-of-work block\<close>

definition stray_stake :: CTransaction where
  "stray_stake = \<lparr> tx_nVersion = 1, tx_nTime = 1, vin = [\<lparr> prevout = \<lparr> op_hash = 8, op_n = 0 \<rparr>, scriptSig = [], nSequence = - 1 \<rparr>],
     vout = [\<lparr> nValue = 0, scriptPubKey = [] \<rparr>, \<lparr> nValue = 5000, scriptPubKey = [1, 2] \<rparr>], nLockTime = 0 \<rparr>"

definition stray_block :: CBlock where
  "stray_block = (let b = CBlock_new\<lparr> blk_nTime := 3, vtx := [coinbase_example, spend_example, stray_stake] \<rparr>
     in b\<lparr> hashMerkleRoot := fst (BuildMerkleTree ext_tagged b) \<rparr>)"

lemma stray_fields: "vtx stray_block = [coinbase_example, spend_example, stray_stake]" "blk_GetBlockTime stray_block = 3"
  "hashMerkleRoot stray_block = fst (BuildMerkleTree ext_tagged stray_block)" "vchBlockSig stray_block = []"
  by (simp_all add: stray_block_def Let_def blk_GetBlockTime_def BuildMerkleTree_def CBlock_new_def blk_SetNull_def)

lemma stray_hash: "tx_GetHash ext_tagged stray_stake = 1"
  by (simp add: tx_GetHash_Hash Hash_def ext_tagged_def stray_stake_def ser_tx_def
      uint256_of_bytes_def ser_i32_def ser_u32_def nth_append ser_vector_def WriteCompactSize_def ser_txin_def ser_outpoint_def ser_txout_def ser_bytes_def le_bytes_4)

lemma stray_checks: "IsCoinStake stray_stake" "\<not> IsCoinBase stray_stake" "length (ser_tx stray_stake) = 75" "GetLegacySigOpCount stray_stake = 0"
  "CheckTransaction 0 stray_stake = Inr ()"
proof -
  show l: "length (ser_tx stray_stake) = 75"
    by (simp add: stray_stake_def ser_tx_def ser_vector_def ser_txin_def ser_txout_def ser_outpoint_def ser_bytes_def WriteCompactSize_def)
  show "CheckTransaction 0 stray_stake = Inr ()" unfolding CheckTransaction_def l
    by (simp add: stray_stake_def IsCoinBase_def IsCoinStake_def op_IsNull_def txout_IsEmpty_def money_consts MoneyRange_def s64_def Let_def size_consts)
  show "GetLegacySigOpCount stray_stake = 0" by code_simp
qed (simp_all add: stray_stake_def IsCoinBase_def IsCoinStake_def op_IsNull_def txout_IsEmpty_def)


end
