(* ===== verification/Chain.thy ===== *)
theory Chain
  imports Hobo_Prelude Ext_Crypto Serialize Script Tx_Data Sig_Check Block Block_Index Bignum Txdb Tx_Rules Block_Files Mempool Connect_Tx
    Checkpoints Connect_Block
begin

text \<open>
  Switching the best chain (\<^verbatim>\<open>main.cpp\<close>): finding the fork, disconnecting the old branch and connecting the new one in a
  single database transaction, and extending the best chain.  The invariant says that the links of the block index, the best block
  stored in the database and the transaction index all belong to one chain.
\<close>

section \<open>The node\<close>

text \<open>What the functions read from outside, and the global variables they change.  \<open>ns_txdb\<close> is the database handle
  they share; a block is known by its hash.\<close>

record node_env =
  ne_ext :: ext
  ne_fTestNet :: bool
  ne_now :: int
  ne_opts :: connect_opts
  ne_rate_limited :: "CTransaction \<Rightarrow> bool"

record node_state =
  mapBlockIndex :: block_map
  pindexGenesisBlock :: bptr
  pindexBest :: bptr
  hashBestChain :: uint256
  nBestHeight :: int
  nBestChainTrust :: uint256
  nBestInvalidTrust :: uint256
  pblockindexFBBHLast :: bptr
  ns_mempool :: CTxMemPool
  ns_sigcache :: CSignatureCache
  ns_files :: blkfiles
  ns_txdb :: CTxDB
  ns_sync :: sync_state

abbreviation best_chain :: "node_state \<Rightarrow> pchain" where
  "best_chain st \<equiv> chain (mapBlockIndex st) (pindexBest st)"

abbreviation read_block :: "node_env \<Rightarrow> blkfiles \<Rightarrow> CBlockIndex \<Rightarrow> CBlock option" where
  "read_block N F i \<equiv> blk_ReadFromDisk_index (ne_ext N) (ne_fTestNet N) F i True"

definition WriteBestInvalidTrust :: "ext \<Rightarrow> BIGNUM \<Rightarrow> CTxDB \<Rightarrow> bool \<times> CTxDB" where
  "WriteBestInvalidTrust E bn db = db_Write (plain_key ''bnBestInvalidTrust'') (ser_bytes (getvch E bn)) db"

text \<open>The handle opened here has no transaction of its own.\<close>

definition InvalidChainFound :: "node_env \<Rightarrow> CBlockIndex \<Rightarrow> node_state \<Rightarrow> node_state" where
  "InvalidChainFound N pindexNew st =
     (if nChainTrust pindexNew > nBestInvalidTrust st
      then st\<lparr> nBestInvalidTrust := nChainTrust pindexNew,
             ns_txdb := snd (WriteBestInvalidTrust (ne_ext N) (uint (nChainTrust pindexNew)) ((ns_txdb st)\<lparr> activeBatch := None \<rparr>)) \<rparr>
      else st)"

section \<open>Reorganisation\<close>

text \<open>The two pointers walk down the chains \<open>pfork\<close> and \<open>plonger\<close>; the result is the chain from the fork.\<close>

function find_fork :: "pchain \<Rightarrow> pchain \<Rightarrow> pchain option" where
  "find_fork pfork plonger =
     (if pfork = [] \<or> plonger = [] then None
      else if phashBlock (hd pfork) = phashBlock (hd plonger) then Some pfork
      else let plonger = dropWhile (\<lambda>i. nHeight i > nHeight (hd pfork)) plonger in
        if plonger = [] then None
        else if phashBlock (hd pfork) = phashBlock (hd plonger) then Some pfork
        else if tl pfork = [] then None
        else find_fork (tl pfork) plonger)"
  by pat_completeness auto
termination by (relation "measure (\<lambda>(a, b). length a)") (auto simp: neq_Nil_conv)

declare find_fork.simps [simp del]

fun disconnect_blocks :: "node_env \<Rightarrow> blkfiles \<Rightarrow> block_map \<Rightarrow> uint256 list \<Rightarrow> CTransaction list \<Rightarrow> CTxDB \<Rightarrow>
    CTransaction list option \<times> CTxDB" where
  "disconnect_blocks N F M [] vResurrect db = (Some vResurrect, db)"
| "disconnect_blocks N F M (h # vDisconnect) vResurrect db =
     (case M h of None \<Rightarrow> (None, db)
      | Some pindex \<Rightarrow>
          (case read_block N F pindex of None \<Rightarrow> (None, db)
           | Some block \<Rightarrow>
               (case DisconnectBlock (ne_ext N) (ne_now N) (ne_opts N) (chain M (Some h)) block db of (False, db) \<Rightarrow> (None, db)
                | (True, db) \<Rightarrow>
                    disconnect_blocks N F M vDisconnect
                      ((if nHeight pindex > GetTotalBlocksEstimate (ne_fTestNet N)
                        then filter (\<lambda>tx. \<not> (IsCoinBase tx \<or> IsCoinStake tx)) (vtx block) else []) @ vResurrect) db)))"

text \<open>Connecting a block changes its index object.\<close>

fun connect_blocks :: "node_env \<Rightarrow> node_state \<Rightarrow> block_map \<Rightarrow> uint256 list \<Rightarrow> CTransaction list \<Rightarrow> CTxDB \<Rightarrow> CSignatureCache \<Rightarrow>
    (failure + CTransaction list) \<times> block_map \<times> CTxDB \<times> CSignatureCache" where
  "connect_blocks N st M [] vDelete db c = (Inr vDelete, M, db, c)"
| "connect_blocks N st M (h # vConnect) vDelete db c =
     (case M h of None \<Rightarrow> (Inl Reject, M, db, c)
      | Some pindex \<Rightarrow>
          (case read_block N (ns_files st) pindex of None \<Rightarrow> (Inl Reject, M, db, c)
           | Some block \<Rightarrow>
               (case ConnectBlock (ne_ext N) (ne_fTestNet N) (ne_now N) (nBestHeight st) (ns_files st) (ns_mempool st) (ne_opts N)
                   (nSyncCheckpointHeight (ns_sync st)) db (chain M (Some h)) False block c of
                  (Inl Exception, db, c) \<Rightarrow> (Inl Exception, M, db, c)
                | (Inl e, db, c) \<Rightarrow> (Inl Reject, M, db, c)
                | (Inr i, db, c) \<Rightarrow> connect_blocks N st (M(h \<mapsto> i)) vConnect (vDelete @ vtx block) db c)))"

definition set_pnext :: "uint256 \<Rightarrow> bptr \<Rightarrow> block_map \<Rightarrow> block_map" where
  "set_pnext p n M = (case M p of None \<Rightarrow> M | Some i \<Rightarrow> M(p \<mapsto> i\<lparr> pnext := n \<rparr>))"

definition link_prev :: "bool \<Rightarrow> uint256 \<Rightarrow> block_map \<Rightarrow> block_map" where
  "link_prev connect h M =
     (case M h of None \<Rightarrow> M | Some i \<Rightarrow>
        (case pprev i of None \<Rightarrow> M | Some p \<Rightarrow> set_pnext p (if connect then Some h else None) M))"

text \<open>The result of an admission is not looked at; only an exception ends the loop.\<close>

fun resurrect :: "node_env \<Rightarrow> node_state \<Rightarrow> block_map \<Rightarrow> CTxDB \<Rightarrow> CTransaction list \<Rightarrow> CTxMemPool \<Rightarrow> CSignatureCache \<Rightarrow>
    (failure + unit) \<times> CTxMemPool \<times> CSignatureCache" where
  "resurrect N st M db [] pool c = (Inr (), pool, c)"
| "resurrect N st M db (tx # vResurrect) pool c =
     (case AcceptToMemoryPool (ne_ext N) (ne_fTestNet N) (nBestHeight st) (ne_now N) (ns_files st) db (chain M (pindexBest st))
         (ne_rate_limited N tx) tx pool c of
        (Inl Exception, _, pool, c) \<Rightarrow> (Inl Exception, pool, c)
      | (_, _, pool, c) \<Rightarrow> resurrect N st M db vResurrect pool c)"

definition Reorganize :: "node_env \<Rightarrow> uint256 \<Rightarrow> node_state \<Rightarrow> (failure + unit) \<times> node_state" where
  "Reorganize N new st =
     (let M = mapBlockIndex st; best = best_chain st; longer = chain M (Some new) in
      case find_fork best longer of None \<Rightarrow> (Inl Reject, st)
      | Some fork \<Rightarrow>
          let f = phashBlock (hd fork);
              vDisconnect = takeWhile (\<lambda>h. h \<noteq> f) (map phashBlock best);
              vConnect = rev (takeWhile (\<lambda>h. h \<noteq> f) (map phashBlock longer))
          in case disconnect_blocks N (ns_files st) M vDisconnect [] (ns_txdb st) of
               (None, db) \<Rightarrow> (Inl Reject, st\<lparr> ns_txdb := db \<rparr>)
             | (Some vResurrect, db) \<Rightarrow>
                 (case connect_blocks N st M vConnect [] db (ns_sigcache st) of
                    (Inl e, M, db, c) \<Rightarrow> (Inl e, st\<lparr> mapBlockIndex := M, ns_txdb := db, ns_sigcache := c \<rparr>)
                  | (Inr vDelete, M, db, c) \<Rightarrow>
                      let st = st\<lparr> mapBlockIndex := M, ns_sigcache := c \<rparr> in
                      case WriteHashBestChain new db of (False, db) \<Rightarrow> (Inl Reject, st\<lparr> ns_txdb := db \<rparr>)
                      | (True, db) \<Rightarrow>
                          (case TxnCommit db of (False, db) \<Rightarrow> (Inl Reject, st\<lparr> ns_txdb := db \<rparr>)
                           | (True, db) \<Rightarrow>
                               let M = fold (link_prev True) vConnect (fold (link_prev False) vDisconnect M);
                                   (r, pool, c) = resurrect N st M db vResurrect (ns_mempool st) c;
                                   st = st\<lparr> mapBlockIndex := M, ns_txdb := db, ns_mempool := pool, ns_sigcache := c \<rparr>
                               in case r of Inl e \<Rightarrow> (Inl e, st)
                                  | Inr _ \<Rightarrow> (Inr (), st\<lparr> ns_mempool := fold (pool_remove (ne_ext N)) vDelete pool \<rparr>))))"

section \<open>The best chain\<close>

definition SetBestChainInner :: "node_env \<Rightarrow> CBlock \<Rightarrow> uint256 \<Rightarrow> node_state \<Rightarrow> (failure + unit) \<times> node_state" where
  "SetBestChainInner N b new st =
     (let hash = fst (blk_GetHash (ne_ext N) b); M = mapBlockIndex st; ch = chain M (Some new);
          refuse = (\<lambda>e db c. (Inl e, InvalidChainFound N (hd ch) (st\<lparr> ns_txdb := snd (TxnAbort db), ns_sigcache := c \<rparr>))) in
      case ConnectBlock (ne_ext N) (ne_fTestNet N) (ne_now N) (nBestHeight st) (ns_files st) (ns_mempool st) (ne_opts N)
          (nSyncCheckpointHeight (ns_sync st)) (ns_txdb st) ch False b (ns_sigcache st) of
        (Inl Exception, db, c) \<Rightarrow> (Inl Exception, st\<lparr> ns_txdb := db, ns_sigcache := c \<rparr>)
      | (Inl e, db, c) \<Rightarrow> refuse e db c
      | (Inr i, db, c) \<Rightarrow>
          let st = st\<lparr> mapBlockIndex := M(new \<mapsto> i), ns_sigcache := c \<rparr> in
          case WriteHashBestChain hash db of
            (False, db) \<Rightarrow> (Inl Reject, InvalidChainFound N i (st\<lparr> ns_txdb := snd (TxnAbort db) \<rparr>))
          | (True, db) \<Rightarrow>
              (case TxnCommit db of (False, db) \<Rightarrow> (Inl Reject, st\<lparr> ns_txdb := db \<rparr>)
               | (True, db) \<Rightarrow>
                   (Inr (), st\<lparr> mapBlockIndex := link_prev True new (M(new \<mapsto> i)), ns_txdb := db,
                      ns_mempool := fold (pool_remove (ne_ext N)) (vtx b) (ns_mempool st) \<rparr>)))"

text \<open>The blocks that are connected after the reorganisation, the last one first, and the chain to reorganise to.\<close>

fun postpone :: "uint256 \<Rightarrow> pchain \<Rightarrow> uint256 list \<times> pchain" where
  "postpone t (i # j # is) =
     (if nChainTrust j > t then (let (hs, rest) = postpone t (j # is) in (phashBlock i # hs, rest)) else ([], i # j # is))"
| "postpone t is = ([], is)"

text \<open>A failure ends the loop, but only an exception is passed on.\<close>

fun connect_secondary :: "node_env \<Rightarrow> uint256 list \<Rightarrow> node_state \<Rightarrow> (failure + unit) \<times> node_state" where
  "connect_secondary N [] st = (Inr (), st)"
| "connect_secondary N (h # hs) st =
     (case mapBlockIndex st h of None \<Rightarrow> (Inr (), st)
      | Some pindex \<Rightarrow>
          (case read_block N (ns_files st) pindex of None \<Rightarrow> (Inr (), st)
           | Some block \<Rightarrow>
               (case TxnBegin (ns_txdb st) of (False, db) \<Rightarrow> (Inr (), st)
                | (True, db) \<Rightarrow>
                    (case SetBestChainInner N block h (st\<lparr> ns_txdb := db \<rparr>) of
                       (Inl Exception, st) \<Rightarrow> (Inl Exception, st)
                     | (Inl e, st) \<Rightarrow> (Inr (), st)
                     | (Inr _, st) \<Rightarrow> connect_secondary N hs st))))"

text \<open>The assignments at the end; the time of receipt and notifying wallets and the user are left out.\<close>

definition new_best :: "uint256 \<Rightarrow> uint256 \<Rightarrow> node_state \<Rightarrow> node_state" where
  "new_best hash new st =
     (case mapBlockIndex st new of None \<Rightarrow> st
      | Some i \<Rightarrow> st\<lparr> hashBestChain := hash, pindexBest := Some new, pblockindexFBBHLast := None, nBestHeight := nHeight i,
          nBestChainTrust := nChainTrust i, ns_mempool := (ns_mempool st)\<lparr> nTransactionsUpdated := nTransactionsUpdated (ns_mempool st) + 1 \<rparr> \<rparr>)"

definition SetBestChain :: "node_env \<Rightarrow> CBlock \<Rightarrow> uint256 \<Rightarrow> node_state \<Rightarrow> (failure + unit) \<times> node_state" where
  "SetBestChain N b new st =
     (let hash = fst (blk_GetHash (ne_ext N) b) in
      case TxnBegin (ns_txdb st) of (False, db) \<Rightarrow> (Inl Reject, st)
      | (True, db) \<Rightarrow>
          let st = st\<lparr> ns_txdb := db \<rparr> in
          if pindexGenesisBlock st = None \<and> hash = genesis_hash (ne_fTestNet N)
          then case TxnCommit (snd (WriteHashBestChain hash db)) of (False, db) \<Rightarrow> (Inl Reject, st\<lparr> ns_txdb := db \<rparr>)
            | (True, db) \<Rightarrow> (Inr (), new_best hash new (st\<lparr> ns_txdb := db, pindexGenesisBlock := Some new \<rparr>))
          else if hashPrevBlock b = hashBestChain st
          then case SetBestChainInner N b new st of (Inl e, st) \<Rightarrow> (Inl e, st) | (Inr _, st) \<Rightarrow> (Inr (), new_best hash new st)
          else let (secondary, intermediate) = postpone (nChainTrust (hd (best_chain st))) (chain (mapBlockIndex st) (Some new)) in
            case Reorganize N (phashBlock (hd intermediate)) st of
              (Inl Exception, st) \<Rightarrow> (Inl Exception, st)
            | (Inl e, st) \<Rightarrow>
                (Inl Reject, InvalidChainFound N (hd (chain (mapBlockIndex st) (Some new))) (st\<lparr> ns_txdb := snd (TxnAbort (ns_txdb st)) \<rparr>))
            | (Inr _, st) \<Rightarrow>
                (case connect_secondary N (rev secondary) st of
                   (Inl e, st) \<Rightarrow> (Inl e, st) | (Inr _, st) \<Rightarrow> (Inr (), new_best hash new st)))"

section \<open>Where two chains fork\<close>

lemma chain_tl: "index_wf M \<Longrightarrow> M h = Some i \<Longrightarrow> tl (chain M (Some h)) = chain M (pprev i)"
  by (simp add: chain_Some)

lemma chain_dropWhile:
  assumes "index_wf M"
  shows "\<exists>q. dropWhile (\<lambda>i. nHeight i > k) (chain M p) = chain M q"
  by (rule chain_induct [OF assms, where P = "\<lambda>c. \<exists>q. dropWhile (\<lambda>i. nHeight i > k) c = chain M q"])
    (use chain_Some [OF assms] chain_None [of M] in \<open>auto simp: chain_def [of M "Some _"] intro: exI [of _ None], metis\<close>)

lemma chain_cases:
  assumes "index_wf M"
  obtains "chain M p = []" | h i where "p = Some h" "M h = Some i" "chain M p = i # chain M (pprev i)"
proof (cases p)
  case (Some h)
  then show ?thesis using that chain_Some [OF assms] by (cases "M h") (auto simp: chain_def)
qed (use that in simp)

text \<open>The search finds the highest block of both chains whenever they have one in common.\<close>

lemma find_fork_highest:
  assumes wf: "index_wf M" and common: "set (chain M p) \<inter> set (chain M q) \<noteq> {}"
  shows "\<exists>c xs ys. find_fork (chain M p) (chain M q) = Some c \<and> chain M p = xs @ c \<and> chain M q = ys @ c \<and> c \<noteq> [] \<and> set xs \<inter> set ys = {}"
  using common
proof (induction "length (chain M p)" arbitrary: p q rule: less_induct)
  case less
  obtain h x where p: "p = Some h" "M h = Some x" "chain M p = x # chain M (pprev x)"
    using less.prems by (cases rule: chain_cases [OF wf, of p]) auto
  obtain h' y where q: "q = Some h'" "M h' = Some y" "chain M q = y # chain M (pprev y)"
    using less.prems by (cases rule: chain_cases [OF wf, of q]) auto
  have hx: "phashBlock x = h" and hy: "phashBlock y = h'" using index_wfD(1) [OF wf] p(2) q(2) by blast+
  show ?case
  proof (cases "h = h'")
    case True
    then show ?thesis using p q hx hy
      by - (rule exI [of _ "chain M p"], rule exI [of _ "[]"], rule exI [of _ "[]"], auto simp: find_fork.simps [of "x # _"])
  next
    case neq: False
    define b where "b = dropWhile (\<lambda>i. nHeight i > nHeight x) (chain M q)"
    define ys0 where "ys0 = takeWhile (\<lambda>i. nHeight i > nHeight x) (chain M q)"
    obtain q' where q': "b = chain M q'" using chain_dropWhile [OF wf] b_def by metis
    have split: "chain M q = ys0 @ b" by (simp add: b_def ys0_def)
    have low: "nHeight k \<le> nHeight x" if "k \<in> set (chain M p)" for k
      using chain_heights [OF wf, of p] that p(3) by auto
    have ys0: "set ys0 \<inter> set (chain M p) = {}" using low set_takeWhileD ys0_def by fastforce
    obtain k where k: "k \<in> set (chain M p)" "k \<in> set b" using less.prems split ys0 by auto
    then obtain g z where z: "q' = Some g" "M g = Some z" "b = z # chain M (pprev z)"
      using q' by (cases rule: chain_cases [OF wf, of q']) auto
    have hz: "phashBlock z = g" using index_wfD(1) [OF wf z(2)] .
    have zx: "nHeight z \<le> nHeight x" using z(3) unfolding b_def dropWhile_eq_Cons_conv by simp
    have ff: "find_fork (chain M p) (chain M q) = (if h = g then Some (chain M p) else if chain M (pprev x) = [] then None else find_fork (chain M (pprev x)) b)"
    proof -
      have "hd (chain M p) = x" "tl (chain M p) = chain M (pprev x)" "chain M p \<noteq> []" "hd (chain M q) = y" "chain M q \<noteq> []" using p(3) q(3) by simp_all
      moreover have "b \<noteq> []" "hd b = z" using z(3) by simp_all
      ultimately show ?thesis
        unfolding find_fork.simps [of "chain M p"] Let_def using neq hx hy hz by (simp only: b_def [symmetric] simp_thms if_False if_True)
    qed
    show ?thesis
    proof (cases "h = g")
      case True
      then have "b = chain M p" using z p q' by simp
      then show ?thesis using ff True split ys0 p(3) by - (rule exI [of _ "chain M p"], rule exI [of _ "[]"], rule exI [of _ ys0], auto)
    next
      case False
      have xb: "x \<notin> set b"
      proof
        assume "x \<in> set b"
        then have "nHeight x < nHeight z" using chain_heights [OF wf, of q'] False hx hz z(3) q' by auto
        then show False using zx by simp
      qed
      have "k \<in> set (chain M (pprev x))" using k xb p(3) by auto
      then have "set (chain M (pprev x)) \<inter> set (chain M q') \<noteq> {}" using k(2) q' by blast
      from less.hyps [OF _ this] obtain c xs ys where
        c: "find_fork (chain M (pprev x)) b = Some c" "chain M (pprev x) = xs @ c" "b = ys @ c" "c \<noteq> []" "set xs \<inter> set ys = {}"
        using p(3) q' by auto
      have "chain M (pprev x) \<noteq> []" using c by auto
      moreover have "chain M p = (x # xs) @ c" "chain M q = (ys0 @ ys) @ c" using p(3) c(2,3) split by simp_all
      moreover have "set (x # xs) \<inter> set (ys0 @ ys) = {}" using c(5) ys0 xb p(3) c(2,3) by auto
      ultimately show ?thesis using ff False c(1,4) by auto
    qed
  qed
qed


section \<open>Changes that keep the blocks\<close>

text \<open>The fields that never change once a block is in the index.\<close>

definition fixed_part :: "CBlockIndex \<Rightarrow> CBlockIndex" where
  "fixed_part i = i\<lparr> pnext := None, nMint := 0, nMoneySupply := 0 \<rparr>"

definition same_blocks :: "block_map \<Rightarrow> block_map \<Rightarrow> bool" where
  "same_blocks M M' \<longleftrightarrow> (\<forall>h. map_option fixed_part (M' h) = map_option fixed_part (M h))"

lemma fixed_part_simps [simp]:
  "phashBlock (fixed_part i) = phashBlock i" "pprev (fixed_part i) = pprev i" "nHeight (fixed_part i) = nHeight i"
  "bi_nFile (fixed_part i) = bi_nFile i" "bi_nBlockPos (fixed_part i) = bi_nBlockPos i" "nChainTrust (fixed_part i) = nChainTrust i"
  "fixed_part (i\<lparr> pnext := n \<rparr>) = fixed_part i" "fixed_part (i\<lparr> nMint := m, nMoneySupply := s \<rparr>) = fixed_part i"
  by (simp_all add: fixed_part_def)

lemma same_blocks_refl [simp]: "same_blocks M M"
  by (simp add: same_blocks_def)

lemma same_blocks_trans: "same_blocks M M' \<Longrightarrow> same_blocks M' M'' \<Longrightarrow> same_blocks M M''"
  by (simp add: same_blocks_def)

lemma same_blocks_upd: "M h = Some i \<Longrightarrow> fixed_part j = fixed_part i \<Longrightarrow> same_blocks M (M(h \<mapsto> j))"
  by (simp add: same_blocks_def)

lemma same_blocks_Some:
  assumes "same_blocks M M'" "M h = Some i"
  shows "\<exists>j. M' h = Some j \<and> fixed_part j = fixed_part i"
  using assms unfolding same_blocks_def by (metis map_option_eq_Some)

lemma same_blocks_sym: "same_blocks M M' \<Longrightarrow> same_blocks M' M"
  by (simp add: same_blocks_def)

lemma fixed_eqD: "fixed_part j = fixed_part i \<Longrightarrow> phashBlock j = phashBlock i \<and> pprev j = pprev i \<and> nHeight j = nHeight i \<and>
    bi_nFile j = bi_nFile i \<and> bi_nBlockPos j = bi_nBlockPos i \<and> nChainTrust j = nChainTrust i"
  by (metis fixed_part_simps(1-6))

lemma same_blocks_wf:
  assumes "same_blocks M M'" "index_wf M"
  shows "index_wf M'"
  unfolding index_wf_def
proof (intro allI impI)
  fix h i assume i: "M' h = Some i"
  obtain j where j: "M h = Some j" "fixed_part j = fixed_part i" using same_blocks_Some [OF same_blocks_sym [OF assms(1)] i] by blast
  note e = fixed_eqD [OF j(2)]
  have "\<exists>k. M' p = Some k \<and> nHeight i = nHeight k + 1" if "pprev i = Some p" for p
  proof -
    have "pprev j = Some p" using that e by simp
    from index_wfD(4) [OF assms(2) j(1) this] obtain k where "M p = Some k" "nHeight j = nHeight k + 1" by blast
    moreover from this obtain k' where "M' p = Some k'" "fixed_part k' = fixed_part k" using same_blocks_Some [OF assms(1)] by blast
    ultimately show ?thesis using e fixed_eqD [of k' k] by auto
  qed
  then show "phashBlock i = h \<and> 0 \<le> nHeight i \<and> (pprev i = None \<longrightarrow> nHeight i = 0) \<and> (\<forall>p. pprev i = Some p \<longrightarrow> (\<exists>j. M' p = Some j \<and> nHeight i = nHeight j + 1))"
    using index_wfD(1-3) [OF assms(2) j(1)] e by auto
qed

lemma same_blocks_chain:
  assumes "same_blocks M M'" "index_wf M"
  shows "map fixed_part (chain M' p) = map fixed_part (chain M p)"
proof (induction "length (chain M p)" arbitrary: p rule: less_induct)
  case less
  note wf' = same_blocks_wf [OF assms]
  show ?case
  proof (cases rule: chain_cases [OF assms(2), of p])
    case 1
    then have "M' h = None" if "p = Some h" for h
      using that chain_Some [OF assms(2), of h] assms(1) unfolding same_blocks_def by (cases "M h") (simp_all, metis map_option_is_None)
    then show ?thesis using 1 by (cases p) (simp_all add: chain_def [of M' "Some _"])
  next
    case (2 h i)
    obtain j where j: "M' h = Some j" "fixed_part j = fixed_part i" using same_blocks_Some [OF assms(1) 2(2)] by blast
    have "map fixed_part (chain M' (pprev i)) = map fixed_part (chain M (pprev i))" by (rule less) (simp add: 2(3))
    then show ?thesis using chain_Some [OF wf' j(1)] j(2) fixed_eqD [OF j(2)] 2 by simp
  qed
qed

lemma same_blocks_hashes:
  assumes "same_blocks M M'" "index_wf M"
  shows "map phashBlock (chain M' p) = map phashBlock (chain M p)"
  using arg_cong [OF same_blocks_chain [OF assms, of p], of "map phashBlock"] by (simp add: comp_def)

section \<open>The ledger of a chain\<close>

text \<open>The genesis block is not connected; above it every block takes its ledger step.  New transactions have new hashes.\<close>

definition ledger_step :: "node_env \<Rightarrow> blkfiles \<Rightarrow> CBlockIndex \<Rightarrow> (uint256 \<rightharpoonup> CTxIndex) \<Rightarrow> (uint256 \<rightharpoonup> CTxIndex) option" where
  "ledger_step N F i W =
     (case read_block N F i of None \<Rightarrow> None
      | Some b \<Rightarrow>
          if distinct (map (tx_GetHash (ne_ext N)) (vtx b)) \<and> list_all (\<lambda>tx. length (vout tx) \<le> MAX_SIZE \<and> W (tx_GetHash (ne_ext N) tx) = None) (vtx b)
          then ledger_block (ne_ext N) i b W else None)"

fun chain_ledger :: "node_env \<Rightarrow> blkfiles \<Rightarrow> pchain \<Rightarrow> (uint256 \<rightharpoonup> CTxIndex) option" where
  "chain_ledger N F (i # j # is) = (case chain_ledger N F (j # is) of None \<Rightarrow> None | Some W \<Rightarrow> ledger_step N F i W)"
| "chain_ledger N F is = Some Map.empty"

lemma bi_GetBlockHash_fixed [simp]: "bi_GetBlockHash (fixed_part i) = bi_GetBlockHash i"
  unfolding bi_GetBlockHash_def by simp

lemma read_block_fixed [simp]: "read_block N F (fixed_part i) = read_block N F i"
  unfolding blk_ReadFromDisk_index_def fixed_part_simps bi_GetBlockHash_fixed by simp

lemma ledger_step_fixed: "ledger_step N F (fixed_part i) W = ledger_step N F i W"
  unfolding ledger_step_def read_block_fixed ledger_block_def block_positions_def fixed_part_simps ..

lemma chain_ledger_fixed: "chain_ledger N F (map fixed_part is) = chain_ledger N F is"
  by (induction N F "is" rule: chain_ledger.induct) (simp_all add: ledger_step_fixed cong: option.case_cong)

lemma same_blocks_ledger:
  assumes "same_blocks M M'" "index_wf M"
  shows "chain_ledger N F (chain M' p) = chain_ledger N F (chain M p)"
  using same_blocks_chain [OF assms, of p] chain_ledger_fixed by metis

lemma read_block_file: "read_block N F i = Some b \<Longrightarrow> bi_nFile i \<noteq> - 1"
  by (auto simp: blk_ReadFromDisk_index_def blk_ReadFromDisk_def OpenBlockFile_def split: option.splits if_splits)


lemma ledger_txs_dom: "ledger_txs E ts W = Some W' \<Longrightarrow> dom W' = dom W \<union> tx_GetHash E ` snd ` set ts"
proof (induction ts arbitrary: W)
  case (Cons t ts)
  obtain pos tx W1 where t: "t = (pos, tx)" "ledger_tx E pos tx W = Some W1" "ledger_txs E ts W1 = Some W'"
    using Cons.prems by (cases t) (auto split: option.splits)
  have "dom W1 = insert (tx_GetHash E tx) (dom W)"
    using t(2) by (auto simp: ledger_tx_def mark_spent_def dom_def split: if_splits option.splits)
  then show ?case using Cons.IH [OF t(3)] t(1) by auto
qed simp

lemma ledger_txs_plain:
  "ledger_txs E ts W = Some W' \<Longrightarrow> \<forall>(pos, tx) \<in> set ts. \<not> pos_IsNull pos \<Longrightarrow> nulls_plain W \<Longrightarrow> nulls_plain W'"
proof (induction ts arbitrary: W)
  case (Cons t ts)
  obtain pos tx W1 where t: "t = (pos, tx)" "ledger_tx E pos tx W = Some W1" "ledger_txs E ts W1 = Some W'"
    using Cons.prems by (cases t) (auto split: option.splits)
  have "nulls_plain W1" using ledger_tx_ok(2) [OF t(2)] Cons.prems(2,3) t(1) by simp
  then show ?case using Cons.IH [OF t(3)] Cons.prems(2) by simp
qed simp

lemma ledger_step_Some:
  assumes "ledger_step N F i W = Some W'"
  obtains b where "read_block N F i = Some b" "distinct (map (tx_GetHash (ne_ext N)) (vtx b))"
    "\<forall>tx \<in> set (vtx b). length (vout tx) \<le> MAX_SIZE \<and> W (tx_GetHash (ne_ext N) tx) = None" "ledger_block (ne_ext N) i b W = Some W'"
    "bi_nFile i \<noteq> - 1"
  using assms that read_block_file by (auto simp: ledger_step_def list_all_iff split: option.splits if_splits)

lemma ledger_step_ok:
  assumes "ledger_step N F i W = Some W'" "index_ok W" "nulls_plain W"
  shows "index_ok W'" "nulls_plain W'"
proof -
  obtain b where b: "\<forall>tx \<in> set (vtx b). length (vout tx) \<le> MAX_SIZE \<and> W (tx_GetHash (ne_ext N) tx) = None" "ledger_block (ne_ext N) i b W = Some W'"
    "bi_nFile i \<noteq> - 1" by (rule ledger_step_Some [OF assms(1)])
  let ?ts = "block_positions i (first_tx_pos (bi_nBlockPos i) (length (vtx b))) (vtx b)"
  have "\<not> pos_IsNull pos \<and> tx \<in> set (vtx b)" if "(pos, tx) \<in> set ?ts" for pos tx using block_positions_mem [OF b(3) that] .
  then show "index_ok W'" "nulls_plain W'"
    using ledger_txs_ok [OF b(2) [unfolded ledger_block_def]] ledger_txs_plain [OF b(2) [unfolded ledger_block_def]] assms(2,3) b(1) by blast+
qed

lemma chain_ledger_ok: "chain_ledger N F is = Some W \<Longrightarrow> index_ok W \<and> nulls_plain W"
proof (induction N F "is" arbitrary: W rule: chain_ledger.induct)
  case (1 N F i j "is")
  then obtain V where "chain_ledger N F (j # is) = Some V" "ledger_step N F i V = Some W" by (auto split: option.splits)
  then show ?case using 1 ledger_step_ok by blast
qed (auto simp: index_ok_def nulls_plain_def)

text \<open>The transactions of the connected blocks of a chain.\<close>

fun chain_txids :: "node_env \<Rightarrow> blkfiles \<Rightarrow> pchain \<Rightarrow> uint256 list" where
  "chain_txids N F (i # j # is) =
     (case read_block N F i of None \<Rightarrow> [] | Some b \<Rightarrow> map (tx_GetHash (ne_ext N)) (vtx b)) @ chain_txids N F (j # is)"
| "chain_txids N F is = []"

lemma chain_ledger_dom: "chain_ledger N F is = Some W \<Longrightarrow> dom W = set (chain_txids N F is)"
proof (induction N F "is" arbitrary: W rule: chain_ledger.induct)
  case (1 N F i j "is")
  then obtain V where V: "chain_ledger N F (j # is) = Some V" "ledger_step N F i V = Some W" by (auto split: option.splits)
  obtain b where b: "read_block N F i = Some b" "ledger_block (ne_ext N) i b V = Some W" by (rule ledger_step_Some [OF V(2)])
  let ?ts = "block_positions i (first_tx_pos (bi_nBlockPos i) (length (vtx b))) (vtx b)"
  have "snd ` set ?ts = set (vtx b)" using block_positions_snd [of i] by (metis list.set_map)
  then show ?case using ledger_txs_dom [OF b(2) [unfolded ledger_block_def]] 1(1) [OF V(1)] b(1) by auto
qed simp_all

lemma chain_txids_fixed: "chain_txids N F (map fixed_part is) = chain_txids N F is"
  by (induction N F "is" rule: chain_txids.induct) simp_all

lemma chain_txids_same: "same_blocks M M' \<Longrightarrow> index_wf M \<Longrightarrow> chain_txids N F (chain M' p) = chain_txids N F (chain M p)"
  using same_blocks_chain [of M M' p] chain_txids_fixed by metis

lemma chain_txids_append: "c \<noteq> [] \<Longrightarrow> distinct (chain_txids N F (xs @ c)) \<Longrightarrow> distinct (chain_txids N F c)"
proof (induction xs)
  case (Cons x xs)
  then show ?case by (cases "xs @ c") auto
qed simp


section \<open>Disconnecting and connecting branches\<close>

lemma chain_ledger_Cons:
  assumes "chain_ledger N F (i # c) = Some W'" "c \<noteq> []"
  obtains W where "chain_ledger N F c = Some W" "ledger_step N F i W = Some W'"
  using assms by (cases c) (auto split: option.splits)

lemma disconnect_blocks_view:
  assumes "index_wf M" "chain M p = xs @ c" "c \<noteq> []" "chain_ledger N F (chain M p) = Some (tx_view db)" "db_ready db"
  shows "\<exists>r' db'. disconnect_blocks N F M (map phashBlock xs) r db = (Some r', db') \<and> db_ready db' \<and> chain_ledger N F c = Some (tx_view db')"
  using assms(2,4,5)
proof (induction xs arbitrary: p r db)
  case (Cons x xs)
  obtain h where h: "p = Some h" "M h = Some x" "chain M (pprev x) = xs @ c"
    using Cons.prems(1) by (cases rule: chain_cases [OF assms(1), of p]) auto
  have hx: "phashBlock x = h" by (rule index_wfD(1) [OF assms(1) h(2)])
  have ch: "chain M (Some h) = x # xs @ c" using Cons.prems(1) h(1) by simp
  obtain W where W: "chain_ledger N F (xs @ c) = Some W" "ledger_step N F x W = Some (tx_view db)"
    using Cons.prems(1,2) assms(3) by (auto elim: chain_ledger_Cons)
  obtain b where b: "read_block N F x = Some b" "distinct (map (tx_GetHash (ne_ext N)) (vtx b))"
    "\<forall>tx \<in> set (vtx b). length (vout tx) \<le> MAX_SIZE \<and> W (tx_GetHash (ne_ext N) tx) = None" "ledger_block (ne_ext N) x b W = Some (tx_view db)"
    "bi_nFile x \<noteq> - 1" by (rule ledger_step_Some [OF W(2)])
  have W_ok: "index_ok W" "nulls_plain W" using chain_ledger_ok [OF W(1)] by auto
  obtain db1 where db1: "DisconnectBlock (ne_ext N) (ne_now N) (ne_opts N) (chain M (Some h)) b db = (True, db1)" "db_ready db1" "tx_view db1 = W"
    using DisconnectBlock_view [of "ne_ext N" "chain M (Some h)" b W db "ne_now N" "ne_opts N"] b W_ok Cons.prems(3) unfolding ch by auto
  have "chain_ledger N F (chain M (pprev x)) = Some (tx_view db1)" using W(1) db1(3) h(3) by simp
  from Cons.IH [OF h(3) this db1(2)] show ?case using h(2) b(1) db1(1) hx by simp
qed auto

lemma ConnectBlock_index:
  assumes "ConnectBlock E tn now best F pool opts nSync db ch False b c = (Inr i', db', c')"
  shows "fixed_part i' = fixed_part (hd ch)" "pnext i' = pnext (hd ch)"
  by (rule ConnectBlock_Inr [OF assms], simp)+

text \<open>Blocks to connect in turn, each the child of the one before.\<close>

fun children :: "block_map \<Rightarrow> uint256 \<Rightarrow> uint256 list \<Rightarrow> bool" where
  "children M p [] = True"
| "children M p (h # hs) = ((\<exists>i. M h = Some i \<and> pprev i = Some p) \<and> children M h hs)"

lemma children_same: "same_blocks M M' \<Longrightarrow> children M p hs \<Longrightarrow> children M' p hs"
proof (induction hs arbitrary: p)
  case (Cons h hs)
  then obtain i where i: "M h = Some i" "pprev i = Some p" by auto
  obtain j where "M' h = Some j" "fixed_part j = fixed_part i" using same_blocks_Some [OF Cons.prems(1) i(1)] by blast
  then show ?case using Cons i fixed_eqD [of j i] by auto
qed simp

lemma connect_one_block:
  assumes wf: "index_wf M" and h: "M h = Some i" "pprev i = Some p" and W: "chain_ledger N F (chain M (Some p)) = Some (tx_view db)" "db_ready db"
    and rd: "read_block N F i = Some b'" "vtx b' = vtx b" and u: "distinct (chain_txids N F (chain M (Some h)))"
    and c: "ConnectBlock (ne_ext N) tn now best F pool opts nSync db (chain M (Some h)) False b c = (Inr i', db', c')"
  shows "same_blocks M (M(h \<mapsto> i'))" "pnext i' = pnext i" "chain_ledger N F (chain (M(h \<mapsto> i')) (Some h)) = Some (tx_view db')" "db_ready db'"
proof -
  have ch: "chain M (Some h) = i # chain M (Some p)" using chain_Some [OF wf h(1)] h(2) by simp
  obtain j where j: "chain M (Some p) = j # chain M (pprev j)" using index_wfD(4) [OF wf h] chain_Some [OF wf] by blast
  show same: "same_blocks M (M(h \<mapsto> i'))" using ConnectBlock_index(1) [OF c] h(1) ch by (intro same_blocks_upd) simp_all
  show "pnext i' = pnext i" using ConnectBlock_index(2) [OF c] ch by simp
  note v = ConnectBlock_view [OF c W(2)] chain_ledger_ok [OF W(1)] read_block_file [OF rd(1)]
  then have v: "ledger_block (ne_ext N) i b (tx_view db) = Some (tx_view db')" "distinct (map (tx_GetHash (ne_ext N)) (vtx b))"
    "\<forall>tx \<in> set (vtx b). length (vout tx) \<le> MAX_SIZE" and "db_ready db'" unfolding ch by auto
  then show "db_ready db'" by blast
  have "set (map (tx_GetHash (ne_ext N)) (vtx b)) \<inter> dom (tx_view db) = {}"
    using u rd unfolding chain_ledger_dom [OF W(1)] ch by (subst (asm) j, simp) (metis j)
  then have "list_all (\<lambda>tx. length (vout tx) \<le> MAX_SIZE \<and> tx_view db (tx_GetHash (ne_ext N) tx) = None) (vtx b)"
    using v(3) by (auto simp: list_all_iff dom_def)
  then have "ledger_step N F i (tx_view db) = Some (tx_view db')"
    using v(1,2) rd by (simp add: ledger_step_def ledger_block_def)
  then have "chain_ledger N F (chain M (Some h)) = Some (tx_view db')" using W(1) unfolding ch by (subst j, subst (asm) j) simp
  then show "chain_ledger N F (chain (M(h \<mapsto> i')) (Some h)) = Some (tx_view db')" using same_blocks_ledger [OF same wf] by simp
qed


lemma same_blocks_pnext_upd:
  assumes "M h = Some i" "pnext j = pnext i"
  shows "map_option pnext ((M(h \<mapsto> j)) k) = map_option pnext (M k)"
  using assms by simp

lemma txids_below:
  assumes "index_wf M" "i \<in> set (chain M p)" "distinct (chain_txids N F (chain M p))"
  shows "distinct (chain_txids N F (chain M (Some (phashBlock i))))"
proof -
  obtain xs where xs: "chain M p = xs @ chain M (Some (phashBlock i))" using chain_suffix [OF assms(1,2)] by blast
  have "chain M (Some (phashBlock i)) \<noteq> []" using chain_Some [OF assms(1) chain_mem [OF assms(1,2)]] by simp
  then show ?thesis using chain_txids_append assms(3) xs by metis
qed

lemma children_last:
  assumes "index_wf M" "M p \<noteq> None" "children M p hs"
  shows "\<exists>xs. chain M (Some (last (p # hs))) = xs @ chain M (Some p) \<and> map phashBlock xs = rev hs"
  using assms(2,3)
proof (induction hs arbitrary: p)
  case (Cons h hs)
  then obtain i where i: "M h = Some i" "pprev i = Some p" by auto
  obtain xs where xs: "chain M (Some (last (h # hs))) = xs @ chain M (Some h)" "map phashBlock xs = rev hs" using Cons i by fastforce
  have "chain M (Some h) = i # chain M (Some p)" using chain_Some [OF assms(1) i(1)] i(2) by simp
  then show ?case using xs index_wfD(1) [OF assms(1) i(1)] by (intro exI [of _ "xs @ [i]"]) simp
qed simp

lemma connect_blocks_view:
  assumes "index_wf M" "children M p hs" "M p \<noteq> None" "chain_ledger N (ns_files st) (chain M (Some p)) = Some (tx_view db)" "db_ready db"
    and "distinct (chain_txids N (ns_files st) (chain M (Some (last (p # hs)))))"
    and "connect_blocks N st M hs del db c = (Inr del', M', db', c')"
  shows "same_blocks M M' \<and> (\<forall>k. map_option pnext (M' k) = map_option pnext (M k)) \<and>
    chain_ledger N (ns_files st) (chain M' (Some (last (p # hs)))) = Some (tx_view db') \<and> db_ready db'"
  using assms
proof (induction hs arbitrary: M p del db c)
  case (Cons h hs)
  let ?F = "ns_files st"
  obtain i where i: "M h = Some i" "pprev i = Some p" using Cons.prems(2) by auto
  obtain b where b: "read_block N ?F i = Some b" using Cons.prems(7) i(1) by (auto split: option.splits)
  obtain i' db1 c1 where cb: "ConnectBlock (ne_ext N) (ne_fTestNet N) (ne_now N) (nBestHeight st) ?F (ns_mempool st) (ne_opts N)
      (nSyncCheckpointHeight (ns_sync st)) db (chain M (Some h)) False b c = (Inr i', db1, c1)"
    and go: "connect_blocks N st (M(h \<mapsto> i')) hs (del @ vtx b) db1 c1 = (Inr del', M', db', c')"
    using Cons.prems(7) i(1) b by (auto split: prod.splits sum.splits failure.splits)
  have u: "distinct (chain_txids N ?F (chain M (Some h)))"
  proof -
    obtain xs where "chain M (Some (last (h # hs))) = xs @ chain M (Some h)"
      using children_last [OF Cons.prems(1), of h hs] Cons.prems(2) i(1) by auto
    moreover have "chain M (Some h) \<noteq> []" using chain_Some [OF Cons.prems(1) i(1)] by simp
    ultimately show ?thesis using chain_txids_append Cons.prems(6) by (metis last_ConsR list.distinct(1))
  qed
  note one = connect_one_block [OF Cons.prems(1) i Cons.prems(4,5) b refl u cb]
  let ?M = "M(h \<mapsto> i')"
  have "same_blocks ?M M' \<and> (\<forall>k. map_option pnext (M' k) = map_option pnext (?M k)) \<and>
    chain_ledger N ?F (chain M' (Some (last (h # hs)))) = Some (tx_view db') \<and> db_ready db'"
  proof (rule Cons.IH [OF _ _ _ one(3,4) _ go])
    show "index_wf ?M" by (rule same_blocks_wf [OF one(1) Cons.prems(1)])
    show "children ?M h hs" using children_same [OF one(1)] Cons.prems(2) by simp
    show "?M h \<noteq> None" by simp
    show "distinct (chain_txids N ?F (chain ?M (Some (last (h # hs)))))"
      using Cons.prems(6) chain_txids_same [OF one(1) Cons.prems(1)] by simp
  qed
  then show ?case using same_blocks_trans [OF one(1)] same_blocks_pnext_upd [of M h i i', OF i(1) one(2)] by (simp del: fun_upd_apply)
qed simp

text \<open>A failure leaves the index as it was, up to minted amounts.\<close>

lemma connect_blocks_same:
  assumes "connect_blocks N st M hs del db c = (r, M', db', c')" "index_wf M"
  shows "same_blocks M M' \<and> (\<forall>k. map_option pnext (M' k) = map_option pnext (M k))"
  using assms
proof (induction hs arbitrary: M del db c)
  case (Cons h hs)
  show ?case
  proof (cases "\<exists>i b i' db1 c1. M h = Some i \<and> read_block N (ns_files st) i = Some b \<and> ConnectBlock (ne_ext N) (ne_fTestNet N) (ne_now N) (nBestHeight st) (ns_files st) (ns_mempool st) (ne_opts N)
      (nSyncCheckpointHeight (ns_sync st)) db (chain M (Some h)) False b c = (Inr i', db1, c1)")
    case True
    then obtain i b i' db1 c1 where i: "M h = Some i" "read_block N (ns_files st) i = Some b" and
      cb: "ConnectBlock (ne_ext N) (ne_fTestNet N) (ne_now N) (nBestHeight st) (ns_files st) (ns_mempool st) (ne_opts N)
      (nSyncCheckpointHeight (ns_sync st)) db (chain M (Some h)) False b c = (Inr i', db1, c1)" by blast
    have hd: "hd (chain M (Some h)) = i" using chain_Some [OF Cons.prems(2) i(1)] by simp
    have same: "same_blocks M (M(h \<mapsto> i'))" and pn: "pnext i' = pnext i" using ConnectBlock_index [OF cb] hd i(1) by (auto intro: same_blocks_upd)
    have "connect_blocks N st (M(h \<mapsto> i')) hs (del @ vtx b) db1 c1 = (r, M', db', c')" using Cons.prems(1) i cb by simp
    from Cons.IH [OF this same_blocks_wf [OF same Cons.prems(2)]] show ?thesis
      using same_blocks_trans [OF same] same_blocks_pnext_upd [of M h i i', OF i(1) pn] by (simp del: fun_upd_apply)
  next
    case False
    then have "M' = M" using Cons.prems(1) by (auto split: option.splits prod.splits sum.splits failure.splits)
    then show ?thesis by simp
  qed
qed simp

section \<open>Inside a database transaction\<close>

definition in_txn :: "(valtype \<rightharpoonup> valtype) \<Rightarrow> CTxDB \<Rightarrow> bool" where
  "in_txn S db \<longleftrightarrow> \<not> fReadOnly db \<and> pdb db = S \<and> activeBatch db \<noteq> None"

lemma in_txn_write: "in_txn S db \<Longrightarrow> in_txn S (snd (db_Write k v db))" "in_txn S db \<Longrightarrow> in_txn S (snd (db_Erase k db))"
  by (auto simp: in_txn_def db_Write_def db_Erase_def)

lemma in_txn_records:
  assumes "in_txn S db"
  shows "in_txn S (snd (WriteBlockIndex E f t d db))" "in_txn S (snd (UpdateTxIndex h x db))" "in_txn S (snd (EraseTxIndex E tx db))"
    "in_txn S (snd (WriteHashBestChain h db))"
  using in_txn_write [OF assms] by (simp_all add: WriteBlockIndex_def UpdateTxIndex_def EraseTxIndex_def WriteHashBestChain_def split: prod.split)

lemma in_txn_write_all: "in_txn S db \<Longrightarrow> in_txn S (snd (write_all UpdateTxIndex xs db))"
proof (induction xs arbitrary: db)
  case (Cons x xs)
  obtain k v where x: "x = (k, v)" by force
  obtain ok db1 where u: "UpdateTxIndex k v db = (ok, db1)" by force
  have "in_txn S db1" using in_txn_records(2) [OF Cons.prems, of k v] u by simp
  then show ?case using Cons.IH x u by simp
qed simp

lemma in_txn_release: "in_txn S db \<Longrightarrow> in_txn S (snd (release_inputs ins db))"
proof (induction ins arbitrary: db)
  case (Cons txin ins)
  have "in_txn S db1" if "UpdateTxIndex h x db = (ok, db1)" for h x ok db1 using in_txn_records(2) [OF Cons.prems, of h x] that by simp
  then show ?case using Cons.IH Cons.prems by (auto simp: Let_def split: option.splits prod.splits bool.splits)
qed simp

lemma in_txn_disconnect: "in_txn S db \<Longrightarrow> in_txn S (snd (disconnect_txs E txs db))"
proof (induction txs arbitrary: db)
  case (Cons tx txs)
  obtain ok db1 where r: "(if IsCoinBase tx then (True, db) else release_inputs (vin tx) db) = (ok, db1)" by force
  have "in_txn S db1" using in_txn_release [OF Cons.prems, of "vin tx"] Cons.prems r by (auto split: if_splits)
  then have "in_txn S (snd (DisconnectInputs E tx db))" using in_txn_records(3) r by (auto simp: DisconnectInputs_def split: bool.splits)
  then show ?case using Cons.IH by (auto split: prod.splits bool.splits)
qed simp

lemma in_txn_DisconnectBlock:
  assumes "in_txn S db"
  shows "in_txn S (snd (DisconnectBlock E now opts ch b db))"
proof -
  obtain ok db1 where d: "disconnect_txs E (rev (vtx b)) db = (ok, db1)" by force
  then have "in_txn S db1" using in_txn_disconnect [OF assms, of E "rev (vtx b)"] by simp
  then show ?thesis using in_txn_records(1) unfolding DisconnectBlock_def d by (auto split: bool.split list.split)
qed

lemma in_txn_disconnect_blocks: "in_txn S db \<Longrightarrow> in_txn S (snd (disconnect_blocks N F M hs r db))"
proof (induction hs arbitrary: r db)
  case (Cons h hs)
  have "in_txn S db1" if "DisconnectBlock (ne_ext N) (ne_now N) (ne_opts N) (chain M (Some h)) b db = (ok, db1)" for b ok db1
    using in_txn_DisconnectBlock [OF Cons.prems, of "ne_ext N" "ne_now N" "ne_opts N" "chain M (Some h)" b] that by simp
  then show ?case using Cons.IH Cons.prems by (auto split: option.split prod.split bool.split)
qed simp


lemma in_txn_ConnectBlock:
  assumes "ConnectBlock E tn now best F pool opts nSync db ch False b c = (r, db', c')" "in_txn S db"
  shows "in_txn S db'"
proof -
  have w: "in_txn S d'" if "WriteBlockIndex E f t x d = (ok, d')" "in_txn S d" for f t x d ok d' using in_txn_records(1) [OF that(2), of E f t x] that(1) by simp
  have a: "in_txn S d'" if "write_all UpdateTxIndex xs d = (ok, d')" "in_txn S d" for xs d ok d' using in_txn_write_all [OF that(2), of xs] that(1) by simp
  show ?thesis
    using assms unfolding ConnectBlock_def Let_def
    by (auto split: sum.split_asm prod.split_asm bool.split_asm if_split_asm list.split_asm dest: w a)
qed


section \<open>The links of the main chain\<close>

definition prevof :: "block_map \<Rightarrow> uint256 \<Rightarrow> bptr" where
  "prevof M h = (case M h of None \<Rightarrow> None | Some i \<Rightarrow> pprev i)"

definition nextof :: "block_map \<Rightarrow> uint256 \<Rightarrow> bptr" where
  "nextof M h = (case M h of None \<Rightarrow> None | Some i \<Rightarrow> pnext i)"

abbreviation link_of :: "CBlockIndex \<Rightarrow> uint256 \<times> bptr" where
  "link_of i \<equiv> (phashBlock i, pprev i)"

lemma same_prevof: "same_blocks M M' \<Longrightarrow> prevof M' = prevof M"
proof
  fix h assume "same_blocks M M'"
  then have "map_option fixed_part (M' h) = map_option fixed_part (M h)" by (simp add: same_blocks_def)
  then show "prevof M' h = prevof M h"
    by (cases "M h"; cases "M' h") (auto simp: prevof_def dest: fixed_eqD)
qed

lemma main_ok_links: "main_ok M best \<longleftrightarrow> index_wf M \<and> (\<forall>b. best = Some b \<longrightarrow> M b \<noteq> None) \<and>
    (\<forall>h n. M h \<noteq> None \<longrightarrow> (nextof M h = Some n \<longleftrightarrow> (n, Some h) \<in> link_of ` set (chain M best)))"
proof -
  have l: "(n, Some h) \<in> link_of ` S \<longleftrightarrow> (\<exists>j \<in> S. phashBlock j = n \<and> pprev j = Some h)" for n h S by (auto simp: image_iff)
  have "nextof M h = pnext i" if "M h = Some i" for h i using that by (simp add: nextof_def)
  then have "(\<forall>h i. M h = Some i \<longrightarrow> (\<forall>n. pnext i = Some n \<longleftrightarrow> P h n)) \<longleftrightarrow> (\<forall>h n. M h \<noteq> None \<longrightarrow> (nextof M h = Some n \<longleftrightarrow> P h n))" for P
    by (metis not_None_eq)
  then show ?thesis unfolding main_ok_def l by simp
qed

lemma same_links:
  assumes "same_blocks M M'" "index_wf M"
  shows "link_of ` set (chain M' p) = link_of ` set (chain M p)"
proof -
  have "map link_of (map fixed_part (chain M' p)) = map link_of (map fixed_part (chain M p))" using same_blocks_chain [OF assms] by simp
  then have "map link_of (chain M' p) = map link_of (chain M p)" by (simp add: comp_def)
  from arg_cong [OF this, of set] show ?thesis by (simp only: list.set_map)
qed

lemma same_blocks_None: "same_blocks M M' \<Longrightarrow> M' h = None \<longleftrightarrow> M h = None"
  unfolding same_blocks_def by (metis map_option_is_None)

lemma main_ok_same:
  assumes "same_blocks M M'" "\<forall>k. map_option pnext (M' k) = map_option pnext (M k)" "main_ok M best"
  shows "main_ok M' best"
proof -
  have "nextof M' h = nextof M h" for h using assms(2) [rule_format, of h] by (auto simp: nextof_def split: option.splits)
  then show ?thesis
    using assms(3) same_blocks_wf [OF assms(1)] same_links [OF assms(1)] same_blocks_None [OF assms(1)] unfolding main_ok_links by simp
qed

lemma link_prev_step:
  assumes "index_wf M" "prevof M h = Some p"
  shows "same_blocks M (link_prev c h M)" "nextof (link_prev c h M) k = (if k = p then (if c then Some h else None) else nextof M k)"
proof -
  obtain i where i: "M h = Some i" "pprev i = Some p" using assms(2) by (auto simp: prevof_def split: option.splits)
  obtain j where j: "M p = Some j" using index_wfD(4) [OF assms(1) i] by blast
  show "same_blocks M (link_prev c h M)" using i j by (auto simp: link_prev_def set_pnext_def intro: same_blocks_upd)
  show "nextof (link_prev c h M) k = (if k = p then (if c then Some h else None) else nextof M k)"
    using i j by (simp add: link_prev_def set_pnext_def nextof_def)
qed

lemma unlink_all:
  assumes "index_wf M" "\<forall>h \<in> set hs. prevof M h \<noteq> None"
  shows "same_blocks M (fold (link_prev False) hs M) \<and>
    (\<forall>k. nextof (fold (link_prev False) hs M) k = (if Some k \<in> prevof M ` set hs then None else nextof M k))"
  using assms
proof (induction hs arbitrary: M)
  case (Cons h hs)
  obtain p where p: "prevof M h = Some p" using Cons.prems(2) by auto
  note s = link_prev_step [OF Cons.prems(1) p, where c = False]
  have "\<forall>h' \<in> set hs. prevof (link_prev False h M) h' \<noteq> None" using Cons.prems(2) same_prevof [OF s(1)] by simp
  from Cons.IH [OF same_blocks_wf [OF s(1) Cons.prems(1)] this] show ?case
    using same_blocks_trans [OF s(1)] s(2) p same_prevof [OF s(1)] by auto
qed simp

lemma link_all:
  assumes "index_wf M" "\<forall>h \<in> set hs. prevof M h \<noteq> None" "inj_on (prevof M) (set hs)"
  shows "same_blocks M (fold (link_prev True) hs M) \<and>
    (\<forall>k n. nextof (fold (link_prev True) hs M) k = Some n \<longleftrightarrow>
       (if Some k \<in> prevof M ` set hs then n \<in> set hs \<and> prevof M n = Some k else nextof M k = Some n))"
  using assms
proof (induction hs arbitrary: M)
  case (Cons h hs)
  obtain p where p: "prevof M h = Some p" using Cons.prems(2) by auto
  note s = link_prev_step [OF Cons.prems(1) p, where c = True]
  note pr = same_prevof [OF s(1)]
  have "\<forall>h' \<in> set hs. prevof (link_prev True h M) h' \<noteq> None" "inj_on (prevof (link_prev True h M)) (set hs)"
    using Cons.prems(2,3) pr by auto
  note IH = Cons.IH [OF same_blocks_wf [OF s(1) Cons.prems(1)] this, unfolded pr]
  have "nextof (fold (link_prev True) (h # hs) M) k = Some n \<longleftrightarrow>
       (if Some k \<in> prevof M ` set (h # hs) then n \<in> set (h # hs) \<and> prevof M n = Some k else nextof M k = Some n)" for k n
  proof (cases "k = p")
    case True
    have "h \<in> set hs" if "Some k \<in> prevof M ` set hs"
    proof -
      obtain h' where "h' \<in> set hs" "prevof M h' = Some k" using \<open>Some k \<in> _\<close> by auto
      then show ?thesis using inj_onD [OF Cons.prems(3), of h h'] p True by simp
    qed
    moreover have "n \<notin> set hs" if "Some k \<notin> prevof M ` set hs" "prevof M n = Some k" using that by (metis imageI)
    ultimately show ?thesis using IH s(2) [of k] p True by auto
  next
    case False
    then show ?thesis using IH s(2) [of k] p by auto
  qed
  moreover have "same_blocks M (fold (link_prev True) (h # hs) M)" using IH same_blocks_trans [OF s(1)] by simp
  ultimately show ?case by blast
qed simp

lemma chain_pprev_inj:
  assumes "index_wf M" "i \<in> set (chain M p)" "j \<in> set (chain M p)" "pprev i = Some k" "pprev j = Some k"
  shows "i = j"
proof -
  obtain a where "M k = Some a" "nHeight i = nHeight a + 1" using index_wfD(4) [OF assms(1) chain_mem [OF assms(1,2)] assms(4)] by blast
  moreover obtain b where "M k = Some b" "nHeight j = nHeight b + 1" using index_wfD(4) [OF assms(1) chain_mem [OF assms(1,3)] assms(5)] by blast
  ultimately have "nHeight i = nHeight j" by simp
  then show ?thesis using chain_heights [OF assms(1), of p] assms(2,3)
    by (metis in_set_conv_nth less_irrefl nat_neq_iff sorted_wrt_nth_less)
qed


lemma chain_append_distinct:
  assumes "index_wf M" "chain M p = xs @ c"
  shows "phashBlock ` set xs \<inter> phashBlock ` set c = {}"
  using chain_distinct [OF assms(1), of p] assms(2) by (auto simp: bi_GetBlockHash_def)

lemma prevof_mem: "index_wf M \<Longrightarrow> i \<in> set (chain M p) \<Longrightarrow> prevof M (phashBlock i) = pprev i"
  by (simp add: prevof_def chain_mem)

lemma chain_prefix_prev:
  assumes "index_wf M" "chain M p = xs @ c" "c \<noteq> []" "x \<in> set xs"
  shows "pprev x \<noteq> None"
proof
  assume n: "pprev x = None"
  have x: "x \<in> set (chain M p)" using assms(2,4) by simp
  obtain zs where "chain M p = zs @ chain M (Some (phashBlock x))" using chain_suffix [OF assms(1) x] by blast
  then have "chain M p = zs @ [x]" using chain_Some [OF assms(1) chain_mem [OF assms(1) x]] n by simp
  then have "last c = x" using assms(2,3) by (metis last_appendR last_snoc)
  then have "x \<in> set c" using assms(3) by (metis last_in_set)
  then show False using chain_append_distinct [OF assms(1,2)] assms(4) by blast
qed

lemma chain_link_disjoint:
  assumes "index_wf M" "chain M p = xs @ c" "(n, Some k) \<in> link_of ` set c"
  shows "(m, Some k) \<notin> link_of ` set xs"
proof
  assume "(m, Some k) \<in> link_of ` set xs"
  then obtain x where x: "x \<in> set xs" "pprev x = Some k" by auto
  obtain i where i: "i \<in> set c" "pprev i = Some k" using assms(3) by auto
  have "x = i" by (rule chain_pprev_inj [OF assms(1), of x p i k]) (use x i assms(2) in simp_all)
  then show False using chain_append_distinct [OF assms(1,2)] x(1) i(1) by blast
qed

lemma reorg_links:
  assumes "main_ok M (Some best)" "chain M (Some best) = xs @ c" "chain M (Some new) = ys @ c" "c \<noteq> []" "M new \<noteq> None"
  shows "main_ok (fold (link_prev True) (rev (map phashBlock ys)) (fold (link_prev False) (map phashBlock xs) M)) (Some new)"
    and "same_blocks M (fold (link_prev True) (rev (map phashBlock ys)) (fold (link_prev False) (map phashBlock xs) M))"
proof -
  note wf = main_okD(1) [OF assms(1)]
  define M1 where "M1 = fold (link_prev False) (map phashBlock xs) M"
  define M2 where "M2 = fold (link_prev True) (rev (map phashBlock ys)) M1"
  let ?XS = "link_of ` set xs" and ?YS = "link_of ` set ys" and ?C = "link_of ` set c"
  have px: "prevof M (phashBlock x) = pprev x" if "x \<in> set (xs @ c) \<union> set (ys @ c)" for x using prevof_mem [OF wf] that assms(2,3) by (metis UnE)
  have "\<forall>h \<in> set (map phashBlock xs). prevof M h \<noteq> None" using chain_prefix_prev [OF wf assms(2,4)] px by auto
  note u = unlink_all [OF wf this, folded M1_def]
  note wf1 = same_blocks_wf [OF conjunct1 [OF u] wf] and pr1 = same_prevof [OF conjunct1 [OF u]]
  have inj: "inj_on (prevof M) (set (rev (map phashBlock ys)))"
  proof (rule inj_onI)
    fix h h' assume "h \<in> set (rev (map phashBlock ys))" "h' \<in> set (rev (map phashBlock ys))" and e: "prevof M h = prevof M h'"
    then obtain y y' where y: "y \<in> set ys" "y' \<in> set ys" "h = phashBlock y" "h' = phashBlock y'" by auto
    moreover obtain k where "pprev y = Some k" using chain_prefix_prev [OF wf assms(3,4) y(1)] by auto
    ultimately show "h = h'" using chain_pprev_inj [OF wf, of y "Some new" y' k] e px assms(3) by auto
  qed
  have "\<forall>h \<in> set (rev (map phashBlock ys)). prevof M1 h \<noteq> None" using chain_prefix_prev [OF wf assms(3,4)] px pr1 by auto
  note l = link_all [OF wf1 this inj [folded pr1], folded M2_def, unfolded pr1]
  show same: "same_blocks M (fold (link_prev True) (rev (map phashBlock ys)) (fold (link_prev False) (map phashBlock xs) M))"
    using same_blocks_trans u l unfolding M1_def M2_def by blast
  have iX: "Some k \<in> prevof M ` set (map phashBlock xs) \<longleftrightarrow> (\<exists>n. (n, Some k) \<in> ?XS)" for k using px by (force simp: image_iff)
  have iY: "Some k \<in> prevof M ` set (rev (map phashBlock ys)) \<longleftrightarrow> (\<exists>n. (n, Some k) \<in> ?YS)" for k using px by (force simp: image_iff)
  have mY: "n \<in> set (rev (map phashBlock ys)) \<and> prevof M n = Some k \<longleftrightarrow> (n, Some k) \<in> ?YS" for n k using px by (force simp: image_iff)
  note dX = chain_link_disjoint [OF wf assms(2)] and dY = chain_link_disjoint [OF wf assms(3)]
  have "nextof M2 k = Some n \<longleftrightarrow> (n, Some k) \<in> link_of ` set (chain M (Some new))" if k: "M k \<noteq> None" for k n
  proof -
    have "nextof M k = Some n \<longleftrightarrow> (n, Some k) \<in> ?XS \<union> ?C" using assms(1) k unfolding main_ok_links assms(2) by (simp add: image_Un)
    then have "nextof M2 k = Some n \<longleftrightarrow> (if \<exists>n. (n, Some k) \<in> ?YS then (n, Some k) \<in> ?YS else (\<nexists>n. (n, Some k) \<in> ?XS) \<and> (n, Some k) \<in> ?XS \<union> ?C)"
      using l u unfolding iX iY mY by simp
    then show ?thesis using dX [of _ k] dY [of _ k] unfolding assms(3) set_append image_Un
      by (cases "\<exists>n. (n, Some k) \<in> ?YS") (simp_all only: if_True if_False simp_thms, blast+)
  qed
  then show "main_ok (fold (link_prev True) (rev (map phashBlock ys)) (fold (link_prev False) (map phashBlock xs) M)) (Some new)"
    using same_blocks_wf [OF same wf] same_links [OF same wf] same_blocks_None [OF same] assms(5) unfolding main_ok_links M1_def M2_def by simp
qed

section \<open>The stored chain\<close>

text \<open>The database, with no transaction open, is at the block \<open>t\<close>: it names \<open>t\<close> as the best block and its transaction
  index is the ledger of the chain to \<open>t\<close>.\<close>

definition db_at :: "node_env \<Rightarrow> blkfiles \<Rightarrow> block_map \<Rightarrow> uint256 \<Rightarrow> CTxDB \<Rightarrow> bool" where
  "db_at N F M t db \<longleftrightarrow> db_ready db \<and> activeBatch db = None \<and> ReadHashBestChain db = Some t \<and>
     chain_ledger N F (chain M (Some t)) = Some (tx_view db)"

lemma db_at_same: "same_blocks M M' \<Longrightarrow> index_wf M \<Longrightarrow> db_at N F M' t db \<longleftrightarrow> db_at N F M t db"
  by (simp add: db_at_def same_blocks_ledger)

lemma view_reads:
  assumes "db_view db' = db_view db"
  shows "tx_view db' = tx_view db" "ReadHashBestChain db' = ReadHashBestChain db"
  using assms by (simp_all add: fun_eq_iff tx_view_def ReadTxIndex_def ReadHashBestChain_def db_Read_def db_Get_view)

lemma commit_view:
  assumes "in_txn S db"
  shows "\<exists>d. TxnCommit db = (True, d) \<and> db_view d = db_view db \<and> db_ready d \<and> activeBatch d = None"
  using assms by (auto simp: in_txn_def TxnCommit_def db_view_def db_ready_def)

lemma commit_best:
  assumes "in_txn S db" "chain_ledger N F (chain M (Some t)) = Some (tx_view db)"
  shows "\<exists>d1 d2. WriteHashBestChain t db = (True, d1) \<and> TxnCommit d1 = (True, d2) \<and> db_at N F M t d2"
proof -
  have ready: "db_ready db" using assms(1) by (simp add: in_txn_def db_ready_def)
  obtain ok d1 where d1: "WriteHashBestChain t db = (ok, d1)" by force
  have t1: "in_txn S d1" using in_txn_records(4) [OF assms(1), of t] d1 by simp
  have ok: "ok" "tx_view d1 = tx_view db" using write_others(4,6) [OF ready, of t] d1 by simp_all
  have "ReadHashBestChain d1 = Some t"
    using db_Read_write [OF ready, where unser = unser_uint256 and v = "ser_uint256 t" and x = t and k' = "plain_key ''hashBestChain''" and k = "plain_key ''hashBestChain''"] d1 c256.unser_ser [of t "[]"]
    by (simp add: ReadHashBestChain_def WriteHashBestChain_def)
  moreover obtain d2 where d2: "TxnCommit d1 = (True, d2)" "db_view d2 = db_view d1" "db_ready d2" "activeBatch d2 = None" using commit_view [OF t1] by blast
  ultimately have "db_at N F M t d2" using view_reads [OF d2(2)] assms(2) ok(2) d2(3,4) by (simp add: db_at_def)
  then show ?thesis using d1 ok(1) d2(1) by simp
qed

text \<open>Giving up a transaction restores the handle.\<close>

lemma abort_txn:
  assumes "in_txn (pdb db0) db" "db_ready db0" "activeBatch db0 = None"
  shows "snd (TxnAbort db) = db0" "db\<lparr> activeBatch := None \<rparr> = db0"
  using assms by (cases db0, cases db, simp add: in_txn_def TxnAbort_def db_ready_def)+

lemma invalid_trust_at:
  assumes "db_at N F M t db"
  shows "db_at N F M t (snd (WriteBestInvalidTrust E bn db))"
proof -
  have ready: "db_ready db" using assms by (simp add: db_at_def)
  have hd: "hd (plain_key ''bnBestInvalidTrust'') = 18"
    by (simp add: plain_key_def ser_string_def str_bytes_def WriteCompactSize_def ser_u8_def word_less_nat_alt)
  then have "plain_key ''bnBestInvalidTrust'' \<noteq> plain_key ''hashBestChain''" using hd_keys(4) by (intro key_neq) simp
  then have "ReadHashBestChain (snd (WriteBestInvalidTrust E bn db)) = ReadHashBestChain db"
    by (simp add: ReadHashBestChain_def WriteBestInvalidTrust_def db_Read_def raw.get_put [OF ready])
  moreover have "activeBatch (snd (WriteBestInvalidTrust E bn db)) = None"
    using assms by (simp add: WriteBestInvalidTrust_def db_Write_def db_at_def)
  ultimately show ?thesis
    using tx_view_other [OF ready, of "plain_key ''bnBestInvalidTrust''"] hd assms unfolding db_at_def WriteBestInvalidTrust_def by simp
qed

lemma InvalidChainFound_keeps [simp]:
  "mapBlockIndex (InvalidChainFound N i st) = mapBlockIndex st" "pindexBest (InvalidChainFound N i st) = pindexBest st"
  "hashBestChain (InvalidChainFound N i st) = hashBestChain st" "ns_files (InvalidChainFound N i st) = ns_files st"
  "pindexGenesisBlock (InvalidChainFound N i st) = pindexGenesisBlock st" "nBestChainTrust (InvalidChainFound N i st) = nBestChainTrust st"
  "ns_sync (InvalidChainFound N i st) = ns_sync st"
  by (simp_all add: InvalidChainFound_def)

lemma InvalidChainFound_at:
  assumes "db_at N F M t (ns_txdb st)"
  shows "db_at N F M t (ns_txdb (InvalidChainFound N i st))"
proof -
  have "(ns_txdb st)\<lparr> activeBatch := None \<rparr> = ns_txdb st" using assms by (simp add: db_at_def)
  then show ?thesis using invalid_trust_at [OF assms] assms by (simp add: InvalidChainFound_def)
qed

section \<open>A reorganisation\<close>

lemma children_snoc: "children M p (hs @ [h]) \<longleftrightarrow> children M p hs \<and> (\<exists>i. M h = Some i \<and> pprev i = Some (last (p # hs)))"
  by (induction hs arbitrary: p) auto

lemma fork_children:
  assumes "index_wf M" "chain M p = ys @ c" "c \<noteq> []"
  shows "children M (phashBlock (hd c)) (rev (map phashBlock ys)) \<and> p = Some (last (phashBlock (hd c) # rev (map phashBlock ys))) \<and>
    M (phashBlock (hd c)) = Some (hd c) \<and> chain M (Some (phashBlock (hd c))) = c"
  using assms(2)
proof (induction ys arbitrary: p)
  case Nil
  then obtain h i where "p = Some h" "M h = Some i" "c = i # chain M (pprev i)"
    using assms(3) by (cases rule: chain_cases [OF assms(1), of p]) auto
  then show ?case using index_wfD(1) [OF assms(1)] Nil by auto
next
  case (Cons y ys)
  then obtain h where h: "p = Some h" "M h = Some y" "chain M (pprev y) = ys @ c"
    by (cases rule: chain_cases [OF assms(1), of p]) auto
  then show ?case using Cons.IH [OF h(3)] index_wfD(1) [OF assms(1) h(2)] by (auto simp: children_snoc)
qed

lemma takeWhile_fork:
  assumes "index_wf M" "chain M p = xs @ c" "c \<noteq> []"
  shows "takeWhile (\<lambda>h. h \<noteq> phashBlock (hd c)) (map phashBlock (chain M p)) = map phashBlock xs"
proof -
  have "phashBlock (hd c) \<notin> set (map phashBlock xs)"
    using chain_append_distinct [OF assms(1,2)] assms(3) by (metis disjoint_iff hd_in_set imageI list.set_map)
  then have "takeWhile (\<lambda>h. h \<noteq> phashBlock (hd c)) (map phashBlock xs @ phashBlock (hd c) # map phashBlock (tl c)) = map phashBlock xs"
    by (subst takeWhile_append2) (auto simp: image_iff)
  then show ?thesis using assms(2,3) by (cases c) simp_all
qed

lemma same_blocks_split:
  assumes "same_blocks M M'" "index_wf M" "chain M p = xs @ c" "c \<noteq> []"
  shows "\<exists>xs'. chain M' p = xs' @ chain M' (Some (phashBlock (hd c))) \<and> map phashBlock xs' = map phashBlock xs"
proof -
  note wf' = same_blocks_wf [OF assms(1,2)]
  have "map phashBlock (chain M' p) = map phashBlock xs @ map phashBlock c" using same_blocks_hashes [OF assms(1,2), of p] assms(3) by simp
  then obtain xs' c' where x: "chain M' p = xs' @ c'" "map phashBlock xs' = map phashBlock xs" "map phashBlock c' = map phashBlock c"
    by (auto simp: map_eq_append_conv)
  have c': "c' \<noteq> []" "phashBlock (hd c') = phashBlock (hd c)" using x(3) assms(4) by (cases c; cases c'; simp)+
  then show ?thesis using fork_children [OF wf' x(1) c'(1)] x by metis
qed

text \<open>What a state change leaves alone besides the block index, the pool, the caches and the database.\<close>

definition rest_kept :: "node_state \<Rightarrow> node_state \<Rightarrow> bool" where
  "rest_kept st st' \<longleftrightarrow> pindexBest st' = pindexBest st \<and> hashBestChain st' = hashBestChain st \<and> ns_files st' = ns_files st \<and>
     pindexGenesisBlock st' = pindexGenesisBlock st \<and> nBestChainTrust st' = nBestChainTrust st \<and> ns_sync st' = ns_sync st \<and>
     same_blocks (mapBlockIndex st) (mapBlockIndex st')"

lemma in_txn_connect_blocks:
  assumes "connect_blocks N st M hs del db c = (r, M', db', c')" "in_txn S db"
  shows "in_txn S db'"
  using assms
proof (induction hs arbitrary: M del db c)
  case (Cons h hs)
  show ?case using Cons.prems Cons.IH
    by (auto split: option.splits prod.splits sum.splits failure.splits dest: in_txn_ConnectBlock)
qed simp

lemma resurrect_result: "fst (resurrect N st M db txs pool c) \<noteq> Inl (DoS n)"
  by (induction txs arbitrary: pool c) (auto split: prod.split sum.split failure.split)

lemma Reorganize_ok:
  assumes best: "pindexBest st = Some best" "main_ok (mapBlockIndex st) (Some best)" and new: "mapBlockIndex st new \<noteq> None"
    and common: "set (best_chain st) \<inter> set (chain (mapBlockIndex st) (Some new)) \<noteq> {}"
    and u: "distinct (chain_txids N (ns_files st) (chain (mapBlockIndex st) (Some new)))"
    and l: "chain_ledger N (ns_files st) (best_chain st) = Some (tx_view (ns_txdb st))" and t: "in_txn S (ns_txdb st)"
    and r: "Reorganize N new st = (r, st')"
  shows "rest_kept st st' \<and>
    (r \<noteq> Inr () \<and> main_ok (mapBlockIndex st') (Some best) \<and> in_txn S (ns_txdb st') \<or>
     (\<forall>n. r \<noteq> Inl (DoS n)) \<and> main_ok (mapBlockIndex st') (Some new) \<and> db_at N (ns_files st) (mapBlockIndex st') new (ns_txdb st'))"
proof -
  let ?M = "mapBlockIndex st" and ?F = "ns_files st"
  note wf = main_okD(1) [OF best(2)]
  obtain c xs ys where c: "find_fork (best_chain st) (chain ?M (Some new)) = Some c" "best_chain st = xs @ c" "chain ?M (Some new) = ys @ c" "c \<noteq> []"
    using find_fork_highest [OF wf common] by blast
  let ?f = "phashBlock (hd c)" and ?hs = "rev (map phashBlock ys)"
  note ch = fork_children [OF wf c(3,4)]
  have ready: "db_ready (ns_txdb st)" using t by (simp add: in_txn_def db_ready_def)
  obtain res db1 where d: "disconnect_blocks N ?F ?M (map phashBlock xs) [] (ns_txdb st) = (Some res, db1)" "db_ready db1" "chain_ledger N ?F c = Some (tx_view db1)"
    using disconnect_blocks_view [OF wf c(2,4) l ready] by blast
  have t1: "in_txn S db1" using in_txn_disconnect_blocks [OF t, of N ?F ?M "map phashBlock xs" "[]"] d(1) by simp
  obtain r2 M2 db2 c2 where cb: "connect_blocks N st ?M ?hs [] db1 (ns_sigcache st) = (r2, M2, db2, c2)" by (metis prod_cases4)
  note t2 = in_txn_connect_blocks [OF cb t1] and k2 = connect_blocks_same [OF cb wf]
  have m2: "main_ok M2 (Some best)" using main_ok_same k2 best(2) by blast
  note R = r [unfolded Reorganize_def Let_def c(1) option.case takeWhile_fork [OF wf c(2,4)] takeWhile_fork [OF wf c(3,4)] d(1) prod.case cb]
  show ?thesis
  proof (cases r2)
    case (Inl e)
    then show ?thesis using R k2 t2 m2 by (auto simp: rest_kept_def)
  next
    case (Inr del)
    have last: "last (?f # ?hs) = new" using ch by simp
    have "chain_ledger N ?F (chain M2 (Some new)) = Some (tx_view db2)"
      using connect_blocks_view [OF wf, of ?f ?hs N st db1 "[]" "ns_sigcache st" del M2 db2 c2] ch d(2,3) u cb Inr unfolding last by simp
    from commit_best [OF t2 this] obtain d1 d2 where w: "WriteHashBestChain new db2 = (True, d1)" "TxnCommit d1 = (True, d2)" "db_at N ?F M2 new d2" by blast
    obtain xs' where xs': "chain M2 (Some best) = xs' @ chain M2 (Some ?f)" "map phashBlock xs' = map phashBlock xs"
      using same_blocks_split [OF conjunct1 [OF k2] wf c(2,4)] unfolding best(1) by blast
    obtain ys' where ys': "chain M2 (Some new) = ys' @ chain M2 (Some ?f)" "map phashBlock ys' = map phashBlock ys"
      using same_blocks_split [OF conjunct1 [OF k2] wf c(3,4)] by blast
    have "M2 new \<noteq> None" "M2 ?f \<noteq> None" using same_blocks_None [OF conjunct1 [OF k2]] new ch by simp_all
    then have "chain M2 (Some ?f) \<noteq> []" using chain_Some [OF main_okD(1) [OF m2]] by auto
    note links = reorg_links [OF m2 xs'(1) ys'(1) this \<open>M2 new \<noteq> None\<close>, unfolded xs'(2) ys'(2)]
    define M3 where "M3 = fold (link_prev True) ?hs (fold (link_prev False) (map phashBlock xs) M2)"
    have "db_at N ?F M3 new d2" using w(3) db_at_same [OF links(2) main_okD(1) [OF m2]] unfolding M3_def by simp
    moreover have "same_blocks ?M M3" using same_blocks_trans k2 links(2) unfolding M3_def by blast
    moreover obtain r4 pool c4 where res: "resurrect N (st\<lparr> mapBlockIndex := M2, ns_sigcache := c2 \<rparr>) M3 d2 res (ns_mempool st) c2 = (r4, pool, c4)"
      by (metis prod_cases3)
    moreover have "r4 \<noteq> Inl (DoS n)" for n using resurrect_result res by (metis fst_conv)
    ultimately show ?thesis
      using R links(1) unfolding Inr sum.case w prod.case bool.case M3_def [symmetric] by (auto simp: rest_kept_def split: sum.splits)
  qed
qed

section \<open>Extending the best chain\<close>

text \<open>The node is at the block \<open>t\<close>: the links of the index form the chain to \<open>t\<close>, and so does the database.  A handle
  that is destroyed drops its open transaction.\<close>

definition tip_ok :: "node_env \<Rightarrow> node_state \<Rightarrow> uint256 \<Rightarrow> bool" where
  "tip_ok N st t \<longleftrightarrow> main_ok (mapBlockIndex st) (Some t) \<and> db_at N (ns_files st) (mapBlockIndex st) t (ns_txdb st)"

definition close_txdb :: "node_state \<Rightarrow> node_state" where
  "close_txdb st = st\<lparr> ns_txdb := (ns_txdb st)\<lparr> activeBatch := None \<rparr> \<rparr>"

abbreviation begin_txn :: "node_state \<Rightarrow> node_state" where
  "begin_txn st \<equiv> st\<lparr> ns_txdb := (ns_txdb st)\<lparr> activeBatch := Some [] \<rparr> \<rparr>"

lemma tip_ok_begin:
  assumes "tip_ok N st t"
  shows "TxnBegin (ns_txdb st) = (True, (ns_txdb st)\<lparr> activeBatch := Some [] \<rparr>)" "in_txn (pdb (ns_txdb st)) (ns_txdb (begin_txn st))"
    "chain_ledger N (ns_files st) (chain (mapBlockIndex st) (Some t)) = Some (tx_view (ns_txdb (begin_txn st)))"
proof -
  have db: "activeBatch (ns_txdb st) = None" "db_ready (ns_txdb st)" using assms by (simp_all add: tip_ok_def db_at_def)
  then show "TxnBegin (ns_txdb st) = (True, (ns_txdb st)\<lparr> activeBatch := Some [] \<rparr>)" "in_txn (pdb (ns_txdb st)) (ns_txdb (begin_txn st))"
    by (simp_all add: TxnBegin_def in_txn_def db_ready_def)
  have "db_view (ns_txdb (begin_txn st)) = db_view (ns_txdb st)" using db by (simp add: db_view_def)
  from view_reads(1) [OF this] show "chain_ledger N (ns_files st) (chain (mapBlockIndex st) (Some t)) = Some (tx_view (ns_txdb (begin_txn st)))"
    using assms by (simp add: tip_ok_def db_at_def)
qed

text \<open>A transaction that is not committed leaves the node where it was.\<close>

lemma tip_ok_abort:
  assumes "tip_ok N st t" "rest_kept st st'" "main_ok (mapBlockIndex st') (Some t)" "in_txn (pdb (ns_txdb st)) (ns_txdb st')"
  shows "tip_ok N (close_txdb st') t" "tip_ok N (InvalidChainFound N i (st'\<lparr> ns_txdb := snd (TxnAbort (ns_txdb st')) \<rparr>)) t"
proof -
  have db: "db_ready (ns_txdb st)" "activeBatch (ns_txdb st) = None" using assms(1) by (simp_all add: tip_ok_def db_at_def)
  note a = abort_txn [OF assms(4) db]
  have "index_wf (mapBlockIndex st)" using assms(1) by (auto simp: tip_ok_def dest: main_okD(1))
  then have "db_at N (ns_files st') (mapBlockIndex st') t (ns_txdb st)"
    using assms(1,2) db_at_same [of "mapBlockIndex st" "mapBlockIndex st'"] by (simp add: tip_ok_def rest_kept_def)
  then show "tip_ok N (close_txdb st') t" "tip_ok N (InvalidChainFound N i (st'\<lparr> ns_txdb := snd (TxnAbort (ns_txdb st')) \<rparr>)) t"
    using assms(3) a InvalidChainFound_at [of N "ns_files st'" "mapBlockIndex st'" t "st'\<lparr> ns_txdb := snd (TxnAbort (ns_txdb st')) \<rparr>"]
    by (simp_all add: tip_ok_def close_txdb_def)
qed

lemma tip_ok_close: "tip_ok N st t \<Longrightarrow> close_txdb st = st"
  by (cases st, cases "ns_txdb st") (simp add: tip_ok_def db_at_def close_txdb_def)

lemma GetHash_again: "blk_GetHash E (snd (blk_GetHash E b)) = blk_GetHash E b"
  by (simp add: blk_GetHash_def Let_def)

lemma read_block_hash: "read_block N F i = Some b \<Longrightarrow> fst (blk_GetHash (ne_ext N) b) = phashBlock i"
  by (auto simp: blk_ReadFromDisk_index_def bi_GetBlockHash_def split: option.splits if_splits prod.splits) (metis GetHash_again fst_conv snd_conv)

text \<open>The outcome of a step from the block \<open>p\<close> to the block \<open>new\<close>.\<close>

definition moved :: "node_env \<Rightarrow> uint256 \<Rightarrow> uint256 \<Rightarrow> failure + unit \<Rightarrow> node_state \<Rightarrow> bool" where
  "moved N p new r st' \<longleftrightarrow>
     (case r of Inr _ \<Rightarrow> tip_ok N st' new | Inl (DoS _) \<Rightarrow> tip_ok N st' p | Inl Exception \<Rightarrow> tip_ok N (close_txdb st') p)"

lemma SetBestChainInner_ok:
  assumes tip: "tip_ok N st p" and i: "mapBlockIndex st new = Some i" "pprev i = Some p"
    and b: "fst (blk_GetHash (ne_ext N) b) = new" "read_block N (ns_files st) i = Some b'" "vtx b' = vtx b"
    and u: "distinct (chain_txids N (ns_files st) (chain (mapBlockIndex st) (Some new)))"
    and s: "SetBestChainInner N b new (begin_txn st) = (r, st')"
  shows "rest_kept st st' \<and> moved N p new r st'"
proof -
  let ?M = "mapBlockIndex st" and ?F = "ns_files st" and ?db = "ns_txdb (begin_txn st)"
  have main: "main_ok ?M (Some p)" using tip by (simp add: tip_ok_def)
  note wf = main_okD(1) [OF main] and beg = tip_ok_begin [OF tip]
  obtain r1 db1 c1 where cb: "ConnectBlock (ne_ext N) (ne_fTestNet N) (ne_now N) (nBestHeight st) ?F (ns_mempool st) (ne_opts N)
      (nSyncCheckpointHeight (ns_sync st)) ?db (chain ?M (Some new)) False b (ns_sigcache st) = (r1, db1, c1)" by (metis prod_cases3)
  have t1: "in_txn (pdb (ns_txdb st)) db1" by (rule in_txn_ConnectBlock [OF cb beg(2)])
  have cb': "ConnectBlock (ne_ext N) (ne_fTestNet N) (ne_now N) (nBestHeight (begin_txn st)) (ns_files (begin_txn st)) (ns_mempool (begin_txn st)) (ne_opts N)
      (nSyncCheckpointHeight (ns_sync (begin_txn st))) ?db (chain (mapBlockIndex (begin_txn st)) (Some new)) False b (ns_sigcache (begin_txn st)) = (r1, db1, c1)"
    using cb by simp
  note S = s [unfolded SetBestChainInner_def Let_def b(1) cb' prod.case]
  show ?thesis
  proof (cases r1)
    case (Inl e)
    have k: "rest_kept st (st\<lparr> ns_txdb := db1, ns_sigcache := c1 \<rparr>)" by (simp add: rest_kept_def)
    note a = tip_ok_abort [OF tip k _ ]
    show ?thesis
    proof (cases e)
      case Exception
      then show ?thesis using S Inl a(1) main t1 k by (auto simp: moved_def rest_kept_def)
    next
      case (DoS n)
      have e: "st\<lparr> ns_txdb := d, ns_sigcache := c1 \<rparr> = st\<lparr> ns_sigcache := c1, ns_txdb := d \<rparr>" for d by simp
      then show ?thesis using DoS S Inl a(2) [of "hd (chain ?M (Some new))"] main t1 k
        by (auto simp: e moved_def rest_kept_def)
    qed
  next
    case (Inr i')
    note one = connect_one_block [OF wf i beg(3) _ b(2,3) u cb [unfolded Inr]]
    let ?M1 = "?M(new \<mapsto> i')"
    have ready: "db_ready ?db" using beg(2) by (simp add: in_txn_def db_ready_def)
    from commit_best [OF t1 one(3) [OF ready]] obtain d1 d2 where w: "WriteHashBestChain new db1 = (True, d1)" "TxnCommit d1 = (True, d2)"
      "db_at N ?F ?M1 new d2" by blast
    have m1: "main_ok ?M1 (Some p)" using main_ok_same [OF one(1) [OF ready] _ main] same_blocks_pnext_upd [of ?M new i i', OF i(1) one(2) [OF ready]] by blast
    note wf1 = main_okD(1) [OF m1]
    have i': "?M1 new = Some i'" "pprev i' = Some p" "phashBlock i' = new"
      using ConnectBlock_index(1) [OF cb [unfolded Inr]] chain_Some [OF wf i(1)] fixed_eqD [of i' i] i index_wfD(1) [OF wf i(1)] by simp_all
    have ch: "chain ?M1 (Some new) = [i'] @ chain ?M1 (Some p)" using chain_Some [of ?M1, OF wf1 i'(1)] i'(2) by (simp del: fun_upd_apply)
    have "chain ?M1 (Some p) \<noteq> []" using main_okD(2) [OF m1 refl] chain_Some [OF wf1] by auto
    note links = reorg_links [OF m1 _ ch this, of "[]"]
    have l: "main_ok (link_prev True new ?M1) (Some new)" "same_blocks ?M1 (link_prev True new ?M1)" using links i'(1,3) by simp_all
    have "db_at N ?F (link_prev True new ?M1) new d2" using db_at_same [OF l(2) wf1] w(3) by simp
    moreover have "same_blocks ?M (link_prev True new ?M1)" by (rule same_blocks_trans [OF one(1) [OF ready] l(2)])
    ultimately show ?thesis using S l(1) unfolding Inr sum.case w prod.case bool.case by (auto simp: moved_def rest_kept_def tip_ok_def)
  qed
qed

text \<open>The postponed blocks: the node ends at one of them, or where it was.\<close>

lemma connect_secondary_ok:
  assumes "tip_ok N st p" "children (mapBlockIndex st) p hs"
    and "distinct (chain_txids N (ns_files st) (chain (mapBlockIndex st) (Some (last (p # hs)))))"
    and "connect_secondary N hs st = (r, st')"
  shows "rest_kept st st' \<and> (\<exists>t \<in> set (p # hs). tip_ok N (close_txdb st') t \<and> (r = Inr () \<longrightarrow> tip_ok N st' t)) \<and> (\<forall>n. r \<noteq> Inl (DoS n))"
  using assms
proof (induction hs arbitrary: p st)
  case Nil
  then show ?case using tip_ok_close [OF Nil.prems(1)] by (auto simp: rest_kept_def)
next
  case (Cons h hs)
  let ?M = "mapBlockIndex st" and ?F = "ns_files st"
  have wf: "index_wf ?M" using Cons.prems(1) by (auto simp: tip_ok_def dest: main_okD(1))
  obtain i where i: "?M h = Some i" "pprev i = Some p" using Cons.prems(2) by auto
  show ?case
  proof (cases "read_block N ?F i")
    case None
    then show ?thesis using Cons.prems(1,4) i tip_ok_close [OF Cons.prems(1)] by (auto simp: rest_kept_def)
  next
    case (Some b)
    obtain r1 st1 where s: "SetBestChainInner N b h (begin_txn st) = (r1, st1)" by force
    have below: "chain ?M (Some h) \<noteq> []" using chain_Some [OF wf i(1)] by simp
    obtain xs where "chain ?M (Some (last (h # hs))) = xs @ chain ?M (Some h)" using children_last [OF wf, of h hs] Cons.prems(2) i(1) by auto
    then have u: "distinct (chain_txids N ?F (chain ?M (Some h)))" using chain_txids_append [OF below] Cons.prems(3) by (metis last_ConsR list.distinct(1))
    have hash: "fst (blk_GetHash (ne_ext N) b) = h" using read_block_hash [OF Some] index_wfD(1) [OF wf i(1)] by simp
    note one = SetBestChainInner_ok [OF Cons.prems(1) i hash Some refl u s]
    have go: "(case (r1, st1) of (Inl Exception, st) \<Rightarrow> (Inl Exception, st) | (Inl e, st) \<Rightarrow> (Inr (), st) | (Inr _, st) \<Rightarrow> connect_secondary N hs st) = (r, st')"
      using Cons.prems(4) i(1) Some tip_ok_begin(1) [OF Cons.prems(1)] s by simp
    show ?thesis
    proof (cases r1)
      case (Inl e)
      then show ?thesis using one go tip_ok_close [of N st1 p] by (cases e) (auto simp: moved_def)
    next
      case (Inr x)
      have same: "same_blocks ?M (mapBlockIndex st1)" "ns_files st1 = ?F" using one by (simp_all add: rest_kept_def)
      have "rest_kept st1 st' \<and> (\<exists>t \<in> set (h # hs). tip_ok N (close_txdb st') t \<and> (r = Inr () \<longrightarrow> tip_ok N st' t)) \<and> (\<forall>n. r \<noteq> Inl (DoS n))"
      proof (rule Cons.IH)
        show "tip_ok N st1 h" using one Inr by (simp add: moved_def)
        show "children (mapBlockIndex st1) h hs" using children_same [OF same(1)] Cons.prems(2) by simp
        show "distinct (chain_txids N (ns_files st1) (chain (mapBlockIndex st1) (Some (last (h # hs)))))"
          using chain_txids_same [OF same(1) wf] Cons.prems(3) same(2) by simp
        show "connect_secondary N hs st1 = (r, st')" using go Inr by simp
      qed
      moreover from this have "rest_kept st st'" using one same_blocks_trans [OF same(1)] by (simp add: rest_kept_def)
      ultimately show ?thesis by auto
    qed
  qed
qed

lemma postpone_split:
  "postpone t c = (hs, rest) \<Longrightarrow> c \<noteq> [] \<Longrightarrow>
     \<exists>zs. c = zs @ rest \<and> hs = map phashBlock zs \<and> rest \<noteq> [] \<and> (\<forall>j \<in> insert (hd rest) (set (tl zs)). nChainTrust j > t \<or> j = hd c) \<and>
       (zs = [] \<longleftrightarrow> tl c = [] \<or> nChainTrust (hd (tl c)) \<le> t)"
proof (induction t c arbitrary: hs rest rule: postpone.induct)
  case (1 t i j "is")
  show ?case
  proof (cases "nChainTrust j > t")
    case True
    obtain hs' where hs: "postpone t (j # is) = (hs', rest)" "hs = phashBlock i # hs'" using 1(2) True by (auto split: prod.splits)
    then obtain zs where zs: "j # is = zs @ rest" "hs' = map phashBlock zs" "rest \<noteq> []" "\<forall>k \<in> insert (hd rest) (set (tl zs)). nChainTrust k > t \<or> k = j"
      using 1(1) [OF True hs(1)] by auto
    have "\<forall>k \<in> insert (hd rest) (set zs). nChainTrust k > t"
      using zs True by (cases zs) auto
    moreover have "hd (zs @ rest) = j" using zs(1) by (metis list.sel(1))
    ultimately show ?thesis using zs hs True by (intro exI [of _ "i # zs"]) auto
  next
    case False
    then show ?thesis using 1(2) by auto
  qed
qed auto

section \<open>Changing the best block\<close>

lemma common_last:
  assumes "index_wf M" "set (chain M p) \<inter> set (chain M q) \<noteq> {}"
  shows "last (chain M p) = last (chain M q)"
proof -
  obtain i where i: "i \<in> set (chain M p)" "i \<in> set (chain M q)" using assms(2) by blast
  have "chain M (Some (phashBlock i)) \<noteq> []" using chain_Some [OF assms(1) chain_mem [OF assms(1) i(1)]] by simp
  moreover obtain xs ys where "chain M p = xs @ chain M (Some (phashBlock i))" "chain M q = ys @ chain M (Some (phashBlock i))"
    using chain_suffix [OF assms(1)] i by meson
  ultimately show ?thesis by simp
qed

lemma new_best_ok:
  assumes "mapBlockIndex st new \<noteq> None"
  shows "pindexBest (new_best h new st) = Some new" "hashBestChain (new_best h new st) = h" "tip_ok N (new_best h new st) t \<longleftrightarrow> tip_ok N st t"
  using assms by (auto simp: new_best_def tip_ok_def)

text \<open>The outcomes, for the old best block, the new one and the blocks that may become the tip.\<close>

definition switched :: "node_env \<Rightarrow> node_state \<Rightarrow> uint256 \<Rightarrow> uint256 \<Rightarrow> CBlockIndex set \<Rightarrow> bool \<Rightarrow> failure + unit \<Rightarrow> node_state \<Rightarrow> bool" where
  "switched N st best new upper direct r st' \<longleftrightarrow>
    ns_files st' = ns_files st \<and> pindexGenesisBlock st' = pindexGenesisBlock st \<and> ns_sync st' = ns_sync st \<and> same_blocks (mapBlockIndex st) (mapBlockIndex st') \<and>
    (case r of
      Inr _ \<Rightarrow> pindexBest st' = Some new \<and> hashBestChain st' = new \<and> nBestChainTrust st' = nChainTrust (the (mapBlockIndex st new)) \<and>
        (\<exists>j \<in> upper. tip_ok N st' (phashBlock j) \<and> (direct \<longrightarrow> phashBlock j = new))
    | Inl (DoS _) \<Rightarrow> pindexBest st' = Some best \<and> hashBestChain st' = best \<and> nBestChainTrust st' = nBestChainTrust st \<and> tip_ok N st' best
    | Inl Exception \<Rightarrow> tip_ok N (close_txdb st') best \<or> (\<exists>j \<in> upper. tip_ok N (close_txdb st') (phashBlock j)))"

lemma new_best_kept:
  assumes "rest_kept st st1" "mapBlockIndex st new \<noteq> None"
  shows "ns_files (new_best h new st1) = ns_files st" "pindexGenesisBlock (new_best h new st1) = pindexGenesisBlock st" "ns_sync (new_best h new st1) = ns_sync st"
    "same_blocks (mapBlockIndex st) (mapBlockIndex (new_best h new st1))" "nBestChainTrust (new_best h new st1) = nChainTrust (the (mapBlockIndex st new))"
proof -
  obtain i where i: "mapBlockIndex st new = Some i" using assms(2) by blast
  obtain j where "mapBlockIndex st1 new = Some j" "fixed_part j = fixed_part i" using same_blocks_Some [of "mapBlockIndex st" "mapBlockIndex st1" new i] i assms(1) unfolding rest_kept_def by blast
  then show "ns_files (new_best h new st1) = ns_files st" "pindexGenesisBlock (new_best h new st1) = pindexGenesisBlock st" "ns_sync (new_best h new st1) = ns_sync st"
    "same_blocks (mapBlockIndex st) (mapBlockIndex (new_best h new st1))" "nBestChainTrust (new_best h new st1) = nChainTrust (the (mapBlockIndex st new))"
    using assms(1) i fixed_eqD [of j i] by (simp_all add: rest_kept_def new_best_def)
qed

lemma extend_switched:
  assumes tip: "tip_ok N st best" "pindexBest st = Some best" "hashBestChain st = best"
    and i: "mapBlockIndex st new = Some i" "pprev i = Some best" "fst (blk_GetHash (ne_ext N) b) = new"
    and b: "read_block N (ns_files st) i = Some b'" "vtx b' = vtx b"
    and u: "distinct (chain_txids N (ns_files st) (chain (mapBlockIndex st) (Some new)))" and upper: "i \<in> upper"
    and s: "(case SetBestChainInner N b new (begin_txn st) of (Inl e, st) \<Rightarrow> (Inl e, st) | (Inr _, st) \<Rightarrow> (Inr (), new_best new new st)) = (r, st')"
  shows "switched N st best new upper direct r st'"
proof -
  obtain r1 st1 where s1: "SetBestChainInner N b new (begin_txn st) = (r1, st1)" by force
  note one = SetBestChainInner_ok [OF tip(1) i b u s1]
  have wf: "index_wf (mapBlockIndex st)" using tip(1) by (auto simp: tip_ok_def dest: main_okD(1))
  show ?thesis
  proof (cases r1)
    case (Inl e)
    then show ?thesis using s one tip s1 by (cases e) (auto simp: switched_def moved_def rest_kept_def)
  next
    case (Inr x)
    have "mapBlockIndex st1 new \<noteq> None" using one same_blocks_None [of "mapBlockIndex st" "mapBlockIndex st1" new] i(1) by (simp add: rest_kept_def)
    note nb = new_best_ok [OF this]
    have "r = Inr ()" "st' = new_best new new st1" "tip_ok N st1 new" using s one Inr s1 by (auto simp: moved_def)
    then show ?thesis using nb upper index_wfD(1) [OF wf i(1)] new_best_kept [OF conjunct1 [OF one], of new new] i(1) by (auto simp: switched_def)
  qed
qed

text \<open>The same for a branch \<open>zs @ rest\<close> whose blocks \<open>zs\<close> are postponed.\<close>

lemma reorg_switched:
  assumes tip: "tip_ok N st best" "pindexBest st = Some best" "hashBestChain st = best"
    and new: "mapBlockIndex st new \<noteq> None" and c: "chain (mapBlockIndex st) (Some new) = zs @ rest" "rest \<noteq> []"
    and common: "last (chain (mapBlockIndex st) (Some new)) = last (best_chain st)"
    and u: "distinct (chain_txids N (ns_files st) (chain (mapBlockIndex st) (Some new)))"
    and upper: "insert (hd rest) (set zs) \<subseteq> upper" and direct: "direct \<Longrightarrow> zs = []"
    and s: "(case Reorganize N (phashBlock (hd rest)) (begin_txn st) of
              (Inl Exception, st) \<Rightarrow> (Inl Exception, st)
            | (Inl e, st) \<Rightarrow>
                (Inl Reject, InvalidChainFound N (hd (chain (mapBlockIndex st) (Some new))) (st\<lparr> ns_txdb := snd (TxnAbort (ns_txdb st)) \<rparr>))
            | (Inr _, st) \<Rightarrow>
                (case connect_secondary N (rev (map phashBlock zs)) st of
                   (Inl e, st) \<Rightarrow> (Inl e, st) | (Inr _, st) \<Rightarrow> (Inr (), new_best new new st))) = (r, st')"
  shows "switched N st best new upper direct r st'"
proof -
  let ?M = "mapBlockIndex st" and ?F = "ns_files st" and ?q = "phashBlock (hd rest)"
  have main: "main_ok ?M (Some best)" using tip(1) by (simp add: tip_ok_def)
  note wf = main_okD(1) [OF main] and beg = tip_ok_begin [OF tip(1)]
  note ch = fork_children [OF wf c]
  have q: "?M ?q = Some (hd rest)" "chain ?M (Some ?q) = rest" "children ?M ?q (rev (map phashBlock zs))" "last (?q # rev (map phashBlock zs)) = new"
    using ch by simp_all
  have "best_chain st \<noteq> []" using main_okD(2) [OF main refl] chain_Some [OF wf] tip(2) by auto
  then have "last rest \<in> set (best_chain st) \<inter> set rest" using common c by (metis IntI last_appendR last_in_set)
  then have cm: "set (best_chain (begin_txn st)) \<inter> set (chain (mapBlockIndex (begin_txn st)) (Some ?q)) \<noteq> {}" using q(2) by auto
  have uq: "distinct (chain_txids N ?F (chain ?M (Some ?q)))" using chain_txids_append [OF c(2)] u c(1) q(2) by metis
  obtain r1 st1 where r1: "Reorganize N ?q (begin_txn st) = (r1, st1)" by force
  have R: "rest_kept st st1" "r1 \<noteq> Inr () \<and> main_ok (mapBlockIndex st1) (Some best) \<and> in_txn (pdb (ns_txdb st)) (ns_txdb st1) \<or> (\<forall>n. r1 \<noteq> Inl (DoS n)) \<and> tip_ok N st1 ?q"
    using Reorganize_ok [OF _ _ _ cm _ _ beg(2) r1, of best] tip(2) main q(1) uq beg(3) by (auto simp: rest_kept_def tip_ok_def)
  have tips: "\<exists>j \<in> upper. phashBlock j = t \<and> (direct \<longrightarrow> t = new)" if "t \<in> set (?q # rev (map phashBlock zs))" for t
    using that upper direct q(4) by auto
  from R(2) consider (fail) "r1 \<noteq> Inr ()" "main_ok (mapBlockIndex st1) (Some best)" "in_txn (pdb (ns_txdb st)) (ns_txdb st1)"
    | (dies) "r1 = Inl Exception" "tip_ok N st1 ?q" | (over) "r1 = Inr ()" "tip_ok N st1 ?q"
    by (cases r1) (auto, metis failure.exhaust)
  then show ?thesis
  proof cases
    case fail
    then obtain e where e: "r1 = Inl e" by (cases r1) auto
    show ?thesis using s r1 e R(1) tip tip_ok_abort [OF tip(1) R(1) fail(2,3)] by (cases e) (auto simp: switched_def rest_kept_def)
  next
    case dies
    obtain j where j: "j \<in> upper" "phashBlock j = ?q" using tips [of ?q] by auto
    then have "tip_ok N (close_txdb st1) (phashBlock j)" using dies(2) tip_ok_close [OF dies(2)] by simp
    then show ?thesis using s r1 dies(1) j(1) R(1) by (auto simp: switched_def rest_kept_def)
  next
    case over
    obtain r2 st2 where r2: "connect_secondary N (rev (map phashBlock zs)) st1 = (r2, st2)" by force
    have same: "same_blocks ?M (mapBlockIndex st1)" "ns_files st1 = ?F" using R(1) by (simp_all add: rest_kept_def)
    have u1: "distinct (chain_txids N (ns_files st1) (chain (mapBlockIndex st1) (Some (last (?q # rev (map phashBlock zs))))))"
      using u chain_txids_same [OF same(1) wf] same(2) q(4) by simp
    from connect_secondary_ok [OF over(2) children_same [OF same(1) q(3)] u1 r2] obtain t where
      t: "rest_kept st1 st2" "t \<in> set (?q # rev (map phashBlock zs))" "tip_ok N (close_txdb st2) t" "r2 = Inr () \<longrightarrow> tip_ok N st2 t" "\<forall>n. r2 \<noteq> Inl (DoS n)" by blast
    obtain j where j: "j \<in> upper" "phashBlock j = t" "direct \<longrightarrow> t = new" using tips [OF t(2)] by blast
    have "mapBlockIndex st2 new \<noteq> None" using new same_blocks_None [OF same(1)] same_blocks_None [of "mapBlockIndex st1" "mapBlockIndex st2"] t(1) by (simp add: rest_kept_def)
    note nb = new_best_ok [OF this]
    have k2: "rest_kept st st2" using R(1) t(1) same_blocks_trans by (auto simp: rest_kept_def)
    show ?thesis
    proof (cases r2)
      case (Inl e)
      then have "e = Exception" using t(5) by (cases e) auto
      then show ?thesis using s r1 over(1) r2 Inl t(3) j k2 by (auto simp: switched_def rest_kept_def)
    next
      case (Inr x)
      then show ?thesis using s r1 over(1) r2 t(4) j nb new_best_kept [OF k2 new] by (auto simp: switched_def)
    qed
  qed
qed

lemma SetBestChain_switched:
  assumes tip: "tip_ok N st best" "pindexBest st = Some best" "hashBestChain st = best" and gen: "pindexGenesisBlock st \<noteq> None"
    and i: "mapBlockIndex st new = Some i" "pprev i = Some (hashPrevBlock b)" "fst (blk_GetHash (ne_ext N) b) = new"
    and b: "read_block N (ns_files st) i = Some b'" "vtx b' = vtx b"
    and common: "last (chain (mapBlockIndex st) (Some new)) = last (best_chain st)"
    and u: "distinct (chain_txids N (ns_files st) (chain (mapBlockIndex st) (Some new)))"
    and trust: "nChainTrust i > nChainTrust (the (mapBlockIndex st best))"
    and s: "SetBestChain N b new st = (r, st')"
  shows "switched N st best new {j \<in> set (chain (mapBlockIndex st) (Some new)). nChainTrust j > nChainTrust (the (mapBlockIndex st best))}
    (nChainTrust (the (mapBlockIndex st (hashPrevBlock b))) \<le> nChainTrust (the (mapBlockIndex st best))) r st'"
proof -
  let ?M = "mapBlockIndex st" and ?F = "ns_files st" and ?t = "nChainTrust (the (mapBlockIndex st best))"
  define upper where "upper = {j \<in> set (chain ?M (Some new)). nChainTrust j > ?t}"
  define direct where "direct \<longleftrightarrow> nChainTrust (the (?M (hashPrevBlock b))) \<le> ?t"
  have main: "main_ok ?M (Some best)" using tip(1) by (simp add: tip_ok_def)
  note wf = main_okD(1) [OF main] and beg = tip_ok_begin [OF tip(1)]
  obtain j where j: "?M (hashPrevBlock b) = Some j" using index_wfD(4) [OF wf i(1,2)] by blast
  have chn: "chain ?M (Some new) = i # j # chain ?M (pprev j)" using chain_Some [OF wf i(1)] chain_Some [OF wf j] i(2) by simp
  have hb: "hd (best_chain st) = the (?M best)" using main_okD(2) [OF main refl] chain_Some [OF wf] tip(2) by auto
  obtain sec rest where pp: "postpone ?t (chain ?M (Some new)) = (sec, rest)" by force
  have S: "(if hashPrevBlock b = best
     then case SetBestChainInner N b new (begin_txn st) of (Inl e, st) \<Rightarrow> (Inl e, st) | (Inr _, st) \<Rightarrow> (Inr (), new_best new new st)
     else case Reorganize N (phashBlock (hd rest)) (begin_txn st) of
              (Inl Exception, st) \<Rightarrow> (Inl Exception, st)
            | (Inl e, st) \<Rightarrow>
                (Inl Reject, InvalidChainFound N (hd (chain (mapBlockIndex st) (Some new))) (st\<lparr> ns_txdb := snd (TxnAbort (ns_txdb st)) \<rparr>))
            | (Inr _, st) \<Rightarrow>
                (case connect_secondary N (rev sec) st of
                   (Inl e, st) \<Rightarrow> (Inl e, st) | (Inr _, st) \<Rightarrow> (Inr (), new_best new new st))) = (r, st')"
    using s gen tip(3) hb pp unfolding SetBestChain_def Let_def i(3) beg(1) prod.case bool.case
    by (cases "hashPrevBlock b = best") simp_all
  have "switched N st best new upper direct r st'"
  proof (cases "hashPrevBlock b = best")
    case True
    have "i \<in> upper" using trust chn by (simp add: upper_def)
    then show ?thesis using extend_switched [OF tip i(1) _ i(3) b u, of upper r st' direct] i(2) S True by simp
  next
    case False
    have "chain ?M (Some new) \<noteq> []" using chn by simp
    from postpone_split [OF pp this] obtain zs where zs: "chain ?M (Some new) = zs @ rest" "sec = map phashBlock zs" "rest \<noteq> []"
      "\<forall>k \<in> insert (hd rest) (set (tl zs)). nChainTrust k > ?t \<or> k = i" "zs = [] \<longleftrightarrow> nChainTrust j \<le> ?t" unfolding chn by auto
    have "insert (hd rest) (set zs) \<subseteq> set (chain ?M (Some new))" using zs(1,3) by auto
    moreover have "set zs \<subseteq> insert i (set (tl zs))" using zs(1) chn by (cases zs) auto
    ultimately have up: "insert (hd rest) (set zs) \<subseteq> upper" using zs(4) trust by (auto simp: upper_def)
    show ?thesis
      by (rule reorg_switched [OF tip _ zs(1,3) common u up _ S [unfolded if_not_P [OF False] zs(2)]]) (use i(1) zs(5) j in \<open>simp_all add: direct_def\<close>)
  qed
  then show ?thesis unfolding upper_def direct_def .
qed

text \<open>C1. Switching the best chain keeps the node on one chain.  Before the call the links of the block index, the best block
  stored in the database and the transaction index belong to the chain of the best block; the new block is in the index, descends from the same
  first block, is stored, has more trust, and no two transactions of its chain have the same hash.  If the call succeeds, they all belong
  to a chain of blocks of the new branch with more trust than before, and to the new block itself unless blocks below it had been postponed; if the block or its branch
  is refused they belong to the old chain as before; and if an exception ends the call, what the database holds is the ledger of the
  old chain or of a chain of the new branch.\<close>

theorem best_chain_consistent:
  assumes tip: "tip_ok N st best" "pindexBest st = Some best" "hashBestChain st = best" and gen: "pindexGenesisBlock st \<noteq> None"
    and i: "mapBlockIndex st new = Some i" "pprev i = Some (hashPrevBlock b)" "fst (blk_GetHash (ne_ext N) b) = new"
    and b: "read_block N (ns_files st) i = Some b'" "vtx b' = vtx b"
    and common: "last (chain (mapBlockIndex st) (Some new)) = last (best_chain st)"
    and u: "distinct (chain_txids N (ns_files st) (chain (mapBlockIndex st) (Some new)))"
    and trust: "nChainTrust i > nChainTrust (the (mapBlockIndex st best))"
    and s: "SetBestChain N b new st = (r, st')"
  shows "let upper = {j \<in> set (chain (mapBlockIndex st) (Some new)). nChainTrust j > nChainTrust (the (mapBlockIndex st best))} in
    case r of
      Inr _ \<Rightarrow> pindexBest st' = Some new \<and> hashBestChain st' = new \<and> (\<exists>j \<in> upper. tip_ok N st' (phashBlock j) \<and>
        (nChainTrust (the (mapBlockIndex st (hashPrevBlock b))) \<le> nChainTrust (the (mapBlockIndex st best)) \<longrightarrow> phashBlock j = new))
    | Inl (DoS _) \<Rightarrow> pindexBest st' = Some best \<and> hashBestChain st' = best \<and> tip_ok N st' best
    | Inl Exception \<Rightarrow> tip_ok N (close_txdb st') best \<or> (\<exists>j \<in> upper. tip_ok N (close_txdb st') (phashBlock j))"
  using SetBestChain_switched [OF assms] unfolding switched_def Let_def by (auto split: sum.split failure.split)

section \<open>A first block on top of the genesis block\<close>

definition first_block :: CBlock where
  "first_block = CBlock_new\<lparr> hashPrevBlock := 1, blk_nTime := 3, nBits := 0x03000001, vtx := [coinbase_example] \<rparr>"

definition first_index :: CBlockIndex where
  "first_index = (index_example 0 (Some 1))\<lparr> bi_nFile := 1, bi_nBlockPos := 8, nHeight := 1, nChainTrust := 1 \<rparr>"

definition env_example :: node_env where
  "env_example = \<lparr> ne_ext = ext_zero, ne_fTestNet = False, ne_now = 0, ne_opts = opts_example, ne_rate_limited = (\<lambda>tx. False) \<rparr>"

definition genesis_state :: node_state where
  "genesis_state = \<lparr> mapBlockIndex = [1 \<mapsto> index_example 1 None, 0 \<mapsto> first_index], pindexGenesisBlock = Some 1, pindexBest = Some 1,
     hashBestChain = 1, nBestHeight = 0, nBestChainTrust = 0, nBestInvalidTrust = 0, pblockindexFBBHLast = None, ns_mempool = pool_empty,
     ns_sigcache = empty_cache 0, ns_files = snd (WriteToDisk [1, 2, 3, 4] first_block no_files),
     ns_txdb = snd (WriteHashBestChain 1 db_example), ns_sync = sync_example \<rparr>"

lemma zero_block_hash: "header_hash ext_zero b = 0"
proof -
  have "hash_sizes ext_zero" by (auto simp: hash_sizes_def ext_zero_def ext_example_def min_def)
  then have "PBKDF2_SHA256 ext_zero P S 1 32 = replicate 32 0" for P S
    by (subst pbkdf2_correct) (simp_all add: pbkdf2_spec_def hmac_spec_def ext_zero_def)
  then show ?thesis by (simp add: header_hash_def scrypt_blockhash_def scrypt_nosalt_def Let_def uint256_of_bytes_def)
qed

lemma first_block_hash: "fst (blk_GetHash ext_zero first_block) = 0"
  by (simp add: blk_GetHash_def first_block_def zero_block_hash CBlock_new_def blk_SetNull_def)

lemma first_fields: "vtx first_block = [coinbase_example]" "blk_GetBlockTime first_block = 3" "hashMerkleRoot first_block = 0" "vchBlockSig first_block = []"
  "hashPrevBlock first_block = 1"
  by (simp_all add: first_block_def blk_GetBlockTime_def CBlock_new_def blk_SetNull_def)

lemma zero_tx_hash: "tx_GetHash ext_zero tx = 0"
  by (simp add: tx_GetHash_Hash Hash_def ext_zero_def uint256_of_bytes_def)

lemma first_read: "read_block env_example (ns_files genesis_state) first_index = Some (snd (blk_GetHash ext_zero (on_disk first_block)))"
proof -
  have "block_ok (on_disk first_block)"
    by (simp add: block_ok_def on_disk_def first_block_def CBlock_new_def blk_SetNull_def coinbase_example_def tx_ok_def txin_ok_def txout_ok_def
        int32_range_def int64_range_def MAX_SIZE_def)
  then have r: "unser_block False CBlock_new (ser_block first_block) = Inr (on_disk first_block, [])"
    using block.unser_ser [of "on_disk first_block" "[]"] by simp
  have c: "CheckProofOfWork ext_zero False 0 (nBits (on_disk first_block))"
    unfolding CheckProofOfWork_def by (simp add: on_disk_def first_block_def compact_one bnProofOfWorkLimit_def)
  have w: "blk_IsProofOfWork (on_disk first_block)"
    using coinbase_kinds by (simp add: blk_IsProofOfWork_def blk_IsProofOfStake_def on_disk_def first_fields)
  define b' where "b' = snd (blk_GetHash ext_zero (on_disk first_block))"
  have h: "blk_GetHash ext_zero (on_disk first_block) = (0, b')"
    by (simp add: b'_def blk_GetHash_def zero_block_hash on_disk_def Let_def)
  have "blk_ReadFromDisk ext_zero False (ns_files genesis_state) 1 8 True = Some b'"
    using r c w h by (simp add: blk_ReadFromDisk_def genesis_state_def write_first OpenBlockFile_def) (simp add: b'_def blk_GetHash_def on_disk_def Let_def)
  then show ?thesis
    using h GetHash_again [of ext_zero "on_disk first_block"]
    by (simp add: blk_ReadFromDisk_index_def env_example_def first_index_def bi_GetBlockHash_def index_example_def)
qed

lemma genesis_index: "index_wf (mapBlockIndex genesis_state)" "chain (mapBlockIndex genesis_state) (Some 1) = [index_example 1 None]"
  "chain (mapBlockIndex genesis_state) (Some 0) = [first_index, index_example 1 None]" "mapBlockIndex genesis_state 0 = Some first_index"
proof -
  show wf: "index_wf (mapBlockIndex genesis_state)"
    by (auto simp: index_wf_def genesis_state_def first_index_def index_example_def CBlockIndex_new_def)
  show i: "mapBlockIndex genesis_state 0 = Some first_index" by (simp add: genesis_state_def)
  show c: "chain (mapBlockIndex genesis_state) (Some 1) = [index_example 1 None]"
    using chain_Some [OF wf, of 1 "index_example 1 None"] by (simp add: genesis_state_def) (simp add: index_example_def)
  show "chain (mapBlockIndex genesis_state) (Some 0) = [first_index, index_example 1 None]"
    by (subst chain_Some [OF wf i]) (simp add: first_index_def index_example_def c [unfolded index_example_def])
qed

lemma genesis_db: "db_ready (ns_txdb genesis_state)" "activeBatch (ns_txdb genesis_state) = None" "tx_view (ns_txdb genesis_state) = Map.empty"
  "ReadHashBestChain (ns_txdb genesis_state) = Some 1"
proof -
  have r: "db_ready db_example" "tx_view db_example = Map.empty"
    by (auto simp: db_ready_def db_example_def tx_view_def ReadTxIndex_def db_Read_def db_Get_def)
  then show "db_ready (ns_txdb genesis_state)" "tx_view (ns_txdb genesis_state) = Map.empty"
    using write_others(4,5) [OF r(1)] by (simp_all add: genesis_state_def)
  show "activeBatch (ns_txdb genesis_state) = None" by (simp add: genesis_state_def WriteHashBestChain_def db_Write_def db_example_def)
  show "ReadHashBestChain (ns_txdb genesis_state) = Some 1"
    using c256.unser_ser [of 1 "[]"] by (simp add: genesis_state_def ReadHashBestChain_def WriteHashBestChain_def db_Write_def db_example_def db_Read_def db_Get_def)
qed

lemma genesis_tip: "tip_ok env_example genesis_state 1"
  unfolding tip_ok_def db_at_def main_ok_def
  using genesis_index genesis_db by (auto simp: genesis_state_def first_index_def index_example_def CBlockIndex_new_def)

lemma first_checks: "CheckBlock ext_zero False 0 False True False first_block = Inr ()"
proof -
  have s: "length (ser_block first_block) \<le> MAX_BLOCK_SIZE"
    by (simp add: ser_block_def first_fields ser_vector_def example_sizes WriteCompactSize_def ser_bytes_def size_consts ser_header_def)
  have k: "\<not> blk_IsProofOfStake first_block" "check_reward first_block = Inr ()"
    using coinbase_checks(2)
    by (simp_all add: blk_IsProofOfStake_def check_reward_def first_fields blk_IsProofOfWork_def REWARD_SWITCH_TIME_def MAX_MINT_PROOF_OF_WORK_def COIN_def)
  have t: "check_txs 0 3 [coinbase_example] = Inr ()"
    using coinbase_checks(1) by (simp add: coinbase_example_def)
  have d: "FutureDrift 0 = 7200" "FutureDrift (uint (tx_nTime coinbase_example)) = 7203"
    by (simp_all add: FutureDrift_def VERSION1_5_SWITCH_TIME_def coinbase_example_def)
  have m: "fst (BuildMerkleTree ext_zero first_block) = 0"
    by (simp add: BuildMerkleTree_def first_fields zero_tx_hash merkle_rows.simps Let_def)
  show ?thesis unfolding CheckBlock_def first_fields
    using s k t d m coinbase_kinds example_sigops zero_tx_hash by (simp add: size_consts)
qed

lemma estimate_positive: "GetTotalBlocksEstimate False \<ge> 1"
  by code_simp

lemma first_connects:
  assumes "db_ready db" "tx_view db = Map.empty"
  shows "\<exists>i' db'. ConnectBlock ext_zero False 0 0 F pool opts_example 1 db [first_index, index_example 1 None] False first_block c = (Inr i', db', c)"
proof -
  have i: "bi_nFile first_index = 1" "bi_nBlockPos first_index = 8" "nHeight first_index = 1" by (simp_all add: first_index_def)
  have o: "fScriptThreads opts_example = False" "fUseFastIndex opts_example = False" by (simp_all add: opts_example_def)
  have r: "ReadTxIndex h db = None" for h using assms(2) by (simp add: txix.get_view)
  have ct: "\<exists>st'. connect_txs ext_zero False 0 F db pool [first_index, index_example 1 None] False sc False [coinbase_example] st c = (Inr st', c)" if "cs_nSigOps st = 0" for st sc
    using coinbase_kinds zero_tx_hash example_sigops coinbase_checks(2) r that by (simp add: MAX_BLOCK_SIGOPS_def size_consts Let_def)
  have w: "\<exists>db'. WriteBlockIndex ext_zero False 0 d db = (True, db') \<and> db_ready db'" if "db_ready db" for d db
    using write_others(2,3) [OF that, of ext_zero False 0 d] by (cases "WriteBlockIndex ext_zero False 0 d db") auto
  have u: "\<exists>db'. write_all UpdateTxIndex xs db = (True, db') \<and> db_ready db'" if "db_ready db" for xs db
    using write_all_ready [OF that, of xs] by (cases "write_all UpdateTxIndex xs db") auto
  have h: "\<not> nHeight first_index > GetTotalBlocksEstimate False" using estimate_positive i by simp
  let ?st = "\<lparr> cs_nTxPos = first_tx_pos 8 (length (vtx first_block)), mapQueuedChanges = Map.empty, cs_nFees = 0, cs_nValueIn = 0, cs_nValueOut = 0, cs_nSigOps = 0, cs_vChecks = [] \<rparr>"
  obtain st' where ct': "connect_txs ext_zero False 0 F db pool [first_index, index_example 1 None] False (nHeight first_index \<ge> nVerifyFromHeight False opts_example 1 0) False (vtx first_block) ?st c = (Inr st', c)"
    using ct [of ?st] unfolding first_fields by auto
  define j where "j = first_index\<lparr> nMint := s64 (cs_nValueOut st' - cs_nValueIn st' + cs_nFees st'),
     nMoneySupply := s64 (nMoneySupply (index_example 1 None) + cs_nValueOut st' - cs_nValueIn st') \<rparr>"
  obtain db1 where db1: "WriteBlockIndex ext_zero False 0 (CDiskBlockIndex_of j) db = (True, db1)" "db_ready db1" using w assms(1) by blast
  obtain db2 where db2: "write_all UpdateTxIndex (map (\<lambda>k. (k, the (mapQueuedChanges st' k))) (queued_keys ext_zero (vtx first_block))) db1 = (True, db2)" "db_ready db2"
    using u [OF db1(2)] by blast
  obtain db3 where db3: "WriteBlockIndex ext_zero False 0 ((CDiskBlockIndex_of (index_example 1 None))\<lparr> hashNext := bi_GetBlockHash j \<rparr>) db2 = (True, db3)"
    using w db2(2) by blast
  show ?thesis unfolding ConnectBlock_def Let_def list.sel o i(2)
    using first_checks h ct' db1(1) db2(1) db3 by (simp add: j_def)
qed

theorem best_chain_consistent_witness:
  "\<exists>st'. SetBestChain env_example first_block 0 genesis_state = (Inr (), st') \<and> tip_ok env_example st' 0"
proof -
  obtain r st' where s: "SetBestChain env_example first_block 0 genesis_state = (r, st')" by force
  let ?st = "begin_txn genesis_state"
  have b: "pindexBest genesis_state = Some 1" "hashBestChain genesis_state = 1" "pindexGenesisBlock genesis_state = Some 1" "nBestHeight genesis_state = 0"
    "nSyncCheckpointHeight (ns_sync genesis_state) = 1"
    by (simp_all add: genesis_state_def sync_example_def)
  have e: "ne_ext env_example = ext_zero" "ne_fTestNet env_example = False" "ne_now env_example = 0" "ne_opts env_example = opts_example"
    by (simp_all add: env_example_def)
  have i: "pprev first_index = Some (hashPrevBlock first_block)" "nChainTrust first_index = 1" "nChainTrust (the (mapBlockIndex genesis_state 1)) = 0"
    "nChainTrust (the (mapBlockIndex genesis_state (hashPrevBlock first_block))) = 0"
    by (simp_all add: first_fields first_index_def index_example_def genesis_state_def CBlockIndex_new_def)
  have v: "vtx (snd (blk_GetHash ext_zero (on_disk first_block))) = vtx first_block" by (simp add: blk_GetHash_def on_disk_def Let_def)
  have u: "distinct (chain_txids env_example (ns_files genesis_state) (chain (mapBlockIndex genesis_state) (Some 0)))"
    using first_read v by (simp add: genesis_index first_fields)
  note t = best_chain_consistent [OF genesis_tip b(1,2) _ genesis_index(4) i(1) _ first_read v _ u _ s]
  have db: "db_ready (ns_txdb ?st)" "tx_view (ns_txdb ?st) = Map.empty"
    using tip_ok_begin(2,3) [OF genesis_tip] genesis_index(2) by (auto simp: in_txn_def db_ready_def)
  obtain i' db1 c where cb: "ConnectBlock ext_zero False 0 0 (ns_files genesis_state) (ns_mempool genesis_state) opts_example 1 (ns_txdb ?st)
      [first_index, index_example 1 None] False first_block (ns_sigcache genesis_state) = (Inr i', db1, c)"
    using first_connects [OF db] by blast
  have "in_txn (pdb (ns_txdb genesis_state)) db1" by (rule in_txn_ConnectBlock [OF cb tip_ok_begin(2) [OF genesis_tip]])
  then obtain d1 d2 where d: "WriteHashBestChain 0 db1 = (True, d1)" "TxnCommit d1 = (True, d2)"
    by (auto simp: in_txn_def WriteHashBestChain_def db_Write_def TxnCommit_def)
  have "fst (SetBestChainInner env_example first_block 0 ?st) = Inr ()"
    unfolding SetBestChainInner_def Let_def e first_block_hash using b genesis_index(3) cb d by simp
  then have "r = Inr ()"
    using s unfolding SetBestChain_def Let_def e first_block_hash tip_ok_begin(1) [OF genesis_tip] prod.case bool.case
    by (auto simp: b first_fields split: prod.splits sum.splits)
  then show ?thesis using t s i first_block_hash e b genesis_index by auto
qed

end
