(* ===== verification/Accept_Block.thy ===== *)
theory Accept_Block
  imports Hobo_Prelude Ext_Crypto Bignum Serialize Script Tx_Data Block Block_Index Txdb Tx_Rules Rewards Block_Files Mempool Stake_Kernel
    Checkpoints Connect_Block Chain
begin

text \<open>
  Receiving blocks (\<^verbatim>\<open>main.cpp\<close>, \<^verbatim>\<open>checkpoints.cpp\<close>): adding a block to the index, the checks that need its
  predecessor, the buffer of blocks whose predecessor is missing, and following the synchronised checkpoint.  The penalty of the sender is
  the number carried by a refusal; messages to peers are left out.  A failed assertion counts as an exception.
\<close>

section \<open>The index\<close>

datatype CPMode = STRICT | ADVISORY | PERMISSIVE

text \<open>Besides the node: the checkpoint policy, free disk space, the network's magic bytes, random hashes, and whether the time for
  draining the buffer is over after a number of blocks.\<close>

record block_env =
  be_node :: node_env
  CheckpointsMode :: CPMode
  CheckDiskSpace :: "nat \<Rightarrow> bool"
  pchMessageStart :: valtype
  GetRandHash :: "nat \<Rightarrow> uint256"
  drain_expired :: "nat \<Rightarrow> bool"

record block_state =
  bs_node :: node_state
  setStakeSeen :: "(COutPoint \<times> u32) set"

text \<open>The index object of a block, up to its insertion.\<close>

definition new_index :: "node_env \<Rightarrow> block_map \<Rightarrow> u32 \<Rightarrow> u32 \<Rightarrow> uint256 \<Rightarrow> CBlock \<Rightarrow> failure + CBlockIndex" where
  "new_index N M n pos hashProof b =
     (let E = ne_ext N; tn = ne_fTestNet N; hash = fst (blk_GetHash E b);
          prev = (if M (hashPrevBlock b) = None then None else Some (hashPrevBlock b)); prevs = chain M prev;
          i = (CBlockIndex_of n pos b)\<lparr> phashBlock := hash, pprev := prev,
                nHeight := (case prevs of [] \<Rightarrow> 0 | p # _ \<Rightarrow> nHeight p + 1) \<rparr>;
          i = i\<lparr> nChainTrust := (case prevs of [] \<Rightarrow> 0 | p # _ \<Rightarrow> nChainTrust p) + GetBlockTrust E tn i \<rparr>
      in case SetStakeEntropyBit (fst (blk_GetStakeEntropyBit E tn (of_int (nHeight i)) b)) i of None \<Rightarrow> Inl Reject
         | Some i \<Rightarrow>
             let i = i\<lparr> hashProofOfStake := hashProof \<rparr> in
             (case ComputeNextStakeModifier E tn M prevs of None \<Rightarrow> Inl Reject
              | Some (modifier, generated) \<Rightarrow>
                  let i = SetStakeModifier modifier generated i in
                  (case GetStakeModifierChecksum E (genesis_hash tn) (i # prevs) of None \<Rightarrow> Inl Exception
                   | Some checksum \<Rightarrow>
                       let i = i\<lparr> nStakeModifierChecksum := checksum \<rparr> in
                       if \<not> CheckStakeModifierCheckpoints tn (nHeight i) checksum then Inl Reject else Inr i)))"

definition AddToBlockIndex :: "node_env \<Rightarrow> u32 \<Rightarrow> u32 \<Rightarrow> uint256 \<Rightarrow> CBlock \<Rightarrow> block_state \<Rightarrow> (failure + unit) \<times> block_state" where
  "AddToBlockIndex N n pos hashProof b S =
     (let E = ne_ext N; hash = fst (blk_GetHash E b); st = bs_node S; M = mapBlockIndex st in
      if M hash \<noteq> None then (Inl Reject, S)
      else case new_index N M n pos hashProof b of Inl e \<Rightarrow> (Inl e, S)
        | Inr i \<Rightarrow>
            let st = st\<lparr> mapBlockIndex := M(hash \<mapsto> i) \<rparr>;
                S = S\<lparr> bs_node := st,
                   setStakeSeen := (if bi_IsProofOfStake i then insert (prevoutStake i, nStakeTime i) (setStakeSeen S) else setStakeSeen S) \<rparr>
            in case TxnBegin (ns_txdb st) of (False, db) \<Rightarrow> (Inl Reject, S)
               | (True, db) \<Rightarrow>
                   (case TxnCommit (snd (WriteBlockIndex E (fUseFastIndex (ne_opts N)) (ne_now N) (CDiskBlockIndex_of i) db)) of
                      (False, db) \<Rightarrow> (Inl Reject, S\<lparr> bs_node := st\<lparr> ns_txdb := db \<rparr> \<rparr>)
                    | (True, db) \<Rightarrow>
                        let st = st\<lparr> ns_txdb := db \<rparr> in
                        if nChainTrust i > nBestChainTrust st
                        then (case SetBestChain N b hash st of (r, st) \<Rightarrow> (r, S\<lparr> bs_node := st \<rparr>))
                        else (Inr (), S\<lparr> bs_node := st \<rparr>)))"

section \<open>Following the checkpoint\<close>

text \<open>Switching to the chain of a block that is not on the main chain.\<close>

definition switch_to :: "node_env \<Rightarrow> uint256 \<Rightarrow> node_state \<Rightarrow> (failure + bool) \<times> node_state" where
  "switch_to N h st =
     (case mapBlockIndex st h of None \<Rightarrow> (Inl Exception, st)
      | Some pindex \<Rightarrow>
          if bi_IsInMainChain (pindexBest st) pindex then (Inr True, st)
          else (case read_block N (ns_files st) pindex of None \<Rightarrow> (Inl Reject, st)
                | Some block \<Rightarrow>
                    (case SetBestChain N block h st of
                       (Inl Exception, st) \<Rightarrow> (Inl Exception, st)
                     | (Inl e, st) \<Rightarrow> (Inr False, st)
                     | (Inr _, st) \<Rightarrow> (Inr True, st))))"

definition AcceptPendingSyncCheckpoint :: "node_env \<Rightarrow> node_state \<Rightarrow> (failure + bool) \<times> node_state" where
  "AcceptPendingSyncCheckpoint N st =
     (let s = ns_sync st; h = hashPendingCheckpoint s in
      if h \<noteq> 0 \<and> mapBlockIndex st h \<noteq> None
      then case ValidateSyncCheckpoint (mapBlockIndex st) h s of
          (False, s) \<Rightarrow> (Inr False, st\<lparr> ns_sync := s\<lparr> hashPendingCheckpoint := 0, checkpointMessagePending := cp_SetNull \<rparr> \<rparr>)
        | (True, s) \<Rightarrow>
            (case switch_to N h st of
               (Inl Exception, st) \<Rightarrow> (Inl Exception, st)
             | (Inl e, st) \<Rightarrow> (Inr False, st)
             | (Inr False, st) \<Rightarrow> (Inr False, st\<lparr> ns_sync := s\<lparr> hashInvalidCheckpoint := h \<rparr> \<rparr>)
             | (Inr True, st) \<Rightarrow>
                 (case cp_WriteSyncCheckpoint (mapBlockIndex st) h (ns_txdb st) s of
                    (False, db, s) \<Rightarrow> (Inr False, st\<lparr> ns_txdb := db, ns_sync := s \<rparr>)
                  | (True, db, s) \<Rightarrow>
                      (Inr True, st\<lparr> ns_txdb := db,
                         ns_sync := s\<lparr> hashPendingCheckpoint := 0, checkpointMessage := checkpointMessagePending s,
                           checkpointMessagePending := cp_SetNull \<rparr> \<rparr>)))
      else (Inr False, st))"

text \<open>The search for the highest hard-coded checkpoint on the main chain.\<close>

fun reset_search :: "node_state \<Rightarrow> uint256 list \<Rightarrow> bool \<times> node_state" where
  "reset_search st [] = (False, st)"
| "reset_search st (h # hs) =
     (case mapBlockIndex st h of None \<Rightarrow> reset_search st hs
      | Some i \<Rightarrow>
          if bi_IsInMainChain (pindexBest st) i
          then case cp_WriteSyncCheckpoint (mapBlockIndex st) h (ns_txdb st) (ns_sync st) of (ok, db, s) \<Rightarrow> (ok, st\<lparr> ns_txdb := db, ns_sync := s \<rparr>)
          else reset_search st hs)"

text \<open>The table is that of the main network also on the test network.\<close>

definition ResetSyncCheckpoint :: "node_env \<Rightarrow> node_state \<Rightarrow> (failure + bool) \<times> node_state" where
  "ResetSyncCheckpoint N st =
     (let hashes = map snd (rev (checkpoints False)); h = hd hashes;
          search = (\<lambda>st. case reset_search st hashes of (ok, st) \<Rightarrow> (Inr ok, st)) in
      if mapBlockIndex st h = None
      then search (st\<lparr> ns_sync := (ns_sync st)\<lparr> hashPendingCheckpoint := h, checkpointMessagePending := cp_SetNull \<rparr> \<rparr>)
      else case switch_to N h st of
          (Inl Exception, st) \<Rightarrow> (Inl Exception, st)
        | (Inl e, st) \<Rightarrow> (Inr False, st)
        | (Inr False, st) \<Rightarrow> (Inr False, st)
        | (Inr True, st) \<Rightarrow> search st)"

text \<open>A message from a peer; the requests for missing blocks are left out.\<close>

definition ProcessSyncCheckpoint :: "node_env \<Rightarrow> CSyncCheckpoint \<Rightarrow> node_state \<Rightarrow> (failure + bool) \<times> node_state" where
  "ProcessSyncCheckpoint N msg st =
     (case cp_CheckSignature (ne_ext N) (ne_fTestNet N) msg of
        Inl Exception \<Rightarrow> (Inl Exception, st)
      | Inl e \<Rightarrow> (Inr False, st)
      | Inr msg \<Rightarrow>
          let h = hashCheckpoint msg in
          if mapBlockIndex st h = None
          then (Inr False, st\<lparr> ns_sync := (ns_sync st)\<lparr> hashPendingCheckpoint := h, checkpointMessagePending := msg \<rparr> \<rparr>)
          else case ValidateSyncCheckpoint (mapBlockIndex st) h (ns_sync st) of (False, s) \<Rightarrow> (Inr False, st\<lparr> ns_sync := s \<rparr>)
            | (True, s) \<Rightarrow>
                (case switch_to N h st of
                   (Inl Exception, st) \<Rightarrow> (Inl Exception, st)
                 | (Inl e, st) \<Rightarrow> (Inr False, st)
                 | (Inr False, st) \<Rightarrow> (Inr False, st\<lparr> ns_sync := s\<lparr> hashInvalidCheckpoint := h \<rparr> \<rparr>)
                 | (Inr True, st) \<Rightarrow>
                     (case cp_WriteSyncCheckpoint (mapBlockIndex st) h (ns_txdb st) s of
                        (False, db, s) \<Rightarrow> (Inr False, st\<lparr> ns_txdb := db, ns_sync := s \<rparr>)
                      | (True, db, s) \<Rightarrow>
                          (Inr True, st\<lparr> ns_txdb := db,
                             ns_sync := s\<lparr> checkpointMessage := msg, hashPendingCheckpoint := 0, checkpointMessagePending := cp_SetNull \<rparr> \<rparr>))))"

section \<open>Blocks with a known predecessor\<close>

definition POW_LIMIT_HEIGHT :: "bool \<Rightarrow> int" where "POW_LIMIT_HEIGHT fTestNet = (if fTestNet then 4500 else 5600000)"
definition POW_STOP_HEIGHT :: "bool \<Rightarrow> int" where "POW_STOP_HEIGHT fTestNet = (if fTestNet then 4600 else 6000000)"
definition POW_TIME_LIMIT :: "bool \<Rightarrow> int" where "POW_TIME_LIMIT fTestNet = (if fTestNet then 60 else 60 * 10)"

text \<open>The checks against the chain of the predecessor, \<open>prevs\<close>.\<close>

definition check_context :: "node_env \<Rightarrow> int \<Rightarrow> pchain \<Rightarrow> CBlock \<Rightarrow> failure + unit" where
  "check_context N best prevs b =
     (let tn = ne_fTestNet N; pindexPrev = hd prevs; height = nHeight pindexPrev + 1; time = blk_GetBlockTime b;
          soon = (time - FutureDrift (bi_GetBlockTime pindexPrev) < POW_TIME_LIMIT tn) in
      if blk_IsProofOfWork b \<and> height > POW_STOP_HEIGHT tn \<and> soon then Inl (DoS 10)
      else if blk_IsProofOfWork b \<and> height > POW_LIMIT_HEIGHT tn \<and> bi_IsProofOfWork pindexPrev \<and> soon then Inl (DoS 10)
      else case GetNextTargetRequired (ne_ext N) tn best prevs (blk_IsProofOfStake b) of None \<Rightarrow> Inl Exception
        | Some bits \<Rightarrow>
            if nBits b \<noteq> bits then Inl (DoS 100)
            else if time \<le> GetPastTimeLimit prevs \<or> FutureDrift time < bi_GetBlockTime pindexPrev then Inl Reject
            else if \<not> list_all (\<lambda>tx. IsFinalTx best (ne_now N) tx height time) (vtx b) then Inl (DoS 10)
            else if \<not> CheckHardened tn height (fst (blk_GetHash (ne_ext N) b)) then Inl (DoS 100)
            else Inr ())"

text \<open>The proof hash that the index records; zero for proof of work.\<close>

definition check_kernel :: "node_env \<Rightarrow> node_state \<Rightarrow> CBlock \<Rightarrow> (failure + uint256) \<times> CSignatureCache" where
  "check_kernel N st b =
     (if blk_IsProofOfStake b
      then case CheckProofOfStake (ne_ext N) (ne_fTestNet N) (nBestHeight st) (ns_files st) (ns_txdb st) (mapBlockIndex st) (vtx b ! 1) (nBits b)
          (ns_sigcache st) of
          (None, c) \<Rightarrow> (Inl Exception, c)
        | (Some (Inl Exception), c) \<Rightarrow> (Inl Exception, c)
        | (Some (Inl e), c) \<Rightarrow> (Inl Reject, c)
        | (Some (Inr (hashProof, target)), c) \<Rightarrow> (Inr hashProof, c)
      else (Inr 0, ns_sigcache st))"

definition height_in_coinbase :: "ext \<Rightarrow> int \<Rightarrow> CBlock \<Rightarrow> bool" where
  "height_in_coinbase E height b \<longleftrightarrow>
     (let expect = push_int64 E height []; sig = scriptSig (vin (vtx b ! 0) ! 0) in
      length sig \<ge> length expect \<and> take (length expect) sig = expect)"

definition AcceptBlock :: "block_env \<Rightarrow> CBlock \<Rightarrow> block_state \<Rightarrow> (failure + unit) \<times> block_state" where
  "AcceptBlock P b S =
     (let N = be_node P; E = ne_ext N; st = bs_node S; M = mapBlockIndex st; hash = fst (blk_GetHash E b) in
      if M hash \<noteq> None then (Inl Reject, S)
      else case M (hashPrevBlock b) of None \<Rightarrow> (Inl (DoS 10), S)
        | Some pindexPrev \<Rightarrow>
            let prevs = chain M (Some (hashPrevBlock b)) in
            (case check_context N (nBestHeight st) prevs b of Inl e \<Rightarrow> (Inl e, S)
             | Inr _ \<Rightarrow>
                 (case check_kernel N st b of
                    (Inl e, c) \<Rightarrow> (Inl e, S\<lparr> bs_node := st\<lparr> ns_sigcache := c \<rparr> \<rparr>)
                  | (Inr hashProof, c) \<Rightarrow>
                      let st = st\<lparr> ns_sigcache := c \<rparr>; S = S\<lparr> bs_node := st \<rparr> in
                      (case CheckSync M (pindexBest st) (ns_sync st) hash prevs of None \<Rightarrow> (Inl Exception, S)
                       | Some cpSatisfies \<Rightarrow>
                           if CheckpointsMode P = STRICT \<and> \<not> cpSatisfies then (Inl Reject, S)
                           else if \<not> height_in_coinbase E (nHeight pindexPrev + 1) b then (Inl (DoS 100), S)
                           else if \<not> CheckDiskSpace P (length (ser_block b)) then (Inl Reject, S)
                           else case WriteToDisk (pchMessageStart P) b (ns_files st) of
                               (None, F) \<Rightarrow> (Inl Reject, S\<lparr> bs_node := st\<lparr> ns_files := F \<rparr> \<rparr>)
                             | (Some (n, pos), F) \<Rightarrow>
                                 (case AddToBlockIndex N n pos hashProof b (S\<lparr> bs_node := st\<lparr> ns_files := F \<rparr> \<rparr>) of
                                    (Inl e, S) \<Rightarrow> (Inl e, S)
                                  | (Inr _, S) \<Rightarrow>
                                      (case AcceptPendingSyncCheckpoint N (bs_node S) of
                                         (Inl e, st) \<Rightarrow> (Inl e, S\<lparr> bs_node := st \<rparr>)
                                       | (Inr _, st) \<Rightarrow> (Inr (), S\<lparr> bs_node := st \<rparr>)))))))"

section \<open>The buffer\<close>

definition MAX_ORPHAN_BLOCKS :: u32 where "MAX_ORPHAN_BLOCKS = 2000"
definition MAX_ORPHANDRAIN_BLOCKS :: nat where "MAX_ORPHANDRAIN_BLOCKS = 256"

text \<open>An entry of a multimap goes behind the entries with the same key.\<close>

definition multimap_insert :: "'k :: linorder \<Rightarrow> 'v \<Rightarrow> ('k \<times> 'v) list \<Rightarrow> ('k \<times> 'v) list" where
  "multimap_insert k v m = takeWhile (\<lambda>kv. fst kv \<le> k) m @ (k, v) # dropWhile (\<lambda>kv. fst kv \<le> k) m"

definition drop_buffered :: "uint256 \<Rightarrow> uint256 \<Rightarrow> CBlock \<Rightarrow> orphan_blocks \<Rightarrow> orphan_blocks" where
  "drop_buffered prev h b s =
     s\<lparr> mapOrphanBlocks := map_erase h (mapOrphanBlocks s), setStakeSeenOrphan := setStakeSeenOrphan s - {GetProofOfStake b},
        mapOrphanBlocksByPrev := remove1 (prev, h) (mapOrphanBlocksByPrev s) \<rparr>"

lemma remove1_filter_shorter: "filter f xs = x # ys \<Longrightarrow> length (remove1 x xs) < length xs"
  by (metis Cons_eq_filterD diff_less in_set_conv_decomp length_pos_if_in_set length_remove1 zero_less_one)

text \<open>The work queue from the position of the loop on.  Every entry that is visited is erased, so the next one for a hash is the
  first that is left.  The result tells whether the batch limit ended the loop.\<close>

function buffered_loop :: "block_env \<Rightarrow> nat \<Rightarrow> uint256 list \<Rightarrow> nat \<Rightarrow> block_state \<Rightarrow> orphan_blocks \<Rightarrow> (failure + bool) \<times> block_state \<times> orphan_blocks" where
  "buffered_loop P nMaxBlocks [] nConnected S s = (Inr False, S, s)"
| "buffered_loop P nMaxBlocks (prev # queue) nConnected S s =
     (case filter (\<lambda>kv. fst kv = prev) (mapOrphanBlocksByPrev s) of
        [] \<Rightarrow> buffered_loop P nMaxBlocks queue nConnected S s
      | (p, h) # _ \<Rightarrow>
          (case map_of (mapOrphanBlocks s) h of
             None \<Rightarrow> buffered_loop P nMaxBlocks (prev # queue) nConnected S (s\<lparr> mapOrphanBlocksByPrev := remove1 (p, h) (mapOrphanBlocksByPrev s) \<rparr>)
           | Some b \<Rightarrow>
               (case AcceptBlock P b S of
                  (Inl Exception, S) \<Rightarrow> (Inl Exception, S, s)
                | (r, S) \<Rightarrow>
                    let queue = (if r = Inr () then queue @ [h] else queue); s = drop_buffered p h b s; nConnected = nConnected + 1 in
                    if nConnected \<ge> nMaxBlocks \<or> drain_expired P nConnected then (Inr True, S, s)
                    else buffered_loop P nMaxBlocks (prev # queue) nConnected S s)))"
  by pat_completeness auto
termination
  by (relation "measures [\<lambda>(P, n, q, k, S, s). length (mapOrphanBlocksByPrev s), \<lambda>(P, n, q, k, S, s). length q]")
    (auto simp: drop_buffered_def dest: remove1_filter_shorter)

declare buffered_loop.simps [simp del]


definition ProcessBufferedBlocks :: "block_env \<Rightarrow> uint256 \<Rightarrow> nat \<Rightarrow> block_state \<Rightarrow> orphan_blocks \<Rightarrow> (failure + bool) \<times> block_state \<times> orphan_blocks" where
  "ProcessBufferedBlocks P hashStart nMaxBlocks S s = buffered_loop P nMaxBlocks [hashStart] 0 S s"

definition DrainBufferedBlocks :: "block_env \<Rightarrow> block_state \<Rightarrow> orphan_blocks \<Rightarrow> (failure + bool) \<times> block_state \<times> orphan_blocks" where
  "DrainBufferedBlocks P S s =
     (if mapOrphanBlocksByPrev s = [] then (Inr False, S, s)
      else ProcessBufferedBlocks P (hashBestChain (bs_node S)) MAX_ORPHANDRAIN_BLOCKS S s)"

section \<open>Blocks from peers\<close>

text \<open>A stake may be used again only by a block that an orphan or a pending checkpoint waits for.  \<open>wanted\<close> is the
  answer about the checkpoint, \<open>None\<close> when the walk for it would not end; it is looked at only where it is needed.\<close>

definition duplicate_stake :: "(COutPoint \<times> u32) set \<Rightarrow> uint256 \<Rightarrow> bool option \<Rightarrow> CBlock \<Rightarrow> orphan_blocks \<Rightarrow> bool option" where
  "duplicate_stake seen hash wanted b s =
     (if blk_IsProofOfStake b \<and> GetProofOfStake b \<in> seen \<and> hash \<notin> fst ` set (mapOrphanBlocksByPrev s) then map_option Not wanted
      else Some False)"

text \<open>Away from the best chain a block must have a plausible target, given the time since the checkpoint.\<close>

definition too_little_work :: "node_env \<Rightarrow> node_state \<Rightarrow> bool option \<Rightarrow> CBlock \<Rightarrow> bool option" where
  "too_little_work N st wanted b =
     (case GetLastSyncCheckpoint (mapBlockIndex st) (ns_sync st) of None \<Rightarrow> Some False
      | Some pcheckpoint \<Rightarrow>
          if hashPrevBlock b \<noteq> hashBestChain st
          then let E = ne_ext N; tn = ne_fTestNet N; deltaTime = blk_GetBlockTime b - uint (bi_nTime pcheckpoint);
                   c = chain (mapBlockIndex st) (Some (hashSyncCheckpoint (ns_sync st)));
                   required = (if blk_IsProofOfStake b
                     then ComputeMinStake E tn (bi_nBits (hd (GetLastBlockIndex True c))) deltaTime (blk_nTime b)
                     else ComputeMinWork E tn (bi_nBits (hd (GetLastBlockIndex False c))) deltaTime)
               in map_option (\<lambda>w. \<not> w \<and> SetCompact E (nBits b) > SetCompact E required) wanted
          else Some False)"

definition buffer_block :: "block_env \<Rightarrow> uint256 \<Rightarrow> CBlock \<Rightarrow> orphan_blocks \<Rightarrow> orphan_blocks" where
  "buffer_block P hash b s =
     (let s = (if blk_IsProofOfStake b then s\<lparr> setStakeSeenOrphan := insert (GetProofOfStake b) (setStakeSeenOrphan s) \<rparr> else s);
          s = s\<lparr> mapOrphanBlocks := map_set hash b (mapOrphanBlocks s),
                 mapOrphanBlocksByPrev := multimap_insert (hashPrevBlock b) hash (mapOrphanBlocksByPrev s) \<rparr>
      in snd (LimitOrphanBlocks (GetRandHash P) MAX_ORPHAN_BLOCKS s))"

definition ProcessBlock :: "block_env \<Rightarrow> CBlock \<Rightarrow> block_state \<Rightarrow> orphan_blocks \<Rightarrow> (failure + unit) \<times> block_state \<times> orphan_blocks" where
  "ProcessBlock P b S s =
     (let N = be_node P; E = ne_ext N; st = bs_node S; hash = fst (blk_GetHash E b) in
      if mapBlockIndex st hash \<noteq> None then (Inl Reject, S, s)
      else if map_of (mapOrphanBlocks s) hash \<noteq> None then (Inl Reject, S, s)
      else let wanted = WantedByPendingSyncCheckpoint s (ns_sync st) hash in
        case duplicate_stake (setStakeSeen S) hash wanted b s of
          None \<Rightarrow> (Inl Exception, S, s)
        | Some True \<Rightarrow> (Inl Reject, S, s)
        | Some False \<Rightarrow>
            (case CheckBlock E (ne_fTestNet N) (ne_now N) True True True b of Inl e \<Rightarrow> (Inl e, S, s)
             | Inr _ \<Rightarrow>
                 (case too_little_work N st wanted b of
                    None \<Rightarrow> (Inl Exception, S, s)
                  | Some True \<Rightarrow> (Inl (DoS 100), S, s)
                  | Some False \<Rightarrow>
                      if mapBlockIndex st (hashPrevBlock b) = None
                      then case duplicate_stake (setStakeSeenOrphan s) hash wanted b s of
                          None \<Rightarrow> (Inl Exception, S, s)
                        | Some True \<Rightarrow> (Inl Reject, S, s)
                        | Some False \<Rightarrow> (Inr (), S, buffer_block P hash b s)
                      else case AcceptBlock P b S of (Inl e, S) \<Rightarrow> (Inl e, S, s)
                        | (Inr _, S) \<Rightarrow>
                            (case ProcessBufferedBlocks P hash MAX_ORPHANDRAIN_BLOCKS S s of
                               (Inl e, S, s) \<Rightarrow> (Inl e, S, s) | (Inr _, S, s) \<Rightarrow> (Inr (), S, s)))))"

text \<open>The scores of the peers.\<close>

record CNodeState =
  nMisbehavior :: int
  fShouldBan :: bool

definition Misbehaving :: "int \<Rightarrow> 'n \<Rightarrow> int \<Rightarrow> ('n \<rightharpoonup> CNodeState) \<Rightarrow> ('n \<rightharpoonup> CNodeState)" where
  "Misbehaving banscore pnode howmuch mapNodeState =
     (if howmuch = 0 then mapNodeState
      else case mapNodeState pnode of None \<Rightarrow> mapNodeState
        | Some state \<Rightarrow>
            let n = s32 (nMisbehavior state + howmuch)
            in mapNodeState(pnode \<mapsto> state\<lparr> nMisbehavior := n, fShouldBan := (if n \<ge> banscore then True else fShouldBan state) \<rparr>))"

section \<open>Blocks by height\<close>

text \<open>The walk forward; the option is whether it ends at a block.\<close>

partial_function (option) walk_forward :: "block_map \<Rightarrow> int \<Rightarrow> CBlockIndex \<Rightarrow> CBlockIndex option" where
  "walk_forward M height pblockindex =
     (if nHeight pblockindex < height
      then case pnext pblockindex of None \<Rightarrow> None
        | Some h \<Rightarrow> (case M h of None \<Rightarrow> None | Some i \<Rightarrow> walk_forward M height i)
      else Some pblockindex)"

definition FindBlockByHeight :: "int \<Rightarrow> node_state \<Rightarrow> (CBlockIndex \<times> node_state) option" where
  "FindBlockByHeight height st =
     (let M = mapBlockIndex st; start = (if height < tdiv (nBestHeight st) 2 then pindexGenesisBlock st else pindexBest st);
          start = (case pblockindexFBBHLast st of None \<Rightarrow> start
                   | Some l \<Rightarrow>
                       if \<bar>height - nHeight (hd (chain M start))\<bar> > \<bar>height - nHeight (hd (chain M (Some l)))\<bar> then Some l else start) in
      case trace_back height (chain M start) of [] \<Rightarrow> None
      | pblockindex # _ \<Rightarrow>
          map_option (\<lambda>i. (i, st\<lparr> pblockindexFBBHLast := Some (phashBlock i) \<rparr>)) (walk_forward M height pblockindex))"

section \<open>The buffer stays well formed\<close>

text \<open>The two maps of the buffer hold the same blocks: under its own hash, and under the hash of its predecessor.\<close>

definition buffer_wf :: "ext \<Rightarrow> orphan_blocks \<Rightarrow> bool" where
  "buffer_wf E s \<longleftrightarrow> sorted_wrt (<) (map fst (mapOrphanBlocks s)) \<and> sorted (map fst (mapOrphanBlocksByPrev s)) \<and> distinct (mapOrphanBlocksByPrev s) \<and>
     (\<forall>h b. map_of (mapOrphanBlocks s) h = Some b \<longrightarrow> fst (blk_GetHash E b) = h) \<and>
     (\<forall>p h. (p, h) \<in> set (mapOrphanBlocksByPrev s) \<longleftrightarrow> (\<exists>b. map_of (mapOrphanBlocks s) h = Some b \<and> hashPrevBlock b = p))"

lemma buffer_wfD:
  assumes "buffer_wf E s"
  shows "sorted_wrt (<) (map fst (mapOrphanBlocks s))" "sorted (map fst (mapOrphanBlocksByPrev s))" "distinct (mapOrphanBlocksByPrev s)"
    "map_of (mapOrphanBlocks s) h = Some b \<Longrightarrow> fst (blk_GetHash E b) = h"
    "(p, h) \<in> set (mapOrphanBlocksByPrev s) \<longleftrightarrow> (\<exists>b. map_of (mapOrphanBlocks s) h = Some b \<and> hashPrevBlock b = p)"
  using assms by (auto simp: buffer_wf_def)

lemma sorted_keys_map_of: "sorted_wrt (<) (map fst (m :: ('k :: linorder \<times> 'v) list)) \<Longrightarrow> (k, v) \<in> set m \<Longrightarrow> map_of m k = Some v"
  by (metis map_of_is_SomeI strict_sorted_iff)

lemma sorted_fst_filter: "sorted (map fst xs) \<Longrightarrow> sorted (map fst (filter f xs))"
  by (simp add: sorted_wrt_map sorted_wrt_filter)

lemma buffer_wf_erase:
  assumes "buffer_wf E s" "map_of (mapOrphanBlocks s) h = Some b"
  shows "buffer_wf E (erase_orphan_block h b s)" "p = hashPrevBlock b \<Longrightarrow> buffer_wf E (drop_buffered p h b s)"
proof -
  note wf = buffer_wfD [OF assms(1)]
  show "buffer_wf E (erase_orphan_block h b s)"
    unfolding buffer_wf_def erase_orphan_block_def using wf assms(2)
    by (auto simp: map_erase_sorted sorted_fst_filter)
  assume p: "p = hashPrevBlock b"
  have "remove1 (p, h) (mapOrphanBlocksByPrev s) = filter ((\<noteq>) (p, h)) (mapOrphanBlocksByPrev s)"
    using distinct_remove1_removeAll [OF wf(3)] by (simp add: removeAll_filter_not_eq)
  then show "buffer_wf E (drop_buffered p h b s)"
    unfolding buffer_wf_def drop_buffered_def using wf assms(2) p
    by (auto simp: map_erase_sorted sorted_fst_filter)
qed

lemma buffer_wf_limit:
  assumes "buffer_wf E s"
  shows "buffer_wf E (snd (LimitOrphanBlocks g n s))" "length (mapOrphanBlocks (snd (LimitOrphanBlocks g n s))) \<le> unat n"
proof -
  have "buffer_wf E (snd (limit_orphan_blocks g n k s)) \<and> length (mapOrphanBlocks (snd (limit_orphan_blocks g n k s))) \<le> unat n" for k
    using assms
  proof (induction g n k s rule: limit_orphan_blocks.induct)
    case (1 g n k s)
    show ?case
    proof (cases "length (mapOrphanBlocks s) > unat n")
      case True
      let ?it = "lower_bound (g k) (mapOrphanBlocks s)"
      have "?it \<in> set (mapOrphanBlocks s)" using True by (intro lower_bound_mem) auto
      then have "map_of (mapOrphanBlocks s) (fst ?it) = Some (snd ?it)" using sorted_keys_map_of [OF buffer_wfD(1) [OF "1.prems"]] by simp
      from "1.IH" [OF True refl buffer_wf_erase(1) [OF "1.prems" this]] show ?thesis using True by (subst (1 2) limit_orphan_blocks.simps) (simp add: Let_def)
    qed (use "1.prems" in \<open>subst (1 2) limit_orphan_blocks.simps, simp\<close>)
  qed
  then show "buffer_wf E (snd (LimitOrphanBlocks g n s))" "length (mapOrphanBlocks (snd (LimitOrphanBlocks g n s))) \<le> unat n"
    by (simp_all add: LimitOrphanBlocks_def case_prod_beta)
qed

lemma set_multimap_insert: "set (multimap_insert k v m) = insert (k, v) (set m)"
proof -
  have "set m = set (takeWhile (\<lambda>kv. fst kv \<le> k) m) \<union> set (dropWhile (\<lambda>kv. fst kv \<le> k) m)" by (metis set_append takeWhile_dropWhile_id)
  then show ?thesis by (simp add: multimap_insert_def)
qed

lemma distinct_multimap_insert:
  assumes "(k, v) \<notin> set m" "distinct m"
  shows "distinct (multimap_insert k v m)"
proof -
  let ?t = "takeWhile (\<lambda>kv. fst kv \<le> k) m" and ?d = "dropWhile (\<lambda>kv. fst kv \<le> k) m"
  have "distinct (?t @ ?d)" "(k, v) \<notin> set (?t @ ?d)" unfolding takeWhile_dropWhile_id using assms by simp_all
  then show ?thesis by (auto simp: multimap_insert_def simp del: takeWhile_dropWhile_id)
qed

lemma multimap_insert_sorted: "sorted (map fst m) \<Longrightarrow> sorted (map fst (multimap_insert k v m))"
proof (induction m)
  case (Cons kv m)
  show ?case
  proof (cases "fst kv \<le> k")
    case True
    then have "multimap_insert k v (kv # m) = kv # multimap_insert k v m" by (simp add: multimap_insert_def)
    then show ?thesis using Cons True by (auto simp: set_multimap_insert)
  qed (use Cons in \<open>auto simp: multimap_insert_def\<close>)
qed (simp add: multimap_insert_def)


lemma buffer_block_wf:
  assumes "buffer_wf E s" "map_of (mapOrphanBlocks s) hash = None" "fst (blk_GetHash E b) = hash"
  shows "buffer_wf E (buffer_block P hash b s)" "length (mapOrphanBlocks (buffer_block P hash b s)) \<le> 2000"
proof -
  note wf = buffer_wfD [OF assms(1)]
  define s1 where "s1 = (if blk_IsProofOfStake b then s\<lparr> setStakeSeenOrphan := insert (GetProofOfStake b) (setStakeSeenOrphan s) \<rparr> else s)
    \<lparr> mapOrphanBlocks := map_set hash b (mapOrphanBlocks s), mapOrphanBlocksByPrev := multimap_insert (hashPrevBlock b) hash (mapOrphanBlocksByPrev s) \<rparr>"
  have m: "mapOrphanBlocks s1 = map_set hash b (mapOrphanBlocks s)" "mapOrphanBlocksByPrev s1 = multimap_insert (hashPrevBlock b) hash (mapOrphanBlocksByPrev s)"
    by (simp_all add: s1_def)
  have "(hashPrevBlock b, hash) \<notin> set (mapOrphanBlocksByPrev s)" using wf(5) assms(2) by simp
  then have "distinct (multimap_insert (hashPrevBlock b) hash (mapOrphanBlocksByPrev s))"
    using wf(3) by (rule distinct_multimap_insert)
  then have "buffer_wf E s1"
    unfolding buffer_wf_def m using wf assms(2,3) by (auto simp: map_set_sorted multimap_insert_sorted set_multimap_insert)
  moreover have "buffer_block P hash b s = snd (LimitOrphanBlocks (GetRandHash P) MAX_ORPHAN_BLOCKS s1)" by (simp add: buffer_block_def s1_def Let_def)
  ultimately show "buffer_wf E (buffer_block P hash b s)" "length (mapOrphanBlocks (buffer_block P hash b s)) \<le> 2000"
    using buffer_wf_limit [of E s1 "GetRandHash P" MAX_ORPHAN_BLOCKS] by (simp_all add: MAX_ORPHAN_BLOCKS_def)
qed

lemma buffered_step:
  assumes "filter (\<lambda>kv. fst kv = prev) (mapOrphanBlocksByPrev s) = (p, h) # rest" "map_of (mapOrphanBlocks s) h = Some b" "AcceptBlock P b S = (r1, S1)"
  shows "buffered_loop P n (prev # queue) k S s =
    (if r1 = Inl Exception then (Inl Exception, S1, s)
     else if k + 1 \<ge> n \<or> drain_expired P (k + 1) then (Inr True, S1, drop_buffered p h b s)
     else buffered_loop P n (prev # (if r1 = Inr () then queue @ [h] else queue)) (k + 1) S1 (drop_buffered p h b s))"
  by (subst buffered_loop.simps(2)) (use assms in \<open>simp add: Let_def split: sum.split failure.split\<close>)

lemma buffered_loop_wf:
  assumes "buffer_wf E s" "buffered_loop P n q k S s = (r, S', s')"
  shows "buffer_wf E s' \<and> length (mapOrphanBlocks s') \<le> length (mapOrphanBlocks s)"
  using assms
proof (induction P n q k S s rule: buffered_loop.induct)
  case (1 P n k S s)
  then show ?case by (simp add: buffered_loop.simps)
next
  case (2 P n prev queue k S s)
  show ?case
  proof (cases "filter (\<lambda>kv. fst kv = prev) (mapOrphanBlocksByPrev s)")
    case Nil
    then show ?thesis using "2.IH"(1) [OF Nil] "2.prems" by (simp add: buffered_loop.simps)
  next
    case (Cons ph rest)
    obtain p h where ph: "ph = (p, h)" by force
    have "(p, h) \<in> set (filter (\<lambda>kv. fst kv = prev) (mapOrphanBlocksByPrev s))" unfolding Cons ph by simp
    then have "(p, h) \<in> set (mapOrphanBlocksByPrev s)" by auto
    then obtain b where b: "map_of (mapOrphanBlocks s) h = Some b" "hashPrevBlock b = p" using buffer_wfD(5) [OF "2.prems"(1)] by blast
    note wf = buffer_wf_erase(2) [OF "2.prems"(1) b(1) b(2) [symmetric]]
    have le: "length (mapOrphanBlocks (drop_buffered p h b s)) \<le> length (mapOrphanBlocks s)" by (simp add: drop_buffered_def map_erase_def)
    obtain r1 S1 where a: "AcceptBlock P b S = (r1, S1)" by force
    note step = buffered_step [OF Cons [unfolded ph] b(1) a]
    show ?thesis
    proof (cases "r1 = Inl Exception \<or> k + 1 \<ge> n \<or> drain_expired P (k + 1)")
      case True
      then show ?thesis using "2.prems" wf le unfolding step by (auto split: if_splits)
    next
      case False
      then have go: "buffered_loop P n (prev # (if r1 = Inr () then queue @ [h] else queue)) (k + 1) S1 (drop_buffered p h b s) = (r, S', s')"
        using "2.prems"(2) unfolding step by (auto split: if_splits)
      have "buffer_wf E s' \<and> length (mapOrphanBlocks s') \<le> length (mapOrphanBlocks (drop_buffered p h b s))"
      proof (cases r1)
        case (Inl e)
        then obtain m where "e = DoS m" using False by (cases e) auto
        then show ?thesis using "2.IH"(3) [OF Cons ph [symmetric] b(1) a [symmetric] Inl _ refl refl refl] go wf False Inl by simp
      next
        case (Inr x)
        then show ?thesis using "2.IH"(4) [OF Cons ph [symmetric] b(1) a [symmetric] Inr refl refl refl] go wf False by simp
      qed
      then show ?thesis using le by simp
    qed
  qed
qed

lemma lower_bound_present:
  assumes "sorted_wrt (<) (map fst (m :: ('k :: linorder \<times> 'v) list))" "(k, v) \<in> set m"
  shows "lower_bound k m = (k, v)"
proof -
  have "\<exists>rest. dropWhile (\<lambda>kv. fst kv < k) m = (k, v) # rest"
    using assms
  proof (induction m)
    case (Cons kv m)
    then show ?case by (cases "kv = (k, v)") force+
  qed simp
  then show ?thesis by (auto simp: lower_bound_def)
qed

text \<open>C27. The buffer of blocks that wait for their predecessor stays well formed whatever block a peer sends and whenever the buffer is
  drained: its two maps hold the same blocks, each under its own hash and under the hash of its predecessor, both in key order, and never
  more than 2000 of them.\<close>

theorem block_buffer_typed:
  assumes "buffer_wf (ne_ext (be_node P)) s" "length (mapOrphanBlocks s) \<le> 2000"
  shows "(case ProcessBlock P b S s of (r, S', s') \<Rightarrow> buffer_wf (ne_ext (be_node P)) s' \<and> length (mapOrphanBlocks s') \<le> 2000) \<and>
    (case DrainBufferedBlocks P S s of (r, S', s') \<Rightarrow> buffer_wf (ne_ext (be_node P)) s' \<and> length (mapOrphanBlocks s') \<le> 2000)"
proof
  have q: "buffer_wf (ne_ext (be_node P)) s' \<and> length (mapOrphanBlocks s') \<le> 2000" if "ProcessBufferedBlocks P h n S s = (r, S', s')" for h n S r S' s'
    using buffered_loop_wf [OF assms(1) that [unfolded ProcessBufferedBlocks_def]] assms(2) by simp
  note n = buffer_block_wf [OF assms(1) _ refl]
  show "case ProcessBlock P b S s of (r, S', s') \<Rightarrow> buffer_wf (ne_ext (be_node P)) s' \<and> length (mapOrphanBlocks s') \<le> 2000"
    unfolding ProcessBlock_def Let_def
    using assms n q by (auto split: option.split bool.split sum.split prod.split)
  show "case DrainBufferedBlocks P S s of (r, S', s') \<Rightarrow> buffer_wf (ne_ext (be_node P)) s' \<and> length (mapOrphanBlocks s') \<le> 2000"
    unfolding DrainBufferedBlocks_def using assms q by (auto split: prod.split)
qed

text \<open>C40. The limit on the buffer can drop the very block that was just put in: when the buffer is full and the random hash falls on the new
  block, the block is gone after the trim.  \<^verbatim>\<open>ProcessBlock\<close> goes on using it for the request to the peer.\<close>

theorem new_block_evicted:
  assumes "sorted_wrt (<) (map fst (mapOrphanBlocks s))" "length (mapOrphanBlocks s) = 2000" "map_of (mapOrphanBlocks s) hash = None" "GetRandHash P 0 = hash"
  shows "map_of (mapOrphanBlocks (buffer_block P hash b s)) hash = None"
proof -
  define s1 where "s1 = (if blk_IsProofOfStake b then s\<lparr> setStakeSeenOrphan := insert (GetProofOfStake b) (setStakeSeenOrphan s) \<rparr> else s)
    \<lparr> mapOrphanBlocks := map_set hash b (mapOrphanBlocks s), mapOrphanBlocksByPrev := multimap_insert (hashPrevBlock b) hash (mapOrphanBlocksByPrev s) \<rparr>"
  define m where "m = map_set hash b (mapOrphanBlocks s)"
  have s1: "mapOrphanBlocks s1 = m" by (simp add: s1_def m_def)
  have srt: "sorted_wrt (<) (map fst m)" using assms(1) by (simp add: m_def map_set_sorted)
  have mem: "(hash, b) \<in> set m" using map_of_SomeD [of m hash b] by (simp add: m_def)
  have len: "length m = 2001"
  proof -
    have "card (set (map fst m)) = Suc (card (set (map fst (mapOrphanBlocks s))))"
      using set_map_set [of hash b "mapOrphanBlocks s"] assms(3) by (simp add: m_def map_of_eq_None_iff)
    then show ?thesis using srt assms(1,2) by (simp only: strict_sorted_iff distinct_card length_map)
  qed
  have lb: "lower_bound hash m = (hash, b)" by (rule lower_bound_present [OF srt mem])
  have "snd (limit_orphan_blocks (GetRandHash P) MAX_ORPHAN_BLOCKS 0 s1) = snd (limit_orphan_blocks (GetRandHash P) MAX_ORPHAN_BLOCKS 1 (erase_orphan_block hash b s1))"
    using len lb assms(4) by (subst limit_orphan_blocks.simps) (simp add: s1 MAX_ORPHAN_BLOCKS_def)
  moreover have "length (mapOrphanBlocks (erase_orphan_block hash b s1)) < length m" using mem by (force simp: erase_orphan_block_def s1 intro!: length_map_erase_less)
  then have "limit_orphan_blocks (GetRandHash P) MAX_ORPHAN_BLOCKS 1 (erase_orphan_block hash b s1) = (1, erase_orphan_block hash b s1)"
    using len by (subst limit_orphan_blocks.simps) (simp add: MAX_ORPHAN_BLOCKS_def)
  moreover have "buffer_block P hash b s = snd (limit_orphan_blocks (GetRandHash P) MAX_ORPHAN_BLOCKS 0 s1)"
    by (simp add: buffer_block_def s1_def Let_def LimitOrphanBlocks_def case_prod_beta)
  ultimately have "buffer_block P hash b s = erase_orphan_block hash b s1" by simp
  then show ?thesis by (simp add: erase_orphan_block_def)
qed

section \<open>Finding a block by its height\<close>

lemma walk_forward_main:
  assumes "main_ok M (Some best)" "M best = Some ti" "h \<le> nHeight ti"
  shows "k \<in> set (chain M (Some best)) \<Longrightarrow> nHeight k \<le> h \<Longrightarrow> \<exists>j \<in> set (chain M (Some best)). nHeight j = h \<and> walk_forward M h k = Some j"
proof (induction "nat (h - nHeight k)" arbitrary: k)
  case 0
  then show ?case by (intro bexI [of _ k]) (simp_all add: walk_forward.simps)
next
  case (Suc n)
  note wf = main_okD(1) [OF assms(1)]
  have mk: "M (phashBlock k) = Some k" by (rule chain_mem [OF wf Suc.prems(1)])
  have "Some best \<noteq> Some (phashBlock k)" using Suc(2) mk assms(2,3) by auto
  from chain_successor [OF wf Suc.prems(1) this] obtain j where j: "j \<in> set (chain M (Some best))" "pprev j = Some (phashBlock k)" by blast
  have mj: "M (phashBlock j) = Some j" by (rule chain_mem [OF wf j(1)])
  have "pnext k = Some (phashBlock j)" using main_okD(3) [OF assms(1) mk] j by blast
  moreover have "nHeight j = nHeight k + 1" using index_wfD(4) [OF wf mj j(2)] mk by simp
  moreover have "n = nat (h - nHeight j)" "nHeight j \<le> h" using Suc(2) calculation(2) by simp_all
  ultimately show ?case using Suc(1) [of j] j(1) mj Suc(2) by (subst walk_forward.simps) simp
qed

text \<open>C17. \<^verbatim>\<open>FindBlockByHeight\<close> returns the block of the best chain at the height asked for, from whichever of its three starting points
  it walks, and remembers it as a starting point for the next search.\<close>

theorem block_by_height:
  assumes main: "main_ok (mapBlockIndex st) (Some best)" "pindexBest st = Some best" "mapBlockIndex st best = Some ti" "nBestHeight st = nHeight ti"
    and gen: "pindexGenesisBlock st = Some g" "mapBlockIndex st g = Some gi" "gi \<in> set (best_chain st)"
    and last: "pblockindexFBBHLast st = None \<or> (\<exists>l \<in> set (best_chain st). pblockindexFBBHLast st = Some (phashBlock l))"
    and h: "0 \<le> h" "h \<le> nBestHeight st"
  shows "\<exists>j \<in> set (best_chain st). nHeight j = h \<and> FindBlockByHeight h st = Some (j, st\<lparr> pblockindexFBBHLast := Some (phashBlock j) \<rparr>)"
proof -
  let ?M = "mapBlockIndex st"
  note wf = main_okD(1) [OF main(1)]
  have ti: "ti \<in> set (best_chain st)" using chain_Some [OF wf main(3)] main(2) by simp
  define start where "start = (if h < tdiv (nBestHeight st) 2 then pindexGenesisBlock st else pindexBest st)"
  define start2 where "start2 = (case pblockindexFBBHLast st of None \<Rightarrow> start
    | Some l \<Rightarrow> if \<bar>h - nHeight (hd (chain ?M start))\<bar> > \<bar>h - nHeight (hd (chain ?M (Some l)))\<bar> then Some l else start)"
  have pst: "\<exists>k \<in> set (best_chain st). start = Some (phashBlock k)"
    using gen main(2) ti index_wfD(1) [OF wf gen(2)] index_wfD(1) [OF wf main(3)] by (auto simp: start_def)
  then obtain k where k: "k \<in> set (best_chain st)" "start2 = Some (phashBlock k)"
    using last by (cases "start2 = start") (auto simp: start2_def split: if_splits)
  have mk: "?M (phashBlock k) = Some k" by (rule chain_mem [OF wf k(1)])
  have "\<exists>j rest. j \<in> set (best_chain st) \<and> nHeight j \<le> h \<and> trace_back h (chain ?M (Some (phashBlock k))) = j # rest"
  proof (cases "nHeight k \<le> h")
    case True
    then show ?thesis using chain_Some [OF wf mk] k(1) by auto
  next
    case False
    then obtain j where j: "j \<in> set (chain ?M (Some (phashBlock k)))" "nHeight j = h" "trace_back h (chain ?M (Some (phashBlock k))) = chain ?M (Some (phashBlock j))"
      using trace_back_chain [OF wf mk h(1)] by auto
    moreover have "j \<in> set (best_chain st)" using chain_suffix [OF wf k(1)] j(1) by auto
    ultimately show ?thesis using chain_Some [OF wf chain_mem [OF wf j(1)]] by auto
  qed
  then obtain k' rest where k': "k' \<in> set (best_chain st)" "nHeight k' \<le> h" "trace_back h (chain ?M start2) = k' # rest" unfolding k(2) by blast
  from walk_forward_main [OF main(1,3), of h k'] obtain j where j: "j \<in> set (best_chain st)" "nHeight j = h" "walk_forward ?M h k' = Some j"
    using h(2) main(2,4) k' by auto
  then show ?thesis
    unfolding FindBlockByHeight_def Let_def start_def [symmetric] start2_def [symmetric] using k'(3) by auto
qed

section \<open>Files that grow\<close>

lemma read_block_grows:
  assumes "WriteToDisk m b F = (r, F')" "read_block N F i = Some b0"
  shows "read_block N F' i = Some b0"
proof -
  let ?E = "ne_ext N" and ?tn = "ne_fTestNet N" and ?p = "unat (bi_nBlockPos i)"
  obtain c b1 s where c: "OpenBlockFile (bi_nFile i) F = Some c" "unser_block False CBlock_new (drop ?p c) = Inr (b1, s)"
    using assms(2) by (auto simp: blk_ReadFromDisk_index_def blk_ReadFromDisk_def split: option.splits sum.splits)
  have "files F (bi_nFile i) = Some c" using c(1) by (auto simp: OpenBlockFile_def split: if_splits)
  then obtain d where "files F' (bi_nFile i) = Some (c @ d)" using WriteToDisk_grows [OF assms(1)] by blast
  then have c': "OpenBlockFile (bi_nFile i) F' = Some (c @ d)" using c(1) by (auto simp: OpenBlockFile_def split: if_splits)
  have s: "drop ?p c = ser_block b1 @ s" "block_ok b1" using block.ser_unser [OF c(2)] by auto
  have "length (ser_block b1) \<ge> 80" by (simp add: ser_block_def length_ser_header)
  then have "drop ?p c \<noteq> []" using s(1) by auto
  then have "?p \<le> length c" by simp
  then have "drop ?p (c @ d) = ser_block b1 @ (s @ d)" using s(1) by simp
  then have "unser_block False CBlock_new (drop ?p (c @ d)) = Inr (b1, s @ d)" using block.unser_ser [OF s(2)] by simp
  then have "blk_ReadFromDisk ?E ?tn F' (bi_nFile i) (bi_nBlockPos i) True = blk_ReadFromDisk ?E ?tn F (bi_nFile i) (bi_nBlockPos i) True"
    using c c' by (simp add: blk_ReadFromDisk_def)
  then show ?thesis using assms(2) by (simp add: blk_ReadFromDisk_index_def)
qed

lemma chain_ledger_grows:
  assumes "WriteToDisk m b F = (r, F')"
  shows "chain_ledger N F c = Some W \<Longrightarrow> chain_ledger N F' c = Some W"
proof (induction c arbitrary: W rule: induct_list012)
  case (3 i j c)
  then obtain V where V: "chain_ledger N F (j # c) = Some V" "ledger_step N F i V = Some W" by (auto split: option.splits)
  obtain b0 where "read_block N F i = Some b0" by (rule ledger_step_Some [OF V(2)])
  then have "ledger_step N F' i V = Some W" using V(2) read_block_grows [OF assms] by (simp add: ledger_step_def)
  then show ?case using 3(2) [OF V(1)] by simp
qed simp_all

text \<open>The new block is read back from where it was written.\<close>

lemma read_block_written:
  assumes "WriteToDisk m b F = (Some (n, p), F')" "length m = 4" "block_ok (on_disk b)" "bi_nFile i = n" "bi_nBlockPos i = p"
    and "phashBlock i = header_hash (ne_ext N) b" "blk_IsProofOfWork b \<longrightarrow> CheckProofOfWork (ne_ext N) (ne_fTestNet N) (header_hash (ne_ext N) b) (nBits b)"
  shows "\<exists>b'. read_block N F' i = Some b' \<and> vtx b' = vtx b"
proof -
  let ?E = "ne_ext N"
  obtain c d where c: "OpenBlockFile n (write_blocks m [] F') = Some (c @ ser_block b @ d)" "unat p = length c" by (rule written_contents [OF assms(1,2)])
  have r: "unser_block False CBlock_new (ser_block b @ d) = Inr (on_disk b, d)" using block.unser_ser [OF assms(3)] by simp
  have h: "fst (blk_GetHash ?E (on_disk b)) = header_hash ?E b" "vtx (snd (blk_GetHash ?E (on_disk b))) = vtx b"
    by (simp_all add: blk_GetHash_def Let_def) (simp_all add: on_disk_def header_hash_def ser_header_def)
  obtain b1 where b1: "blk_ReadFromDisk ?E (ne_fTestNet N) F' n p True = Some b1" "b1 = on_disk b \<or> b1 = snd (blk_GetHash ?E (on_disk b))"
  proof -
    obtain h' b2 where g: "blk_GetHash ?E (on_disk b) = (h', b2)" by force
    moreover have "nBits b2 = nBits b" using g by (auto simp: blk_GetHash_def Let_def on_disk_def split: if_splits)
    ultimately show ?thesis using that c r assms(7) h(1) by (cases "blk_IsProofOfWork b") (simp_all add: blk_ReadFromDisk_def)
  qed
  have "fst (blk_GetHash ?E b1) = header_hash ?E b" "vtx (snd (blk_GetHash ?E b1)) = vtx b" using b1(2) h by (auto simp: GetHash_again)
  then show ?thesis using b1(1) assms(4-6) by (simp add: blk_ReadFromDisk_index_def case_prod_beta bi_GetBlockHash_def)
qed

section \<open>A new entry of the index\<close>

lemma new_index_fields:
  assumes "new_index N M n p hp b = Inr i" "index_wf M" "M (hashPrevBlock b) = Some j"
  shows "phashBlock i = fst (blk_GetHash (ne_ext N) b)" "pprev i = Some (hashPrevBlock b)" "pnext i = None" "nHeight i = nHeight j + 1"
    "bi_nFile i = n" "bi_nBlockPos i = p"
proof -
  have c: "chain M (Some (hashPrevBlock b)) = j # chain M (pprev j)" by (rule chain_Some [OF assms(2,3)])
  show "phashBlock i = fst (blk_GetHash (ne_ext N) b)" "pprev i = Some (hashPrevBlock b)" "pnext i = None" "nHeight i = nHeight j + 1"
    "bi_nFile i = n" "bi_nBlockPos i = p"
    using assms(1) unfolding new_index_def Let_def
    by (auto simp: c assms(3) SetStakeEntropyBit_def SetStakeModifier_def CBlockIndex_of_def CBlockIndex_new_def bi_SetProofOfStake_def Let_def
        split: option.splits if_splits)
qed

lemma chain_insert:
  assumes "index_wf M" "M hash = None" "index_wf (M(hash \<mapsto> i))" "M h \<noteq> None"
  shows "chain (M(hash \<mapsto> i)) (Some h) = chain M (Some h)"
  using assms(4)
proof (induction "length (chain M (Some h))" arbitrary: h rule: less_induct)
  case less
  then obtain k where k: "M h = Some k" by blast
  have k': "(M(hash \<mapsto> i)) h = Some k" using k assms(2) by auto
  show ?case
  proof (cases "pprev k")
    case None
    then show ?thesis using chain_Some [OF assms(1) k] chain_Some [OF assms(3) k'] by (simp del: fun_upd_apply)
  next
    case (Some p)
    have "M p \<noteq> None" using index_wfD(4) [OF assms(1) k Some] by auto
    then have "chain (M(hash \<mapsto> i)) (Some p) = chain M (Some p)" by (intro less.hyps) (simp add: chain_Some [OF assms(1) k] Some)
    then show ?thesis using chain_Some [OF assms(1) k] chain_Some [OF assms(3) k'] Some by (simp del: fun_upd_apply)
  qed
qed

lemma main_ok_insert:
  assumes "main_ok M (Some best)" "M hash = None" "M p = Some j" "phashBlock i = hash" "pprev i = Some p" "nHeight i = nHeight j + 1" "pnext i = None"
  shows "main_ok (M(hash \<mapsto> i)) (Some best)" "M h \<noteq> None \<Longrightarrow> chain (M(hash \<mapsto> i)) (Some h) = chain M (Some h)"
    "chain (M(hash \<mapsto> i)) (Some hash) = i # chain M (Some p)"
proof -
  note wf = main_okD(1) [OF assms(1)]
  have wf': "index_wf (M(hash \<mapsto> i))"
    using wf assms(2-6) index_wfD(2) [OF wf assms(3)] unfolding index_wf_def by (auto; metis option.distinct(1))
  show c: "chain (M(hash \<mapsto> i)) (Some h) = chain M (Some h)" if "M h \<noteq> None" for h by (rule chain_insert [OF wf assms(2) wf' that])
  have i: "(M(hash \<mapsto> i)) hash = Some i" by simp
  show "chain (M(hash \<mapsto> i)) (Some hash) = i # chain M (Some p)" using chain_Some [OF wf' i] assms(3,5) c [of p] by (simp del: fun_upd_apply)
  have b: "M best \<noteq> None" using main_okD(2) [OF assms(1) refl] .
  have no: "\<not> (\<exists>j \<in> set (chain M (Some best)). pprev j = Some hash)"
    using index_wfD(4) [OF wf chain_mem [OF wf]] assms(2) by fastforce
  show "main_ok (M(hash \<mapsto> i)) (Some best)"
    using wf' b no assms(1,2,7) unfolding main_ok_def c [OF b] by (auto split: if_splits)
qed

section \<open>Accepting a block\<close>

text \<open>The node works on the chain of its best block, and all blocks of the index descend from the first one.\<close>

definition node_ok :: "node_env \<Rightarrow> node_state \<Rightarrow> uint256 \<Rightarrow> bool" where
  "node_ok N st best \<longleftrightarrow> tip_ok N st best \<and> pindexBest st = Some best \<and> hashBestChain st = best \<and>
     nBestChainTrust st = nChainTrust (the (mapBlockIndex st best)) \<and>
     (\<exists>g. pindexGenesisBlock st = Some g \<and> (\<forall>h. mapBlockIndex st h \<noteq> None \<longrightarrow> phashBlock (last (chain (mapBlockIndex st) (Some h))) = g))"

lemma index_write_at:
  assumes "db_at N F M t db"
  shows "\<exists>d1 d2. TxnBegin db = (True, d1) \<and> TxnCommit (snd (WriteBlockIndex E f tm x d1)) = (True, d2) \<and> db_at N F M t d2"
proof -
  define d1 where "d1 = db\<lparr> activeBatch := Some [] \<rparr>"
  have db: "activeBatch db = None" "db_ready db" using assms by (simp_all add: db_at_def)
  then have t1: "in_txn (pdb db) d1" "db_ready d1" "TxnBegin db = (True, d1)" by (simp_all add: d1_def in_txn_def TxnBegin_def db_ready_def)
  have v1: "db_view d1 = db_view db" using db by (simp add: d1_def db_view_def)
  let ?d = "snd (WriteBlockIndex E f tm x d1)"
  obtain h x' where "disk_GetBlockHash E f tm x = (h, x')" by force
  then obtain v where w: "WriteBlockIndex E f tm x d1 = db_Write (hash_key ''blockindex'' h) v d1" by (simp add: WriteBlockIndex_def)
  have "plain_key ''hashBestChain'' \<noteq> hash_key ''blockindex'' h" using hd_keys(2,4) by (intro key_neq) simp
  then have "ReadHashBestChain ?d = ReadHashBestChain d1" unfolding w by (simp add: ReadHashBestChain_def db_Read_def raw.get_put [OF t1(2)])
  moreover have "tx_view ?d = tx_view d1" by (rule write_others(1) [OF t1(2)])
  moreover obtain d2 where d2: "TxnCommit ?d = (True, d2)" "db_view d2 = db_view ?d" "db_ready d2" "activeBatch d2 = None"
    using commit_view [OF in_txn_records(1) [OF t1(1)]] by blast
  ultimately have "db_at N F M t d2" using assms view_reads [OF v1] view_reads [OF d2(2)] d2(3,4) by (simp add: db_at_def)
  then show ?thesis using t1(3) d2(1) by blast
qed

lemma node_ok_index: "node_ok N st best \<Longrightarrow> main_ok (mapBlockIndex st) (Some best)" "node_ok N st best \<Longrightarrow> index_wf (mapBlockIndex st)"
  by (auto simp: node_ok_def tip_ok_def dest: main_okD(1))

text \<open>A new entry leaves the node at its best block.\<close>

lemma node_ok_insert:
  assumes ok: "node_ok N st best" and new: "mapBlockIndex st hash = None" "mapBlockIndex st p = Some j" "phashBlock i = hash" "pprev i = Some p"
      "nHeight i = nHeight j + 1" "pnext i = None"
    and d: "db_at N (ns_files st) (mapBlockIndex st) best d"
  shows "node_ok N (st\<lparr> mapBlockIndex := (mapBlockIndex st)(hash \<mapsto> i), ns_txdb := d \<rparr>) best"
proof -
  let ?M = "mapBlockIndex st" and ?M' = "(mapBlockIndex st)(hash \<mapsto> i)"
  note m = main_ok_insert [OF node_ok_index(1) [OF ok] new]
  have b: "?M best \<noteq> None" using main_okD(2) [OF node_ok_index(1) [OF ok] refl] .
  obtain g where g: "pindexGenesisBlock st = Some g" "\<forall>h. ?M h \<noteq> None \<longrightarrow> phashBlock (last (chain ?M (Some h))) = g" using ok by (auto simp: node_ok_def)
  have "db_at N (ns_files st) ?M' best d" using d m(2) [OF b] by (simp add: db_at_def)
  moreover have "phashBlock (last (chain ?M' (Some h))) = g" if h: "?M' h \<noteq> None" for h
  proof (cases "h = hash")
    case True
    have "chain ?M (Some p) \<noteq> []" using chain_Some [OF node_ok_index(2) [OF ok] new(2)] by simp
    then show ?thesis using m(3) g(2) new(2) True by (simp del: fun_upd_apply)
  next
    case False
    then have "?M h \<noteq> None" using h by simp
    then show ?thesis using m(2) [of h] g(2) by (simp del: fun_upd_apply)
  qed
  moreover have "the (?M' best) = the (?M best)" using b new(1) by (cases "best = hash") auto
  ultimately show ?thesis using ok m(1) g(1) by (simp add: node_ok_def tip_ok_def del: fun_upd_apply)
qed

text \<open>A state that only differs in links and minted amounts.\<close>

lemma node_ok_same:
  assumes "node_ok N st best" "same_blocks (mapBlockIndex st) (mapBlockIndex st')" "pindexGenesisBlock st' = pindexGenesisBlock st"
    "tip_ok N st' t" "pindexBest st' = Some t" "hashBestChain st' = t" "nBestChainTrust st' = nChainTrust (the (mapBlockIndex st t))" "mapBlockIndex st t \<noteq> None"
  shows "node_ok N st' t"
proof -
  let ?M = "mapBlockIndex st" and ?M' = "mapBlockIndex st'"
  note wf = node_ok_index(2) [OF assms(1)]
  obtain g where g: "pindexGenesisBlock st = Some g" "\<forall>h. ?M h \<noteq> None \<longrightarrow> phashBlock (last (chain ?M (Some h))) = g" using assms(1) by (auto simp: node_ok_def)
  have "phashBlock (last (chain ?M' (Some h))) = g" if h: "?M' h \<noteq> None" for h
  proof -
    have h': "?M h \<noteq> None" using h same_blocks_None [OF assms(2)] by simp
    have "chain ?M (Some h) \<noteq> []" using h' chain_Some [OF wf] by auto
    moreover have e: "map phashBlock (chain ?M' (Some h)) = map phashBlock (chain ?M (Some h))" by (rule same_blocks_hashes [OF assms(2) wf])
    ultimately have "chain ?M' (Some h) \<noteq> []" by (metis map_is_Nil_conv)
    then have "phashBlock (last (chain ?M' (Some h))) = phashBlock (last (chain ?M (Some h)))"
      using e \<open>chain ?M (Some h) \<noteq> []\<close> by (metis last_map)
    then show ?thesis using g(2) h' by simp
  qed
  moreover have "nChainTrust (the (?M' t)) = nChainTrust (the (?M t))"
  proof -
    obtain k where k: "?M t = Some k" using assms(8) by blast
    obtain k' where "?M' t = Some k'" "fixed_part k' = fixed_part k" using same_blocks_Some [OF assms(2) k] by blast
    then show ?thesis using k fixed_eqD [of k' k] by simp
  qed
  ultimately show ?thesis using assms(3-7) g(1) by (simp add: node_ok_def)
qed

text \<open>The outcomes of adding a block: it is in the index and the node is at it when it has more trust, the node is where it was when the
  block is refused, and after an exception the database is at some block.\<close>

definition added :: "node_env \<Rightarrow> node_state \<Rightarrow> uint256 \<Rightarrow> uint256 \<Rightarrow> uint256 \<Rightarrow> failure + unit \<Rightarrow> node_state \<Rightarrow> bool" where
  "added N st best hash prev r st' \<longleftrightarrow>
     (case r of
        Inr _ \<Rightarrow> (\<exists>i. mapBlockIndex st' hash = Some i \<and> pprev i = Some prev \<and> node_ok N st' (if nChainTrust i > nBestChainTrust st then hash else best))
      | Inl (DoS _) \<Rightarrow> node_ok N st' best
      | Inl Exception \<Rightarrow> (\<exists>t. tip_ok N (close_txdb st') t))"

lemma added_trust: "nBestChainTrust st1 = nBestChainTrust st \<Longrightarrow> added N st1 best hash prev r st' = added N st best hash prev r st'"
  by (simp only: added_def)

lemma SetBestChain_added:
  assumes ok: "node_ok N st best" and i: "mapBlockIndex st hash = Some i" "pprev i = Some (hashPrevBlock b)" "fst (blk_GetHash (ne_ext N) b) = hash"
    and rd: "read_block N (ns_files st) i = Some b'" "vtx b' = vtx b"
    and u: "distinct (chain_txids N (ns_files st) (chain (mapBlockIndex st) (Some hash)))"
    and tr: "nChainTrust (the (mapBlockIndex st (hashPrevBlock b))) \<le> nBestChainTrust st" "nChainTrust i > nBestChainTrust st"
    and s: "SetBestChain N b hash st = (r, st')"
  shows "added N st best hash (hashPrevBlock b) r st' \<and> ns_sync st' = ns_sync st"
proof -
  let ?M = "mapBlockIndex st"
  note wf = node_ok_index(2) [OF ok]
  have n: "tip_ok N st best" "pindexBest st = Some best" "hashBestChain st = best" "nBestChainTrust st = nChainTrust (the (?M best))" using ok by (simp_all add: node_ok_def)
  obtain g where g: "pindexGenesisBlock st = Some g" "\<And>h. ?M h \<noteq> None \<Longrightarrow> phashBlock (last (chain ?M (Some h))) = g" using ok by (auto simp: node_ok_def)
  have mb: "?M best \<noteq> None" using main_okD(2) [OF node_ok_index(1) [OF ok] refl] .
  have lm: "last (chain ?M (Some h)) = the (?M g)" if "?M h \<noteq> None" for h
  proof -
    have "chain ?M (Some h) \<noteq> []" using that chain_Some [OF wf] by auto
    from chain_mem [OF wf last_in_set [OF this]] show ?thesis using g(2) [OF that] by simp
  qed
  have common: "last (chain ?M (Some hash)) = last (best_chain st)" using lm [of hash] lm [OF mb] i(1) n(2) by simp
  have gen: "pindexGenesisBlock st \<noteq> None" using g(1) by simp
  have tr': "nChainTrust i > nChainTrust (the (?M best))" "nChainTrust (the (?M (hashPrevBlock b))) \<le> nChainTrust (the (?M best))" using tr n(4) by simp_all
  note sw = SetBestChain_switched [OF n(1-3) gen i rd common u tr'(1) s]
  define upper where "upper = {j \<in> set (chain ?M (Some hash)). nChainTrust j > nChainTrust (the (?M best))}"
  note sw = sw [folded upper_def]
  have k: "same_blocks ?M (mapBlockIndex st')" "pindexGenesisBlock st' = pindexGenesisBlock st" "ns_sync st' = ns_sync st" using sw by (simp_all add: switched_def)
  obtain i' where i': "mapBlockIndex st' hash = Some i'" "fixed_part i' = fixed_part i" using same_blocks_Some [OF k(1) i(1)] by blast
  note e = fixed_eqD [OF i'(2)]
  have "added N st best hash (hashPrevBlock b) r st'"
  proof (cases r)
    case (Inr x)
    then have "tip_ok N st' hash" "pindexBest st' = Some hash" "hashBestChain st' = hash" "nBestChainTrust st' = nChainTrust (the (?M hash))"
      using sw tr'(2) by (auto simp: switched_def)
    from node_ok_same [OF ok k(1,2) this] i(1) have "node_ok N st' hash" by simp
    then show ?thesis using Inr i' e i(2) tr(2) by (simp add: added_def)
  next
    case (Inl f)
    show ?thesis
    proof (cases f)
      case (DoS m)
      then have "tip_ok N st' best" "pindexBest st' = Some best" "hashBestChain st' = best" "nBestChainTrust st' = nChainTrust (the (?M best))"
        using sw Inl n(4) by (auto simp: switched_def)
      from node_ok_same [OF ok k(1,2) this mb] show ?thesis using Inl DoS by (simp add: added_def)
    next
      case Exception
      then show ?thesis using sw Inl by (auto simp: added_def switched_def)
    qed
  qed
  then show ?thesis using k(3) by blast
qed

lemma AddToBlockIndex_added:
  assumes ok: "node_ok N (bs_node S) best" and hash: "fst (blk_GetHash (ne_ext N) b) = hash" and prev: "mapBlockIndex (bs_node S) (hashPrevBlock b) = Some j"
    and rd: "\<And>i. phashBlock i = hash \<Longrightarrow> bi_nFile i = n \<Longrightarrow> bi_nBlockPos i = p \<Longrightarrow> \<exists>b'. read_block N (ns_files (bs_node S)) i = Some b' \<and> vtx b' = vtx b"
    and u: "distinct (map (tx_GetHash (ne_ext N)) (vtx b) @ chain_txids N (ns_files (bs_node S)) (chain (mapBlockIndex (bs_node S)) (Some (hashPrevBlock b))))"
    and tr: "nChainTrust j \<le> nBestChainTrust (bs_node S)"
    and a: "AddToBlockIndex N n p hp b S = (r, S')"
  shows "added N (bs_node S) best hash (hashPrevBlock b) r (bs_node S') \<and> ns_sync (bs_node S') = ns_sync (bs_node S)"
proof -
  define st where "st = bs_node S"
  let ?M = "mapBlockIndex st"
  have tip: "tip_ok N st best" using ok by (simp add: node_ok_def st_def)
  note A = a [unfolded AddToBlockIndex_def Let_def hash st_def [symmetric]]
  show ?thesis
  proof (cases "?M hash \<noteq> None \<or> (\<exists>e. new_index N ?M n p hp b = Inl e)")
    case True
    then have r: "S' = S \<and> r \<noteq> Inr ()" using A by (cases "?M hash = None") auto
    have "added N st best hash (hashPrevBlock b) r st" using r ok tip tip_ok_close [OF tip]
      by (cases r) (auto simp: added_def st_def split: failure.splits)
    then show ?thesis using r by (simp add: st_def)
  next
    case False
    then obtain i where i: "new_index N ?M n p hp b = Inr i" and nw: "?M hash = None" by (cases "new_index N ?M n p hp b") auto
    note f = new_index_fields [OF i node_ok_index(2) [OF ok [folded st_def]] prev [folded st_def], unfolded hash]
    have "db_at N (ns_files st) ?M best (ns_txdb st)" using tip by (simp add: tip_ok_def)
    from index_write_at [OF this, of "ne_ext N" "fUseFastIndex (ne_opts N)" "ne_now N" "CDiskBlockIndex_of i"] obtain d1 d2 where
      d: "TxnBegin (ns_txdb st) = (True, d1)" "TxnCommit (snd (WriteBlockIndex (ne_ext N) (fUseFastIndex (ne_opts N)) (ne_now N) (CDiskBlockIndex_of i) d1)) = (True, d2)"
        "db_at N (ns_files st) ?M best d2" by blast
    define st2 where "st2 = st\<lparr> mapBlockIndex := ?M(hash \<mapsto> i), ns_txdb := d2 \<rparr>"
    have ok2: "node_ok N st2 best" unfolding st2_def by (rule node_ok_insert [OF ok [folded st_def] nw prev [folded st_def] f(1,2,4,3) d(3)])
    have m2: "mapBlockIndex st2 hash = Some i" "nBestChainTrust st2 = nBestChainTrust st" "ns_files st2 = ns_files st" "ns_sync st2 = ns_sync st" by (simp_all add: st2_def)
    have "hashPrevBlock b \<noteq> hash" using nw prev by (auto simp: st_def)
    then have p2: "mapBlockIndex st2 (hashPrevBlock b) = Some j" using prev by (simp add: st2_def st_def)
    have bn: "bs_node S' = (if nChainTrust i > nBestChainTrust st then snd (SetBestChain N b hash st2) else st2)"
        "r = (if nChainTrust i > nBestChainTrust st then fst (SetBestChain N b hash st2) else Inr ())"
      using A nw i d(1,2) by (auto simp: st2_def [symmetric] Let_def split: prod.splits if_splits)
    show ?thesis
    proof (cases "nChainTrust i > nBestChainTrust st")
      case True
      obtain b' where b': "read_block N (ns_files st2) i = Some b'" "vtx b' = vtx b" using rd [OF f(1,5,6)] by (auto simp: m2(3) st_def)
      have "chain (mapBlockIndex st2) (Some hash) = i # chain ?M (Some (hashPrevBlock b))"
        using main_ok_insert(3) [OF node_ok_index(1) [OF ok [folded st_def]] nw prev [folded st_def] f(1,2,4,3)] by (simp add: st2_def del: fun_upd_apply)
      moreover obtain k c where "chain ?M (Some (hashPrevBlock b)) = k # c" using chain_Some [OF node_ok_index(2) [OF ok] prev] by (simp add: st_def)
      ultimately have u2: "distinct (chain_txids N (ns_files st2) (chain (mapBlockIndex st2) (Some hash)))"
        using u b' by (simp add: st_def [symmetric] m2(3))
      obtain r' st' where s: "SetBestChain N b hash st2 = (r', st')" by force
      have "added N st2 best hash (hashPrevBlock b) r' st' \<and> ns_sync st' = ns_sync st2"
        by (rule SetBestChain_added [OF ok2 m2(1) f(2) hash b' u2 _ _ s]) (use tr True p2 m2(2) in \<open>simp_all add: st_def\<close>)
      then show ?thesis using bn True s m2(4) added_trust [OF m2(2)] by (simp add: st_def)
    next
      case False
      then show ?thesis using bn ok2 m2 f(2) by (simp add: added_def st_def)
    qed
  qed
qed

lemma AcceptBlock_cases:
  assumes a: "AcceptBlock P b S = (r, S')"
  obtains (refused) e c where "r = Inl e" "S' = S\<lparr> bs_node := (bs_node S)\<lparr> ns_sigcache := c \<rparr> \<rparr>"
  | (unwritten) c F where "r = Inl Reject" "WriteToDisk (pchMessageStart P) b (ns_files (bs_node S)) = (None, F)"
      "S' = S\<lparr> bs_node := (bs_node S)\<lparr> ns_sigcache := c, ns_files := F \<rparr> \<rparr>"
  | (indexed) j hp c n p F r2 S2 where "mapBlockIndex (bs_node S) (hashPrevBlock b) = Some j"
      "WriteToDisk (pchMessageStart P) b (ns_files (bs_node S)) = (Some (n, p), F)"
      "AddToBlockIndex (be_node P) n p hp b (S\<lparr> bs_node := (bs_node S)\<lparr> ns_sigcache := c, ns_files := F \<rparr> \<rparr>) = (r2, S2)"
      "(case r2 of Inl e \<Rightarrow> (Inl e, S2)
        | Inr _ \<Rightarrow> (case AcceptPendingSyncCheckpoint (be_node P) (bs_node S2) of
             (Inl e, st) \<Rightarrow> (Inl e, S2\<lparr> bs_node := st \<rparr>) | (Inr _, st) \<Rightarrow> (Inr (), S2\<lparr> bs_node := st \<rparr>))) = (r, S')"
proof -
  let ?N = "be_node P" and ?st = "bs_node S"
  let ?M = "mapBlockIndex ?st" and ?hash = "fst (blk_GetHash (ne_ext (be_node P)) b)"
  let ?prevs = "chain ?M (Some (hashPrevBlock b))"
  note A = a [unfolded AcceptBlock_def Let_def]
  show ?thesis
  proof (cases "?M ?hash = None \<and> ?M (hashPrevBlock b) \<noteq> None \<and> check_context ?N (nBestHeight ?st) ?prevs b = Inr ()")
    case False
    then have "r \<noteq> Inr ()" "S' = S" using A by (auto split: if_splits option.splits sum.splits)
    then show ?thesis using refused [of _ "ns_sigcache ?st"] by (cases r) auto
  next
    case True
    then obtain j where j: "?M (hashPrevBlock b) = Some j" by blast
    obtain k c where k: "check_kernel ?N ?st b = (k, c)" by force
    show ?thesis
    proof (cases "\<exists>hp ok. k = Inr hp \<and> CheckSync ?M (pindexBest ?st) (ns_sync ?st) ?hash ?prevs = Some ok \<and> \<not> (CheckpointsMode P = STRICT \<and> \<not> ok) \<and>
        height_in_coinbase (ne_ext ?N) (nHeight j + 1) b \<and> CheckDiskSpace P (length (ser_block b))")
      case False
      then have "r \<noteq> Inr ()" "S' = S\<lparr> bs_node := ?st\<lparr> ns_sigcache := c \<rparr> \<rparr>"
        using A True j k by (auto split: if_splits option.splits sum.splits)
      then show ?thesis using refused by (cases r) auto
    next
      case t: True
      then obtain hp ok where hp: "k = Inr hp" "CheckSync ?M (pindexBest ?st) (ns_sync ?st) ?hash ?prevs = Some ok" by blast
      obtain w F where w: "WriteToDisk (pchMessageStart P) b (ns_files ?st) = (w, F)" by force
      show ?thesis
      proof (cases w)
        case None
        then show ?thesis using A True j k hp t w by (intro unwritten [of F c]) auto
      next
        case (Some np)
        obtain n p where np: "np = (n, p)" by force
        obtain r2 S2 where ad: "AddToBlockIndex ?N n p hp b (S\<lparr> bs_node := ?st\<lparr> ns_sigcache := c, ns_files := F \<rparr> \<rparr>) = (r2, S2)" by force
        have "(case r2 of Inl e \<Rightarrow> (Inl e, S2)
          | Inr _ \<Rightarrow> (case AcceptPendingSyncCheckpoint ?N (bs_node S2) of
             (Inl e, st) \<Rightarrow> (Inl e, S2\<lparr> bs_node := st \<rparr>) | (Inr _, st) \<Rightarrow> (Inr (), S2\<lparr> bs_node := st \<rparr>))) = (r, S')"
          using A True j k hp t w Some np ad by (cases r2) auto
        then show ?thesis using indexed [OF j w [unfolded Some np] ad] by blast
      qed
    qed
  qed
qed

text \<open>C2. Accepting a block keeps the node on one chain.  Suppose the node is at its best block and no checkpoint is pending; the block can be
  stored and read back, its proof of work holds, its predecessor has no more trust than the best block, and its transactions are new to its chain.
  If the block is accepted it is in the index on top of its predecessor, and the node is at the block if it has more trust
  than the best block had and at the best block otherwise; if it is refused the node is where it was; and after an exception the
  stored transaction index is still the ledger of some chain.\<close>

theorem accept_block_consistent:
  assumes ok: "node_ok (be_node P) (bs_node S) best" and pend: "hashPendingCheckpoint (ns_sync (bs_node S)) = 0"
    and b: "length (pchMessageStart P) = 4" "block_ok (on_disk b)" "\<not> fHashCached b"
      "blk_IsProofOfWork b \<longrightarrow> CheckProofOfWork (ne_ext (be_node P)) (ne_fTestNet (be_node P)) (header_hash (ne_ext (be_node P)) b) (nBits b)"
    and tr: "nChainTrust (the (mapBlockIndex (bs_node S) (hashPrevBlock b))) \<le> nBestChainTrust (bs_node S)"
    and u: "distinct (map (tx_GetHash (ne_ext (be_node P))) (vtx b) @
      chain_txids (be_node P) (snd (WriteToDisk (pchMessageStart P) b (ns_files (bs_node S)))) (chain (mapBlockIndex (bs_node S)) (Some (hashPrevBlock b))))"
    and a: "AcceptBlock P b S = (r, S')"
  shows "let st = bs_node S; st' = bs_node S'; hash = header_hash (ne_ext (be_node P)) b in
    case r of
      Inr _ \<Rightarrow> (\<exists>i. mapBlockIndex st' hash = Some i \<and> pprev i = Some (hashPrevBlock b) \<and>
        node_ok (be_node P) st' (if nChainTrust i > nBestChainTrust st then hash else best))
    | Inl (DoS _) \<Rightarrow> node_ok (be_node P) st' best
    | Inl Exception \<Rightarrow> (\<exists>t. tip_ok (be_node P) (close_txdb st') t)"
proof -
  let ?N = "be_node P" and ?E = "ne_ext (be_node P)"
  define st where "st = bs_node S"
  let ?M = "mapBlockIndex st" and ?hash = "header_hash ?E b"
  have hash: "fst (blk_GetHash ?E b) = ?hash" using b(3) by (simp add: blk_GetHash_def)
  have keep: "added ?N st best ?hash (hashPrevBlock b) (Inl e) (st\<lparr> ns_sigcache := c \<rparr>)" for e c
  proof -
    have n: "node_ok ?N (st\<lparr> ns_sigcache := c \<rparr>) best" using ok by (simp add: node_ok_def tip_ok_def st_def)
    then have "tip_ok ?N (close_txdb (st\<lparr> ns_sigcache := c \<rparr>)) best" using tip_ok_close by (auto simp: node_ok_def)
    then show ?thesis using n by (cases e) (auto simp: added_def)
  qed
  have grow: "node_ok ?N (st\<lparr> ns_sigcache := c, ns_files := F \<rparr>) best" if "WriteToDisk (pchMessageStart P) b (ns_files st) = (x, F)" for x c F
    using ok chain_ledger_grows [OF that] by (auto simp: node_ok_def tip_ok_def db_at_def st_def [symmetric])
  have "added ?N st best ?hash (hashPrevBlock b) r (bs_node S')"
    using a
  proof (cases rule: AcceptBlock_cases)
    case (refused e c)
    then show ?thesis using keep [of e c] by (simp add: st_def)
  next
    case (unwritten c F)
    then show ?thesis using grow [of None F c] by (simp add: added_def st_def)
  next
    case (indexed j hp c n p F r2 S2)
    let ?S1 = "S\<lparr> bs_node := st\<lparr> ns_sigcache := c, ns_files := F \<rparr> \<rparr>"
    have rd: "\<exists>b'. read_block ?N F i = Some b' \<and> vtx b' = vtx b" if "phashBlock i = ?hash" "bi_nFile i = n" "bi_nBlockPos i = p" for i
      by (rule read_block_written [OF indexed(2) b(1,2) that(2,3,1) b(4)])
    have "added ?N (bs_node ?S1) best ?hash (hashPrevBlock b) r2 (bs_node S2) \<and> ns_sync (bs_node S2) = ns_sync (bs_node ?S1)"
      by (rule AddToBlockIndex_added [of ?N ?S1 best b ?hash j n p hp r2 S2])
        (use grow [OF indexed(2) [folded st_def]] hash indexed rd u tr in \<open>simp_all add: st_def\<close>)
    then have ad: "added ?N st best ?hash (hashPrevBlock b) r2 (bs_node S2)" and "hashPendingCheckpoint (ns_sync (bs_node S2)) = 0"
      using pend added_trust [of "bs_node ?S1" st] by (simp_all add: st_def)
    then have "AcceptPendingSyncCheckpoint ?N (bs_node S2) = (Inr False, bs_node S2)" by (simp add: AcceptPendingSyncCheckpoint_def Let_def)
    then have "r = r2" "bs_node S' = bs_node S2" using indexed(4) by (auto split: sum.splits)
    then show ?thesis using ad by simp
  qed
  then show ?thesis unfolding added_def st_def Let_def .
qed

section \<open>Examples\<close>

definition block_env_example :: block_env where
  "block_env_example = \<lparr> be_node = env_example, CheckpointsMode = STRICT, CheckDiskSpace = (\<lambda>n. True), pchMessageStart = [1, 2, 3, 4],
     GetRandHash = (\<lambda>n. 0), drain_expired = (\<lambda>n. False) \<rparr>"

definition no_orphans :: orphan_blocks where
  "no_orphans = \<lparr> mapOrphanBlocks = [], mapOrphanBlocksByPrev = [], setStakeSeenOrphan = {} \<rparr>"

text \<open>A node that knows the genesis block alone, and one that knows no block.\<close>

definition fresh_node :: node_state where
  "fresh_node = genesis_state\<lparr> mapBlockIndex := [1 \<mapsto> index_example 1 None], ns_files := no_files \<rparr>"

definition fresh_state :: block_state where
  "fresh_state = \<lparr> bs_node = fresh_node, setStakeSeen = {} \<rparr>"

definition blank_state :: block_state where
  "blank_state = \<lparr> bs_node = fresh_node\<lparr> mapBlockIndex := Map.empty \<rparr>, setStakeSeen = {} \<rparr>"

lemma example_env: "be_node block_env_example = env_example" "ne_ext env_example = ext_zero" "ne_fTestNet env_example = False" "ne_now env_example = 0"
  "pchMessageStart block_env_example = [1, 2, 3, 4]"
  by (simp_all add: block_env_example_def env_example_def)

lemma fresh_index: "index_wf (mapBlockIndex fresh_node)" "chain (mapBlockIndex fresh_node) (Some 1) = [index_example 1 None]"
proof -
  show wf: "index_wf (mapBlockIndex fresh_node)" by (auto simp: index_wf_def fresh_node_def index_example_def CBlockIndex_new_def)
  show "chain (mapBlockIndex fresh_node) (Some 1) = [index_example 1 None]"
    using chain_Some [OF wf, of 1 "index_example 1 None"] by (simp add: fresh_node_def) (simp add: index_example_def)
qed

lemma fresh_ok: "node_ok env_example fresh_node 1"
proof -
  have f: "ns_txdb fresh_node = ns_txdb genesis_state" "pindexBest fresh_node = Some 1" "hashBestChain fresh_node = 1" "nBestChainTrust fresh_node = 0"
    "pindexGenesisBlock fresh_node = Some 1" by (simp_all add: fresh_node_def) (simp_all add: genesis_state_def)
  have m: "mapBlockIndex fresh_node h = (if h = 1 then Some (index_example 1 None) else None)" for h by (simp add: fresh_node_def)
  have "main_ok (mapBlockIndex fresh_node) (Some 1)"
    unfolding main_ok_def fresh_index(2) using fresh_index(1) m by (auto simp: index_example_def CBlockIndex_new_def split: if_splits)
  then show ?thesis unfolding node_ok_def tip_ok_def db_at_def f fresh_index(2) using genesis_db m fresh_index(2)
    by (auto simp: index_example_def CBlockIndex_new_def split: if_splits)
qed

lemma first_proof: "CheckProofOfWork ext_zero False 0 (nBits first_block)"
  unfolding CheckProofOfWork_def by (simp add: first_block_def compact_one bnProofOfWorkLimit_def)

theorem accept_block_consistent_witness:
  "case AcceptBlock block_env_example first_block fresh_state of (r, S') \<Rightarrow>
     (case r of
        Inr _ \<Rightarrow> (\<exists>i. mapBlockIndex (bs_node S') 0 = Some i \<and> pprev i = Some 1 \<and> node_ok env_example (bs_node S') (if nChainTrust i > 0 then 0 else 1))
      | Inl (DoS _) \<Rightarrow> node_ok env_example (bs_node S') 1
      | Inl Exception \<Rightarrow> (\<exists>t. tip_ok env_example (close_txdb (bs_node S')) t))"
proof -
  obtain r S' where a: "AcceptBlock block_env_example first_block fresh_state = (r, S')" by force
  have s: "bs_node fresh_state = fresh_node" by (simp add: fresh_state_def)
  have f: "hashPendingCheckpoint (ns_sync fresh_node) = 0" "nBestChainTrust fresh_node = 0" "mapBlockIndex fresh_node 1 = Some (index_example 1 None)"
    "nChainTrust (index_example 1 None) = 0"
    by (simp_all add: fresh_node_def genesis_state_def sync_example_def index_example_def CBlockIndex_new_def)
  have b: "block_ok (on_disk first_block)" "\<not> fHashCached first_block"
    by (simp_all add: block_ok_def on_disk_def first_block_def CBlock_new_def blk_SetNull_def coinbase_example_def tx_ok_def txin_ok_def txout_ok_def
        int32_range_def int64_range_def MAX_SIZE_def)
  have "let st = bs_node fresh_state; st' = bs_node S'; hash = header_hash (ne_ext (be_node block_env_example)) first_block in
    case r of
      Inr _ \<Rightarrow> (\<exists>i. mapBlockIndex st' hash = Some i \<and> pprev i = Some (hashPrevBlock first_block) \<and>
        node_ok (be_node block_env_example) st' (if nChainTrust i > nBestChainTrust st then hash else 1))
    | Inl (DoS _) \<Rightarrow> node_ok (be_node block_env_example) st' 1
    | Inl Exception \<Rightarrow> (\<exists>t. tip_ok (be_node block_env_example) (close_txdb st') t)"
    by (rule accept_block_consistent [OF _ _ _ b _ _ _ a])
      (use fresh_ok first_proof in \<open>simp_all add: example_env s f first_fields fresh_index zero_block_hash\<close>)
  then show ?thesis unfolding Let_def example_env s f first_fields zero_block_hash using a by simp
qed

lemma first_checks_all: "CheckBlock ext_zero False 0 True True True first_block = Inr ()"
  using first_checks first_proof first_block_hash coinbase_checks unfolding CheckBlock_def
  by (auto simp: first_fields blk_IsProofOfStake_def split: if_splits sum.splits)

theorem block_buffer_typed_witness:
  "\<exists>S' s'. ProcessBlock block_env_example first_block blank_state no_orphans = (Inr (), S', s') \<and> mapOrphanBlocks s' = [(0, first_block)] \<and> buffer_wf ext_zero s'"
proof -
  have w: "buffer_wf (ne_ext (be_node block_env_example)) no_orphans" "length (mapOrphanBlocks no_orphans) \<le> 2000" by (simp_all add: buffer_wf_def no_orphans_def)
  have pos: "\<not> blk_IsProofOfStake first_block" by (simp add: blk_IsProofOfStake_def first_fields)
  have m: "mapBlockIndex (bs_node blank_state) = Map.empty" "hashPendingCheckpoint (ns_sync (bs_node blank_state)) = 0"
    by (simp_all add: blank_state_def fresh_node_def genesis_state_def sync_example_def)
  have "mapOrphanBlocks (buffer_block block_env_example 0 first_block no_orphans) = [(0, first_block)]"
    using pos by (simp add: buffer_block_def no_orphans_def LimitOrphanBlocks_def limit_orphan_blocks.simps MAX_ORPHAN_BLOCKS_def Let_def)
  moreover have "ProcessBlock block_env_example first_block blank_state no_orphans =
      (Inr (), blank_state, buffer_block block_env_example 0 first_block no_orphans)"
    unfolding ProcessBlock_def Let_def example_env first_block_hash
    using pos m first_checks_all by (simp add: no_orphans_def duplicate_stake_def too_little_work_def GetLastSyncCheckpoint_def)
  ultimately show ?thesis
    using block_buffer_typed [OF w, of first_block blank_state] by (simp add: example_env)
qed

text \<open>A full buffer of blocks with the hashes 1 to 2000.\<close>

definition full_buffer :: orphan_blocks where
  "full_buffer = no_orphans\<lparr> mapOrphanBlocks := map (\<lambda>n. (of_nat n, CBlock_new)) [1..<2001] \<rparr>"

theorem new_block_evicted_witness: "map_of (mapOrphanBlocks (buffer_block block_env_example 0 first_block full_buffer)) 0 = None"
proof (rule new_block_evicted)
  have u: "unat (of_nat n :: uint256) = n" if "n < 2001" for n using that by (simp add: unsigned_of_nat take_bit_nat_eq_self_iff)
  have "sorted_wrt (\<lambda>a c. (of_nat a :: uint256) < of_nat c) [1..<2001]"
    by (rule sorted_wrt_mono_rel [OF _ sorted_wrt_upt]) (simp add: word_less_nat_alt u del: upt_rec_numeral)
  then have "sorted_wrt (<) (map (of_nat :: nat \<Rightarrow> uint256) [1..<2001])" by (simp only: sorted_wrt_map)
  then show "sorted_wrt (<) (map fst (mapOrphanBlocks full_buffer))" by (simp add: full_buffer_def comp_def del: upt_rec_numeral)
  show "length (mapOrphanBlocks full_buffer) = 2000" by (simp add: full_buffer_def del: upt_rec_numeral)
  have "(0 :: uint256) \<noteq> of_nat n" if "n \<in> set [1..<2001]" for n using u [of n] that by (auto simp del: upt_rec_numeral)
  then show "map_of (mapOrphanBlocks full_buffer) 0 = None" by (auto simp: full_buffer_def map_of_eq_None_iff simp del: upt_rec_numeral)
  show "GetRandHash block_env_example 0 = 0" by (simp add: block_env_example_def)
qed

theorem block_by_height_witness:
  "let st = genesis_state\<lparr> mapBlockIndex := fork_example, pindexGenesisBlock := Some 7, pindexBest := Some 8, nBestHeight := 1 \<rparr> in
   \<exists>j. phashBlock j = 7 \<and> FindBlockByHeight 0 st = Some (j, st\<lparr> pblockindexFBBHLast := Some 7 \<rparr>)"
proof -
  define st where "st = genesis_state\<lparr> mapBlockIndex := fork_example, pindexGenesisBlock := Some 7, pindexBest := Some 8, nBestHeight := 1 \<rparr>"
  have f: "mapBlockIndex st = fork_example" "pindexGenesisBlock st = Some 7" "pindexBest st = Some 8" "nBestHeight st = 1" "pblockindexFBBHLast st = None"
    by (simp_all add: st_def) (simp add: genesis_state_def)
  have m: "fork_example 8 = Some ((index_example 8 (Some 7))\<lparr> nHeight := 1 \<rparr>)" "fork_example 7 = Some ((index_example 7 None)\<lparr> pnext := Some 8 \<rparr>)"
    by (simp_all add: fork_example_def)
  have "\<exists>j \<in> set (best_chain st). nHeight j = 0 \<and> FindBlockByHeight 0 st = Some (j, st\<lparr> pblockindexFBBHLast := Some (phashBlock j) \<rparr>)"
    by (rule block_by_height [of st 8 "(index_example 8 (Some 7))\<lparr> nHeight := 1 \<rparr>" 7 "(index_example 7 None)\<lparr> pnext := Some 8 \<rparr>"]) (use fork_example_main in \<open>simp_all add: f m fork_example_chain\<close>)
  then have "\<exists>j. phashBlock j = 7 \<and> FindBlockByHeight 0 st = Some (j, st\<lparr> pblockindexFBBHLast := Some 7 \<rparr>)"
    unfolding f fork_example_chain by (auto simp: index_example_def)
  then show ?thesis unfolding st_def Let_def .
qed

end
