(* ===== verification/Spec2Isabelle.thy ===== *)
theory Spec2Isabelle
  imports Hobo_Prelude Uint_Limbs Ext_Crypto Bignum Serialize Script Tx_Data Key Sig_Check Interpreter Interp_Limits
    Standard Keystore Scrypt Block Block_Index Txdb Tx_Rules Rewards Block_Files Mempool Connect_Tx Stake_Kernel
    Text_Codec Checkpoints Connect_Block Chain Accept_Block
begin

text \<open>
  This library verifies the node of HoboNickels, a currency with proof of work and proof of stake: what is in its sources below
  \<^verbatim>\<open>src/src\<close> between the bytes that arrive from a peer and the best chain that the node stores.  The file names below are relative
  to that directory.

  \<^bold>\<open>The program.\<close>  A block arrives as bytes (\<^verbatim>\<open>serialize.h\<close>) and is judged on its own by \<^verbatim>\<open>CheckBlock\<close>: its proof of work (scrypt) or the
  signature of its staker, its Merkle root, and each of its transactions.  If its predecessor is unknown it waits in a buffer, otherwise
  \<^verbatim>\<open>AcceptBlock\<close> checks it against its predecessors: required target, times, the stake kernel, the checkpoints.  It is then written to a
  block file, entered into the block index and, if its chain has more trust than the best one, made the best block by \<^verbatim>\<open>SetBestChain\<close>.  For that
  \<^verbatim>\<open>Reorganize\<close> disconnects the blocks down to the fork and connects those up to the new block, inside one database transaction.
  Connecting spends the outputs that the inputs name, runs their scripts, and limits the money that is created.  Transactions
  outside blocks go through the same checks into the memory pool.  Keys sign and decide which scripts are the owner's.

  \<^bold>\<open>Conventions.\<close>  Every theory has the data, then the operations in the order of the source, then lemmas and properties.
  \<^item> A class is a record, an enumeration a datatype; definitions have the names of the source, with a prefix for the class
    (\<^verbatim>\<open>bi_\<close>, \<^verbatim>\<open>blk_\<close>, \<^verbatim>\<open>cp_\<close>, \<^verbatim>\<open>ds_\<close>) where two classes share a name.
  \<^item> Unsigned integers are words of their width.  Signed ones are integers, wrapped by \<open>s32\<close> and \<open>s64\<close> at the operations where the size
    matters; a \<^verbatim>\<open>BIGNUM\<close> is an integer.
  \<^item> Global variables and objects are passed and returned.  A pointer into the block index is the hash of the block (\<open>bptr\<close>), and the chain
    behind a pointer is the list that \<open>chain\<close> reads off the index.  Ordered maps whose order matters are sorted association lists.
  \<^item> A refusal is \<open>DoS n\<close> with the penalty \<open>n\<close> for the sender (\<open>Reject\<close> when there is none); a thrown exception and a failed assertion are
    \<open>Exception\<close>.  The state is returned also with a failure, since changes made before it stay.
  \<^item> OpenSSL and libsecp256k1 are parameters: the record \<open>ext\<close> of \<open>Ext_Crypto\<close> and the record \<open>evp\<close> of \<open>Keystore\<close>.  What a theorem needs of them
    is a hypothesis that states documented behaviour (\<open>mpi_documented\<close>, \<open>hash_sizes\<close>, \<open>curve_documented\<close>, \<open>evp_documented\<close>), and the witnesses
    discharge it on concrete functions.  LevelDB is a map from byte strings to byte strings with a flag for failure.  Clock, random numbers, free disk
    space and command-line options are arguments.

  \<^bold>\<open>Numbers and bytes.\<close>
  \<^item> \<open>Hobo_Prelude\<close>: names of the machine types, little-endian coding, signed wrap-around, generic lemmas.
  \<^item> \<open>Uint_Limbs\<close> (\<^verbatim>\<open>uint256.h\<close>): arrays of 32-bit limbs.  The locale \<open>fixed_uint\<close>, interpreted for both widths, gives the refinement of machine words.
  \<^item> \<open>Ext_Crypto\<close>, \<open>Bignum\<close> (\<^verbatim>\<open>bignum.h\<close>): \<^verbatim>\<open>CBigNum\<close> over the MPI format, script numbers, compact targets.
  \<^item> \<open>Serialize\<close> (\<^verbatim>\<open>serialize.h\<close>): every codec is an instance of the locale \<open>codec\<close>, in which the round trip and its combinations are proved once;
    \<open>byte_stream\<close> is the contract of \<^verbatim>\<open>CDataStream\<close>.
  \<^item> \<open>Text_Codec\<close> (\<^verbatim>\<open>util.cpp\<close>, \<^verbatim>\<open>base58.h\<close>): hexadecimal, base 64, base 32, base 58 with its checksum, addresses, amounts of money.

  \<^bold>\<open>Scripts and keys.\<close>
  \<^item> \<open>Script\<close> (\<^verbatim>\<open>script.h\<close>, \<^verbatim>\<open>script.cpp\<close>): building and decoding scripts, counting signature operations.
  \<^item> \<open>Sig_Check\<close> (\<^verbatim>\<open>script.cpp\<close>): canonical encodings, the hash that is signed, \<^verbatim>\<open>CheckSig\<close> with its cache; the cache refines the check without one.
  \<^item> \<open>Interpreter\<close> (\<^verbatim>\<open>EvalScript\<close>) and \<open>Interp_Limits\<close>: the whole instruction set; resource limits in all reachable states, independence of the cache,
    what acceptance implies, and that the greedy loop of \<^verbatim>\<open>OP_CHECKMULTISIG\<close> finds a matching when there is one.
  \<^item> \<open>Standard\<close>: templates, \<^verbatim>\<open>VerifyScript\<close>, signing and combining signatures, ownership; when exactly key-hash and script-hash outputs can be spent.
  \<^item> \<open>Key\<close> (\<^verbatim>\<open>key.cpp\<close>), \<open>Keystore\<close> (\<^verbatim>\<open>keystore.cpp\<close>, \<^verbatim>\<open>crypter.cpp\<close>): key objects and both key stores, which interpret the locale \<open>key_registry\<close>;
    encryption of a store loses no key and leaves none in the clear.

  \<^bold>\<open>Transactions and blocks.\<close>
  \<^item> \<open>Tx_Data\<close>, \<open>Tx_Rules\<close> (\<^verbatim>\<open>main.h\<close>, \<^verbatim>\<open>main.cpp\<close>): transactions with their codecs and \<^verbatim>\<open>CheckTransaction\<close>, finality, standardness, fees.
  \<^item> \<open>Scrypt\<close> (\<^verbatim>\<open>scrypt.cpp\<close>, \<^verbatim>\<open>pbkdf2.cpp\<close>): the in-place core equals scrypt as specified.
  \<^item> \<open>Block\<close>: blocks, the memoised hash, Merkle trees and branches.  \<open>Block_Files\<close>: the append-only files.
  \<^item> \<open>Block_Index\<close>: index entries, chain walks, locators.  \<open>Txdb\<close> (\<^verbatim>\<open>txdb-leveldb.cpp\<close>): the database with its batch; the locale \<open>kv_store\<close> is
    interpreted for raw records and for the transaction index.
  \<^item> \<open>Rewards\<close>: rewards, targets, trust.  \<open>Stake_Kernel\<close> (\<^verbatim>\<open>kernel.cpp\<close>): stake modifiers, the kernel check and the search for kernels.

  \<^bold>\<open>The node.\<close>
  \<^item> \<open>Mempool\<close>: the pool, orphan transactions, orphan blocks.  \<open>Connect_Tx\<close>: fetching, connecting and disconnecting inputs, and
    \<^verbatim>\<open>AcceptToMemoryPool\<close>.
  \<^item> \<open>Connect_Block\<close>: \<^verbatim>\<open>CheckBlock\<close>, \<^verbatim>\<open>ConnectBlock\<close>, \<^verbatim>\<open>DisconnectBlock\<close>.  The specification is a ledger, the transaction index as a map to positions and spent outputs;
    connecting refines one step of the ledger and disconnecting undoes it.
  \<^item> \<open>Checkpoints\<close> (\<^verbatim>\<open>checkpoints.cpp\<close>): the hard-coded and the synchronised checkpoint.
  \<^item> \<open>Chain\<close>: \<^verbatim>\<open>Reorganize\<close>, \<^verbatim>\<open>SetBestChainInner\<close>, \<^verbatim>\<open>SetBestChain\<close> on \<open>node_state\<close>, the record of the global variables.  Links of the block index, stored best block
    and transaction index belong to one chain before and after every call that returns: the old chain when a block is refused, the chain of the new block or, when
    blocks had been postponed and one of them fails, of a block below it.  After an exception the stored data still belong to one chain.
  \<^item> \<open>Accept_Block\<close>: \<^verbatim>\<open>AddToBlockIndex\<close>, \<^verbatim>\<open>AcceptBlock\<close>, \<^verbatim>\<open>ProcessBlock\<close>, the buffer of waiting blocks, and the operations that follow a checkpoint.  The
    invariant of \<open>Chain\<close> is carried through \<^verbatim>\<open>AcceptBlock\<close> when no checkpoint is pending and the predecessor has no more trust than the best block; the
    buffer stays well formed and bounded.

  \<^bold>\<open>Loops.\<close>  There is no fuel.  Loops over data are structural or have a measure: the rest of the script, of the buffer or of the chain, the
  size of the search interval.  Five walks follow links that the code does not bound and are partial functions into \<open>option\<close>, where
  \<open>None\<close> means that the walk does not return or leaves the index: \<open>select_forward\<close>, \<open>kernel_walk\<close>, \<open>first_orphan\<close>, \<open>walk_forward\<close> and \<open>IsMine\<close>.  That
  all but \<open>kernel_walk\<close> do return on a well-formed state is proved beside them.

  \<^bold>\<open>What is not modelled.\<close>  Sockets, threads and locks, messages and their scheduling (\<^verbatim>\<open>net.cpp\<close>, \<^verbatim>\<open>protocol.cpp\<close>, \<^verbatim>\<open>addrman.cpp\<close>, \<^verbatim>\<open>irc.cpp\<close>,
  \<^verbatim>\<open>checkqueue.h\<close>); the graphical and the RPC front ends, apart from the step of \<^verbatim>\<open>getwork\<close> that edits a stored block; start-up and options
  (\<^verbatim>\<open>init.cpp\<close>); the wallets and their files, since they depend on Berkeley DB and on iteration orders outside the modelled state; block assembly
  (\<^verbatim>\<open>miner.cpp\<close>), which orders transactions by floating-point priorities; alerts; log output.  In modelled functions these parts are left
  out: notifications to wallets and user interface, requests to peers, the time of receipt, and the floating-point rate limiter of the
  memory pool, which is a parameter.  Script checks that the code hands to threads are the set of checks to run.
\<close>

end
